(* ===== verification/GoBase.thy ===== *)
theory GoBase
  imports Main "HOL-Library.Sublist"
begin

text \<open>
  The prelude of the development: the pieces of the Go language and of its standard library
  that the modelled code uses everywhere (byte strings and the functions of \<open>strings\<close> and
  \<open>bytes\<close>, \<open>strconv.Itoa\<close>, 64-bit \<open>int\<close> arithmetic, pointers as options, maps), the fact
  collections of the development and the generic lemmas its components share.

  A Go \<open>string\<close> or \<open>[]byte\<close> is a list of \<open>char\<close>, one per byte. A Go \<open>int\<close> is an \<open>int\<close>
  whose additions wrap at 64 bits where the code adds values it does not control. A pointer
  that the code only tests for \<open>nil\<close> and dereferences is an \<open>option\<close>.
\<close>

named_theorems go_string "functions of Go's strings and bytes packages, unfolded"
named_theorems go_int "64-bit integers and their decimal rendering"

subsection \<open>Searching in byte strings\<close>

text \<open>\<open>bytes.IndexByte\<close> and \<open>bytes.IndexAny\<close>, with \<open>None\<close> for the result \<open>-1\<close>.\<close>

fun index_where :: "(char \<Rightarrow> bool) \<Rightarrow> string \<Rightarrow> nat option" where
  "index_where p [] = None"
| "index_where p (c # cs) = (if p c then Some 0 else map_option Suc (index_where p cs))"

definition index_byte :: "char \<Rightarrow> string \<Rightarrow> nat option" where
  "index_byte c = index_where (\<lambda>x. x = c)"

definition index_any :: "char list \<Rightarrow> string \<Rightarrow> nat option" where
  "index_any cs = index_where (\<lambda>x. x \<in> set cs)"

lemma index_where_Some:
  "index_where p s = Some i \<longleftrightarrow> i < length s \<and> p (s ! i) \<and> (\<forall>j<i. \<not> p (s ! j))"
proof (induction s arbitrary: i)
  case Nil
  then show ?case by simp
next
  case (Cons c cs)
  show ?case
  proof (cases i)
    case 0
    then show ?thesis by auto
  next
    case (Suc k)
    have split_all: "(\<forall>j<Suc k. \<not> p ((c # cs) ! j)) \<longleftrightarrow> \<not> p c \<and> (\<forall>j<k. \<not> p (cs ! j))"
      by (simp add: All_less_Suc2)
    show ?thesis
      using Cons.IH [of k] unfolding Suc split_all by auto
  qed
qed

lemma index_where_None: "index_where p s = None \<longleftrightarrow> (\<forall>x \<in> set s. \<not> p x)"
  by (induction s) auto

lemma index_where_append_None:
  "index_where p s = None \<Longrightarrow> index_where p (s @ t) = map_option ((+) (length s)) (index_where p t)"
  by (induction s; cases "index_where p t") (auto split: if_splits)

lemma index_where_append_Some: "index_where p s = Some i \<Longrightarrow> index_where p (s @ t) = Some i"
  by (induction s arbitrary: i) (auto split: if_splits)

lemma index_where_less: "index_where p s = Some i \<Longrightarrow> i < length s"
  by (simp add: index_where_Some)

text \<open>The first answer over a list of candidates.\<close>

fun first_some :: "('a \<Rightarrow> 'b option) \<Rightarrow> 'a list \<Rightarrow> 'b option" where
  "first_some f [] = None"
| "first_some f (x # xs) = (case f x of None \<Rightarrow> first_some f xs | Some y \<Rightarrow> Some y)"

subsection \<open>Prefixes, suffixes, replacement\<close>

definition has_prefix :: "string \<Rightarrow> string \<Rightarrow> bool" where
  "has_prefix s p \<longleftrightarrow> take (length p) s = p"

definition has_suffix :: "string \<Rightarrow> string \<Rightarrow> bool" where
  "has_suffix s p \<longleftrightarrow> length p \<le> length s \<and> drop (length s - length p) s = p"

definition trim_prefix :: "string \<Rightarrow> string \<Rightarrow> string" where
  "trim_prefix s p = (if has_prefix s p then drop (length p) s else s)"

definition trim_suffix :: "string \<Rightarrow> string \<Rightarrow> string" where
  "trim_suffix s p = (if has_suffix s p then take (length s - length p) s else s)"

text \<open>\<open>strings.Contains\<close> and the position \<open>strings.Index\<close> finds.\<close>

fun index_str :: "string \<Rightarrow> string \<Rightarrow> nat option" where
  "index_str p s =
     (if has_prefix s p then Some 0
      else case s of [] \<Rightarrow> None | _ # cs \<Rightarrow> map_option Suc (index_str p cs))"

declare index_str.simps [simp del]

definition contains :: "string \<Rightarrow> string \<Rightarrow> bool" where
  "contains s p \<longleftrightarrow> index_str p s \<noteq> None"

text \<open>\<open>strings.Replace\<close> with the limit 1.\<close>

definition replace_first :: "string \<Rightarrow> string \<Rightarrow> string \<Rightarrow> string" where
  "replace_first s old new =
     (case index_str old s of None \<Rightarrow> s
      | Some i \<Rightarrow> take i s @ new @ drop (i + length old) s)"

text \<open>\<open>strings.ReplaceAll\<close>, for an \<open>old\<close> that is not empty: \<open>k\<close> bytes of a match are still to be skipped.\<close>

fun replace_from :: "string \<Rightarrow> string \<Rightarrow> nat \<Rightarrow> string \<Rightarrow> string" where
  "replace_from old new k [] = []"
| "replace_from old new (Suc k) (c # cs) = replace_from old new k cs"
| "replace_from old new 0 (c # cs) =
     (if has_prefix (c # cs) old then new @ replace_from old new (length old - 1) cs
      else c # replace_from old new 0 cs)"

definition replace_all :: "string \<Rightarrow> string \<Rightarrow> string \<Rightarrow> string" where
  "replace_all s old new = replace_from old new 0 s"

text \<open>\<open>strings.Join\<close>.\<close>

fun join_str :: "string \<Rightarrow> string list \<Rightarrow> string" where
  "join_str sep [] = []"
| "join_str sep [x] = x"
| "join_str sep (x # xs) = x @ sep @ join_str sep xs"

lemma has_prefix_iff: "has_prefix s p \<longleftrightarrow> prefix p s"
  unfolding has_prefix_def
  by (metis prefix_def take_is_prefix append_eq_conv_conj)

lemma has_suffix_iff: "has_suffix s p \<longleftrightarrow> suffix p s"
proof
  assume "has_suffix s p"
  then have "s = take (length s - length p) s @ p"
    unfolding has_suffix_def by (metis append_take_drop_id)
  then show "suffix p s" by (rule suffixI)
next
  assume "suffix p s"
  then obtain t where "s = t @ p" by (auto simp: suffix_def)
  then show "has_suffix s p" by (simp add: has_suffix_def)
qed

lemma index_str_Some:
  "index_str p s = Some i \<Longrightarrow> has_prefix (drop i s) p \<and> i \<le> length s \<and> (\<forall>j<i. \<not> has_prefix (drop j s) p)"
proof (induction s arbitrary: i)
  case Nil
  then show ?case by (subst (asm) index_str.simps) (auto split: if_splits)
next
  case (Cons c cs)
  show ?case
  proof (cases "has_prefix (c # cs) p")
    case True
    with Cons.prems show ?thesis by (subst (asm) index_str.simps) auto
  next
    case False
    with Cons.prems obtain k where k: "index_str p cs = Some k" and i: "i = Suc k"
      by (subst (asm) index_str.simps) auto
    from Cons.IH [OF k] False show ?thesis by (auto simp: i less_Suc_eq_0_disj)
  qed
qed

lemma index_str_SomeI:
  "i \<le> length s \<Longrightarrow> has_prefix (drop i s) p \<Longrightarrow> \<forall>j<i. \<not> has_prefix (drop j s) p \<Longrightarrow> index_str p s = Some i"
proof (induction i arbitrary: s)
  case 0
  then show ?case by (subst index_str.simps) simp
next
  case (Suc i)
  then obtain c cs where s: "s = c # cs" by (cases s) auto
  have "\<not> has_prefix s p" using Suc.prems(3) by force
  moreover have "index_str p cs = Some i"
  proof (rule Suc.IH)
    show "\<forall>j<i. \<not> has_prefix (drop j cs) p"
      using Suc.prems(3) by (metis s drop_Suc_Cons Suc_mono)
  qed (use Suc.prems s in auto)
  ultimately show ?case by (subst index_str.simps) (simp add: s)
qed

lemma index_str_None: "index_str p s = None \<longleftrightarrow> (\<forall>i \<le> length s. \<not> has_prefix (drop i s) p)"
proof (induction s)
  case Nil
  then show ?case by (subst index_str.simps) simp
next
  case (Cons c cs)
  have "(\<forall>i \<le> length (c # cs). \<not> has_prefix (drop i (c # cs)) p)
      \<longleftrightarrow> \<not> has_prefix (c # cs) p \<and> (\<forall>i \<le> length cs. \<not> has_prefix (drop i cs) p)"
    by (simp add: All_less_Suc2 flip: less_Suc_eq_le)
  with Cons show ?case by (subst index_str.simps) simp
qed

text \<open>\<open>strings.Split\<close> at a separator that is not empty, and \<open>strings.SplitN\<close> with the limit 2, as the
  text before the separator and what follows it.\<close>

function split_str :: "string \<Rightarrow> string \<Rightarrow> string list" where
  "split_str sep s =
     (if sep = [] then [s]
      else case index_str sep s of
             None \<Rightarrow> [s]
           | Some i \<Rightarrow> take i s # split_str sep (drop (i + length sep) s))"
  by pat_completeness auto

termination
proof (relation "measure (\<lambda>(sep, s). length s)")
  fix sep s :: string and i
  assume "sep \<noteq> []" and "index_str sep s = Some i"
  then have "length sep + i \<le> length s" and "0 < length sep"
    using index_str_Some [of sep s i] by (auto simp: has_prefix_iff dest: prefix_length_le)
  then show "((sep, drop (i + length sep) s), (sep, s)) \<in> measure (\<lambda>(sep, s). length s)" by (cases s) auto
qed simp

declare split_str.simps [simp del]

definition cut_str :: "string \<Rightarrow> string \<Rightarrow> string \<times> string option" where
  "cut_str sep s =
     (case index_str sep s of None \<Rightarrow> (s, None) | Some i \<Rightarrow> (take i s, Some (drop (i + length sep) s)))"


subsection \<open>strings.TrimSpace\<close>

text \<open>
  The white space of \<open>unicode.IsSpace\<close>, as the byte sequences of its UTF-8 encoding: the six
  ASCII characters, U+0085, U+00A0, U+1680, U+2000 to U+200A, U+2028, U+2029, U+202F, U+205F
  and U+3000.
\<close>

definition space_runes :: "string list" where
  "space_runes =
     [[CHR 0x09], [CHR 0x0A], [CHR 0x0B], [CHR 0x0C], [CHR 0x0D], [CHR 0x20],
      [CHR 0xC2, CHR 0x85], [CHR 0xC2, CHR 0xA0], [CHR 0xE1, CHR 0x9A, CHR 0x80],
      [CHR 0xE2, CHR 0x80, CHR 0x80], [CHR 0xE2, CHR 0x80, CHR 0x81],
      [CHR 0xE2, CHR 0x80, CHR 0x82], [CHR 0xE2, CHR 0x80, CHR 0x83],
      [CHR 0xE2, CHR 0x80, CHR 0x84], [CHR 0xE2, CHR 0x80, CHR 0x85],
      [CHR 0xE2, CHR 0x80, CHR 0x86], [CHR 0xE2, CHR 0x80, CHR 0x87],
      [CHR 0xE2, CHR 0x80, CHR 0x88], [CHR 0xE2, CHR 0x80, CHR 0x89],
      [CHR 0xE2, CHR 0x80, CHR 0x8A], [CHR 0xE2, CHR 0x80, CHR 0xA8],
      [CHR 0xE2, CHR 0x80, CHR 0xA9], [CHR 0xE2, CHR 0x80, CHR 0xAF],
      [CHR 0xE2, CHR 0x81, CHR 0x9F], [CHR 0xE3, CHR 0x80, CHR 0x80]]"

function strip_runes :: "string list \<Rightarrow> string \<Rightarrow> string" where
  "strip_runes ws s =
     (case find (\<lambda>w. w \<noteq> [] \<and> prefix w s) ws of
        None \<Rightarrow> s
      | Some w \<Rightarrow> strip_runes ws (drop (length w) s))"
  by pat_completeness auto
termination
proof (relation "measure (\<lambda>(ws, s). length s)")
  show "wf (measure (\<lambda>(ws, s). length s))" by simp
next
  fix ws :: "string list" and s w :: string
  assume "find (\<lambda>w. w \<noteq> [] \<and> prefix w s) ws = Some w"
  then have "w \<noteq> []" and "prefix w s" by (auto simp: find_Some_iff)
  then show "((ws, drop (length w) s), (ws, s)) \<in> measure (\<lambda>(ws, s). length s)"
    by (auto simp: prefix_def)
qed

declare strip_runes.simps [simp del]

definition trim_space :: "string \<Rightarrow> string" where
  "trim_space s = rev (strip_runes (map rev space_runes) (rev (strip_runes space_runes s)))"

lemma strip_runes_suffix: "suffix (strip_runes ws s) s"
proof (induction ws s rule: strip_runes.induct)
  case (1 ws s)
  show ?case
  proof (cases "find (\<lambda>w. w \<noteq> [] \<and> prefix w s) ws")
    case None
    then show ?thesis by (subst strip_runes.simps) simp
  next
    case (Some w)
    from 1 [OF Some] have "suffix (strip_runes ws (drop (length w) s)) s"
      using suffix_drop suffix_order.order_trans by blast
    with Some show ?thesis by (subst strip_runes.simps) simp
  qed
qed

lemma strip_runes_stripped: "w \<in> set ws \<Longrightarrow> w \<noteq> [] \<Longrightarrow> \<not> prefix w (strip_runes ws s)"
proof (induction ws s rule: strip_runes.induct)
  case (1 ws s)
  show ?case
  proof (cases "find (\<lambda>w. w \<noteq> [] \<and> prefix w s) ws")
    case None
    then have "strip_runes ws s = s" by (subst strip_runes.simps) simp
    with None 1 show ?thesis by (auto simp: find_None_iff)
  next
    case (Some v)
    with 1 show ?thesis by (subst strip_runes.simps) auto
  qed
qed

lemma trim_space_infix: "\<exists>l r. s = l @ trim_space s @ r"
proof -
  obtain l where l: "s = l @ strip_runes space_runes s"
    using strip_runes_suffix [of space_runes s] by (auto simp: suffix_def)
  obtain r where "rev (strip_runes space_runes s) = r @ strip_runes (map rev space_runes) (rev (strip_runes space_runes s))"
    using strip_runes_suffix [of "map rev space_runes" "rev (strip_runes space_runes s)"]
    by (auto simp: suffix_def)
  then have "strip_runes space_runes s = trim_space s @ rev r"
    unfolding trim_space_def by (metis rev_append rev_rev_ident)
  with l have "s = l @ trim_space s @ rev r" by metis
  then show ?thesis by blast
qed

lemma trim_space_length: "length (trim_space s) \<le> length s"
proof -
  obtain l r where "s = l @ trim_space s @ r" using trim_space_infix by blast
  then have "length s = length (l @ trim_space s @ r)" by simp
  then show ?thesis by simp
qed

lemma trim_space_right: "w \<in> set space_runes \<Longrightarrow> \<not> suffix w (trim_space s)"
proof -
  assume w: "w \<in> set space_runes"
  then have "w \<noteq> []" by (auto simp: space_runes_def)
  with w have "\<not> prefix (rev w) (strip_runes (map rev space_runes) (rev (strip_runes space_runes s)))"
    by (intro strip_runes_stripped) auto
  then show ?thesis by (simp add: trim_space_def suffix_to_prefix)
qed

subsection \<open>64-bit integers and their decimal rendering\<close>

text \<open>The addition of Go's \<open>int\<close> on a 64-bit platform wraps.\<close>

definition go_add :: "int \<Rightarrow> int \<Rightarrow> int" where
  "go_add a b = signed_take_bit 63 (a + b)"

definition in_int64 :: "int \<Rightarrow> bool" where
  "in_int64 a \<longleftrightarrow> - (2 ^ 63) \<le> a \<and> a < 2 ^ 63"

lemma go_add_small: "in_int64 (a + b) \<Longrightarrow> go_add a b = a + b"
  unfolding go_add_def in_int64_def by (rule signed_take_bit_int_eq_self) auto

lemma go_add_range: "in_int64 (go_add a b)"
  unfolding go_add_def in_int64_def
  using signed_take_bit_int_greater_eq_minus_exp [of 63 "a + b"]
    signed_take_bit_int_less_exp [of 63 "a + b"]
  by simp

text \<open>\<open>strconv.Itoa\<close> and \<open>strconv.FormatBool\<close>.\<close>

definition digit_char :: "nat \<Rightarrow> char" where
  "digit_char d = char_of (48 + d)"

fun itoa_nat :: "nat \<Rightarrow> string" where
  "itoa_nat n = (if n < 10 then [digit_char n] else itoa_nat (n div 10) @ [digit_char (n mod 10)])"

declare itoa_nat.simps [simp del]

definition itoa :: "int \<Rightarrow> string" where
  "itoa i = (if i < 0 then CHR ''-'' # itoa_nat (nat (- i)) else itoa_nat (nat i))"

definition format_bool :: "bool \<Rightarrow> string" where
  "format_bool b = (if b then ''true'' else ''false'')"

definition is_digit :: "char \<Rightarrow> bool" where
  "is_digit c \<longleftrightarrow> 48 \<le> (of_char c :: nat) \<and> (of_char c :: nat) \<le> 57"

lemma digit_char_value: "d < 10 \<Longrightarrow> (of_char (digit_char d) :: nat) = 48 + d"
  unfolding digit_char_def by (simp add: of_char_of take_bit_nat_eq_self)

lemma digit_char_digit: "d < 10 \<Longrightarrow> is_digit (digit_char d)"
  by (simp add: is_digit_def digit_char_value)

lemma digit_char_inj: "d < 10 \<Longrightarrow> e < 10 \<Longrightarrow> digit_char d = digit_char e \<Longrightarrow> d = e"
  using digit_char_value by (metis add_left_cancel)

lemma itoa_nat_digits: "list_all is_digit (itoa_nat n)"
proof (induction n rule: itoa_nat.induct)
  case (1 n)
  then show ?case
    by (subst itoa_nat.simps) (auto simp: digit_char_digit)
qed

lemma itoa_nat_nonempty: "itoa_nat n \<noteq> []"
  by (subst itoa_nat.simps) simp

lemma itoa_nat_inj: "itoa_nat m = itoa_nat n \<Longrightarrow> m = n"
proof (induction m arbitrary: n rule: itoa_nat.induct)
  case (1 m)
  have len1: "length (itoa_nat k) = 1 \<longleftrightarrow> k < 10" for k
    by (subst itoa_nat.simps) (simp add: itoa_nat_nonempty)
  have same: "m < 10 \<longleftrightarrow> n < 10" using len1 [of m] len1 [of n] "1.prems" by simp
  show ?case
  proof (cases "m < 10")
    case True
    with same "1.prems" have "digit_char m = digit_char n"
      by (simp add: itoa_nat.simps [of m] itoa_nat.simps [of n])
    with True same show ?thesis by (auto dest: digit_char_inj)
  next
    case False
    with same "1.prems" have "itoa_nat (m div 10) = itoa_nat (n div 10)"
      and d: "digit_char (m mod 10) = digit_char (n mod 10)"
      by (simp_all add: itoa_nat.simps [of m] itoa_nat.simps [of n])
    with "1.IH" False have "m div 10 = n div 10" by blast
    moreover from d have "m mod 10 = n mod 10" by (rule digit_char_inj [rotated -1]) simp_all
    ultimately show ?thesis by (metis div_mult_mod_eq)
  qed
qed

lemma itoa_inj: "0 \<le> i \<Longrightarrow> 0 \<le> j \<Longrightarrow> itoa i = itoa j \<Longrightarrow> i = j"
  by (auto simp: itoa_def dest: itoa_nat_inj)

lemma itoa_digits: "0 \<le> i \<Longrightarrow> list_all is_digit (itoa i)"
  by (simp add: itoa_def itoa_nat_digits)

subsection \<open>Pointers and fields that a non-nil value overrides\<close>

text \<open>The code's idiom \<open>if other.F != nil { s.F = other.F }\<close> and its mirror
  \<open>if s.F == nil { s.F = other.F }\<close>.\<close>

definition override_with :: "'a option \<Rightarrow> 'a option \<Rightarrow> 'a option" where
  "override_with mine other = (case other of None \<Rightarrow> mine | Some v \<Rightarrow> Some v)"

definition default_from :: "'a option \<Rightarrow> 'a option \<Rightarrow> 'a option" where
  "default_from mine other = (case mine of None \<Rightarrow> other | Some v \<Rightarrow> Some v)"

lemma override_with_simps [simp]:
  "override_with a None = a"
  "override_with a (Some v) = Some v"
  by (simp_all add: override_with_def)

lemma default_from_simps [simp]:
  "default_from None b = b"
  "default_from (Some v) b = Some v"
  by (simp_all add: default_from_def)

lemma default_from_set [simp]:
  "(\<exists>v. default_from a b = Some v) \<longleftrightarrow> (\<exists>v. a = Some v) \<or> (\<exists>v. b = Some v)"
  by (cases a) auto

lemma default_from_eq_None [simp]: "default_from a b = None \<longleftrightarrow> a = None \<and> b = None"
  by (cases a) auto

text \<open>A decimal number ends where the digits end.\<close>

definition no_digit_first :: "string \<Rightarrow> bool" where
  "no_digit_first s \<longleftrightarrow> (case s of [] \<Rightarrow> True | c # _ \<Rightarrow> \<not> is_digit c)"

lemma digits_cancel:
  "list_all is_digit a \<Longrightarrow> list_all is_digit b \<Longrightarrow> no_digit_first r \<Longrightarrow> no_digit_first t \<Longrightarrow>
     a @ r = b @ t \<longleftrightarrow> a = b \<and> r = t"
proof (induction a arbitrary: b)
  case Nil
  then show ?case by (cases b) (auto simp: no_digit_first_def)
next
  case (Cons c a)
  then show ?case by (cases b) (auto simp: no_digit_first_def)
qed

lemma itoa_append_inj:
  "no_digit_first r \<Longrightarrow> no_digit_first t \<Longrightarrow>
     itoa (int i) @ r = itoa (int j) @ t \<longleftrightarrow> i = j \<and> r = t"
  using itoa_inj [of "int i" "int j"] by (subst digits_cancel) (auto simp: itoa_digits)

lemma underscore_not_digit [simp]: "no_digit_first []" "no_digit_first (CHR ''_'' # s)"
  by (simp_all add: no_digit_first_def is_digit_def)

subsection \<open>Times and counts\<close>

text \<open>A \<open>time.Time\<close> is the number of nanoseconds since 1970; this is the zero value, in year 1.\<close>

definition zero_time :: int where
  "zero_time = - 62135596800000000000"

text \<open>\<open>Time.Sub\<close> saturates at the bounds of a 64-bit duration. \<open>Milliseconds\<close> truncates.\<close>

definition time_sub :: "int \<Rightarrow> int \<Rightarrow> int" where
  "time_sub a b = max (- (2 ^ 63)) (min (2 ^ 63 - 1) (a - b))"

definition milliseconds :: "int \<Rightarrow> int" where
  "milliseconds d = (if d < 0 then - ((- d) div 1000000) else d div 1000000)"

text \<open>How many elements have a property.\<close>

definition count_of :: "('a \<Rightarrow> bool) \<Rightarrow> 'a list \<Rightarrow> nat" where
  "count_of p xs = length (filter p xs)"

lemma count_of_simps [simp]:
  "count_of p [] = 0" "count_of p (x # xs) = (if p x then 1 else 0) + count_of p xs"
  "count_of p (xs @ ys) = count_of p xs + count_of p ys"
  by (simp_all add: count_of_def)

lemma count_of_update:
  "i < length xs \<Longrightarrow> count_of p (xs[i := x]) + (if p (xs ! i) then 1 else 0) = count_of p xs + (if p x then 1 else 0)"
proof (induction xs arbitrary: i)
  case (Cons y ys)
  then show ?case by (cases i) (use Cons.IH in fastforce)+
qed simp

lemma count_of_0: "count_of p xs = 0 \<longleftrightarrow> (\<forall>x \<in> set xs. \<not> p x)"
  by (induction xs) auto

lemma count_of_pos: "0 < count_of p xs \<longleftrightarrow> (\<exists>x \<in> set xs. p x)"
  by (induction xs) auto

end
