(* ===== verification/StageDef.thy ===== *)
theory StageDef
  imports GoBase "HOL-Library.AList"
begin

text \<open>
  The stage of a benchmark: \<open>type Stage\<close> of \<open>stage/stage.go\<close> and the functions of
  \<open>stage/stage_utils.go\<close> that combine, complete and hand on stages: \<open>MergeWith\<close>,
  \<open>setDefaults\<close>, \<open>propagateStates\<close>, \<open>prepareClient\<close>, and \<open>newStreamInstance\<close>.

  Pointers to scalars are options. A Go map is an optional association list (\<open>None\<close> is the nil
  map): the list stands for one order in which \<open>range\<close> visits the entries. The Presto client is
  code of another repository: its type is the parameter \<open>'c\<close> and its methods are the fields of a
  record \<open>client_api\<close> that the functions take as an argument. No stage changes a client after it
  has been handed on, so a client is a value here. Stages refer to each other by their id, which
  is how \<open>stage/map.go\<close> makes them unique.
\<close>

subsection \<open>Data\<close>

text \<open>A value of \<open>map[string]any\<close> read from JSON: \<open>null\<close>, or a value given by its rendering.\<close>

datatype param = PNull | PVal string

type_synonym params = "(string \<times> param) list"

record 'c stage =
  stage_id :: string
  Description :: "string option"
  Catalog :: "string option"
  Schema :: "string option"
  SessionParams :: "params option"
  TimeZone :: "string option"
  Queries :: "string list"
  QueryFiles :: "string list"
  PreStageShellScripts :: "string list"
  PostStageShellScripts :: "string list"
  PreQueryShellScripts :: "string list"
  PostQueryShellScripts :: "string list"
  PreQueryCycleShellScripts :: "string list"
  PostQueryCycleShellScripts :: "string list"
  ExpectedRowCounts :: "(string \<times> int list option) list option"
  RandomExecution :: "bool option"
  RandomlyExecuteUntil :: "string option"
  NoRandomDuplicates :: "bool option"
  ColdRuns :: "int option"
  WarmRuns :: "int option"
  StartOnNewClient :: bool
  AbortOnError :: "bool option"
  SaveOutput :: "bool option"
  SaveColumnMetadata :: "bool option"
  SaveJson :: "bool option"
  NextStagePaths :: "string list"
  StreamCount :: "int option"
  BaseDir :: string
  NextStages :: "string list"
  Client :: "'c option"
  expectedRowCountInCurrentSchema :: "int list"
  currentCatalog :: string
  currentSchema :: string
  currentTimeZone :: string
  wgPrerequisites :: nat
  propagated :: bool

text \<open>The zero value of the struct.\<close>

definition empty_stage :: "'c stage" where
  "empty_stage =
     \<lparr>stage_id = [], Description = None, Catalog = None, Schema = None, SessionParams = None,
      TimeZone = None, Queries = [], QueryFiles = [], PreStageShellScripts = [],
      PostStageShellScripts = [], PreQueryShellScripts = [], PostQueryShellScripts = [],
      PreQueryCycleShellScripts = [], PostQueryCycleShellScripts = [], ExpectedRowCounts = None,
      RandomExecution = None, RandomlyExecuteUntil = None, NoRandomDuplicates = None,
      ColdRuns = None, WarmRuns = None, StartOnNewClient = False, AbortOnError = None,
      SaveOutput = None, SaveColumnMetadata = None, SaveJson = None, NextStagePaths = [],
      StreamCount = None, BaseDir = [], NextStages = [], Client = None,
      expectedRowCountInCurrentSchema = [], currentCatalog = [], currentSchema = [],
      currentTimeZone = [], wgPrerequisites = 0, propagated = False\<rparr>"

subsection \<open>MergeWith\<close>

text \<open>The entries of a possibly nil map, in the order of the iteration.\<close>

definition entries :: "('k \<times> 'v) list option \<Rightarrow> ('k \<times> 'v) list" where
  "entries m = (case m of None \<Rightarrow> [] | Some kvs \<Rightarrow> kvs)"

text \<open>\<open>for k, v := range other { if v != nil { m[k] = v } else { delete(m, k) } }\<close>, with the test
  for nil as an argument.\<close>

definition merge_entry :: "('v \<Rightarrow> bool) \<Rightarrow> 'k \<times> 'v \<Rightarrow> ('k \<times> 'v) list \<Rightarrow> ('k \<times> 'v) list" where
  "merge_entry is_nil kv m =
     (if is_nil (snd kv) then AList.delete (fst kv) m else AList.update (fst kv) (snd kv) m)"

definition merge_entries ::
  "('v \<Rightarrow> bool) \<Rightarrow> ('k \<times> 'v) list option \<Rightarrow> ('k \<times> 'v) list option \<Rightarrow> ('k \<times> 'v) list option" where
  "merge_entries is_nil mine other = Some (fold (merge_entry is_nil) (entries other) (entries mine))"

definition merge_with :: "'c stage \<Rightarrow> 'c stage \<Rightarrow> 'c stage" where
  "merge_with s other = s\<lparr>
     stage_id := stage_id other,
     Catalog := override_with (Catalog s) (Catalog other),
     Schema := override_with (Schema s) (Schema other),
     SessionParams := merge_entries (\<lambda>v. v = PNull) (SessionParams s) (SessionParams other),
     TimeZone := override_with (TimeZone s) (TimeZone other),
     Queries := Queries s @ Queries other,
     QueryFiles := QueryFiles s @ QueryFiles other,
     ExpectedRowCounts := merge_entries (\<lambda>v. v = None) (ExpectedRowCounts s) (ExpectedRowCounts other),
     RandomExecution := override_with (RandomExecution s) (RandomExecution other),
     RandomlyExecuteUntil := override_with (RandomlyExecuteUntil s) (RandomlyExecuteUntil other),
     NoRandomDuplicates := override_with (NoRandomDuplicates s) (NoRandomDuplicates other),
     ColdRuns := override_with (ColdRuns s) (ColdRuns other),
     WarmRuns := override_with (WarmRuns s) (WarmRuns other),
     StartOnNewClient := StartOnNewClient other,
     AbortOnError := override_with (AbortOnError s) (AbortOnError other),
     SaveOutput := override_with (SaveOutput s) (SaveOutput other),
     SaveColumnMetadata := override_with (SaveColumnMetadata s) (SaveColumnMetadata other),
     SaveJson := override_with (SaveJson s) (SaveJson other),
     StreamCount := override_with (StreamCount s) (StreamCount other),
     NextStagePaths := NextStagePaths s @ NextStagePaths other,
     BaseDir := BaseDir other,
     PreStageShellScripts := PreStageShellScripts s @ PreStageShellScripts other,
     PreQueryShellScripts := PreQueryShellScripts s @ PreQueryShellScripts other,
     PostQueryShellScripts := PostQueryShellScripts s @ PostQueryShellScripts other,
     PostStageShellScripts := PostStageShellScripts s @ PostStageShellScripts other,
     PreQueryCycleShellScripts := PreQueryCycleShellScripts s @ PreQueryCycleShellScripts other,
     PostQueryCycleShellScripts := PostQueryCycleShellScripts s @ PostQueryCycleShellScripts other\<rparr>"

text \<open>\<open>cmd/run/main.go\<close> merges the stages named on the command line, in order.\<close>

definition merge_all :: "'c stage \<Rightarrow> 'c stage list \<Rightarrow> 'c stage" where
  "merge_all s others = foldl merge_with s others"

definition deref :: "'a \<Rightarrow> 'a option \<Rightarrow> 'a" where
  "deref d p = (case p of None \<Rightarrow> d | Some v \<Rightarrow> v)"

subsection \<open>setDefaults\<close>

text \<open>
  \<open>if *s.ColdRuns+*s.WarmRuns <= 0 { s.ColdRuns = intPtr(1); s.WarmRuns = intPtr(0) }\<close>: both
  pointers are dereferenced, so \<open>None\<close> is the panic on a nil pointer.
\<close>

definition at_least_one_run :: "'c stage \<Rightarrow> 'c stage option" where
  "at_least_one_run s =
     (case (ColdRuns s, WarmRuns s) of
        (Some c, Some w) \<Rightarrow>
          Some (if go_add c w \<le> 0 then s\<lparr>ColdRuns := Some 1, WarmRuns := Some 0\<rparr> else s)
      | _ \<Rightarrow> None)"

definition set_defaults :: "'c stage \<Rightarrow> 'c stage option" where
  "set_defaults s = at_least_one_run (s\<lparr>
     RandomExecution := default_from (RandomExecution s) (Some False),
     NoRandomDuplicates := default_from (NoRandomDuplicates s) (Some False),
     AbortOnError := default_from (AbortOnError s) (Some False),
     SaveOutput := default_from (SaveOutput s) (Some False),
     SaveColumnMetadata := default_from (SaveColumnMetadata s) (Some False),
     SaveJson := default_from (SaveJson s) (Some False),
     ColdRuns := default_from (ColdRuns s) (Some 0),
     WarmRuns := default_from (WarmRuns s) (Some 0)\<rparr>)"

subsection \<open>propagateStates\<close>

definition inherit_entry :: "string \<times> param \<Rightarrow> params \<Rightarrow> params" where
  "inherit_entry kv m =
     (if snd kv = PNull \<or> map_of m (fst kv) \<noteq> None then m else AList.update (fst kv) (snd kv) m)"

definition inherit_params :: "params option \<Rightarrow> params option \<Rightarrow> params option" where
  "inherit_params parent child = Some (fold inherit_entry (entries parent) (entries child))"

text \<open>The inheritance of the numbers of runs, as a function of both pointers of the child.\<close>

definition inherit_runs ::
  "int option \<times> int option \<Rightarrow> int option \<times> int option \<Rightarrow> int option \<times> int option" where
  "inherit_runs parent child =
     (case child of
        (None, None) \<Rightarrow> parent
      | (None, Some w) \<Rightarrow> (Some 0, Some w)
      | (Some c, None) \<Rightarrow> (Some c, Some 0)
      | (Some c, Some w) \<Rightarrow> (Some c, Some w))"

text \<open>The body of \<open>propagateOnce.Do\<close> for one child stage. \<open>None\<close> is a panic.\<close>

definition propagate_body :: "'c stage \<Rightarrow> 'c stage \<Rightarrow> 'c stage option" where
  "propagate_body s next =
     (let (c, w) = inherit_runs (ColdRuns s, WarmRuns s) (ColdRuns next, WarmRuns next)
      in map_option (\<lambda>n. n\<lparr>
           AbortOnError := default_from (AbortOnError n) (AbortOnError s),
           SaveOutput := default_from (SaveOutput n) (SaveOutput s),
           SaveColumnMetadata := default_from (SaveColumnMetadata n) (SaveColumnMetadata s),
           SaveJson := default_from (SaveJson n) (SaveJson s),
           Client := Client s\<rparr>)
         (at_least_one_run (next\<lparr>
           Catalog := default_from (Catalog next) (Catalog s),
           Schema := default_from (Schema next) (Schema s),
           TimeZone := default_from (TimeZone next) (TimeZone s),
           RandomExecution := default_from (RandomExecution next) (RandomExecution s),
           RandomlyExecuteUntil := default_from (RandomlyExecuteUntil next) (RandomlyExecuteUntil s),
           NoRandomDuplicates := default_from (NoRandomDuplicates next) (NoRandomDuplicates s),
           SessionParams := inherit_params (SessionParams s) (SessionParams next),
           ColdRuns := c, WarmRuns := w\<rparr>)))"

text \<open>\<open>sync.Once\<close>: the body runs for the first parent only.\<close>

definition propagate_to :: "'c stage \<Rightarrow> 'c stage \<Rightarrow> 'c stage option" where
  "propagate_to s next =
     (if propagated next then Some next
      else propagate_body s (next\<lparr>propagated := True\<rparr>))"

text \<open>The loop over the next stages of \<open>s\<close>, on the store of all stages.\<close>

fun propagate_loop ::
  "'c stage \<Rightarrow> string list \<Rightarrow> (string \<Rightarrow> 'c stage option) \<Rightarrow> (string \<Rightarrow> 'c stage option) option" where
  "propagate_loop s [] st = Some st"
| "propagate_loop s (n # ns) st =
     (case Option.bind (st n) (propagate_to s) of
        None \<Rightarrow> None
      | Some next \<Rightarrow> propagate_loop s ns (st(n := Some next)))"

definition propagate_states ::
  "'c stage \<Rightarrow> (string \<Rightarrow> 'c stage option) \<Rightarrow> (string \<Rightarrow> 'c stage option) option" where
  "propagate_states s st = propagate_loop s (NextStages s) st"

subsection \<open>newStreamInstance\<close>

definition new_stream_instance :: "'c stage \<Rightarrow> nat \<Rightarrow> 'c stage" where
  "new_stream_instance s index = empty_stage\<lparr>
     stage_id := stage_id s @ ''_stream_'' @ itoa (int index + 1),
     Catalog := Catalog s, Schema := Schema s, SessionParams := SessionParams s,
     TimeZone := TimeZone s, Queries := Queries s, QueryFiles := QueryFiles s,
     ExpectedRowCounts := ExpectedRowCounts s, RandomExecution := RandomExecution s,
     RandomlyExecuteUntil := RandomlyExecuteUntil s, NoRandomDuplicates := NoRandomDuplicates s,
     ColdRuns := ColdRuns s, WarmRuns := WarmRuns s, AbortOnError := AbortOnError s,
     SaveOutput := SaveOutput s, SaveColumnMetadata := SaveColumnMetadata s, SaveJson := SaveJson s,
     PreQueryShellScripts := PreQueryShellScripts s, PostQueryShellScripts := PostQueryShellScripts s,
     PreQueryCycleShellScripts := PreQueryCycleShellScripts s,
     PostQueryCycleShellScripts := PostQueryCycleShellScripts s,
     BaseDir := BaseDir s, Client := Client s, currentCatalog := currentCatalog s,
     currentSchema := currentSchema s, currentTimeZone := currentTimeZone s\<rparr>"

subsection \<open>prepareClient\<close>

text \<open>
  The methods of \<open>presto.Client\<close> that \<open>prepareClient\<close> calls. \<open>default_client\<close> is what
  \<open>DefaultNewClientFn\<close> makes; a function \<open>NewClient\<close> is given by the client it returns.
\<close>

record 'c client_api =
  default_client :: 'c
  get_catalog :: "'c \<Rightarrow> string"
  get_schema :: "'c \<Rightarrow> string"
  get_timezone :: "'c \<Rightarrow> string"
  set_catalog :: "string \<Rightarrow> 'c \<Rightarrow> 'c"
  set_schema :: "string \<Rightarrow> 'c \<Rightarrow> 'c"
  set_timezone :: "string \<Rightarrow> 'c \<Rightarrow> 'c"
  session_param :: "string \<Rightarrow> param \<Rightarrow> 'c \<Rightarrow> 'c"
  append_tag :: "string \<Rightarrow> 'c \<Rightarrow> 'c"

definition differs :: "string option \<Rightarrow> string \<Rightarrow> bool" where
  "differs want have = (case want of None \<Rightarrow> False | Some v \<Rightarrow> v \<noteq> have)"

definition needs_new_client :: "'c client_api \<Rightarrow> 'c stage \<Rightarrow> 'c \<Rightarrow> bool" where
  "needs_new_client api s cl \<longleftrightarrow>
     differs (Catalog s) (get_catalog api cl) \<or> differs (Schema s) (get_schema api cl) \<or>
     differs (TimeZone s) (get_timezone api cl)"

text \<open>The part of \<open>prepareClient\<close> that runs on a new client \<open>c0\<close>.\<close>

definition configure_client :: "'c client_api \<Rightarrow> 'c \<Rightarrow> 'c stage \<Rightarrow> 'c stage" where
  "configure_client api c0 s =
     (let cat = (case Catalog s of Some v \<Rightarrow> v | None \<Rightarrow> get_catalog api c0);
          c1 = (case Catalog s of Some v \<Rightarrow> set_catalog api v c0 | None \<Rightarrow> c0);
          sch = (case Schema s of Some v \<Rightarrow> v | None \<Rightarrow> get_schema api c1);
          c2 = (case Schema s of Some v \<Rightarrow> set_schema api v c1 | None \<Rightarrow> c1);
          c3 = fold (\<lambda>(k, v). session_param api k v) (entries (SessionParams s)) c2;
          tz = (case TimeZone s of Some v \<Rightarrow> v | None \<Rightarrow> get_timezone api c3);
          c4 = (case TimeZone s of Some v \<Rightarrow> set_timezone api v c3 | None \<Rightarrow> c3)
      in s\<lparr>Client := Some (append_tag api (stage_id s) c4), currentCatalog := cat,
           currentSchema := sch, currentTimeZone := tz\<rparr>)"

text \<open>\<open>prepareClient\<close> on the shared \<open>States.NewClient\<close> and the stage.\<close>

definition prepare_client :: "'c client_api \<Rightarrow> 'c option \<Rightarrow> 'c stage \<Rightarrow> 'c option \<times> 'c stage" where
  "prepare_client api new_cl s =
     (let made = deref (default_client api) new_cl
      in case Client s of
           Some cl \<Rightarrow>
             if \<not> StartOnNewClient s \<and> \<not> needs_new_client api s cl then
               (new_cl, s\<lparr>currentCatalog := get_catalog api cl, currentSchema := get_schema api cl,
                          currentTimeZone := get_timezone api cl\<rparr>)
             else (Some made, configure_client api made s)
         | None \<Rightarrow> (Some made, configure_client api made s))"

subsection \<open>What the operations keep and give\<close>

named_theorems stage_defs "the definitions of the operations on stages"
declare merge_with_def [stage_defs] at_least_one_run_def [stage_defs] set_defaults_def [stage_defs]
  propagate_body_def [stage_defs] propagate_to_def [stage_defs]

text \<open>The last pointer of a list that is not nil.\<close>

fun last_set :: "'a option list \<Rightarrow> 'a option" where
  "last_set [] = None"
| "last_set (x # xs) = (case last_set xs of None \<Rightarrow> x | Some v \<Rightarrow> Some v)"

lemma last_set_override: "last_set (override_with a b # xs) = last_set (a # b # xs)"
  by (cases b; cases "last_set xs") simp_all

lemma merge_all_list:
  assumes "\<And>s t. f (merge_with s t) = f s @ f t"
  shows "f (merge_all s xs) = f s @ concat (map f xs)"
  unfolding merge_all_def by (induction xs arbitrary: s) (simp_all add: assms)

lemma merge_all_override:
  assumes "\<And>s t. f (merge_with s t) = override_with (f s) (f t)"
  shows "f (merge_all s xs) = last_set (f s # map f xs)"
  unfolding merge_all_def
proof (induction xs arbitrary: s)
  case Nil
  then show ?case by simp
next
  case (Cons x xs)
  have "f (foldl merge_with s (x # xs)) = last_set (f (merge_with s x) # map f xs)"
    using Cons.IH by simp
  then show ?case unfolding assms last_set_override by simp
qed

text \<open>What merging does to one key of a map, as a function of what the other map says.\<close>

definition merged_value :: "('v \<Rightarrow> bool) \<Rightarrow> 'v option \<Rightarrow> 'v option \<Rightarrow> 'v option" where
  "merged_value is_nil old new =
     (case new of None \<Rightarrow> old | Some v \<Rightarrow> if is_nil v then None else Some v)"

lemma map_of_merge_entry:
  "map_of (merge_entry is_nil kv m) k =
     (if k = fst kv then merged_value is_nil (map_of m k) (Some (snd kv)) else map_of m k)"
  by (auto simp: merge_entry_def merged_value_def update_conv' delete_conv')

lemma map_of_merge_fold:
  assumes "distinct (map fst kvs)"
  shows "map_of (fold (merge_entry is_nil) kvs m) k = merged_value is_nil (map_of m k) (map_of kvs k)"
  using assms
proof (induction kvs arbitrary: m)
  case Nil
  then show ?case by (simp add: merged_value_def)
next
  case (Cons kv kvs)
  have none: "k = fst kv \<Longrightarrow> map_of kvs k = None"
    using Cons.prems by (auto simp: map_of_eq_None_iff)
  have "map_of (fold (merge_entry is_nil) (kv # kvs) m) k =
      merged_value is_nil (map_of (merge_entry is_nil kv m) k) (map_of kvs k)"
    using Cons by simp
  then show ?case
    using none by (cases kv) (auto simp: map_of_merge_entry merged_value_def)
qed

lemma map_of_merge_entries:
  "distinct (map fst (entries other)) \<Longrightarrow>
   map_of (entries (merge_entries is_nil mine other)) k =
     merged_value is_nil (map_of (entries mine) k) (map_of (entries other) k)"
  unfolding merge_entries_def by (subst entries_def) (simp add: map_of_merge_fold)

lemma map_of_inherit_entry:
  "map_of (inherit_entry kv m) k =
     (if k = fst kv \<and> snd kv \<noteq> PNull \<and> map_of m k = None then Some (snd kv) else map_of m k)"
  by (auto simp: inherit_entry_def update_conv')

lemma map_of_inherit_fold:
  assumes "distinct (map fst kvs)"
  shows "map_of (fold inherit_entry kvs m) k =
    (case map_of m k of Some v \<Rightarrow> Some v
     | None \<Rightarrow> (case map_of kvs k of Some (PVal v) \<Rightarrow> Some (PVal v) | _ \<Rightarrow> None))"
  using assms
proof (induction kvs arbitrary: m)
  case Nil
  then show ?case by (simp split: option.split)
next
  case (Cons kv kvs)
  have none: "k = fst kv \<Longrightarrow> map_of kvs k = None"
    using Cons.prems by (auto simp: map_of_eq_None_iff)
  have "map_of (fold inherit_entry (kv # kvs) m) k =
      (case map_of (inherit_entry kv m) k of Some v \<Rightarrow> Some v
       | None \<Rightarrow> (case map_of kvs k of Some (PVal v) \<Rightarrow> Some (PVal v) | _ \<Rightarrow> None))"
    using Cons by simp
  then show ?case
    using none by (cases kv; cases "snd kv")
      (auto simp: map_of_inherit_entry split: option.splits)
qed

text \<open>A stage is ready to run when all the pointers that running it dereferences are set and it
  runs each query at least once. \<open>setDefaults\<close> makes it so, and so does a ready parent.\<close>

definition ready :: "'c stage \<Rightarrow> bool" where
  "ready s \<longleftrightarrow> RandomExecution s \<noteq> None \<and> NoRandomDuplicates s \<noteq> None \<and> AbortOnError s \<noteq> None \<and>
     SaveOutput s \<noteq> None \<and> SaveColumnMetadata s \<noteq> None \<and> SaveJson s \<noteq> None \<and>
     (case (ColdRuns s, WarmRuns s) of (Some c, Some w) \<Rightarrow> 0 < go_add c w | _ \<Rightarrow> False)"

lemma go_add_1_0: "go_add 1 0 = 1"
  by (simp add: go_add_small in_int64_def)

lemma at_least_one_run_ready:
  assumes "ColdRuns s = Some c" and "WarmRuns s = Some w"
  obtains c' w' where "at_least_one_run s = Some (s\<lparr>ColdRuns := Some c', WarmRuns := Some w'\<rparr>)"
    and "0 < go_add c' w'" and "0 < go_add c w \<Longrightarrow> c' = c \<and> w' = w"
proof (cases "go_add c w \<le> 0")
  case True
  show thesis
    by (rule that [where c' = 1 and w' = 0]) (use True assms in \<open>simp_all add: at_least_one_run_def go_add_1_0\<close>)
next
  case False
  show thesis
    by (rule that [where c' = c and w' = w]) (use False assms in \<open>simp_all add: at_least_one_run_def\<close>)
qed

lemma set_defaults_ready: "\<exists>t. set_defaults s = Some t \<and> ready t"
proof -
  let ?s = "s\<lparr>RandomExecution := default_from (RandomExecution s) (Some False),
     NoRandomDuplicates := default_from (NoRandomDuplicates s) (Some False),
     AbortOnError := default_from (AbortOnError s) (Some False),
     SaveOutput := default_from (SaveOutput s) (Some False),
     SaveColumnMetadata := default_from (SaveColumnMetadata s) (Some False),
     SaveJson := default_from (SaveJson s) (Some False),
     ColdRuns := default_from (ColdRuns s) (Some 0),
     WarmRuns := default_from (WarmRuns s) (Some 0)\<rparr>"
  obtain c w where "ColdRuns ?s = Some c" "WarmRuns ?s = Some w"
    by (cases "ColdRuns s"; cases "WarmRuns s") simp_all
  then obtain c' w' where "at_least_one_run ?s = Some (?s\<lparr>ColdRuns := Some c', WarmRuns := Some w'\<rparr>)"
    and "0 < go_add c' w'" by (rule at_least_one_run_ready)
  then show ?thesis by (auto simp: set_defaults_def ready_def)
qed

lemma set_defaults_id: "ready s \<Longrightarrow> set_defaults s = Some s"
  by (auto simp: ready_def set_defaults_def at_least_one_run_def split: option.splits)

lemma inherit_runs_set:
  assumes "ready s"
  obtains c w where "inherit_runs (ColdRuns s, WarmRuns s) (c0, w0) = (Some c, Some w)"
proof -
  from assms obtain c w where "ColdRuns s = Some c" and "WarmRuns s = Some w"
    by (auto simp: ready_def split: option.splits)
  then have "\<exists>c w. inherit_runs (ColdRuns s, WarmRuns s) (c0, w0) = (Some c, Some w)"
    by (cases c0; cases w0) (simp_all add: inherit_runs_def)
  then show thesis using that by blast
qed

lemma propagate_body_ready:
  assumes "ready s"
  shows "\<exists>n. propagate_body s next = Some n \<and> ready n"
proof -
  obtain c w where cw: "inherit_runs (ColdRuns s, WarmRuns s) (ColdRuns next, WarmRuns next) = (Some c, Some w)"
    using inherit_runs_set [OF assms] .
  let ?n = "next\<lparr>
           Catalog := default_from (Catalog next) (Catalog s),
           Schema := default_from (Schema next) (Schema s),
           TimeZone := default_from (TimeZone next) (TimeZone s),
           RandomExecution := default_from (RandomExecution next) (RandomExecution s),
           RandomlyExecuteUntil := default_from (RandomlyExecuteUntil next) (RandomlyExecuteUntil s),
           NoRandomDuplicates := default_from (NoRandomDuplicates next) (NoRandomDuplicates s),
           SessionParams := inherit_params (SessionParams s) (SessionParams next),
           ColdRuns := Some c, WarmRuns := Some w\<rparr>"
  have "ColdRuns ?n = Some c" "WarmRuns ?n = Some w" by simp_all
  then obtain c' w' where "at_least_one_run ?n = Some (?n\<lparr>ColdRuns := Some c', WarmRuns := Some w'\<rparr>)"
    and "0 < go_add c' w'" by (rule at_least_one_run_ready)
  then show ?thesis using assms by (simp add: propagate_body_def cw ready_def)
qed

lemma merge_all_session:
  assumes "list_all (\<lambda>x. distinct (map fst (entries (SessionParams x)))) xs"
  shows "map_of (entries (SessionParams (merge_all s xs))) k =
     foldl (\<lambda>old x. merged_value (\<lambda>v. v = PNull) old (map_of (entries (SessionParams x)) k))
       (map_of (entries (SessionParams s)) k) xs"
  unfolding merge_all_def using assms
proof (induction xs arbitrary: s)
  case Nil
  then show ?case by simp
next
  case (Cons x xs)
  then show ?case by (simp add: merge_with_def map_of_merge_entries)
qed

lemma inherit_params_map:
  "distinct (map fst (entries parent)) \<Longrightarrow>
   map_of (entries (inherit_params parent child)) k =
    (case map_of (entries child) k of Some v \<Rightarrow> Some v
     | None \<Rightarrow> (case map_of (entries parent) k of Some (PVal v) \<Rightarrow> Some (PVal v) | _ \<Rightarrow> None))"
  unfolding inherit_params_def by (subst entries_def) (simp add: map_of_inherit_fold)

text \<open>The documented behaviour of the client's methods: a setter is read back by its getter and
  leaves the other two values alone; session parameters and tags leave all three alone.\<close>

definition client_laws :: "'c client_api \<Rightarrow> bool" where
  "client_laws api \<longleftrightarrow>
     (\<forall>v c. get_catalog api (set_catalog api v c) = v
        \<and> get_schema api (set_catalog api v c) = get_schema api c
        \<and> get_timezone api (set_catalog api v c) = get_timezone api c
        \<and> get_schema api (set_schema api v c) = v
        \<and> get_catalog api (set_schema api v c) = get_catalog api c
        \<and> get_timezone api (set_schema api v c) = get_timezone api c
        \<and> get_timezone api (set_timezone api v c) = v
        \<and> get_catalog api (set_timezone api v c) = get_catalog api c
        \<and> get_schema api (set_timezone api v c) = get_schema api c
        \<and> get_catalog api (append_tag api v c) = get_catalog api c
        \<and> get_schema api (append_tag api v c) = get_schema api c
        \<and> get_timezone api (append_tag api v c) = get_timezone api c)
     \<and> (\<forall>k p c. get_catalog api (session_param api k p c) = get_catalog api c
        \<and> get_schema api (session_param api k p c) = get_schema api c
        \<and> get_timezone api (session_param api k p c) = get_timezone api c)"

lemma session_fold_keeps:
  assumes "client_laws api"
  shows "get_catalog api (fold (\<lambda>(k, v). session_param api k v) kvs c) = get_catalog api c"
    and "get_schema api (fold (\<lambda>(k, v). session_param api k v) kvs c) = get_schema api c"
    and "get_timezone api (fold (\<lambda>(k, v). session_param api k v) kvs c) = get_timezone api c"
  using assms by (induction kvs arbitrary: c) (auto simp: client_laws_def)

text \<open>What the current values say of the client a stage uses.\<close>

definition in_session :: "'c client_api \<Rightarrow> 'c stage \<Rightarrow> bool" where
  "in_session api s \<longleftrightarrow> (\<exists>cl. Client s = Some cl
     \<and> currentCatalog s = get_catalog api cl \<and> currentSchema s = get_schema api cl
     \<and> currentTimeZone s = get_timezone api cl
     \<and> \<not> needs_new_client api s cl)"

lemma configure_client_in_session:
  assumes "client_laws api"
  shows "in_session api (configure_client api c0 s)"
proof -
  note keep = session_fold_keeps [OF assms]
  have laws: "get_catalog api (set_catalog api v c) = v"
    "get_schema api (set_catalog api v c) = get_schema api c"
    "get_timezone api (set_catalog api v c) = get_timezone api c"
    "get_schema api (set_schema api v c) = v"
    "get_catalog api (set_schema api v c) = get_catalog api c"
    "get_timezone api (set_schema api v c) = get_timezone api c"
    "get_timezone api (set_timezone api v c) = v"
    "get_catalog api (set_timezone api v c) = get_catalog api c"
    "get_schema api (set_timezone api v c) = get_schema api c"
    "get_catalog api (append_tag api v c) = get_catalog api c"
    "get_schema api (append_tag api v c) = get_schema api c"
    "get_timezone api (append_tag api v c) = get_timezone api c" for v c
    using assms by (simp_all add: client_laws_def)
  show ?thesis
    by (cases "Catalog s"; cases "Schema s"; cases "TimeZone s")
      (simp_all add: in_session_def configure_client_def Let_def needs_new_client_def differs_def laws keep)
qed

lemma prepare_client_in_session:
  assumes "client_laws api"
  shows "in_session api (snd (prepare_client api nc s))"
proof (cases "Client s")
  case None
  then show ?thesis
    by (simp add: prepare_client_def Let_def configure_client_in_session [OF assms])
next
  case (Some cl)
  then show ?thesis
    by (auto simp: prepare_client_def Let_def configure_client_in_session [OF assms])
      (auto simp: in_session_def needs_new_client_def)
qed

section \<open>Properties\<close>

text \<open>Merging the stages of a command line: lists of queries, query files, next stages and
  scripts are concatenated in order, and every optional setting has the last value that is set.\<close>

theorem merge_all_values:
  "Queries (merge_all s xs) = Queries s @ concat (map Queries xs)
     \<and> QueryFiles (merge_all s xs) = QueryFiles s @ concat (map QueryFiles xs)
     \<and> NextStagePaths (merge_all s xs) = NextStagePaths s @ concat (map NextStagePaths xs)
     \<and> PreStageShellScripts (merge_all s xs) = PreStageShellScripts s @ concat (map PreStageShellScripts xs)
     \<and> PostStageShellScripts (merge_all s xs) = PostStageShellScripts s @ concat (map PostStageShellScripts xs)
     \<and> PreQueryShellScripts (merge_all s xs) = PreQueryShellScripts s @ concat (map PreQueryShellScripts xs)
     \<and> PostQueryShellScripts (merge_all s xs) = PostQueryShellScripts s @ concat (map PostQueryShellScripts xs)
     \<and> Catalog (merge_all s xs) = last_set (Catalog s # map Catalog xs)
     \<and> Schema (merge_all s xs) = last_set (Schema s # map Schema xs)
     \<and> TimeZone (merge_all s xs) = last_set (TimeZone s # map TimeZone xs)
     \<and> ColdRuns (merge_all s xs) = last_set (ColdRuns s # map ColdRuns xs)
     \<and> WarmRuns (merge_all s xs) = last_set (WarmRuns s # map WarmRuns xs)
     \<and> AbortOnError (merge_all s xs) = last_set (AbortOnError s # map AbortOnError xs)
     \<and> RandomlyExecuteUntil (merge_all s xs) = last_set (RandomlyExecuteUntil s # map RandomlyExecuteUntil xs)
     \<and> StreamCount (merge_all s xs) = last_set (StreamCount s # map StreamCount xs)"
  by (intro conjI; rule merge_all_list merge_all_override; simp add: merge_with_def)

text \<open>Merging session parameters: for each key the stages are taken in order, a value
  overrides, a JSON null removes the key and a stage without the key changes nothing. The same
  stages merged in any iteration order of their maps give the same parameters.\<close>

theorem merge_all_session_params:
  assumes "list_all (\<lambda>x. distinct (map fst (entries (SessionParams x)))) xs"
  shows "map_of (entries (SessionParams (merge_all s xs))) k =
     foldl (\<lambda>old x. merged_value (\<lambda>v. v = PNull) old (map_of (entries (SessionParams x)) k))
       (map_of (entries (SessionParams s)) k) xs"
  using assms by (rule merge_all_session)

theorem merge_all_session_params_witness:
  "map_of (entries (SessionParams (merge_all (empty_stage :: unit stage)
     [empty_stage\<lparr>SessionParams := Some [(''a'', PVal ''1''), (''b'', PVal ''2'')]\<rparr>,
      empty_stage\<lparr>SessionParams := Some [(''b'', PNull)]\<rparr>]))) ''b'' = None"
  by (subst merge_all_session_params) (simp_all add: empty_stage_def entries_def merged_value_def)

text \<open>\<open>setDefaults\<close> never panics; afterwards every pointer that running the stage
  dereferences is set and each query runs at least once, and a second call changes nothing.\<close>

theorem set_defaults_complete:
  "\<exists>t. set_defaults s = Some t \<and> ready t \<and> set_defaults t = Some t"
  using set_defaults_ready [of s] set_defaults_id by blast

lemma propagate_body_runs:
  assumes "ready s" and "propagate_body s next = Some n"
  shows "ColdRuns next = None \<and> WarmRuns next = None \<Longrightarrow> ColdRuns n = ColdRuns s \<and> WarmRuns n = WarmRuns s"
    and "ColdRuns next \<noteq> None \<or> WarmRuns next \<noteq> None \<Longrightarrow>
      (let c = deref 0 (ColdRuns next); w = deref 0 (WarmRuns next) in
        (ColdRuns n, WarmRuns n) = (if go_add c w \<le> 0 then (Some 1, Some 0) else (Some c, Some w)))"
  using assms
  by (auto simp: propagate_body_def inherit_runs_def at_least_one_run_def ready_def deref_def Let_def
      split: prod.splits option.splits if_splits)

text \<open>C21: Propagation to a child stage: a stage with its defaults set hands on every setting the
  child leaves open, keeps every setting the child makes, never dereferences a nil pointer, and
  leaves the child ready to run. The numbers of runs are inherited together or not at all, and a child without runs gets
  one. Session parameters the child sets (also to null) win, the others come from the parent unless they are null
  there. Only the first parent has any effect.\<close>

theorem propagate_to_child:
  assumes "ready s" and "\<not> propagated next" and "distinct (map fst (entries (SessionParams s)))"
  shows "\<exists>n. propagate_to s next = Some n \<and> ready n
     \<and> (\<forall>p. propagate_to p n = Some n)
     \<and> Catalog n = default_from (Catalog next) (Catalog s)
     \<and> Schema n = default_from (Schema next) (Schema s)
     \<and> TimeZone n = default_from (TimeZone next) (TimeZone s)
     \<and> RandomExecution n = default_from (RandomExecution next) (RandomExecution s)
     \<and> RandomlyExecuteUntil n = default_from (RandomlyExecuteUntil next) (RandomlyExecuteUntil s)
     \<and> NoRandomDuplicates n = default_from (NoRandomDuplicates next) (NoRandomDuplicates s)
     \<and> AbortOnError n = default_from (AbortOnError next) (AbortOnError s)
     \<and> SaveOutput n = default_from (SaveOutput next) (SaveOutput s)
     \<and> SaveColumnMetadata n = default_from (SaveColumnMetadata next) (SaveColumnMetadata s)
     \<and> SaveJson n = default_from (SaveJson next) (SaveJson s)
     \<and> (ColdRuns next = None \<and> WarmRuns next = None \<longrightarrow> ColdRuns n = ColdRuns s \<and> WarmRuns n = WarmRuns s)
     \<and> (ColdRuns next \<noteq> None \<or> WarmRuns next \<noteq> None \<longrightarrow>
          (let c = deref 0 (ColdRuns next); w = deref 0 (WarmRuns next) in
            (ColdRuns n, WarmRuns n) = (if go_add c w \<le> 0 then (Some 1, Some 0) else (Some c, Some w))))
     \<and> (\<forall>k. map_of (entries (SessionParams n)) k =
          (case map_of (entries (SessionParams next)) k of Some v \<Rightarrow> Some v
           | None \<Rightarrow> (case map_of (entries (SessionParams s)) k of
                       Some (PVal v) \<Rightarrow> Some (PVal v) | _ \<Rightarrow> None)))
     \<and> Client n = Client s \<and> stage_id n = stage_id next \<and> Queries n = Queries next
     \<and> QueryFiles n = QueryFiles next \<and> StartOnNewClient n = StartOnNewClient next
     \<and> NextStages n = NextStages next"
proof -
  obtain n where n: "propagate_body s (next\<lparr>propagated := True\<rparr>) = Some n" and r: "ready n"
    using propagate_body_ready [OF assms(1)] by blast
  have fields: "propagated n"
     "Catalog n = default_from (Catalog next) (Catalog s)"
     "Schema n = default_from (Schema next) (Schema s)"
     "TimeZone n = default_from (TimeZone next) (TimeZone s)"
     "RandomExecution n = default_from (RandomExecution next) (RandomExecution s)"
     "RandomlyExecuteUntil n = default_from (RandomlyExecuteUntil next) (RandomlyExecuteUntil s)"
     "NoRandomDuplicates n = default_from (NoRandomDuplicates next) (NoRandomDuplicates s)"
     "AbortOnError n = default_from (AbortOnError next) (AbortOnError s)"
     "SaveOutput n = default_from (SaveOutput next) (SaveOutput s)"
     "SaveColumnMetadata n = default_from (SaveColumnMetadata next) (SaveColumnMetadata s)"
     "SaveJson n = default_from (SaveJson next) (SaveJson s)"
     "SessionParams n = inherit_params (SessionParams s) (SessionParams next)"
     "Client n = Client s" "stage_id n = stage_id next" "Queries n = Queries next" "QueryFiles n = QueryFiles next"
     "StartOnNewClient n = StartOnNewClient next" "NextStages n = NextStages next"
    using n by (auto simp: propagate_body_def at_least_one_run_def Let_def
        split: prod.splits option.splits if_splits)
  have runs: "ColdRuns next = None \<and> WarmRuns next = None \<longrightarrow> ColdRuns n = ColdRuns s \<and> WarmRuns n = WarmRuns s"
    "ColdRuns next \<noteq> None \<or> WarmRuns next \<noteq> None \<longrightarrow>
          (let c = deref 0 (ColdRuns next); w = deref 0 (WarmRuns next) in
            (ColdRuns n, WarmRuns n) = (if go_add c w \<le> 0 then (Some 1, Some 0) else (Some c, Some w)))"
    using propagate_body_runs [OF assms(1) n] by simp_all
  have p: "propagate_to s next = Some n" "\<forall>p. propagate_to p n = Some n"
    using n assms(2) fields(1) by (simp_all add: propagate_to_def)
  show ?thesis
    by (intro exI [of _ n] conjI p r fields runs) (simp_all add: fields(12) inherit_params_map [OF assms(3)])
qed

theorem propagate_to_child_witness:
  "\<exists>t. set_defaults (empty_stage\<lparr>Catalog := Some ''hive'', AbortOnError := Some True,
        SessionParams := Some [(''k'', PVal ''1'')]\<rparr> :: unit stage) = Some t
     \<and> (\<exists>n. propagate_to t (empty_stage\<lparr>stage_id := ''child''\<rparr>) = Some n \<and> ready n
        \<and> Catalog n = Some ''hive'' \<and> AbortOnError n = Some True)"
proof -
  let ?s = "empty_stage\<lparr>Catalog := Some ''hive'', AbortOnError := Some True,
      SessionParams := Some [(''k'', PVal ''1'')]\<rparr> :: unit stage"
  obtain t where t: "set_defaults ?s = Some t" "ready t" using set_defaults_ready by blast
  have f: "Catalog t = Some ''hive''" "AbortOnError t = Some True"
    "SessionParams t = Some [(''k'', PVal ''1'')]"
    using t(1) by (auto simp: set_defaults_def at_least_one_run_def empty_stage_def split: if_splits)
  show ?thesis
    using propagate_to_child [OF t(2), of "empty_stage\<lparr>stage_id := ''child''\<rparr>"] t(1) f
    by (auto simp: entries_def empty_stage_def)
qed

text \<open>After \<open>prepareClient\<close> the stage has a client, the current catalog, schema and time
  zone are those of that client, and they are the ones the stage asks for, if it asks. A client
  handed down is kept exactly if the stage does not force a new one and none of the three differs;
  it is then kept as it is, whatever the stage's session parameters.\<close>

theorem prepare_client_session:
  assumes "client_laws api"
  shows "in_session api (snd (prepare_client api nc s))
     \<and> (\<forall>cl ps. Client s = Some cl \<and> \<not> StartOnNewClient s \<and> \<not> needs_new_client api s cl \<longrightarrow>
          Client (snd (prepare_client api nc (s\<lparr>SessionParams := ps\<rparr>))) = Some cl
          \<and> fst (prepare_client api nc s) = nc)"
  using prepare_client_in_session [OF assms]
  by (simp add: prepare_client_def Let_def needs_new_client_def)

text \<open>A client that is the tuple of its values, for the witness.\<close>

definition tuple_api :: "(string \<times> string \<times> string \<times> params \<times> string list) client_api" where
  "tuple_api = \<lparr>default_client = ([], [], [], [], []),
     get_catalog = fst, get_schema = (\<lambda>c. fst (snd c)), get_timezone = (\<lambda>c. fst (snd (snd c))),
     set_catalog = (\<lambda>v c. (v, snd c)), set_schema = (\<lambda>v (a, b, r). (a, v, r)),
     set_timezone = (\<lambda>v (a, b, z, r). (a, b, v, r)),
     session_param = (\<lambda>k p (a, b, z, ps, t). (a, b, z, AList.update k p ps, t)),
     append_tag = (\<lambda>v (a, b, z, ps, t). (a, b, z, ps, t @ [v]))\<rparr>"

theorem prepare_client_session_witness:
  "in_session tuple_api (snd (prepare_client tuple_api None (empty_stage\<lparr>Catalog := Some ''hive''\<rparr>)))
   \<and> Client (snd (prepare_client tuple_api None (empty_stage\<lparr>Client := Some (''h'', ''s'', ''z'', [], []),
        SessionParams := Some [(''k'', PVal ''1'')]\<rparr>))) = Some (''h'', ''s'', ''z'', [], [])"
proof -
  have laws: "client_laws tuple_api"
    by (simp add: client_laws_def tuple_api_def split: prod.split)
  show ?thesis
    using prepare_client_session [OF laws, of None "empty_stage\<lparr>Catalog := Some ''hive''\<rparr>"]
      prepare_client_session [OF laws, of None "empty_stage\<lparr>Client := Some (''h'', ''s'', ''z'', [], [])\<rparr>"]
    by (simp add: empty_stage_def needs_new_client_def differs_def)
qed

end
