(* ===== verification/GoPath.thy ===== *)
theory GoPath
  imports GoBase
begin

text \<open>
  The functions of Go's \<open>path/filepath\<close> that the program calls, on Unix paths: \<open>Clean\<close>,
  \<open>Join\<close>, \<open>Base\<close>, \<open>Ext\<close>, \<open>Dir\<close>, \<open>IsAbs\<close>, \<open>Rel\<close>, and \<open>fileNameWithoutPathAndExt\<close> of
  \<open>stage/map.go\<close>, which gives a stage its id.
\<close>

abbreviation slash :: char where "slash \<equiv> CHR 0x2F"
abbreviation dot :: char where "dot \<equiv> CHR 0x2E"

definition is_abs :: "string \<Rightarrow> bool" where
  "is_abs p \<longleftrightarrow> has_prefix p [slash]"

text \<open>The elements between slashes, empty ones included.\<close>

fun split_slash :: "string \<Rightarrow> string list" where
  "split_slash [] = [[]]"
| "split_slash (c # cs) =
     (if c = slash then [] # split_slash cs
      else case split_slash cs of [] \<Rightarrow> [[c]] | e # es \<Rightarrow> (c # e) # es)"

text \<open>One element of \<open>Clean\<close>, on the elements kept so far, innermost first.\<close>

definition clean_step :: "bool \<Rightarrow> string \<Rightarrow> string list \<Rightarrow> string list" where
  "clean_step rooted e out =
     (if e = [] \<or> e = [dot] then out
      else if e = [dot, dot] then
        (case out of
           [] \<Rightarrow> if rooted then [] else [e]
         | f # rest \<Rightarrow> if f = [dot, dot] then e # out else rest)
      else e # out)"

definition clean_elems :: "string \<Rightarrow> string list" where
  "clean_elems p = rev (fold (clean_step (is_abs p)) (split_slash p) [])"

definition clean :: "string \<Rightarrow> string" where
  "clean p =
     (let body = join_str [slash] (clean_elems p)
      in if is_abs p then slash # body else if body = [] then [dot] else body)"

definition path_join :: "string \<Rightarrow> string \<Rightarrow> string" where
  "path_join a b =
     (if a \<noteq> [] then clean (a @ [slash] @ b) else if b \<noteq> [] then clean b else [])"

text \<open>The text after the last slash, and the text up to it.\<close>

definition after_slash :: "string \<Rightarrow> string" where
  "after_slash p = rev (takeWhile (\<lambda>c. c \<noteq> slash) (rev p))"

definition upto_slash :: "string \<Rightarrow> string" where
  "upto_slash p = rev (dropWhile (\<lambda>c. c \<noteq> slash) (rev p))"

definition base :: "string \<Rightarrow> string" where
  "base p =
     (if p = [] then [dot]
      else let q = rev (dropWhile (\<lambda>c. c = slash) (rev p)); b = after_slash q
           in if b = [] then [slash] else b)"

definition dir :: "string \<Rightarrow> string" where
  "dir p = clean (upto_slash p)"

text \<open>\<open>Ext\<close>: from the last dot of the last element on.\<close>

definition ext :: "string \<Rightarrow> string" where
  "ext p =
     (let b = rev (after_slash p)
      in if dot \<in> set b then dot # rev (takeWhile (\<lambda>c. c \<noteq> dot) b) else [])"

definition file_name_without_path_and_ext :: "string \<Rightarrow> string" where
  "file_name_without_path_and_ext p =
     (let b = base p; e = ext b
      in if e \<noteq> [] then take (length b - length e) b else b)"

text \<open>\<open>Rel\<close>: \<open>None\<close> is the error. The elements of the cleaned paths are compared from the
  front.\<close>

fun strip_common :: "string list \<Rightarrow> string list \<Rightarrow> string list \<times> string list" where
  "strip_common (x # xs) (y # ys) = (if x = y then strip_common xs ys else (x # xs, y # ys))"
| "strip_common xs ys = (xs, ys)"

definition path_rel :: "string \<Rightarrow> string \<Rightarrow> string option" where
  "path_rel b t =
     (if clean t = clean b then Some [dot]
      else if is_abs b \<noteq> is_abs t then None
      else let (bs, ts) = strip_common (clean_elems b) (clean_elems t)
           in if [dot, dot] \<in> set (take 1 bs) then None
              else Some (join_str [slash] (replicate (length bs) [dot, dot] @ ts)))"

subsection \<open>Facts\<close>

lemma split_slash_not_Nil: "split_slash s \<noteq> []"
  by (induction s) (auto split: list.split)

lemma split_slash_no_slash: "slash \<notin> set e \<Longrightarrow> split_slash e = [e]"
  by (induction e) auto

lemma split_slash_append: "slash \<notin> set e \<Longrightarrow> split_slash (e @ slash # s) = e # split_slash s"
  by (induction e) auto

lemma split_slash_elems: "e \<in> set (split_slash s) \<Longrightarrow> slash \<notin> set e"
proof (induction s arbitrary: e)
  case Nil
  then show ?case by simp
next
  case (Cons c s)
  obtain f fs where f: "split_slash s = f # fs" using split_slash_not_Nil by (cases "split_slash s") auto
  have "slash \<notin> set f" "\<And>g. g \<in> set fs \<Longrightarrow> slash \<notin> set g" using Cons.IH f by auto
  with Cons.prems f show ?case by (auto split: if_splits)
qed

lemma split_join_slash:
  "es \<noteq> [] \<Longrightarrow> (\<And>e. e \<in> set es \<Longrightarrow> slash \<notin> set e) \<Longrightarrow> split_slash (join_str [slash] es) = es"
proof (induction es)
  case Nil
  then show ?case by simp
next
  case (Cons e es)
  show ?case
  proof (cases es)
    case Nil
    with Cons.prems show ?thesis by (simp add: split_slash_no_slash)
  next
    case (Cons f fs)
    with Cons.IH Cons.prems show ?thesis by (simp add: split_slash_append)
  qed
qed

lemma has_prefix_slash: "has_prefix s [slash] \<longleftrightarrow> (\<exists>t. s = slash # t)"
  by (cases s) (auto simp: has_prefix_def)

lemma takeWhile_free: "x \<notin> set p \<Longrightarrow> takeWhile (\<lambda>c. c \<noteq> x) p = p"
  by (induction p) auto

lemma takeWhile_free_append: "x \<notin> set p \<Longrightarrow> takeWhile (\<lambda>c. c \<noteq> x) (p @ x # q) = p"
  by (induction p) auto

lemma after_slash_no_slash: "slash \<notin> set p \<Longrightarrow> after_slash p = p"
  by (simp add: after_slash_def takeWhile_free)

lemma after_slash_append: "slash \<notin> set p \<Longrightarrow> after_slash (d @ slash # p) = p"
  by (simp add: after_slash_def takeWhile_free_append)

text \<open>The id of a stage file: directory and extension do not matter.\<close>

lemma base_file: "slash \<notin> set f \<Longrightarrow> f \<noteq> [] \<Longrightarrow> base (d @ slash # f) = f"
proof -
  assume f: "slash \<notin> set f" "f \<noteq> []"
  then have "last f \<noteq> slash" by (metis last_in_set)
  with f(2) have "dropWhile (\<lambda>c. c = slash) (rev (d @ slash # f)) = rev (d @ slash # f)"
    by (cases f rule: rev_cases) auto
  with f show ?thesis by (simp add: base_def after_slash_append)
qed

lemma ext_simple: "slash \<notin> set n \<Longrightarrow> dot \<notin> set e \<Longrightarrow> slash \<notin> set e \<Longrightarrow> ext (n @ dot # e) = dot # e"
  by (simp add: ext_def after_slash_no_slash takeWhile_free_append)

lemma file_name_simple:
  assumes "slash \<notin> set n" and "dot \<notin> set e" and "slash \<notin> set e"
  shows "file_name_without_path_and_ext (d @ slash # n @ dot # e) = n"
proof -
  have "base (d @ slash # n @ dot # e) = n @ dot # e" using assms by (intro base_file) auto
  then show ?thesis
    using assms by (simp add: file_name_without_path_and_ext_def ext_simple)
qed

end
