(* ===== verification/StageNaming.thy ===== *)
theory StageNaming
  imports StageDef GoPath
begin

text \<open>
  The names and environments of query runs: \<open>stage/query.go\<close> and the functions
  \<open>querySourceString\<close>, \<open>queryCycleEnv\<close> and \<open>queryEnv\<close> of \<open>stage/stage_utils.go\<close>. The source
  string of a query run names its output, metadata, JSON and error files and is sent to the server,
  so it matters whether two runs can have the same one.
\<close>

record query =
  Text :: string
  File :: "string option"
  Index :: nat
  BatchSize :: nat
  ColdRun :: bool
  SequenceNo :: nat
  ExpectedRowCount :: int

text \<open>\<open>*s.ColdRuns + *s.WarmRuns\<close>: \<open>None\<close> is the panic on a nil pointer.\<close>

definition total_runs :: "'c stage \<Rightarrow> int option" where
  "total_runs s =
     (case (ColdRuns s, WarmRuns s) of (Some c, Some w) \<Rightarrow> Some (go_add c w) | _ \<Rightarrow> None)"

definition run_suffix :: "query \<Rightarrow> string" where
  "run_suffix q = (if ColdRun q then ''_c'' else ''_w'') @ itoa (int (SequenceNo q))"

definition query_source_string :: "'c stage \<Rightarrow> query \<Rightarrow> string option" where
  "query_source_string s q =
     (let src = (case File q of Some f \<Rightarrow> file_name_without_path_and_ext f | None \<Rightarrow> ''inline'');
          named = (if 1 < BatchSize q
                   then stage_id s @ ''_'' @ src @ ''_q'' @ itoa (int (Index q))
                   else stage_id s @ ''_'' @ src)
      in map_option (\<lambda>n. if 1 < n then named @ run_suffix q else named) (total_runs s))"

definition query_cycle_env :: "string option \<Rightarrow> nat \<Rightarrow> string list" where
  "query_cycle_env file idx =
     (''PBENCH_QUERY_INDEX='' @ itoa (int idx))
     # (case file of None \<Rightarrow> [] | Some f \<Rightarrow> [''PBENCH_QUERY_FILE='' @ f])"

text \<open>\<open>res\<close> is the query id of the result, if there is a result; \<open>err\<close> the text of the error.\<close>

definition query_env :: "query \<Rightarrow> string option \<Rightarrow> string option \<Rightarrow> string list" where
  "query_env q res err =
     query_cycle_env (File q) (Index q)
     @ [''PBENCH_QUERY_SEQ='' @ itoa (int (SequenceNo q)),
        ''PBENCH_QUERY_COLD_RUN='' @ format_bool (ColdRun q)]
     @ (case res of None \<Rightarrow> [] | Some qid \<Rightarrow> [''PBENCH_QUERY_ID='' @ qid])
     @ (case err of None \<Rightarrow> [] | Some e \<Rightarrow> [''PBENCH_QUERY_ERROR='' @ e])"

text \<open>The aliases that \<open>runRandomly\<close> gives to its selections.\<close>

definition rand_alias_inline :: "nat \<Rightarrow> string" where
  "rand_alias_inline i = ''rand_'' @ itoa (int i)"

definition rand_alias_file :: "nat \<Rightarrow> string \<Rightarrow> string" where
  "rand_alias_file i f = ''rand_'' @ itoa (int i) @ ''_'' @ f"

text \<open>The runs of one batch: query \<open>i\<close> of \<open>n\<close>, run \<open>j\<close> of \<open>c\<close> cold and the rest warm runs.\<close>

definition batch_query :: "string option \<Rightarrow> nat \<Rightarrow> int \<Rightarrow> string \<Rightarrow> int \<Rightarrow> nat \<Rightarrow> nat \<Rightarrow> query" where
  "batch_query file n c txt erc i j =
     \<lparr>Text = txt, File = file, Index = i, BatchSize = n, ColdRun = (int j < c), SequenceNo = j,
      ExpectedRowCount = erc\<rparr>"

section \<open>Properties\<close>

text \<open>Within one batch no two runs have the same source string: the query index and the
  sequence number can be read off it.\<close>

theorem query_source_string_distinct:
  assumes "total_runs s = Some r" and "i < n" and "i' < n" and "int j < r" and "int j' < r"
    and "query_source_string s (batch_query f n c t e i j)
       = query_source_string s (batch_query f n c t' e' i' j')"
  shows "i = i' \<and> j = j'"
proof -
  have suf: "no_digit_first (run_suffix q)" for q by (simp add: run_suffix_def)
  have cancel: "run_suffix (batch_query f n c t e i j) = run_suffix (batch_query f n c t' e' i' j') \<longleftrightarrow> j = j'"
    using itoa_inj [of "int j" "int j'"] by (auto simp: run_suffix_def batch_query_def)
  have bs: "BatchSize (batch_query f n c t e i j) = n" "Index (batch_query f n c t e i j) = i"
    "File (batch_query f n c t e i j) = f" for t e i j by (simp_all add: batch_query_def)
  have i: "i = i'" if "\<not> 1 < n" using that assms(2,3) by simp
  have j: "j = j'" if "\<not> 1 < r" using that assms(4,5) by simp
  show ?thesis
    using assms(1,6) i j cancel
    by (cases "1 < n"; cases "1 < r")
      (auto simp: query_source_string_def Let_def bs suf itoa_append_inj dest: itoa_inj [rotated -1])
qed

theorem query_source_string_distinct_witness:
  "query_source_string (empty_stage\<lparr>ColdRuns := Some 1, WarmRuns := Some 1\<rparr> :: unit stage)
       (batch_query None 2 1 [] 0 0 1)
   \<noteq> query_source_string (empty_stage\<lparr>ColdRuns := Some 1, WarmRuns := Some 1\<rparr> :: unit stage)
       (batch_query None 2 1 [] 0 1 1)"
proof
  let ?s = "empty_stage\<lparr>ColdRuns := Some 1, WarmRuns := Some 1\<rparr> :: unit stage"
  assume "query_source_string ?s (batch_query None 2 1 [] 0 0 1)
      = query_source_string ?s (batch_query None 2 1 [] 0 1 1)"
  moreover have "total_runs ?s = Some 2"
    by (simp add: total_runs_def go_add_small in_int64_def)
  ultimately show False
    using query_source_string_distinct [of ?s 2 0 2 1 1 1 None 1 "[]" 0 "[]" 0] by simp
qed

text \<open>Two streams of a stage never use the same source string, whatever queries they run.\<close>

theorem stream_names_disjoint:
  assumes "query_source_string (new_stream_instance s i) q = Some n"
    and "query_source_string (new_stream_instance s j) q' = Some n"
  shows "i = j"
proof -
  have shape: "\<exists>r. n = stage_id s @ ''_stream_'' @ itoa (int (Suc i)) @ CHR ''_'' # r"
    if "query_source_string (new_stream_instance s i) q = Some n" for i q
    using that by (auto simp: query_source_string_def Let_def new_stream_instance_def
        add.commute split: if_splits)
  obtain r t where "n = stage_id s @ ''_stream_'' @ itoa (int (Suc i)) @ CHR ''_'' # r"
    and "n = stage_id s @ ''_stream_'' @ itoa (int (Suc j)) @ CHR ''_'' # t"
    using shape [OF assms(1)] shape [OF assms(2)] by blast
  then have "itoa (int (Suc i)) @ CHR ''_'' # r = itoa (int (Suc j)) @ CHR ''_'' # t" by simp
  then show ?thesis by (subst (asm) itoa_append_inj) auto
qed

theorem stream_names_disjoint_witness:
  "query_source_string (new_stream_instance (empty_stage\<lparr>ColdRuns := Some 1, WarmRuns := Some 0\<rparr> :: unit stage) 0)
       (batch_query None 1 1 [] 0 0 0) = Some ''_stream_1_inline''
   \<and> query_source_string (new_stream_instance (empty_stage\<lparr>ColdRuns := Some 1, WarmRuns := Some 0\<rparr> :: unit stage) 1)
       (batch_query None 1 1 [] 0 0 0) \<noteq> Some ''_stream_1_inline''"
proof -
  have 1: "query_source_string (new_stream_instance (empty_stage\<lparr>ColdRuns := Some 1, WarmRuns := Some 0\<rparr> :: unit stage) 0)
       (batch_query None 1 1 [] 0 0 0) = Some ''_stream_1_inline''"
    by code_simp
  show ?thesis using 1 stream_names_disjoint [OF 1] by fastforce
qed

text \<open>The selections of a random execution from query files that are not directly in the
  directory of the stage: the number of the selection is part of the alias but not of the source
  string, so every selection of the file has the same one and writes the same output files.\<close>

theorem rand_file_names_collide:
  assumes "CHR ''/'' \<notin> set n" and "CHR ''.'' \<notin> set e" and "CHR ''/'' \<notin> set e"
  shows "query_source_string s (batch_query (Some (rand_alias_file i (d @ ''/'' @ n @ ''.'' @ e))) m c t erc k l)
       = query_source_string s (batch_query (Some (rand_alias_file j (d @ ''/'' @ n @ ''.'' @ e))) m c t erc k l)"
proof -
  have "file_name_without_path_and_ext (rand_alias_file i (d @ ''/'' @ n @ ''.'' @ e)) = n" for i
    using file_name_simple [OF assms(1-3), of "''rand_'' @ itoa (int i) @ ''_'' @ d"]
    by (simp add: rand_alias_file_def)
  then show ?thesis
    by (cases "total_runs s") (auto simp: query_source_string_def Let_def batch_query_def run_suffix_def)
qed

theorem rand_file_names_collide_witness:
  "query_source_string (empty_stage\<lparr>stage_id := ''s'', ColdRuns := Some 1, WarmRuns := Some 0\<rparr> :: unit stage)
       (batch_query (Some (rand_alias_file 1 ''queries/q.sql'')) 1 1 [] 0 0 0)
   = query_source_string (empty_stage\<lparr>stage_id := ''s'', ColdRuns := Some 1, WarmRuns := Some 0\<rparr> :: unit stage)
       (batch_query (Some (rand_alias_file 2 ''queries/q.sql'')) 1 1 [] 0 0 0)"
  using rand_file_names_collide [of "''q''" "''sql''" _ 1 "''queries''" 1 1 "[]" 0 0 0 2] by simp

text \<open>The environment of the per-query scripts: the query index, the sequence number and the
  cold flag are always there, the query file, the query id and the error exactly if there is one,
  and no variable is set twice.\<close>

definition env_name :: "string \<Rightarrow> string" where
  "env_name e = takeWhile (\<lambda>c. c \<noteq> CHR ''='') e"

theorem query_env_names:
  "map env_name (query_env q res err) =
     [''PBENCH_QUERY_INDEX''] @ (if File q = None then [] else [''PBENCH_QUERY_FILE''])
     @ [''PBENCH_QUERY_SEQ'', ''PBENCH_QUERY_COLD_RUN'']
     @ (if res = None then [] else [''PBENCH_QUERY_ID''])
     @ (if err = None then [] else [''PBENCH_QUERY_ERROR''])
   \<and> distinct (map env_name (query_env q res err))"
proof -
  have names: "map env_name (query_env q res err) =
     [''PBENCH_QUERY_INDEX''] @ (if File q = None then [] else [''PBENCH_QUERY_FILE''])
     @ [''PBENCH_QUERY_SEQ'', ''PBENCH_QUERY_COLD_RUN'']
     @ (if res = None then [] else [''PBENCH_QUERY_ID''])
     @ (if err = None then [] else [''PBENCH_QUERY_ERROR''])"
    by (auto simp: query_env_def query_cycle_env_def env_name_def split: option.split)
  show ?thesis unfolding names by auto
qed

end
