(* ===== verification/GoNumbers.thy ===== *)
theory GoNumbers
  imports GoBase
begin

text \<open>
  Reading numbers and durations: \<open>strconv.Atoi\<close> on 64 bits and \<open>time.ParseDuration\<close> of Go's
  standard library, which decide how \<open>randomly_execute_until\<close> of a stage is read.
\<close>

definition digit_value :: "char \<Rightarrow> nat" where
  "digit_value c = of_char c - 48"

text \<open>The value of a string of decimal digits.\<close>

definition digits_value :: "string \<Rightarrow> nat" where
  "digits_value s = foldl (\<lambda>n c. 10 * n + digit_value c) 0 s"

text \<open>The sign and the rest.\<close>

definition split_sign :: "string \<Rightarrow> bool \<times> string" where
  "split_sign s =
     (case s of [] \<Rightarrow> (False, [])
      | c # cs \<Rightarrow> if c = CHR ''-'' then (True, cs) else if c = CHR ''+'' then (False, cs) else (False, s))"

definition atoi :: "string \<Rightarrow> int option" where
  "atoi s =
     (let (neg, ds) = split_sign s
      in if ds = [] \<or> \<not> list_all is_digit ds then None
         else let v = (if neg then - int (digits_value ds) else int (digits_value ds))
              in if in_int64 v then Some v else None)"

text \<open>Durations are nanoseconds.\<close>

definition unit_nanos :: "string \<Rightarrow> nat option" where
  "unit_nanos u =
     (if u = ''ns'' then Some 1
      else if u = ''us'' \<or> u = [CHR 0xC2, CHR 0xB5, CHR ''s''] \<or> u = [CHR 0xCE, CHR 0xBC, CHR ''s'']
        then Some 1000
      else if u = ''ms'' then Some (10 ^ 6)
      else if u = ''s'' then Some (10 ^ 9)
      else if u = ''m'' then Some (60 * 10 ^ 9)
      else if u = ''h'' then Some (3600 * 10 ^ 9)
      else None)"

text \<open>\<open>leadingFraction\<close>: digits beyond what fits 63 bits are dropped.\<close>

fun fraction_value :: "nat \<Rightarrow> nat \<Rightarrow> string \<Rightarrow> nat \<times> nat" where
  "fraction_value f scale [] = (f, scale)"
| "fraction_value f scale (c # cs) =
     (if (2 ^ 63 - 1) div 10 < f \<or> 2 ^ 63 < 10 * f + digit_value c then (f, scale)
      else fraction_value (10 * f + digit_value c) (10 * scale) cs)"

text \<open>One number with its unit: the nanoseconds and the rest of the string. The code computes the
  fraction in floating point; here it is the exact product, rounded down.\<close>

definition duration_term :: "string \<Rightarrow> (nat \<times> string) option" where
  "duration_term s =
     (let pre = takeWhile is_digit s;
          s1 = dropWhile is_digit s;
          dotted = (s1 \<noteq> [] \<and> hd s1 = CHR ''.'');
          post = (if dotted then takeWhile is_digit (tl s1) else []);
          s2 = (if dotted then dropWhile is_digit (tl s1) else s1);
          u = takeWhile (\<lambda>c. c \<noteq> CHR ''.'' \<and> \<not> is_digit c) s2;
          s3 = dropWhile (\<lambda>c. c \<noteq> CHR ''.'' \<and> \<not> is_digit c) s2;
          v = digits_value pre;
          (f, scale) = fraction_value 0 1 post
      in if (pre = [] \<and> post = []) \<or> 2 ^ 63 < v then None
         else case unit_nanos u of
                None \<Rightarrow> None
              | Some n \<Rightarrow>
                  if 2 ^ 63 div n < v then None
                  else let d = v * n + f * n div scale
                       in if 2 ^ 63 < d then None else Some (d, s3))"

text \<open>A term consumes its unit, which is not empty.\<close>

lemma duration_term_shorter: "duration_term s = Some (d, t) \<Longrightarrow> length t < length s"
proof -
  assume a: "duration_term s = Some (d, t)"
  define s1 where "s1 = dropWhile is_digit s"
  define s2 where "s2 = (if s1 \<noteq> [] \<and> hd s1 = CHR ''.'' then dropWhile is_digit (tl s1) else s1)"
  define stop where "stop = (\<lambda>c. c \<noteq> CHR ''.'' \<and> \<not> is_digit c)"
  have "unit_nanos (takeWhile stop s2) \<noteq> None" and t: "t = dropWhile stop s2"
    using a by (auto simp: duration_term_def Let_def s1_def s2_def stop_def
        split: if_splits option.splits prod.splits)
  then have "takeWhile stop s2 \<noteq> []" by (auto simp: unit_nanos_def)
  then have "0 < length (takeWhile stop s2)" by simp
  moreover have "length (takeWhile stop s2) + length t = length s2"
    unfolding t by (metis length_append takeWhile_dropWhile_id)
  moreover have "length s1 \<le> length s" by (simp add: s1_def length_dropWhile_le)
  moreover have "length (dropWhile is_digit (tl s1)) \<le> length s1"
    using length_dropWhile_le [of is_digit "tl s1"] by simp
  then have "length s2 \<le> length s1" by (simp add: s2_def)
  ultimately show ?thesis by linarith
qed

function duration_terms :: "nat \<Rightarrow> string \<Rightarrow> nat option" where
  "duration_terms acc s =
     (if s = [] then Some acc
      else case duration_term s of
             None \<Rightarrow> None
           | Some (d, t) \<Rightarrow> if 2 ^ 63 < acc + d then None else duration_terms (acc + d) t)"
  by pat_completeness auto
termination
  by (relation "measure (\<lambda>(acc, s). length s)") (auto dest: duration_term_shorter)

declare duration_terms.simps [simp del]

definition parse_duration :: "string \<Rightarrow> int option" where
  "parse_duration s =
     (let (neg, ds) = split_sign s
      in if ds = ''0'' then Some 0
         else if ds = [] then None
         else case duration_terms 0 ds of
                None \<Rightarrow> None
              | Some d \<Rightarrow> if neg then Some (- int d)
                          else if 2 ^ 63 - 1 < d then None else Some (int d))"

text \<open>A number without a unit is not a duration, except zero.\<close>

lemma parse_duration_digits:
  assumes "list_all is_digit s" and "s \<noteq> ''0''"
  shows "parse_duration s = None"
proof (cases s)
  case Nil
  then show ?thesis by (simp add: parse_duration_def split_sign_def)
next
  case (Cons c cs)
  then have "c \<noteq> CHR ''-''" "c \<noteq> CHR ''+''" using assms(1) by (auto simp: is_digit_def)
  then have sign: "split_sign s = (False, s)" using Cons by (simp add: split_sign_def)
  have rest: "dropWhile is_digit s = []" using assms(1) by (simp add: list_all_iff)
  have "duration_term s = None"
    by (simp add: duration_term_def Let_def unit_nanos_def rest split: prod.split)
  then have "duration_terms 0 s = None" using Cons by (simp add: duration_terms.simps)
  with sign Cons assms(2) show ?thesis by (simp add: parse_duration_def)
qed

lemma digits_value_app: "digits_value (s @ [c]) = 10 * digits_value s + digit_value c"
  by (simp add: digits_value_def)

lemma digits_value_itoa: "digits_value (itoa_nat n) = n"
proof (induction n rule: itoa_nat.induct)
  case (1 n)
  have d: "digit_value (digit_char k) = k" if "k < 10" for k
    using digit_char_value [OF that] by (simp add: digit_value_def)
  show ?case
  proof (cases "n < 10")
    case True
    then show ?thesis by (simp add: itoa_nat.simps [of n] digits_value_def d)
  next
    case False
    with 1 show ?thesis by (simp add: itoa_nat.simps [of n] digits_value_app d)
  qed
qed

text \<open>Reading back what \<open>Itoa\<close> writes.\<close>

lemma atoi_itoa: "in_int64 i \<Longrightarrow> atoi (itoa i) = Some i"
proof -
  assume r: "in_int64 i"
  obtain c cs where c: "itoa_nat (nat i) = c # cs" using itoa_nat_nonempty by (cases "itoa_nat (nat i)") auto
  have "is_digit c" using itoa_nat_digits [of "nat i"] c by simp
  then have "c \<noteq> CHR ''-''" "c \<noteq> CHR ''+''" by (auto simp: is_digit_def)
  then have "split_sign (itoa_nat (nat i)) = (False, itoa_nat (nat i))" by (simp add: split_sign_def c)
  with r show ?thesis
    by (simp add: atoi_def itoa_def split_sign_def itoa_nat_nonempty itoa_nat_digits digits_value_itoa)
qed

end
