(* ===== verification/GoScanner.thy ===== *)
theory GoScanner
  imports GoBase
begin

text \<open>
  The \<open>bufio.Scanner\<close> of Go's standard library, as far as the program relies on it: a buffer
  that grows up to a maximal token size, a reader that delivers the input in chunks of any
  size, and a split function that the scanner calls on what it holds. Two of the program's
  functions are such split functions (\<open>prestoapi/query_splitter.go\<close>, \<open>cmd/round/main.go\<close>).
  The locale \<open>split_func\<close> is the contract between the two sides: what a split function
  promises, and what the scanner then delivers, for every way the input is cut into reads.
\<close>

type_synonym 'e split_function = "string \<Rightarrow> bool \<Rightarrow> 'e + (nat \<times> string option)"

datatype 'e scan_error = SplitError 'e | TooLong | AdvanceTooFar | ReadError

text \<open>
  \<open>pending\<close> is the part \<open>buf[start:end]\<close> of the buffer and \<open>cap\<close> its length; \<open>unread\<close> is
  what the reader still holds and \<open>reads\<close> the sizes it will deliver (at least one byte each;
  when the list is used up a read fills the buffer, as a read of a file does). \<open>at_eof\<close> is
  \<open>s.err != nil\<close>: the reader has ended, with \<open>io.EOF\<close> or, if \<open>read_fails\<close>, with an error.
\<close>

record scanner =
  unread :: string
  reads :: "nat list"
  read_fails :: bool
  start_at :: nat
  pending :: string
  buf_cap :: nat
  max_token :: nat
  at_eof :: bool

definition new_scanner :: "string \<Rightarrow> nat list \<Rightarrow> bool \<Rightarrow> nat \<Rightarrow> nat \<Rightarrow> scanner" where
  "new_scanner input sizes fails c m =
     \<lparr>unread = input, reads = sizes, read_fails = fails, start_at = 0, pending = [],
      buf_cap = c, max_token = m, at_eof = False\<rparr>"

text \<open>
  One turn of the reading half of \<open>Scan\<close>: shift the pending bytes to the front, grow the
  buffer if it is full (\<open>None\<close> is \<open>ErrTooLong\<close>), read once.
\<close>

definition read_more :: "scanner \<Rightarrow> scanner option" where
  "read_more s =
     (let len = length (pending s);
          st = (if 0 < start_at s \<and> (start_at s + len = buf_cap s \<or> buf_cap s div 2 < start_at s)
                then 0 else start_at s);
          full = (st + len = buf_cap s)
      in if full \<and> max_token s \<le> buf_cap s then None
         else
           (let c = (if full then min (if buf_cap s = 0 then 4096 else 2 * buf_cap s) (max_token s)
                     else buf_cap s);
                st' = (if full then 0 else st);
                free = c - (st' + len);
                n = min free (case reads s of [] \<Rightarrow> free | k # _ \<Rightarrow> max 1 k)
            in Some (if unread s = [] then s\<lparr>start_at := st', buf_cap := c, at_eof := True\<rparr>
                     else s\<lparr>start_at := st', buf_cap := c, reads := tl (reads s),
                            pending := pending s @ take n (unread s),
                            unread := drop n (unread s)\<rparr>)))"

definition scan_failure :: "scanner \<Rightarrow> 'e scan_error \<Rightarrow> 'e scan_error" where
  "scan_failure s e = (if at_eof s \<and> read_fails s then ReadError else e)"

text \<open>
  The loop \<open>for scanner.Scan() { tokens = append(tokens, scanner.Text()) }\<close> followed by
  \<open>scanner.Err()\<close>. The fuel counts the turns of the loop inside \<open>Scan\<close>; \<open>None\<close> is running
  out of it. When the split function returns no token at the end of the input, \<open>Scan\<close>
  returns false at once, whatever is left in the buffer.
\<close>

fun scan_all :: "nat \<Rightarrow> 'e split_function \<Rightarrow> scanner \<Rightarrow> (string list \<times> 'e scan_error option) option"
where
  "scan_all 0 split s = None"
| "scan_all (Suc k) split s =
     (if pending s = [] \<and> \<not> at_eof s then
        (case read_more s of
           None \<Rightarrow> Some ([], Some TooLong)
         | Some s' \<Rightarrow> scan_all k split s')
      else
        (case split (pending s) (at_eof s) of
           Inl e \<Rightarrow> Some ([], Some (scan_failure s (SplitError e)))
         | Inr (n, tok) \<Rightarrow>
             if length (pending s) < n then Some ([], Some (scan_failure s AdvanceTooFar))
             else
               (let s1 = s\<lparr>start_at := start_at s + n, pending := drop n (pending s)\<rparr>
                in case tok of
                     Some t \<Rightarrow> map_option (\<lambda>(ts, e). (t # ts, e)) (scan_all k split s1)
                   | None \<Rightarrow>
                       if at_eof s then Some ([], if read_fails s then Some ReadError else None)
                       else
                         (case read_more s1 of
                            None \<Rightarrow> Some ([], Some TooLong)
                          | Some s2 \<Rightarrow> scan_all k split s2))))"

subsection \<open>The reference: splitting the whole input at once\<close>

definition opt_cons :: "'a option \<Rightarrow> 'a list \<Rightarrow> 'a list" where
  "opt_cons t ts = (case t of None \<Rightarrow> ts | Some x \<Rightarrow> x # ts)"

text \<open>Apply the split function to the complete remaining input, until nothing is left,
  skipping the pieces that give no token.\<close>

function split_pieces :: "'e split_function \<Rightarrow> string \<Rightarrow> string list \<times> 'e option" where
  "split_pieces split d =
     (if d = [] then ([], None)
      else case split d True of
             Inl e \<Rightarrow> ([], Some e)
           | Inr (n, t) \<Rightarrow>
               if n = 0 then ([], None)
               else (let (ts, e) = split_pieces split (drop n d) in (opt_cons t ts, e)))"
  by pat_completeness auto
termination
  by (relation "measure (\<lambda>(split, d). length d)") auto

declare split_pieces.simps [simp del]

text \<open>Every piece but the last gives a token.\<close>

function no_empty_piece :: "'e split_function \<Rightarrow> string \<Rightarrow> bool" where
  "no_empty_piece split d =
     (if d = [] then True
      else case split d True of
             Inl e \<Rightarrow> True
           | Inr (n, None) \<Rightarrow> length d \<le> n
           | Inr (n, Some t) \<Rightarrow> (if n = 0 then True else no_empty_piece split (drop n d)))"
  by pat_completeness auto
termination
  by (relation "measure (\<lambda>(split, d). length d)") auto

declare no_empty_piece.simps [simp del]

subsection \<open>Invariant and measure of the scanner\<close>

definition scanner_ok :: "scanner \<Rightarrow> bool" where
  "scanner_ok s \<longleftrightarrow> start_at s + length (pending s) \<le> buf_cap s \<and> buf_cap s \<le> max_token s \<and>
     0 < max_token s \<and> (at_eof s \<longrightarrow> unread s = [])"

definition scan_input :: "scanner \<Rightarrow> string" where
  "scan_input s = pending s @ unread s"

definition scan_work :: "scanner \<Rightarrow> nat" where
  "scan_work s = 2 * length (unread s) + length (pending s) + (if at_eof s then 0 else 1)"

text \<open>The shape of a read: the buffer is moved and resized, then some bytes arrive or the
  reader has ended.\<close>

lemma read_more_Some:
  assumes "read_more s = Some s'" and "scanner_ok s"
  obtains st c n where "st + length (pending s) < c" and "c \<le> max_token s"
    and "n \<le> c - (st + length (pending s))" and "0 < n"
    and "s' = (if unread s = [] then s\<lparr>start_at := st, buf_cap := c, at_eof := True\<rparr>
               else s\<lparr>start_at := st, buf_cap := c, reads := tl (reads s),
                      pending := pending s @ take n (unread s), unread := drop n (unread s)\<rparr>)"
proof -
  define st where "st = (if 0 < start_at s \<and> (start_at s + length (pending s) = buf_cap s
      \<or> buf_cap s div 2 < start_at s) then 0 else start_at s)"
  define full where "full \<longleftrightarrow> st + length (pending s) = buf_cap s"
  define c where "c = (if full then min (if buf_cap s = 0 then 4096 else 2 * buf_cap s) (max_token s)
      else buf_cap s)"
  define st' where "st' = (if full then 0 else st)"
  define n where "n = min (c - (st' + length (pending s)))
      (case reads s of [] \<Rightarrow> c - (st' + length (pending s)) | k # _ \<Rightarrow> max 1 k)"
  note eqs = st_def full_def c_def st'_def n_def
  have "st \<le> start_at s" by (simp add: st_def)
  then have bound: "st + length (pending s) \<le> buf_cap s" using assms(2) by (simp add: scanner_ok_def)
  define moved where "moved = (if unread s = [] then s\<lparr>start_at := st', buf_cap := c, at_eof := True\<rparr>
                 else s\<lparr>start_at := st', buf_cap := c, reads := tl (reads s),
                        pending := pending s @ take n (unread s), unread := drop n (unread s)\<rparr>)"
  have "read_more s = (if full \<and> max_token s \<le> buf_cap s then None else Some moved)"
    unfolding read_more_def Let_def moved_def eqs by (rule refl)
  then have room: "\<not> (full \<and> max_token s \<le> buf_cap s)" and s': "s' = moved"
    using assms(1) by (simp_all split: if_split_asm)
  have lt: "st' + length (pending s) < c"
    using room bound assms(2) by (auto simp: st'_def c_def full_def scanner_ok_def)
  moreover have "c \<le> max_token s" using assms(2) by (simp add: c_def scanner_ok_def)
  moreover have "n \<le> c - (st' + length (pending s))" by (simp add: n_def)
  moreover have "0 < n" using lt by (auto simp: n_def less_max_iff_disj split: list.split)
  ultimately show thesis by (rule that) (simp add: s' moved_def)
qed

lemma read_more_ok:
  assumes "read_more s = Some s'" and "scanner_ok s" and "\<not> at_eof s"
  shows "scanner_ok s'" and "scan_input s' = scan_input s" and "scan_work s' < scan_work s"
    and "max_token s' = max_token s" and "read_fails s' = read_fails s"
proof -
  from read_more_Some [OF assms(1,2)] obtain st c n where
    n: "st + length (pending s) < c" "c \<le> max_token s" "n \<le> c - (st + length (pending s))" "0 < n"
    and s': "s' = (if unread s = [] then s\<lparr>start_at := st, buf_cap := c, at_eof := True\<rparr>
               else s\<lparr>start_at := st, buf_cap := c, reads := tl (reads s),
                      pending := pending s @ take n (unread s), unread := drop n (unread s)\<rparr>)" .
  show "scanner_ok s'" using n assms(2,3) by (auto simp: s' scanner_ok_def min_def)
  show "scan_input s' = scan_input s" by (simp add: s' scan_input_def)
  show "scan_work s' < scan_work s"
  proof (cases "unread s = []")
    case False
    then have "2 * (length (unread s) - n) + min (length (unread s)) n < 2 * length (unread s)"
      using n(4) by (cases "n \<le> length (unread s)") auto
    with False show ?thesis using assms(3) by (simp add: s' scan_work_def)
  qed (use assms(3) in \<open>simp add: s' scan_work_def\<close>)
  show "max_token s' = max_token s" "read_fails s' = read_fails s" by (simp_all add: s')
qed

lemma read_more_None:
  "read_more s = None \<Longrightarrow> scanner_ok s \<Longrightarrow> max_token s \<le> length (pending s)"
  by (auto simp: read_more_def scanner_ok_def Let_def split: if_splits)

lemma scanner_ok_advance:
  "scanner_ok s \<Longrightarrow> n \<le> length (pending s) \<Longrightarrow>
   scanner_ok (s\<lparr>start_at := start_at s + n, pending := drop n (pending s)\<rparr>)"
  by (auto simp: scanner_ok_def)

lemma new_scanner_ok:
  "0 < m \<Longrightarrow> c \<le> m \<Longrightarrow> scanner_ok (new_scanner input sizes fails c m)"
  "scan_input (new_scanner input sizes fails c m) = input"
  "scan_work (new_scanner input sizes fails c m) = 2 * length input + 1"
  by (auto simp: scanner_ok_def new_scanner_def scan_input_def scan_work_def)

text \<open>The scanner after a turn: same input source, less work left.\<close>

definition same_scan :: "scanner \<Rightarrow> scanner \<Rightarrow> bool" where
  "same_scan s s' \<longleftrightarrow> scanner_ok s' \<and> max_token s' = max_token s \<and> read_fails s' = read_fails s
     \<and> scan_work s' < scan_work s"

subsection \<open>The contract of a split function\<close>

locale split_func =
  fixes split :: "'e split_function"
  assumes within: "split d e = Inr (n, t) \<Longrightarrow> n \<le> length d"
    and token_advances: "split d e = Inr (n, Some tok) \<Longrightarrow> 0 < n"
    and waits: "split d False \<noteq> Inl err"
    and stable: "split d False = Inr (n, t) \<Longrightarrow> 0 < n \<Longrightarrow> split (d @ x) e = Inr (n, t)"
    and final_progress: "d \<noteq> [] \<Longrightarrow> split d True = Inr (n, t) \<Longrightarrow> 0 < n"
    and empty_input: "split [] True = Inr (0, None)"
begin

text \<open>What the split function answers on the scanner's buffer it also answers on the whole
  remaining input, as soon as it consumes something.\<close>

lemma answers_agree:
  assumes "scanner_ok s" and "split (pending s) (at_eof s) = Inr (n, t)" and "0 < n"
  shows "split (scan_input s) True = Inr (n, t)"
proof (cases "at_eof s")
  case True
  with assms show ?thesis by (simp add: scanner_ok_def scan_input_def)
next
  case False
  with assms show ?thesis by (simp add: scan_input_def stable)
qed

text \<open>
  What one turn of the loop does, in terms of the remaining input: it fails on the last part,
  delivers the next token, stops, finds the buffer full, or reads on (perhaps past a piece
  without a token).
\<close>

lemma turn_cases:
  fixes s :: scanner
  assumes ok: "scanner_ok s"
  obtains
    (fail) e where "at_eof s" and "scan_input s \<noteq> []" and "split (scan_input s) True = Inl e"
      and "scan_all (Suc k) split s = Some ([], Some (scan_failure s (SplitError e)))"
  | (token) n t s1 where "0 < n" and "n \<le> length (scan_input s)"
      and "split (scan_input s) True = Inr (n, Some t)"
      and "scan_all (Suc k) split s = map_option (\<lambda>(ts, e). (t # ts, e)) (scan_all k split s1)"
      and "scan_input s1 = drop n (scan_input s)" and "same_scan s s1"
  | (stop) n where "at_eof s" and "split (scan_input s) True = Inr (n, None)"
      and "scan_all (Suc k) split s = Some ([], if read_fails s then Some ReadError else None)"
  | (full) "scan_all (Suc k) split s = Some ([], Some TooLong)"
      and "max_token s \<le> length (scan_input s)"
  | (more) n s1 where "scan_all (Suc k) split s = scan_all k split s1"
      and "n = 0 \<or> n \<le> length (scan_input s) \<and> split (scan_input s) True = Inr (n, None)"
      and "scan_input s1 = drop n (scan_input s)" and "same_scan s s1"
proof (cases "pending s = [] \<and> \<not> at_eof s")
  case True
  then have now: "scan_all (Suc k) split s =
      (case read_more s of None \<Rightarrow> Some ([], Some TooLong) | Some s' \<Rightarrow> scan_all k split s')"
    by simp
  show thesis
  proof (cases "read_more s")
    case None
    with now read_more_None [OF None ok] show thesis by (intro full) (auto simp: scan_input_def)
  next
    case (Some s1)
    with now read_more_ok [OF Some ok] True show thesis
      by (intro more [of s1 0]) (auto simp: same_scan_def)
  qed
next
  case False
  show thesis
  proof (cases "split (pending s) (at_eof s)")
    case (Inl e)
    then have eof: "at_eof s" using waits by (cases "at_eof s") auto
    then have D: "scan_input s = pending s" using ok by (simp add: scanner_ok_def scan_input_def)
    have "pending s \<noteq> []" using Inl eof empty_input by auto
    with Inl eof D show thesis by (intro fail [of e]) auto
  next
    case (Inr r)
    obtain n tok where r: "r = (n, tok)" by force
    note ans = Inr [unfolded r]
    let ?s1 = "s\<lparr>start_at := start_at s + n, pending := drop n (pending s)\<rparr>"
    have n: "n \<le> length (pending s)" using ans by (rule within)
    have ok1: "scanner_ok ?s1" using ok n by (rule scanner_ok_advance)
    have in1: "scan_input ?s1 = drop n (scan_input s)" using n by (simp add: scan_input_def)
    have len: "n \<le> length (scan_input s)" using n by (simp add: scan_input_def)
    show thesis
    proof (cases tok)
      case (Some t)
      then have pos: "0 < n" using ans token_advances by blast
      with ok1 n have "same_scan s ?s1" by (simp add: same_scan_def scan_work_def)
      with pos len in1 ans answers_agree [OF ok ans pos] False Some n show thesis
        by (intro token [of n t ?s1]) auto
    next
      case None
      show thesis
      proof (cases "at_eof s")
        case True
        with ok have "split (scan_input s) True = Inr (n, None)"
          using ans None by (simp add: scanner_ok_def scan_input_def)
        with True False ans None n show thesis by (intro stop [of n]) auto
      next
        case noteof: False
        then have now: "scan_all (Suc k) split s =
            (case read_more ?s1 of None \<Rightarrow> Some ([], Some TooLong) | Some s2 \<Rightarrow> scan_all k split s2)"
          using False ans None n by auto
        show thesis
        proof (cases "read_more ?s1")
          case None
          with now read_more_None [OF None ok1] show thesis by (intro full) (auto simp: scan_input_def)
        next
          case (Some s2)
          note s2 = read_more_ok [OF Some ok1]
          have "n = 0 \<or> n \<le> length (scan_input s) \<and> split (scan_input s) True = Inr (n, None)"
            using answers_agree [OF ok ans] len \<open>tok = None\<close> by auto
          moreover have "same_scan s s2" using s2 noteof n by (auto simp: same_scan_def scan_work_def)
          ultimately show thesis using now Some s2 noteof in1 by (intro more [of s2 n]) auto
        qed
      qed
    qed
  qed
qed

lemma pieces_token:
  assumes "split d True = Inr (n, t)" and "0 < n" and "n \<le> length d"
  shows "split_pieces split d = (let (ts, e) = split_pieces split (drop n d) in (opt_cons t ts, e))"
  using assms by (subst split_pieces.simps) auto

lemma pieces_Nil [simp]: "split_pieces split [] = ([], None)"
  by (subst split_pieces.simps) simp

text \<open>Termination: twice the input and one turn are enough fuel.\<close>

lemma scan_returns:
  "scanner_ok s \<Longrightarrow> scan_work s < k \<Longrightarrow> \<exists>r. scan_all k split s = Some r"
proof (induction k arbitrary: s)
  case 0
  then show ?case by simp
next
  case (Suc k)
  from Suc.prems(1) show ?case
  proof (cases rule: turn_cases [where k = k])
    case (token n t s1)
    then obtain r where "scan_all k split s1 = Some r"
      using Suc.IH [of s1] Suc.prems(2) by (auto simp: same_scan_def)
    with token show ?thesis by simp
  next
    case (more n s1)
    then show ?thesis using Suc.IH [of s1] Suc.prems(2) by (auto simp: same_scan_def)
  qed auto
qed

text \<open>Safety: whatever the sizes of the reads, the tokens delivered are an initial part of
  the tokens of the whole input.\<close>

lemma scan_prefix:
  "scanner_ok s \<Longrightarrow> scan_all k split s = Some (ts, err) \<Longrightarrow>
   prefix ts (fst (split_pieces split (scan_input s)))"
proof (induction k arbitrary: s ts err)
  case 0
  then show ?case by simp
next
  case (Suc k)
  from Suc.prems(1) show ?case
  proof (cases rule: turn_cases [where k = k])
    case (token n t s1)
    then obtain us where "scan_all k split s1 = Some (us, err)" and "ts = t # us"
      using Suc.prems(2) by auto
    with token Suc.IH [of s1 us err] pieces_token [OF token(3,1,2)] show ?thesis
      by (simp add: same_scan_def opt_cons_def split_beta Let_def)
  next
    case (more n s1)
    have "prefix ts (fst (split_pieces split (drop n (scan_input s))))"
      using Suc.IH [of s1 ts err] Suc.prems(2) more(1,3,4) by (simp add: same_scan_def)
    moreover have "fst (split_pieces split (drop n (scan_input s))) = fst (split_pieces split (scan_input s))"
      using more(2) pieces_token [of "scan_input s" n None]
      by (cases "n = 0") (simp_all add: opt_cons_def split_beta Let_def)
    ultimately show ?thesis by simp
  qed (use Suc.prems(2) in auto)
qed

text \<open>
  Completeness: if only the last piece may lack a token and the input is shorter than the
  maximal token, the scanner delivers exactly the pieces of the whole input.
\<close>

lemma no_empty_rest:
  assumes "no_empty_piece split d" and "split d True = Inr (n, t)" and "0 < n" and "n \<le> length d"
  shows "no_empty_piece split (drop n d)" and "t = None \<Longrightarrow> drop n d = []"
proof -
  have "d \<noteq> []" using assms(3,4) by auto
  with assms have "case t of None \<Rightarrow> length d \<le> n | Some _ \<Rightarrow> no_empty_piece split (drop n d)"
    by (simp add: no_empty_piece.simps [of split d] split: option.splits)
  then show "no_empty_piece split (drop n d)" and "t = None \<Longrightarrow> drop n d = []"
    by (auto simp: no_empty_piece.simps [of split "[]"] split: option.splits)
qed

lemma scan_complete:
  "scanner_ok s \<Longrightarrow> \<not> read_fails s \<Longrightarrow> length (scan_input s) < max_token s \<Longrightarrow>
   no_empty_piece split (scan_input s) \<Longrightarrow> scan_work s < k \<Longrightarrow>
   scan_all k split s = Some (fst (split_pieces split (scan_input s)),
     map_option SplitError (snd (split_pieces split (scan_input s))))"
proof (induction k arbitrary: s)
  case 0
  then show ?case by simp
next
  case (Suc k)
  from Suc.prems(1) show ?case
  proof (cases rule: turn_cases [where k = k])
    case (fail e)
    then have "split_pieces split (scan_input s) = ([], Some e)"
      by (subst split_pieces.simps) simp
    with fail Suc.prems(2) show ?thesis by (simp add: scan_failure_def)
  next
    case (token n t s1)
    note rest = no_empty_rest [OF Suc.prems(4) token(3,1,2)]
    from token rest Suc.prems Suc.IH [of s1] pieces_token [OF token(3,1,2)] show ?thesis
      by (simp add: same_scan_def opt_cons_def split_beta Let_def)
  next
    case (stop n)
    have "split_pieces split (scan_input s) = ([], None)"
    proof (cases "scan_input s = []")
      case False
      then have "0 < n" "n \<le> length (scan_input s)" using stop final_progress within by blast+
      with no_empty_rest [OF Suc.prems(4) stop(2)] pieces_token [OF stop(2)] show ?thesis
        by (simp add: opt_cons_def)
    qed simp
    with stop Suc.prems(2) show ?thesis by simp
  next
    case full
    with Suc.prems(3) show ?thesis by simp
  next
    case (more n s1)
    have "no_empty_piece split (scan_input s1)
        \<and> split_pieces split (scan_input s1) = split_pieces split (scan_input s)"
    proof (cases "n = 0")
      case False
      with more no_empty_rest [OF Suc.prems(4)] pieces_token show ?thesis
        by (simp add: opt_cons_def)
    qed (use more Suc.prems(4) in simp)
    with more Suc.prems Suc.IH [of s1] show ?thesis by (simp add: same_scan_def)
  qed
qed

end

end
