(* ===== verification/SqlSplit.thy ===== *)
theory SqlSplit
  imports GoScanner
begin

text \<open>
  \<open>prestoapi/query_splitter.go\<close>: cutting the text of a query file into SQL statements.
  \<open>scan_sql_stmt\<close> is \<open>ScanSqlStmt\<close>, with the jumps of \<open>bytes.IndexByte\<close> and
  \<open>bytes.IndexAny\<close> of the source; \<open>split_queries\<close> is \<open>SplitQueries\<close>, on the scanner of
  \<open>GoScanner\<close>. The reference is a lexer that reads one byte at a time (\<open>lex_step\<close>,
  \<open>first_semi\<close>, \<open>sql_stmts\<close>); the two agree, so the answers of \<open>ScanSqlStmt\<close> do not depend
  on how the file is cut into reads.
\<close>

subsection \<open>ScanSqlStmt\<close>

text \<open>
  The three variables \<open>inQuote\<close>, \<open>inComment\<close> and \<open>inMultilineComment\<close> of the source: at most
  one of them is set.
\<close>

datatype scan_mode = Plain | InQuote char | InComment | InMultilineComment

abbreviation newline :: char where "newline \<equiv> CHR 0x0A"
abbreviation squote :: char where "squote \<equiv> CHR 0x27"
abbreviation dquote :: char where "dquote \<equiv> CHR 0x22"
abbreviation backslash :: char where "backslash \<equiv> CHR 0x5C"

definition sql_special :: "char list" where
  "sql_special = [CHR ''-'', squote, dquote, CHR '';'', CHR ''/'']"

text \<open>The number of backslashes right before position \<open>p\<close>.\<close>

definition backslashes_before :: "string \<Rightarrow> nat \<Rightarrow> nat" where
  "backslashes_before data p = length (takeWhile (\<lambda>c. c = backslash) (rev (take p data)))"

definition non_empty :: "string \<Rightarrow> string option" where
  "non_empty token = (if 0 < length token then Some token else None)"

text \<open>
  The loop from position \<open>pos\<close>: \<open>Some (advance, token)\<close> is a return from inside the loop,
  \<open>None\<close> leaving the loop.
\<close>

function scan_sql_loop :: "string \<Rightarrow> nat \<Rightarrow> scan_mode \<Rightarrow> (nat \<times> string option) option" where
  "scan_sql_loop data pos mode =
     (if length data \<le> pos then None
      else case mode of
        InComment \<Rightarrow>
          (case index_byte newline (drop pos data) of
             Some i \<Rightarrow> scan_sql_loop data (pos + i + 1) Plain
           | None \<Rightarrow> None)
      | InMultilineComment \<Rightarrow>
          (case index_byte (CHR ''*'') (drop pos data) of
             Some i \<Rightarrow>
               (let p = pos + i
                in if length data \<le> p + 1 then None
                   else if data ! (p + 1) = CHR ''/'' then scan_sql_loop data (p + 2) Plain
                   else scan_sql_loop data (p + 1) InMultilineComment)
           | None \<Rightarrow> None)
      | InQuote q \<Rightarrow>
          (case index_byte q (drop pos data) of
             Some i \<Rightarrow>
               (let p = pos + i
                in if even (backslashes_before data p) then scan_sql_loop data (p + 1) Plain
                   else scan_sql_loop data (p + 1) (InQuote q))
           | None \<Rightarrow> None)
      | Plain \<Rightarrow>
          (case index_any sql_special (drop pos data) of
             Some i \<Rightarrow>
               (let p = pos + i; c = data ! p
                in if c = CHR ''-'' then
                     (if length data \<le> p + 1 then scan_sql_loop data (p + 1) Plain
                      else if data ! (p + 1) = CHR ''-'' then scan_sql_loop data (p + 2) InComment
                      else scan_sql_loop data (p + 1) Plain)
                   else if c = CHR ''/'' then
                     (if length data \<le> p + 1 then scan_sql_loop data (p + 1) Plain
                      else if data ! (p + 1) = CHR ''*'' then scan_sql_loop data (p + 2) InMultilineComment
                      else scan_sql_loop data (p + 1) Plain)
                   else if c = dquote \<or> c = squote then scan_sql_loop data (p + 1) (InQuote c)
                   else Some (p + 1, non_empty (trim_space (take p data))))
           | None \<Rightarrow> None))"
  by pat_completeness auto
termination
  by (relation "measure (\<lambda>(data, pos, mode). length data - pos)") auto

declare scan_sql_loop.simps [simp del]

definition scan_sql_stmt :: "unit split_function" where
  "scan_sql_stmt data at_end =
     (if at_end \<and> length data = 0 then Inr (0, None)
      else case scan_sql_loop data 0 Plain of
             Some r \<Rightarrow> Inr r
           | None \<Rightarrow>
               if at_end then Inr (length data, non_empty (trim_space data))
               else Inr (0, None))"

subsection \<open>The reference lexer\<close>

datatype lex = LText | LDash | LSlash | LQuote char bool | LComment | LMulti | LStar

text \<open>In \<open>LQuote q esc\<close>, \<open>esc\<close> says that an odd number of backslashes has just been read.\<close>

definition text_step :: "char \<Rightarrow> lex" where
  "text_step c = (if c = CHR ''-'' then LDash else if c = CHR ''/'' then LSlash
     else if c = dquote \<or> c = squote then LQuote c False else LText)"

fun lex_step :: "lex \<Rightarrow> char \<Rightarrow> lex" where
  "lex_step LText c = text_step c"
| "lex_step LDash c = (if c = CHR ''-'' then LComment else text_step c)"
| "lex_step LSlash c = (if c = CHR ''*'' then LMulti else text_step c)"
| "lex_step (LQuote q esc) c =
     (if c = backslash then LQuote q (\<not> esc) else if c = q \<and> \<not> esc then LText else LQuote q False)"
| "lex_step LComment c = (if c = newline then LText else LComment)"
| "lex_step LMulti c = (if c = CHR ''*'' then LStar else LMulti)"
| "lex_step LStar c = (if c = CHR ''/'' then LText else if c = CHR ''*'' then LStar else LMulti)"

definition lex_run :: "lex \<Rightarrow> string \<Rightarrow> lex" where
  "lex_run l s = foldl lex_step l s"

definition plain_lex :: "lex \<Rightarrow> bool" where
  "plain_lex l \<longleftrightarrow> l = LText \<or> l = LDash \<or> l = LSlash"

text \<open>The first semicolon outside quotes and comments.\<close>

fun first_semi :: "lex \<Rightarrow> string \<Rightarrow> nat option" where
  "first_semi l [] = None"
| "first_semi l (c # cs) =
     (if c = CHR '';'' \<and> plain_lex l then Some 0 else map_option Suc (first_semi (lex_step l c) cs))"

definition opt_list :: "'a option \<Rightarrow> 'a list" where
  "opt_list x = (case x of None \<Rightarrow> [] | Some y \<Rightarrow> [y])"

lemma first_semi_less: "first_semi l s = Some i \<Longrightarrow> i < length s"
  by (induction s arbitrary: l i) (auto split: if_splits)

lemma first_semi_append_Some: "first_semi l s = Some i \<Longrightarrow> first_semi l (s @ t) = Some i"
  by (induction s arbitrary: l i) (auto split: if_splits)

lemma first_semi_append_None:
  "first_semi l s = None \<Longrightarrow> first_semi l (s @ t) = map_option ((+) (length s)) (first_semi (lex_run l s) t)"
proof (induction s arbitrary: l)
  case Nil
  then show ?case by (cases "first_semi l t") (auto simp: lex_run_def)
next
  case (Cons c s)
  then have none: "first_semi (lex_step l c) s = None" and "\<not> (c = CHR '';'' \<and> plain_lex l)"
    by (auto split: if_splits)
  then show ?case
    using Cons.IH [OF none] by (cases "first_semi (lex_run l (c # s)) t") (auto simp: lex_run_def)
qed

text \<open>The statements of a text: the trimmed pieces between top-level semicolons, blank
  pieces left out.\<close>

function sql_stmts :: "string \<Rightarrow> string list" where
  "sql_stmts d =
     (if d = [] then []
      else case first_semi LText d of
             None \<Rightarrow> opt_list (non_empty (trim_space d))
           | Some i \<Rightarrow> opt_list (non_empty (trim_space (take i d))) @ sql_stmts (drop (Suc i) d))"
  by pat_completeness auto
termination
  by (relation "measure length") auto

declare sql_stmts.simps [simp del]

subsection \<open>The jumping loop computes the reference\<close>

text \<open>The lexer state that stands for a mode of the source at a position.\<close>

fun mode_lex :: "string \<Rightarrow> nat \<Rightarrow> scan_mode \<Rightarrow> lex" where
  "mode_lex data pos Plain = LText"
| "mode_lex data pos (InQuote q) = LQuote q (odd (backslashes_before data pos))"
| "mode_lex data pos InComment = LComment"
| "mode_lex data pos InMultilineComment = LMulti"

fun mode_ok :: "scan_mode \<Rightarrow> bool" where
  "mode_ok (InQuote q) \<longleftrightarrow> q = dquote \<or> q = squote"
| "mode_ok _ \<longleftrightarrow> True"

text \<open>Skipping bytes that do not change the state.\<close>

lemma first_semi_skip:
  assumes "\<And>c. c \<in> set s \<Longrightarrow> lex_step l c = l \<and> (c = CHR '';'' \<longrightarrow> \<not> plain_lex l)"
  shows "first_semi l (s @ t) = map_option ((+) (length s)) (first_semi l t)"
  using assms
proof (induction s)
  case Nil
  then show ?case by (cases "first_semi l t") auto
next
  case (Cons c s)
  then show ?case by (cases "first_semi l t") auto
qed

lemma backslashes_Suc:
  "p < length data \<Longrightarrow> backslashes_before data (Suc p) =
     (if data ! p = backslash then Suc (backslashes_before data p) else 0)"
  by (simp add: backslashes_before_def take_Suc_conv_app_nth)

lemma first_semi_quote_skip:
  assumes "q = dquote \<or> q = squote" and "pos + i \<le> length data"
    and "\<And>j. j < i \<Longrightarrow> data ! (pos + j) \<noteq> q"
  shows "first_semi (mode_lex data pos (InQuote q)) (drop pos data) =
     map_option ((+) i) (first_semi (mode_lex data (pos + i) (InQuote q)) (drop (pos + i) data))"
  using assms
proof (induction i arbitrary: pos)
  case 0
  then show ?case
    by (cases "first_semi (mode_lex data pos (InQuote q)) (drop pos data)") auto
next
  case (Suc i)
  then have lt: "pos < length data" by simp
  have ne: "data ! pos \<noteq> q" using Suc.prems(3) [of 0] by simp
  have step: "lex_step (mode_lex data pos (InQuote q)) (data ! pos) = mode_lex data (Suc pos) (InQuote q)"
    using ne Suc.prems(1) by (auto simp: backslashes_Suc [OF lt])
  have "first_semi (mode_lex data pos (InQuote q)) (drop pos data) =
      map_option Suc (first_semi (mode_lex data (Suc pos) (InQuote q)) (drop (Suc pos) data))"
    using step Cons_nth_drop_Suc [OF lt, symmetric] by (simp add: plain_lex_def)
  also have "first_semi (mode_lex data (Suc pos) (InQuote q)) (drop (Suc pos) data) =
      map_option ((+) i) (first_semi (mode_lex data (pos + Suc i) (InQuote q)) (drop (pos + Suc i) data))"
  proof -
    have "data ! (Suc pos + j) \<noteq> q" if "j < i" for j using Suc.prems(3) [of "Suc j"] that by simp
    then show ?thesis using Suc.IH [of "Suc pos"] Suc.prems(1,2) by (simp del: mode_lex.simps)
  qed
  finally show ?case
    by (cases "first_semi (mode_lex data (pos + Suc i) (InQuote q)) (drop (pos + Suc i) data)") auto
qed

text \<open>The result of the loop for a semicolon found \<open>i\<close> bytes after \<open>pos\<close>.\<close>

definition found_at :: "string \<Rightarrow> nat \<Rightarrow> nat option \<Rightarrow> (nat \<times> string option) option" where
  "found_at data pos = map_option (\<lambda>i. (pos + i + 1, non_empty (trim_space (take (pos + i) data))))"

lemma found_at_None [simp]: "found_at data pos None = None"
  by (simp add: found_at_def)

lemma found_at_plus: "found_at data pos (map_option ((+) k) x) = found_at data (pos + k) x"
  by (cases x) (simp_all add: found_at_def add.assoc)

lemma found_at_Suc: "found_at data pos (map_option Suc x) = found_at data (Suc pos) x"
  by (cases x) (simp_all add: found_at_def)

lemma first_semi_dash: "rest = [] \<or> hd rest \<noteq> CHR ''-'' \<Longrightarrow> first_semi LDash rest = first_semi LText rest"
  by (cases rest) (simp_all add: plain_lex_def)

lemma first_semi_slash: "rest = [] \<or> hd rest \<noteq> CHR ''*'' \<Longrightarrow> first_semi LSlash rest = first_semi LText rest"
  by (cases rest) (simp_all add: plain_lex_def)

lemma first_semi_star: "rest = [] \<or> hd rest \<noteq> CHR ''/'' \<Longrightarrow> first_semi LStar rest = first_semi LMulti rest"
  by (cases rest) (simp_all add: plain_lex_def)

lemma jump_split:
  assumes "index_where p (drop pos data) = Some i"
  shows "pos + i < length data" and "p (data ! (pos + i))"
    and "drop pos data = take i (drop pos data) @ data ! (pos + i) # drop (Suc (pos + i)) data"
    and "\<And>c. c \<in> set (take i (drop pos data)) \<Longrightarrow> \<not> p c"
    and "\<And>j. j < i \<Longrightarrow> \<not> p (data ! (pos + j))"
    and "length (take i (drop pos data)) = i"
proof -
  from assms have *: "i < length (drop pos data)" "p (drop pos data ! i)"
    "\<forall>j<i. \<not> p (drop pos data ! j)" by (auto simp: index_where_Some)
  then show lt: "pos + i < length data" by simp
  show "p (data ! (pos + i))" using * by simp
  show "drop pos data = take i (drop pos data) @ data ! (pos + i) # drop (Suc (pos + i)) data"
    using id_take_nth_drop [OF *(1)] lt by (simp add: add.commute)
  show "\<And>j. j < i \<Longrightarrow> \<not> p (data ! (pos + j))" using *(1,3) by auto
  show "\<And>c. c \<in> set (take i (drop pos data)) \<Longrightarrow> \<not> p c"
    using *(1,3) by (auto simp: in_set_conv_nth)
  show "length (take i (drop pos data)) = i" using *(1) by simp
qed

lemma first_semi_none:
  assumes "\<And>c. c \<in> set s \<Longrightarrow> lex_step l c = l \<and> (c = CHR '';'' \<longrightarrow> \<not> plain_lex l)"
  shows "first_semi l s = None"
  using first_semi_skip [of s l "[]"] assms by simp

text \<open>What the reference does from a position, one mode at a time: \<open>ref data pos mode\<close> is the
  answer the loop should give.\<close>

definition ref_loop :: "string \<Rightarrow> nat \<Rightarrow> scan_mode \<Rightarrow> (nat \<times> string option) option" where
  "ref_loop data pos mode = found_at data pos (first_semi (mode_lex data pos mode) (drop pos data))"

lemma ref_loop_end: "length data \<le> pos \<Longrightarrow> ref_loop data pos mode = None"
  by (simp add: ref_loop_def)

lemma ref_jump:
  assumes "index_where p (drop pos data) = Some i"
    and "\<And>c. \<not> p c \<Longrightarrow> lex_step (mode_lex data pos mode) c = mode_lex data pos mode
            \<and> (c = CHR '';'' \<longrightarrow> \<not> plain_lex (mode_lex data pos mode))"
  shows "ref_loop data pos mode = found_at data (pos + i)
     (first_semi (mode_lex data pos mode) (data ! (pos + i) # drop (Suc (pos + i)) data))"
proof -
  note j = jump_split [OF assms(1)]
  let ?l = "mode_lex data pos mode" and ?rest = "data ! (pos + i) # drop (Suc (pos + i)) data"
  have "first_semi ?l (take i (drop pos data) @ ?rest) =
      map_option ((+) (length (take i (drop pos data)))) (first_semi ?l ?rest)"
    using j(4) assms(2) by (intro first_semi_skip) blast
  then have "first_semi ?l (drop pos data) = map_option ((+) i) (first_semi ?l ?rest)"
    unfolding j(6) by (rule trans [OF arg_cong [OF j(3), of "first_semi ?l"]])
  then show ?thesis unfolding ref_loop_def by (simp only: found_at_plus)
qed

lemma ref_jump_none:
  assumes "index_where p (drop pos data) = None"
    and "\<And>c. \<not> p c \<Longrightarrow> lex_step (mode_lex data pos mode) c = mode_lex data pos mode
            \<and> (c = CHR '';'' \<longrightarrow> \<not> plain_lex (mode_lex data pos mode))"
  shows "ref_loop data pos mode = None"
proof -
  have "first_semi (mode_lex data pos mode) (drop pos data) = None"
    using assms by (intro first_semi_none) (auto simp: index_where_None)
  then show ?thesis by (simp add: ref_loop_def)
qed

lemma rest_head: "drop n data = [] \<or> hd (drop n data) \<noteq> c"
  if "length data \<le> n \<or> data ! n \<noteq> c"
  using that by (cases "n < length data") (auto simp: hd_drop_conv_nth)

lemma rest_Cons: "n < length data \<Longrightarrow> data ! n = c \<Longrightarrow> drop n data = c # drop (Suc n) data"
  using Cons_nth_drop_Suc by metis

lemma ref_comment:
  "index_byte newline (drop pos data) = Some i \<Longrightarrow>
     ref_loop data pos InComment = ref_loop data (pos + i + 1) Plain"
  "index_byte newline (drop pos data) = None \<Longrightarrow> ref_loop data pos InComment = None"
  unfolding index_byte_def
proof -
  assume i: "index_where (\<lambda>x. x = newline) (drop pos data) = Some i"
  show "ref_loop data pos InComment = ref_loop data (pos + i + 1) Plain"
    using ref_jump [OF i, of InComment] jump_split(2) [OF i]
    by (simp add: plain_lex_def found_at_Suc ref_loop_def)
next
  assume "index_where (\<lambda>x. x = newline) (drop pos data) = None"
  then show "ref_loop data pos InComment = None"
    by (rule ref_jump_none) (simp add: plain_lex_def)
qed

lemma ref_multi:
  assumes "index_byte (CHR ''*'') (drop pos data) = Some i"
  shows "ref_loop data pos InMultilineComment =
    (if length data \<le> pos + i + 1 then None
     else if data ! (pos + i + 1) = CHR ''/'' then ref_loop data (pos + i + 2) Plain
     else ref_loop data (pos + i + 1) InMultilineComment)"
proof -
  let ?n = "Suc (pos + i)"
  note i = assms [unfolded index_byte_def]
  have r: "ref_loop data pos InMultilineComment = found_at data ?n (first_semi LStar (drop ?n data))"
    using ref_jump [OF i, of InMultilineComment] jump_split(2) [OF i]
    by (simp add: plain_lex_def found_at_Suc)
  show ?thesis
  proof (cases "?n < length data \<and> data ! ?n = CHR ''/''")
    case True
    then have "drop ?n data = CHR ''/'' # drop (Suc ?n) data" by (intro rest_Cons) auto
    with r True show ?thesis by (simp add: plain_lex_def found_at_Suc ref_loop_def)
  next
    case False
    then have "first_semi LStar (drop ?n data) = first_semi LMulti (drop ?n data)"
      by (intro first_semi_star rest_head) auto
    with r False show ?thesis by (auto simp: ref_loop_def)
  qed
qed

lemma ref_multi_none:
  "index_byte (CHR ''*'') (drop pos data) = None \<Longrightarrow> ref_loop data pos InMultilineComment = None"
  unfolding index_byte_def by (rule ref_jump_none) (auto simp: plain_lex_def)

lemma ref_quote:
  assumes "q = dquote \<or> q = squote" and "index_byte q (drop pos data) = Some i"
  shows "ref_loop data pos (InQuote q) =
    (if even (backslashes_before data (pos + i)) then ref_loop data (pos + i + 1) Plain
     else ref_loop data (pos + i + 1) (InQuote q))"
proof -
  note i = assms(2) [unfolded index_byte_def]
  note j = jump_split [OF i]
  have qb: "q \<noteq> backslash" using assms(1) by auto
  have "ref_loop data pos (InQuote q) =
      found_at data (pos + i) (first_semi (mode_lex data (pos + i) (InQuote q)) (drop (pos + i) data))"
    using first_semi_quote_skip [OF assms(1), of pos i data] j(1,5)
    by (simp add: ref_loop_def found_at_plus del: mode_lex.simps)
  also have "drop (pos + i) data = q # drop (Suc (pos + i)) data"
    using j(1,2) by (intro rest_Cons) auto
  finally have r: "ref_loop data pos (InQuote q) = found_at data (Suc (pos + i))
      (first_semi (lex_step (mode_lex data (pos + i) (InQuote q)) q) (drop (Suc (pos + i)) data))"
    by (simp add: plain_lex_def found_at_Suc)
  have "backslashes_before data (Suc (pos + i)) = 0"
    using j(1,2) qb by (simp add: backslashes_Suc)
  with r qb show ?thesis by (simp add: ref_loop_def)
qed

lemma ref_quote_none:
  assumes "q = dquote \<or> q = squote" and "index_byte q (drop pos data) = None" and "pos \<le> length data"
  shows "ref_loop data pos (InQuote q) = None"
proof -
  have "data ! (pos + j) \<noteq> q" if "j < length data - pos" for j
  proof -
    have "drop pos data ! j \<in> set (drop pos data)" using that by (intro nth_mem) simp
    then show ?thesis using assms(2,3) by (auto simp: index_byte_def index_where_None)
  qed
  then show ?thesis
    using first_semi_quote_skip [OF assms(1), of pos "length data - pos" data] assms(3)
    by (simp add: ref_loop_def del: mode_lex.simps)
qed

lemma ref_plain_none:
  "index_any sql_special (drop pos data) = None \<Longrightarrow> ref_loop data pos Plain = None"
  unfolding index_any_def
  by (rule ref_jump_none) (auto simp: sql_special_def text_step_def)

lemma ref_plain:
  assumes "index_any sql_special (drop pos data) = Some i"
  shows "ref_loop data pos Plain =
    (if data ! (pos + i) = CHR ''-'' then
       (if length data \<le> pos + i + 1 then None
        else if data ! (pos + i + 1) = CHR ''-'' then ref_loop data (pos + i + 2) InComment
        else ref_loop data (pos + i + 1) Plain)
     else if data ! (pos + i) = CHR ''/'' then
       (if length data \<le> pos + i + 1 then None
        else if data ! (pos + i + 1) = CHR ''*'' then ref_loop data (pos + i + 2) InMultilineComment
        else ref_loop data (pos + i + 1) Plain)
     else if data ! (pos + i) = dquote \<or> data ! (pos + i) = squote
       then ref_loop data (pos + i + 1) (InQuote (data ! (pos + i)))
     else Some (pos + i + 1, non_empty (trim_space (take (pos + i) data))))"
proof -
  let ?n = "Suc (pos + i)" and ?c = "data ! (pos + i)"
  note i = assms [unfolded index_any_def]
  note j = jump_split [OF i]
  have c: "?c \<in> set sql_special" using j(2) .
  have r: "ref_loop data pos Plain = found_at data (pos + i) (first_semi LText (?c # drop ?n data))"
    using ref_jump [OF i, of Plain] by (auto simp: sql_special_def text_step_def)
  have nb: "?c \<noteq> backslash \<Longrightarrow> backslashes_before data ?n = 0" using j(1) by (simp add: backslashes_Suc)
  have look: "first_semi l (drop ?n data) = first_semi LText (drop ?n data)"
    if "l = LDash \<and> x = CHR ''-'' \<or> l = LSlash \<and> x = CHR ''*''"
      and "length data \<le> ?n \<or> data ! ?n \<noteq> x" for l x
    using that first_semi_dash first_semi_slash rest_head by metis
  have next2: "drop ?n data = x # drop (Suc ?n) data" if "?n < length data" "data ! ?n = x" for x
    using that by (rule rest_Cons)
  consider (semi) "?c = CHR '';''" | (quote) "?c = dquote \<or> ?c = squote"
    | (dash) "?c = CHR ''-''" | (slash) "?c = CHR ''/''"
    using c by (auto simp: sql_special_def)
  then show ?thesis
  proof cases
    case semi
    with r show ?thesis by (simp add: plain_lex_def found_at_def Let_def)
  next
    case quote
    then have "?c \<noteq> backslash" by auto
    with quote r nb show ?thesis
      by (auto simp: found_at_Suc text_step_def ref_loop_def)
  next
    case dash
    then have r': "ref_loop data pos Plain = found_at data ?n (first_semi LDash (drop ?n data))"
      using r by (simp add: found_at_Suc text_step_def)
    show ?thesis
    proof (cases "?n < length data \<and> data ! ?n = CHR ''-''")
      case True
      with r' next2 dash show ?thesis by (simp add: found_at_Suc ref_loop_def plain_lex_def)
    next
      case False
      with r' look [of LDash "CHR ''-''"] dash show ?thesis by (auto simp: ref_loop_def)
    qed
  next
    case slash
    then have r': "ref_loop data pos Plain = found_at data ?n (first_semi LSlash (drop ?n data))"
      using r by (simp add: found_at_Suc text_step_def)
    show ?thesis
    proof (cases "?n < length data \<and> data ! ?n = CHR ''*''")
      case True
      with r' next2 slash show ?thesis by (simp add: found_at_Suc ref_loop_def plain_lex_def)
    next
      case False
      with r' look [of LSlash "CHR ''*''"] slash show ?thesis by (auto simp: ref_loop_def)
    qed
  qed
qed

text \<open>The loop of the source and the reference agree, from every position and mode.\<close>

lemma scan_sql_loop_ref: "mode_ok mode \<Longrightarrow> scan_sql_loop data pos mode = ref_loop data pos mode"
proof (induction "length data - pos" arbitrary: pos mode rule: less_induct)
  case less
  show ?case
  proof (cases "length data \<le> pos")
    case True
    then show ?thesis by (simp add: scan_sql_loop.simps [of data pos mode] ref_loop_end)
  next
    case False
    have IH: "scan_sql_loop data p m = ref_loop data p m" if "pos < p" "mode_ok m" for p m
      using less.hyps that False by simp
    have done_at_end: "scan_sql_loop data p Plain = None" if "length data \<le> p" for p
      using that by (subst scan_sql_loop.simps) simp
    show ?thesis
    proof (cases mode)
      case Plain
      show ?thesis
        using False ref_plain [of pos data] ref_plain_none [of pos data] IH done_at_end
        unfolding Plain
        by (cases "index_any sql_special (drop pos data)")
           (simp_all add: scan_sql_loop.simps [of data pos Plain] Let_def)
    next
      case (InQuote q)
      with less.prems have q: "q = dquote \<or> q = squote" by simp
      then show ?thesis
        using False ref_quote [OF q] ref_quote_none [OF q] IH
        unfolding InQuote
        by (cases "index_byte q (drop pos data)")
           (simp_all add: scan_sql_loop.simps [of data pos "InQuote q"] Let_def)
    next
      case InComment
      show ?thesis
        using False ref_comment [of pos data] IH
        unfolding InComment
        by (cases "index_byte newline (drop pos data)")
           (simp_all add: scan_sql_loop.simps [of data pos InComment])
    next
      case InMultilineComment
      show ?thesis
        using False ref_multi [of pos data] ref_multi_none [of pos data] IH
        unfolding InMultilineComment
        by (cases "index_byte (CHR ''*'') (drop pos data)")
           (simp_all add: scan_sql_loop.simps [of data pos InMultilineComment] Let_def)
    qed
  qed
qed

lemma scan_sql_loop_start:
  "scan_sql_loop data 0 Plain =
     map_option (\<lambda>i. (i + 1, non_empty (trim_space (take i data)))) (first_semi LText data)"
  by (simp add: scan_sql_loop_ref ref_loop_def found_at_def)

subsection \<open>The contract of the scanner\<close>

text \<open>\<open>ScanSqlStmt\<close> as a function of the first top-level semicolon.\<close>

lemma scan_sql_stmt_eq:
  "scan_sql_stmt d e =
     (case first_semi LText d of
        Some i \<Rightarrow> Inr (Suc i, non_empty (trim_space (take i d)))
      | None \<Rightarrow> if e then Inr (length d, non_empty (trim_space d)) else Inr (0, None))"
proof (cases d)
  case Nil
  then show ?thesis
    by (simp add: scan_sql_stmt_def scan_sql_loop_start non_empty_def trim_space_def
        strip_runes.simps [of _ "[]"] space_runes_def)
next
  case (Cons c cs)
  then show ?thesis
    by (simp add: scan_sql_stmt_def scan_sql_loop_start split: option.split)
qed

lemma non_empty_trim_length: "non_empty (trim_space d) = Some t \<Longrightarrow> 0 < length d"
  using trim_space_length [of d] by (auto simp: non_empty_def split: if_splits)

interpretation sql: split_func scan_sql_stmt
proof unfold_locales
  show "n \<le> length d" if "scan_sql_stmt d e = Inr (n, t)" for d e n t
    using that by (auto simp: scan_sql_stmt_eq first_semi_less Suc_leI split: option.splits if_splits)
  show "0 < n" if "scan_sql_stmt d e = Inr (n, Some tok)" for d e n tok
    using that by (auto simp: scan_sql_stmt_eq dest: non_empty_trim_length split: option.splits if_splits)
  show "scan_sql_stmt d False \<noteq> Inl err" for d err
    by (simp add: scan_sql_stmt_eq split: option.split)
  show "scan_sql_stmt (d @ x) e = Inr (n, t)" if "scan_sql_stmt d False = Inr (n, t)" and "0 < n" for d x e n t
  proof -
    from that obtain i where i: "first_semi LText d = Some i"
      and "n = Suc i" "t = non_empty (trim_space (take i d))"
      by (auto simp: scan_sql_stmt_eq split: option.splits)
    with first_semi_append_Some [OF i, of x] first_semi_less [OF i] show ?thesis
      by (simp add: scan_sql_stmt_eq)
  qed
  show "0 < n" if "d \<noteq> []" "scan_sql_stmt d True = Inr (n, t)" for d n t
    using that by (auto simp: scan_sql_stmt_eq split: option.splits)
  show "scan_sql_stmt [] True = Inr (0, None)" by (simp add: scan_sql_stmt_def)
qed

text \<open>The pieces the scanner sees are the statements of the reference.\<close>

lemma split_pieces_sql: "split_pieces scan_sql_stmt d = (sql_stmts d, None)"
proof (induction d rule: sql_stmts.induct)
  case (1 d)
  show ?case
  proof (cases "d = []")
    case False
    show ?thesis
    proof (cases "first_semi LText d")
      case None
      with False show ?thesis
        by (simp add: split_pieces.simps [of scan_sql_stmt d] sql_stmts.simps [of d] scan_sql_stmt_eq [of d True]
            opt_cons_def opt_list_def split: option.split)
    next
      case (Some i)
      with False 1 show ?thesis
        by (simp add: split_pieces.simps [of scan_sql_stmt d] sql_stmts.simps [of d] scan_sql_stmt_eq [of d True]
            opt_cons_def opt_list_def split: option.split)
    qed
  qed (simp add: sql_stmts.simps)
qed

text \<open>Only the last piece of a text may be blank.\<close>

function no_blank_stmt :: "string \<Rightarrow> bool" where
  "no_blank_stmt d =
     (if d = [] then True
      else case first_semi LText d of
             None \<Rightarrow> True
           | Some i \<Rightarrow> (if trim_space (take i d) = [] then drop (Suc i) d = []
                       else no_blank_stmt (drop (Suc i) d)))"
  by pat_completeness auto
termination
  by (relation "measure length") auto

declare no_blank_stmt.simps [simp del]

lemma no_empty_piece_sql: "no_empty_piece scan_sql_stmt d = no_blank_stmt d"
proof (induction d rule: no_blank_stmt.induct)
  case (1 d)
  then show ?case
    by (simp add: no_empty_piece.simps [of scan_sql_stmt d] no_empty_piece.simps [of scan_sql_stmt "[]"] no_blank_stmt.simps [of d] scan_sql_stmt_eq [of d True]
        non_empty_def split: option.split)
qed

subsection \<open>SplitQueries\<close>

text \<open>
  \<open>SplitQueries\<close> on a reader that delivers \<open>input\<close> in reads of the given sizes and then ends,
  with \<open>io.EOF\<close> or with an error. The buffer starts at 64 KiB and grows to 1 MiB. The fuel is
  enough for every input (\<open>split_queries_returns\<close>).
\<close>

definition split_queries ::
  "nat list \<Rightarrow> bool \<Rightarrow> string \<Rightarrow> (string list \<times> unit scan_error option) option" where
  "split_queries sizes fails input =
     scan_all (2 * length input + 2) scan_sql_stmt
       (new_scanner input sizes fails (64 * 1024) (1024 * 1024))"

lemma split_queries_returns: "\<exists>r. split_queries sizes fails input = Some r"
  unfolding split_queries_def
  by (rule sql.scan_returns) (simp_all add: new_scanner_ok)

text \<open>A statement that can be written to a file and read back: not blank, trimmed, without a
  top-level semicolon, and leaving the lexer outside quotes and comments.\<close>

definition closed_stmt :: "string \<Rightarrow> bool" where
  "closed_stmt x \<longleftrightarrow> x \<noteq> [] \<and> trim_space x = x \<and> first_semi LText x = None \<and> plain_lex (lex_run LText x)"

lemma first_semi_closed:
  "closed_stmt x \<Longrightarrow> first_semi LText (x @ CHR '';'' # rest) = Some (length x)"
  by (simp add: closed_stmt_def first_semi_append_None)

lemma trim_space_newline: "trim_space (newline # x) = trim_space x"
  by (simp add: trim_space_def strip_runes.simps [of _ "newline # x"] space_runes_def)

lemma trim_space_newline_only: "trim_space [newline] = []"
  by (simp add: trim_space_newline) (simp add: trim_space_def strip_runes.simps [of _ "[]"] space_runes_def)

definition render_stmts :: "string list \<Rightarrow> string" where
  "render_stmts xs = concat (map (\<lambda>x. x @ [CHR '';'', newline]) xs)"

lemma render_read:
  "list_all closed_stmt xs \<Longrightarrow>
   sql_stmts (newline # render_stmts xs) = xs \<and> no_blank_stmt (newline # render_stmts xs)"
proof (induction xs)
  case Nil
  have "first_semi LText [newline] = None" by simp
  then show ?case
    by (simp add: render_stmts_def sql_stmts.simps [of "[newline]"] no_blank_stmt.simps [of "[newline]"]
        trim_space_newline_only opt_list_def non_empty_def)
next
  case (Cons x xs)
  then have x: "closed_stmt x" by simp
  let ?d = "newline # render_stmts (x # xs)"
  have d: "?d = newline # x @ CHR '';'' # newline # render_stmts xs" by (simp add: render_stmts_def)
  have semi: "first_semi LText ?d = Some (Suc (length x))"
    unfolding d using first_semi_closed [OF x] by (simp add: text_step_def)
  have tk: "trim_space (take (Suc (length x)) ?d) = x" "x \<noteq> []"
    using x by (simp_all add: d trim_space_newline closed_stmt_def)
  have dr: "drop (Suc (Suc (length x))) ?d = newline # render_stmts xs" by (simp add: d)
  from Cons semi tk dr show ?case
    by (simp add: sql_stmts.simps [of ?d] no_blank_stmt.simps [of ?d] opt_list_def non_empty_def)
qed

lemma render_read_start:
  assumes "list_all closed_stmt xs"
  shows "sql_stmts (render_stmts xs) = xs \<and> no_blank_stmt (render_stmts xs)"
proof (cases xs)
  case Nil
  then show ?thesis by (simp add: render_stmts_def sql_stmts.simps no_blank_stmt.simps)
next
  case (Cons x ys)
  let ?d = "render_stmts (x # ys)"
  have x: "closed_stmt x" and ys: "list_all closed_stmt ys" using assms Cons by auto
  have d: "?d = x @ CHR '';'' # newline # render_stmts ys" by (simp add: render_stmts_def)
  have semi: "first_semi LText ?d = Some (length x)"
    unfolding d using first_semi_closed [OF x] by simp
  have tk: "trim_space (take (length x) ?d) = x" "x \<noteq> []" "?d \<noteq> []"
    using x by (simp_all add: d closed_stmt_def)
  have dr: "drop (Suc (length x)) ?d = newline # render_stmts ys" by (simp add: d)
  from semi tk dr render_read [OF ys] show ?thesis
    unfolding Cons
    by (simp add: sql_stmts.simps [of ?d] no_blank_stmt.simps [of ?d] opt_list_def non_empty_def)
qed

lemma split_queries_complete:
  assumes "length input < 1024 * 1024" and "no_blank_stmt input"
  shows "split_queries sizes False input = Some (sql_stmts input, None)"
proof -
  let ?s = "new_scanner input sizes False (64 * 1024) (1024 * 1024)"
  have "scan_all (2 * length input + 2) scan_sql_stmt ?s =
      Some (fst (split_pieces scan_sql_stmt (scan_input ?s)),
        map_option SplitError (snd (split_pieces scan_sql_stmt (scan_input ?s))))"
    using assms
    by (intro sql.scan_complete) (simp_all add: new_scanner_ok no_empty_piece_sql, simp_all add: new_scanner_def)
  then show ?thesis by (simp add: split_queries_def new_scanner_ok split_pieces_sql)
qed

text \<open>Two blank pieces in a row: the first makes the scanner read on and meet the end of the
  file, the second is then taken for the end of the input.\<close>

lemma blank_runs_on:
  "scan_sql_stmt (CHR '';'' # rest) e = Inr (1, None)"
  by (simp add: scan_sql_stmt_eq plain_lex_def trim_space_def strip_runes.simps [of _ "[]"]
      space_runes_def non_empty_def)

lemma split_queries_two_blanks:
  assumes "closed_stmt x" and "length x + length rest < 60000"
  shows "split_queries [] False (x @ '';;;'' @ rest) = Some ([x], None)"
proof -
  let ?d = "x @ '';;;'' @ rest"
  define s0 where "s0 = new_scanner ?d [] False (64 * 1024) (1024 * 1024)"
  define s1 where "s1 = s0\<lparr>pending := ?d, unread := []\<rparr>"
  define s2 where "s2 = s1\<lparr>start_at := length x + 1, pending := '';;'' @ rest\<rparr>"
  define s3 where "s3 = s2\<lparr>start_at := length x + 2, pending := '';'' @ rest\<rparr>"
  obtain k where fuel: "2 * length ?d + 2 = Suc (Suc (Suc (Suc k)))"
    by (rule that [of "2 * length x + 2 * length rest + 4"]) simp
  have r0: "read_more s0 = Some s1"
    using assms(2) by (simp add: read_more_def s0_def s1_def new_scanner_def Let_def)
  have first: "scan_sql_stmt ?d False = Inr (length x + 1, Some x)"
    using first_semi_closed [OF assms(1), of "'';;'' @ rest"] assms(1)
    by (simp add: scan_sql_stmt_eq closed_stmt_def non_empty_def)
  have "\<exists>s4. read_more s3 = Some s4 \<and> pending s4 = '';'' @ rest \<and> at_eof s4 \<and> \<not> read_fails s4"
    using assms(2)
    by (auto simp: read_more_def s3_def s2_def s1_def s0_def new_scanner_def Let_def)
  then obtain s4 where s4: "read_more s3 = Some s4" "pending s4 = '';'' @ rest" "at_eof s4" "\<not> read_fails s4"
    by blast
  have last: "scan_all (Suc k) scan_sql_stmt s4 = Some ([], None)"
    using s4 by (simp add: blank_runs_on)
  have p2: "pending s2 = CHR '';'' # CHR '';'' # rest" "\<not> at_eof s2"
    by (simp_all add: s2_def s1_def s0_def new_scanner_def)
  have s3': "s2\<lparr>start_at := start_at s2 + 1, pending := drop 1 (pending s2)\<rparr> = s3"
    by (simp add: s3_def s2_def)
  have "scan_all (Suc (Suc k)) scan_sql_stmt s2 = Some ([], None)"
    using p2 s3' s4(1) last by (simp add: blank_runs_on)
  moreover have "s1\<lparr>start_at := start_at s1 + (length x + 1), pending := drop (length x + 1) (pending s1)\<rparr> = s2"
    by (simp add: s2_def s1_def s0_def new_scanner_def)
  moreover have "pending s1 = ?d" "\<not> at_eof s1" by (simp_all add: s1_def s0_def new_scanner_def)
  ultimately have "scan_all (Suc (Suc (Suc k))) scan_sql_stmt s1 = Some ([x], None)"
    using first by simp
  then have "scan_all (Suc (Suc (Suc (Suc k)))) scan_sql_stmt s0 = Some ([x], None)"
    using r0 by (simp add: s0_def new_scanner_def)
  then show ?thesis unfolding split_queries_def fuel s0_def .
qed

section \<open>Properties\<close>

text \<open>C15: \<open>ScanSqlStmt\<close>, with its jumps from one special byte to the next, gives exactly what a
  lexer gives that reads one byte at a time: the trimmed text before the first semicolon outside
  quotes and comments and the position behind it; without such a semicolon it asks for more data,
  or at the end of the input returns the rest as the last statement.\<close>

theorem scan_sql_stmt_reference:
  "scan_sql_stmt data at_end =
     (case first_semi LText data of
        Some i \<Rightarrow> Inr (Suc i, non_empty (trim_space (take i data)))
      | None \<Rightarrow> if at_end then Inr (length data, non_empty (trim_space data)) else Inr (0, None))"
  by (rule scan_sql_stmt_eq)

text \<open>\<open>SplitQueries\<close> returns the statements of a file, all of them and in order, however the
  file is cut into reads, if the file is shorter than the buffer's limit and at most its last
  piece is blank.\<close>

theorem split_queries_any_reads:
  assumes "length input < 1024 * 1024" and "no_blank_stmt input"
  shows "split_queries sizes False input = Some (sql_stmts input, None)"
  using assms by (rule split_queries_complete)

theorem split_queries_any_reads_witness:
  "split_queries [3, 1, 4] False ''SELECT 1; -- a; b'' = Some (sql_stmts ''SELECT 1; -- a; b'', None)
   \<and> sql_stmts ''SELECT 1; -- a; b'' = [''SELECT 1'', ''-- a; b'']"
proof
  show "split_queries [3, 1, 4] False ''SELECT 1; -- a; b'' = Some (sql_stmts ''SELECT 1; -- a; b'', None)"
    by (rule split_queries_any_reads) (simp, code_simp)
  show "sql_stmts ''SELECT 1; -- a; b'' = [''SELECT 1'', ''-- a; b'']" by code_simp
qed

text \<open>\<open>SplitQueries\<close> always returns, and what it returns is an initial part of the statements
  of the file, for every way the file is cut into reads, also when reading fails or a statement
  is too long: it never invents, reorders or merges statements.\<close>

theorem split_queries_prefix:
  "\<exists>ts err. split_queries sizes fails input = Some (ts, err) \<and> prefix ts (sql_stmts input)"
proof -
  obtain ts err where r: "split_queries sizes fails input = Some (ts, err)"
    using split_queries_returns by fast
  have "prefix ts (fst (split_pieces scan_sql_stmt input))"
    using sql.scan_prefix [OF _ r [unfolded split_queries_def]] by (simp add: new_scanner_ok)
  with r show ?thesis by (auto simp: split_pieces_sql)
qed

text \<open>C28: Round trip: statements that are trimmed, not blank, without a top-level semicolon and
  closed (no open quote or comment), written one after the other with a semicolon and a line
  break, are read back by \<open>SplitQueries\<close> as they are.\<close>

theorem split_queries_roundtrip:
  assumes "list_all closed_stmt xs" and "length (render_stmts xs) < 1024 * 1024"
  shows "split_queries sizes False (render_stmts xs) = Some (xs, None)"
  using split_queries_complete [OF assms(2)] render_read_start [OF assms(1)] by simp

theorem split_queries_roundtrip_witness:
  "split_queries [2] False
     (render_stmts [''SELECT '' @ [squote, CHR '';'', backslash, squote, squote], ''b/c'']) =
   Some ([''SELECT '' @ [squote, CHR '';'', backslash, squote, squote], ''b/c''], None)"
  by (rule split_queries_roundtrip) (code_simp, simp add: render_stmts_def)

text \<open>Two blank statements in a row make \<open>SplitQueries\<close> drop everything after them without
  an error, when the whole file fits the first read: the first blank piece sends the scanner to
  the end of the file, and at the end a piece without a token ends the scan.\<close>

theorem split_queries_drops_after_blanks:
  assumes "closed_stmt x" and "length x + length rest < 60000"
  shows "split_queries [] False (x @ '';;;'' @ rest) = Some ([x], None)"
  using assms by (rule split_queries_two_blanks)

theorem split_queries_drops_after_blanks_witness:
  "split_queries [] False (''SELECT 1'' @ '';;;'' @ ''SELECT 2'') = Some ([''SELECT 1''], None)
   \<and> sql_stmts (''SELECT 1'' @ '';;;'' @ ''SELECT 2'') = [''SELECT 1'', ''SELECT 2'']"
proof
  show "split_queries [] False (''SELECT 1'' @ '';;;'' @ ''SELECT 2'') = Some ([''SELECT 1''], None)"
    by (rule split_queries_drops_after_blanks) (code_simp, simp)
  show "sql_stmts (''SELECT 1'' @ '';;;'' @ ''SELECT 2'') = [''SELECT 1'', ''SELECT 2'']" by code_simp
qed

end
