(* ===== verification/StageExec.thy ===== *)
theory StageExec
  imports StageNaming GoNumbers SqlSplit "HOL-Library.Multiset"
begin

text \<open>
  What a stage does between its preparation and the triggering of its children: scripts, queries,
  query files, sequential and random execution (\<open>stage/stage.go\<close>, lines 313 to 756, with
  \<open>saveQueryJsonFile\<close>, \<open>saveColumnMetadataFile\<close> and \<open>expandQueryFileDirs\<close> of
  \<open>stage/stage_utils.go\<close> and \<open>stage/result.go\<close>).

  Everything outside the process (shells, the Presto client, files, the clock, the context that may
  be cancelled at any time, the random generator) is a record \<open>runtime\<close> of functions on an
  abstract world, which the code calls one after the other. The state of the run is a record \<open>exec\<close>
  that every function takes and returns. A run-time panic is a result of its own. Log output is
  left out.
\<close>

subsection \<open>Errors and outcomes\<close>

text \<open>\<open>OfResult\<close> is a \<open>*QueryResult\<close> used as an error; its text is that of the query's error.\<close>

datatype go_error = Plain string | Wrap string go_error | JoinErr "go_error list" | OfResult string string go_error

fun err_text :: "go_error \<Rightarrow> string" where
  "err_text (Plain m) = m"
| "err_text (Wrap m e) = m @ '': '' @ err_text e"
| "err_text (JoinErr es) = join_str [CHR 0x0A] (map err_text es)"
| "err_text (OfResult sid qid e) = err_text e"

text \<open>\<open>errors.Join\<close>: nil errors are dropped, and nothing but nil errors is nil.\<close>

definition join_errs :: "go_error option list \<Rightarrow> go_error option" where
  "join_errs es =
     (case concat (map (\<lambda>e. case e of None \<Rightarrow> [] | Some x \<Rightarrow> [x]) es) of
        [] \<Rightarrow> None | xs \<Rightarrow> Some (JoinErr xs))"

datatype 'a outcome = Ret 'a | Panic string | OutOfFuel

subsection \<open>State\<close>

record query_result =
  StageId :: string
  Query :: query
  QueryId :: string
  InfoUrl :: string
  QueryError :: "go_error option"
  RowCount :: nat
  StartTime :: int
  EndTime :: "int option"
  Duration :: "int option"

text \<open>
  \<open>erc\<close> is \<open>expectedRowCountInCurrentSchema\<close> of the running stage; \<open>cur\<close> is the variable \<open>result\<close>
  of \<open>runQuery\<close>; \<open>sent\<close> is what has been sent to \<open>resultChan\<close>; \<open>outputs\<close> the rows handed to the
  writer of each output file; \<open>metadata_files\<close> and \<open>json_files\<close> the files that were opened, or will
  be opened in the background, for column metadata and query JSON.
\<close>

record 'w exec =
  world :: 'w
  erc :: "int list"
  exit_code :: int
  cur :: query_result
  sent :: "query_result list"
  outputs :: "(string \<times> string list) list"
  metadata_files :: "string list"
  json_files :: "string list"
  rand_seed_used :: bool

type_synonym ('a, 'w) action = "'w exec \<Rightarrow> 'a outcome \<times> 'w exec"

text \<open>Sequencing: a panic ends the function.\<close>

definition chain :: "('a, 'w) action \<Rightarrow> ('a \<Rightarrow> ('b, 'w) action) \<Rightarrow> ('b, 'w) action" where
  "chain m f st =
     (case m st of
        (Ret x, st') \<Rightarrow> f x st'
      | (Panic p, st') \<Rightarrow> (Panic p, st')
      | (OutOfFuel, st') \<Rightarrow> (OutOfFuel, st'))"

definition give :: "'a \<Rightarrow> ('a, 'w) action" where
  "give x st = (Ret x, st)"

text \<open>Dereferencing a pointer.\<close>

definition load :: "'a option \<Rightarrow> ('a \<Rightarrow> ('b, 'w) action) \<Rightarrow> ('b, 'w) action" where
  "load p f st = (case p of None \<Rightarrow> (Panic ''nil pointer dereference'', st) | Some v \<Rightarrow> f v st)"

text \<open>A call of the outside world.\<close>

definition outside :: "('w \<Rightarrow> 'a \<times> 'w) \<Rightarrow> ('a, 'w) action" where
  "outside f st = (let (x, w) = f (world st) in (Ret x, st\<lparr>world := w\<rparr>))"

definition modify :: "('w exec \<Rightarrow> 'w exec) \<Rightarrow> (unit, 'w) action" where
  "modify f st = (Ret (), f st)"

text \<open>\<open>exitCode.CompareAndSwap(0, c)\<close>.\<close>

definition swap_exit :: "int \<Rightarrow> 'w exec \<Rightarrow> 'w exec" where
  "swap_exit c st = (if exit_code st = 0 then st\<lparr>exit_code := c\<rparr> else st)"

subsection \<open>The outside\<close>

text \<open>A command that could not be started has no process state; one that ran has an exit code, and
  an error unless it was successful.\<close>

datatype script_run = NotStarted go_error | Finished int "go_error option"

record batch =
  rows :: "string list"
  last_page :: bool
  has_columns :: bool

text \<open>
  \<open>open_file\<close> gives the contents of a query file with the sizes of the reads and whether reading
  ends in an error. \<open>submit\<close> is \<open>Client.Query\<close>: a result handle with query id and info URL, and an
  error. \<open>drain\<close> calls its handler on the batches and returns an error. \<open>stat_path\<close> and
  \<open>list_dir\<close> are \<open>os.Stat\<close> (is it a directory) and \<open>os.ReadDir\<close> (names, with whether each is a
  directory). \<open>regexp_match\<close> is \<open>None\<close> if the expression does not compile. The last fields before
  the settings of the run are the scheduler's: what each of several concurrent streams sees of the
  world, the order in which the streams end, and how their results are interleaved in the channel.
\<close>

record ('c, 'h, 'w, 'g) runtime =
  run_command :: "string \<Rightarrow> string \<Rightarrow> string list \<Rightarrow> 'w \<Rightarrow> script_run \<times> 'w"
  ctx_err :: "'w \<Rightarrow> go_error option \<times> 'w"
  time_now :: "'w \<Rightarrow> int \<times> 'w"
  submit :: "'c \<Rightarrow> string \<Rightarrow> string \<Rightarrow> 'w \<Rightarrow> (('h \<times> string \<times> string) option \<times> go_error option) \<times> 'w"
  drain :: "'h \<Rightarrow> 'w \<Rightarrow> (batch list \<times> go_error option) \<times> 'w"
  create_file :: "string \<Rightarrow> 'w \<Rightarrow> go_error option \<times> 'w"
  on_completion :: "query_result \<Rightarrow> 'w \<Rightarrow> unit \<times> 'w"
  open_file :: "string \<Rightarrow> 'w \<Rightarrow> (go_error + string \<times> nat list \<times> bool) \<times> 'w"
  stat_path :: "string \<Rightarrow> 'w \<Rightarrow> (go_error + bool) \<times> 'w"
  list_dir :: "string \<Rightarrow> 'w \<Rightarrow> (go_error + (string \<times> bool) list) \<times> 'w"
  regexp_match :: "string \<Rightarrow> string \<Rightarrow> bool option"
  new_rand :: "int \<Rightarrow> 'g"
  perm :: "nat \<Rightarrow> 'g \<Rightarrow> nat list \<times> 'g"
  intn :: "nat \<Rightarrow> 'g \<Rightarrow> nat \<times> 'g"
  fork_world :: "nat \<Rightarrow> 'w \<Rightarrow> 'w"
  join_worlds :: "'w \<Rightarrow> 'w list \<Rightarrow> 'w"
  finish_order :: "'w list \<Rightarrow> nat list"
  interleave :: "query_result list list \<Rightarrow> query_result list"
  output_path :: string
  rand_seed :: int
  rand_skip :: int

subsection \<open>Shell scripts\<close>

definition script_env :: "('c, 'h, 'w, 'g) runtime \<Rightarrow> 'c stage \<Rightarrow> string list" where
  "script_env rt s = [''PBENCH_STAGE_ID='' @ stage_id s, ''PBENCH_OUTPUT_DIR='' @ output_path rt]"

text \<open>\<open>*s.AbortOnError || ctx.Err() != nil\<close>.\<close>

definition must_abort :: "('c, 'h, 'w, 'g) runtime \<Rightarrow> 'c stage \<Rightarrow> (bool, 'w) action" where
  "must_abort rt s = load (AbortOnError s) (\<lambda>a.
     if a then give True else chain (outside (ctx_err rt)) (\<lambda>e. give (e \<noteq> None)))"

text \<open>
  \<open>runShellScripts\<close>. The log entry is built before the error is looked at and asks the process
  state for its system time, which panics if the command was not started.
\<close>

fun run_scripts ::
  "('c, 'h, 'w, 'g) runtime \<Rightarrow> 'c stage \<Rightarrow> string list \<Rightarrow> string list \<Rightarrow> (go_error option, 'w) action" where
  "run_scripts rt s extra [] = give None"
| "run_scripts rt s extra (sc # scs) =
     chain (outside (run_command rt (BaseDir s) sc (script_env rt s @ extra))) (\<lambda>r.
       case r of
         NotStarted e \<Rightarrow> (\<lambda>st. (Panic ''nil pointer dereference'', st))
       | Finished code None \<Rightarrow> run_scripts rt s extra scs
       | Finished code (Some e) \<Rightarrow>
           chain (must_abort rt s) (\<lambda>ab.
             if ab then chain (modify (swap_exit code)) (\<lambda>_. give (Some e))
             else run_scripts rt s extra scs))"

subsection \<open>One query\<close>

definition output_file :: "('c, 'h, 'w, 'g) runtime \<Rightarrow> string \<Rightarrow> string \<Rightarrow> string" where
  "output_file rt src e = path_join (output_path rt) src @ e"

text \<open>\<open>saveColumnMetadataFile\<close>, up to the writing of the file.\<close>

definition save_column_metadata ::
  "('c, 'h, 'w, 'g) runtime \<Rightarrow> 'c stage \<Rightarrow> string \<Rightarrow> batch \<Rightarrow> (unit, 'w) action" where
  "save_column_metadata rt s src b = load (SaveColumnMetadata s) (\<lambda>on.
     if \<not> on \<or> \<not> has_columns b then give ()
     else chain (outside (create_file rt (output_file rt src ''.cols.json''))) (\<lambda>e.
       if e \<noteq> None then give ()
       else modify (\<lambda>st. st\<lparr>metadata_files := metadata_files st @ [output_file rt src ''.cols.json'']\<rparr>)))"

text \<open>The handler that \<open>Drain\<close> calls on every batch.\<close>

definition handle_batch ::
  "('c, 'h, 'w, 'g) runtime \<Rightarrow> 'c stage \<Rightarrow> query \<Rightarrow> string \<Rightarrow> batch \<Rightarrow> (unit, 'w) action" where
  "handle_batch rt s q src b =
     chain (modify (\<lambda>st. st\<lparr>cur := (cur st)\<lparr>RowCount := RowCount (cur st) + length (rows b)\<rparr>\<rparr>)) (\<lambda>_.
       if last_page b \<and> SequenceNo q = 0 then save_column_metadata rt s src b else give ())"

fun handle_batches ::
  "('c, 'h, 'w, 'g) runtime \<Rightarrow> 'c stage \<Rightarrow> query \<Rightarrow> string \<Rightarrow> batch list \<Rightarrow> (unit, 'w) action" where
  "handle_batches rt s q src [] = give ()"
| "handle_batches rt s q src (b # bs) =
     chain (handle_batch rt s q src b) (\<lambda>_. handle_batches rt s q src bs)"

text \<open>From the submission of the query on: \<open>src\<close> is its source string and \<open>cl\<close> the client.\<close>

definition drain_query ::
  "('c, 'h, 'w, 'g) runtime \<Rightarrow> 'c stage \<Rightarrow> query \<Rightarrow> string \<Rightarrow> bool \<Rightarrow> 'h \<Rightarrow> (go_error option, 'w) action" where
  "drain_query rt s q src save h =
     chain (outside (drain rt h)) (\<lambda>(bs, e).
     chain (modify (\<lambda>st. if save then st\<lparr>outputs := outputs st @
              [(output_file rt src ''.output'', concat (map rows bs))]\<rparr> else st)) (\<lambda>_.
     chain (handle_batches rt s q src bs) (\<lambda>_.
     chain (\<lambda>st. run_scripts rt s (query_env q (Some (QueryId (cur st))) (map_option err_text e))
              (PostQueryShellScripts s) st) (\<lambda>pe.
     give (join_errs [e, pe])))))"

definition submit_query ::
  "('c, 'h, 'w, 'g) runtime \<Rightarrow> 'c stage \<Rightarrow> query \<Rightarrow> (go_error option, 'w) action" where
  "submit_query rt s q =
     load (query_source_string s q) (\<lambda>src.
     load (Client s) (\<lambda>cl.
     chain (outside (submit rt cl (Text q) src)) (\<lambda>(r, e).
     chain (modify (\<lambda>st. case r of None \<Rightarrow> st
              | Some (h, qid, uri) \<Rightarrow> st\<lparr>cur := (cur st)\<lparr>QueryId := qid, InfoUrl := uri\<rparr>\<rparr>)) (\<lambda>_.
     if e \<noteq> None then give e
     else load (SaveOutput s) (\<lambda>save.
       load (SaveColumnMetadata s) (\<lambda>_.
       chain (if save then outside (create_file rt (output_file rt src ''.output'')) else give None) (\<lambda>fe.
         if fe \<noteq> None then give fe
         else load r (\<lambda>(h, _). drain_query rt s q src save h))))))))"

text \<open>\<open>runQuery\<close> without its deferred function.\<close>

definition query_body ::
  "('c, 'h, 'w, 'g) runtime \<Rightarrow> 'c stage \<Rightarrow> query \<Rightarrow> (go_error option, 'w) action" where
  "query_body rt s q =
     chain (outside (time_now rt)) (\<lambda>t.
     chain (modify (\<lambda>st. st\<lparr>cur := \<lparr>StageId = stage_id s, Query = q, QueryId = [], InfoUrl = [],
              QueryError = None, RowCount = 0, StartTime = t, EndTime = None, Duration = None\<rparr>\<rparr>)) (\<lambda>_.
     chain (outside (ctx_err rt)) (\<lambda>ce.
       if ce \<noteq> None then chain (outside (ctx_err rt)) give
       else chain (run_scripts rt s (query_env q None None) (PreQueryShellScripts s)) (\<lambda>pe.
         if pe \<noteq> None then give pe else submit_query rt s q))))"

text \<open>The deferred function: a panic becomes the error; \<open>ConcludeExecution\<close> takes the time. A query
  uses no fuel.\<close>

definition run_query ::
  "('c, 'h, 'w, 'g) runtime \<Rightarrow> 'c stage \<Rightarrow> query \<Rightarrow> (query_result \<times> go_error option, 'w) action" where
  "run_query rt s q st =
     (let (out, st1) = query_body rt s q st;
          err = (case out of Ret e \<Rightarrow> e | Panic p \<Rightarrow> Some (Plain p) | OutOfFuel \<Rightarrow> Some (Plain []));
          (t, w) = time_now rt (world st1);
          res = (cur st1)\<lparr>QueryError := err, EndTime := Some t, Duration := Some (t - StartTime (cur st1))\<rparr>
      in (Ret (res, err), st1\<lparr>world := w, cur := res\<rparr>))"

text \<open>\<open>saveQueryJsonFile\<close>: the files that its goroutine opens.\<close>

definition save_query_json ::
  "('c, 'h, 'w, 'g) runtime \<Rightarrow> 'c stage \<Rightarrow> query_result \<Rightarrow> (unit, 'w) action" where
  "save_query_json rt s r = load (SaveJson s) (\<lambda>on.
     if (\<not> on \<and> QueryError r = None) \<or> QueryId r = [] then give ()
     else load (query_source_string s (Query r)) (\<lambda>src. modify (\<lambda>st. st\<lparr>json_files := json_files st
            @ [output_file rt src ''.json'']
            @ (if QueryError r = None then [] else [output_file rt src ''.error.json''])\<rparr>)))"

subsection \<open>A batch of queries\<close>

definition expected_rows :: "int list \<Rightarrow> nat \<Rightarrow> int" where
  "expected_rows es k = (if k < length es then es ! k else -1)"

text \<open>One turn of the inner loop: the answer is \<open>abortErr\<close>.\<close>

definition run_once ::
  "('c, 'h, 'w, 'g) runtime \<Rightarrow> 'c stage \<Rightarrow> query \<Rightarrow> (go_error option, 'w) action" where
  "run_once rt s q =
     chain (run_query rt s q) (\<lambda>(r, e).
     chain (outside (on_completion rt r)) (\<lambda>_.
     chain (save_query_json rt s r) (\<lambda>_.
     chain (modify (\<lambda>st. st\<lparr>sent := sent st @ [r]\<rparr>)) (\<lambda>_.
       case e of
         None \<Rightarrow> give None
       | Some err \<Rightarrow> chain (must_abort rt s) (\<lambda>ab.
           if ab then chain (modify (swap_exit 1)) (\<lambda>_. give (Some (OfResult (StageId r) (QueryId r) err)))
           else give None)))))"

fun run_runs ::
  "('c, 'h, 'w, 'g) runtime \<Rightarrow> 'c stage \<Rightarrow> (nat \<Rightarrow> int \<Rightarrow> query) \<Rightarrow> nat \<Rightarrow> nat list \<Rightarrow> (go_error option, 'w) action"
where
  "run_runs rt s mk k [] = give None"
| "run_runs rt s mk k (j # js) =
     chain (\<lambda>st. run_once rt s (mk j (expected_rows (erc st) k)) st) (\<lambda>ab.
       if ab \<noteq> None then give ab else run_runs rt s mk k js)"

text \<open>\<open>runQueries\<close> from query \<open>i\<close> on, of a batch of \<open>n\<close>. \<open>start\<close> is the offset of the batch in the
  array of expected row counts.\<close>

fun run_queries_from ::
  "('c, 'h, 'w, 'g) runtime \<Rightarrow> 'c stage \<Rightarrow> string option \<Rightarrow> nat \<Rightarrow> nat \<Rightarrow> nat \<Rightarrow> string list
     \<Rightarrow> (go_error option, 'w) action" where
  "run_queries_from rt s file start n i [] = give None"
| "run_queries_from rt s file start n i (txt # qs) =
     chain (run_scripts rt s (query_cycle_env file i) (PreQueryCycleShellScripts s)) (\<lambda>pre.
       case pre of
         Some e \<Rightarrow> give (Some (Wrap ''pre-query script execution failed'' e))
       | None \<Rightarrow>
           load (ColdRuns s) (\<lambda>c. load (total_runs s) (\<lambda>r.
           chain (run_runs rt s (\<lambda>j e. batch_query file n c txt e i j) (start + i) [0 ..< nat r]) (\<lambda>ab.
           chain (run_scripts rt s (query_cycle_env file i) (PostQueryCycleShellScripts s)) (\<lambda>post.
             if ab \<noteq> None then give ab
             else case post of
                    Some e \<Rightarrow> give (Some (Wrap ''post-query script execution failed'' e))
                  | None \<Rightarrow> run_queries_from rt s file start n (Suc i) qs)))))"

definition run_queries ::
  "('c, 'h, 'w, 'g) runtime \<Rightarrow> 'c stage \<Rightarrow> string list \<Rightarrow> string option \<Rightarrow> nat \<Rightarrow> (go_error option, 'w) action"
where
  "run_queries rt s qs file start = run_queries_from rt s file start (length qs) 0 qs"

subsection \<open>Query files and sequential execution\<close>

text \<open>The name a query file is reported under.\<close>

definition file_alias :: "'c stage \<Rightarrow> string \<Rightarrow> string" where
  "file_alias s f = (case path_rel (BaseDir s) f of Some r \<Rightarrow> r | None \<Rightarrow> f)"

text \<open>Opening and splitting a query file.\<close>

definition read_queries :: "go_error + string \<times> nat list \<times> bool \<Rightarrow> go_error + string list" where
  "read_queries f =
     (case f of
        Inl e \<Rightarrow> Inl e
      | Inr (input, sizes, fails) \<Rightarrow>
          (case split_queries sizes fails input of
             Some (qs, None) \<Rightarrow> Inr qs
           | _ \<Rightarrow> Inl (Plain ''bufio.Scanner'')))"

text \<open>\<open>runQueryFile\<close>; \<open>start\<close> is \<open>None\<close> for the nil pointer. The answer has the new value of the
  offset that the pointer refers to.\<close>

definition run_query_file ::
  "('c, 'h, 'w, 'g) runtime \<Rightarrow> 'c stage \<Rightarrow> string \<Rightarrow> nat option \<Rightarrow> string option
     \<Rightarrow> (go_error option \<times> nat option, 'w) action" where
  "run_query_file rt s f start alias =
     chain (outside (open_file rt f)) (\<lambda>c.
       case read_queries c of
         Inl e \<Rightarrow> load (AbortOnError s) (\<lambda>ab.
           if ab then chain (modify (swap_exit 1)) (\<lambda>_. give (Some e, start))
           else chain (modify (\<lambda>st. st\<lparr>erc := []\<rparr>)) (\<lambda>_. give (None, start)))
       | Inr qs \<Rightarrow>
           chain (run_queries rt s qs (Some (case alias of Some a \<Rightarrow> a | None \<Rightarrow> file_alias s f))
                    (case start of Some k \<Rightarrow> k | None \<Rightarrow> 0)) (\<lambda>e.
           give (e, map_option (\<lambda>k. k + length qs) start)))"

text \<open>The array of expected row counts: the exact name of catalog and schema, the schema alone, or
  the first key in the order of the iteration that is a matching regular expression.\<close>

definition nil_list :: "'a list option \<Rightarrow> 'a list" where
  "nil_list v = (case v of None \<Rightarrow> [] | Some xs \<Rightarrow> xs)"

definition match_expected ::
  "('c, 'h, 'w, 'g) runtime \<Rightarrow> 'c stage \<Rightarrow> int list \<Rightarrow> int list" where
  "match_expected rt s old =
     (let key = currentCatalog s @ ''.'' @ currentSchema s; m = entries (ExpectedRowCounts s)
      in case map_of m key of
           Some v \<Rightarrow> nil_list v
         | None \<Rightarrow>
           (case map_of m (currentSchema s) of
              Some v \<Rightarrow> nil_list v
            | None \<Rightarrow>
              (case find (\<lambda>(k, v). regexp_match rt k key = Some True) m of
                 Some (k, v) \<Rightarrow> nil_list v
               | None \<Rightarrow> old)))"

fun run_files ::
  "('c, 'h, 'w, 'g) runtime \<Rightarrow> 'c stage \<Rightarrow> nat option \<Rightarrow> string list \<Rightarrow> (go_error option, 'w) action" where
  "run_files rt s start [] = give None"
| "run_files rt s start (f # fs) =
     chain (run_query_file rt s f start None) (\<lambda>(e, start').
       if e \<noteq> None then give e else run_files rt s start' fs)"

definition run_sequentially ::
  "('c, 'h, 'w, 'g) runtime \<Rightarrow> 'c stage \<Rightarrow> (go_error option, 'w) action" where
  "run_sequentially rt s =
     chain (modify (\<lambda>st. st\<lparr>erc := match_expected rt s (erc st)\<rparr>)) (\<lambda>_.
     chain (run_queries rt s (Queries s) None 0) (\<lambda>e.
       if e \<noteq> None then give e
       else run_files rt s (Some (length (Queries s))) (QueryFiles s)))"

subsection \<open>Random execution\<close>

text \<open>\<open>continueExecution\<close>: until a time or for a number of queries.\<close>

datatype until = UntilTime int | UntilCount int

definition continue_execution :: "('c, 'h, 'w, 'g) runtime \<Rightarrow> until \<Rightarrow> nat \<Rightarrow> (bool, 'w) action" where
  "continue_execution rt u i =
     (case u of
        UntilTime t \<Rightarrow> chain (outside (time_now rt)) (\<lambda>now. give (now < t))
      | UntilCount c \<Rightarrow> give (int i \<le> c))"

text \<open>The variables \<open>indices\<close> (\<open>None\<close> is nil) and \<open>pos\<close> and the generator.\<close>

record 'g picker =
  indices :: "nat list option"
  pos :: nat
  gen :: 'g

text \<open>\<open>nextIndex\<close>. \<open>None\<close> is an index out of range.\<close>

definition next_index ::
  "('c, 'h, 'w, 'g) runtime \<Rightarrow> bool \<Rightarrow> nat \<Rightarrow> 'g picker \<Rightarrow> nat option \<times> 'g picker" where
  "next_index rt nodup tot p =
     (if nodup then
        (let p1 = (case indices p of
                     Some xs \<Rightarrow> if pos p < length xs then p
                                else (let (ys, g) = perm rt tot (gen p)
                                      in p\<lparr>indices := Some ys, pos := 0, gen := g\<rparr>)
                   | None \<Rightarrow> (let (ys, g) = perm rt tot (gen p)
                              in p\<lparr>indices := Some ys, pos := 0, gen := g\<rparr>));
             xs = nil_list (indices p1)
         in (if pos p1 < length xs then Some (xs ! pos p1) else None, p1\<lparr>pos := pos p1 + 1\<rparr>))
      else (let (x, g) = intn rt tot (gen p) in (Some x, p\<lparr>gen := g\<rparr>)))"

text \<open>The execution of selection number \<open>i\<close>, the query or query file \<open>idx\<close>.\<close>

definition run_selection ::
  "('c, 'h, 'w, 'g) runtime \<Rightarrow> 'c stage \<Rightarrow> nat \<Rightarrow> nat \<Rightarrow> (go_error option, 'w) action" where
  "run_selection rt s i idx =
     (if idx < length (Queries s)
      then run_queries rt s [Queries s ! idx] (Some (rand_alias_inline i)) 0
      else if idx - length (Queries s) < length (QueryFiles s)
      then (let f = QueryFiles s ! (idx - length (Queries s))
            in chain (run_query_file rt s f None (Some (rand_alias_file i (file_alias s f)))) (\<lambda>(e, _). give e))
      else (\<lambda>st. (Panic ''index out of range'', st)))"

text \<open>The loop, with fuel: an execution until a time ends when the clock says so.\<close>

fun random_loop ::
  "nat \<Rightarrow> ('c, 'h, 'w, 'g) runtime \<Rightarrow> 'c stage \<Rightarrow> until \<Rightarrow> nat \<Rightarrow> 'g picker \<Rightarrow> (go_error option, 'w) action"
where
  "random_loop 0 rt s u i p = (\<lambda>st. (OutOfFuel, st))"
| "random_loop (Suc k) rt s u i p =
     chain (continue_execution rt u i) (\<lambda>go.
       if \<not> go then give None
       else load (NoRandomDuplicates s) (\<lambda>nodup. case next_index rt nodup (length (Queries s) + length (QueryFiles s)) p of
               (None, p') \<Rightarrow> (\<lambda>st. (Panic ''index out of range'', st))
             | (Some idx, p') \<Rightarrow>
                 if int i \<le> rand_skip rt then random_loop k rt s u (i + 1) p'
                 else chain (run_selection rt s i idx) (\<lambda>e.
                   if e \<noteq> None then give e else random_loop k rt s u (i + 1) p')))"

definition run_randomly ::
  "nat \<Rightarrow> ('c, 'h, 'w, 'g) runtime \<Rightarrow> 'c stage \<Rightarrow> int \<Rightarrow> (go_error option, 'w) action" where
  "run_randomly k rt s seed =
     (case RandomlyExecuteUntil s of
        None \<Rightarrow> give (Some (Plain ''random_execution is true but randomly_execute_until is not set''))
      | Some txt \<Rightarrow>
        (let start = (\<lambda>u. chain (modify (\<lambda>st. st\<lparr>rand_seed_used := True\<rparr>)) (\<lambda>_.
               random_loop k rt s u 1 \<lparr>indices = None, pos = 0, gen = new_rand rt seed\<rparr>))
         in case parse_duration txt of
              Some d \<Rightarrow> chain (outside (time_now rt)) (\<lambda>now. start (UntilTime (now + d)))
            | None \<Rightarrow>
              (case atoi txt of
                 Some c \<Rightarrow> start (UntilCount c)
               | None \<Rightarrow> load (AbortOnError s) (\<lambda>ab.
                   if ab then chain (modify (swap_exit 2)) (\<lambda>_.
                     give (Some (Plain (''failed to parse randomly_execute_until '' @ txt))))
                   else give None))))"

subsection \<open>Directories among the query files\<close>

text \<open>\<open>expandQueryFileDirs\<close>. The code builds a new list only from the first directory on; the list
  it ends with is the same.\<close>

fun expand_query_files ::
  "('c, 'h, 'w, 'g) runtime \<Rightarrow> string list \<Rightarrow> (go_error + string list, 'w) action" where
  "expand_query_files rt [] = give (Inr [])"
| "expand_query_files rt (f # fs) =
     chain (outside (stat_path rt f)) (\<lambda>i.
       case i of
         Inl e \<Rightarrow> give (Inl (Wrap (''query file '' @ f) e))
       | Inr False \<Rightarrow> chain (expand_query_files rt fs) (\<lambda>r. give (map_sum id ((#) f) r))
       | Inr True \<Rightarrow>
           chain (outside (list_dir rt f)) (\<lambda>l.
             case l of
               Inl e \<Rightarrow> give (Inl (Wrap (''query file directory '' @ f) e))
             | Inr es \<Rightarrow> chain (expand_query_files rt fs) (\<lambda>r.
                 give (map_sum id ((@) (map (\<lambda>(n, _). path_join f n) (filter (\<lambda>(_, d). \<not> d) es))) r))))"

definition expand_query_file_dirs ::
  "('c, 'h, 'w, 'g) runtime \<Rightarrow> 'c stage \<Rightarrow> (go_error option \<times> 'c stage, 'w) action" where
  "expand_query_file_dirs rt s =
     chain (expand_query_files rt (QueryFiles s)) (\<lambda>r.
       case r of Inl e \<Rightarrow> give (Some e, s) | Inr fs \<Rightarrow> give (None, s\<lparr>QueryFiles := fs\<rparr>))"

subsection \<open>Several streams, and a whole stage\<close>

definition run_mode :: "nat \<Rightarrow> ('c, 'h, 'w, 'g) runtime \<Rightarrow> 'c stage \<Rightarrow> int \<Rightarrow> (go_error option, 'w) action" where
  "run_mode k rt s seed = load (RandomExecution s) (\<lambda>random.
     if random then run_randomly k rt s seed else run_sequentially rt s)"

text \<open>
  One stream. The streams share the exit code and the channel only, and both only through atomic
  operations, so a stream is run on a state of its own, with an exit code of its own: the first
  code of a stream that is not zero is what it offers to the shared one.
\<close>

definition run_stream ::
  "nat \<Rightarrow> ('c, 'h, 'w, 'g) runtime \<Rightarrow> 'c stage \<Rightarrow> 'w exec \<Rightarrow> nat \<Rightarrow> go_error option outcome \<times> 'w exec" where
  "run_stream k rt s st i =
     run_mode k rt (new_stream_instance s i) (go_add (rand_seed rt) (int i * 1000))
       (st\<lparr>world := fork_world rt i (world st), erc := [], exit_code := 0, sent := [], outputs := [],
           metadata_files := [], json_files := [], rand_seed_used := False\<rparr>)"

definition join_streams ::
  "('c, 'h, 'w, 'g) runtime \<Rightarrow> 'w exec \<Rightarrow> 'w exec list \<Rightarrow> 'w exec" where
  "join_streams rt st sts =
     fold (\<lambda>i. swap_exit (exit_code (sts ! i))) (finish_order rt (map world sts))
       (st\<lparr>world := join_worlds rt (world st) (map world sts),
           sent := sent st @ interleave rt (map sent sts),
           outputs := outputs st @ concat (map outputs sts),
           metadata_files := metadata_files st @ concat (map metadata_files sts),
           json_files := json_files st @ concat (map json_files sts),
           rand_seed_used := (rand_seed_used st \<or> list_ex rand_seed_used sts)\<rparr>)"

fun outcome_error :: "go_error option outcome \<Rightarrow> go_error option" where
  "outcome_error (Ret e) = e"
| "outcome_error _ = None"

fun bad_outcome :: "'a outcome \<Rightarrow> bool" where
  "bad_outcome (Ret e) = False"
| "bad_outcome _ = True"

definition run_as_multiple_streams ::
  "nat \<Rightarrow> ('c, 'h, 'w, 'g) runtime \<Rightarrow> 'c stage \<Rightarrow> nat \<Rightarrow> (go_error option, 'w) action" where
  "run_as_multiple_streams k rt s n st =
     (let rs = map (run_stream k rt s st) [0 ..< n];
          sts = map snd rs;
          st' = join_streams rt st sts
      in case find (bad_outcome \<circ> fst) rs of
           Some (Panic p, _) \<Rightarrow> (Panic p, st')
         | Some _ \<Rightarrow> (OutOfFuel, st')
         | None \<Rightarrow> (Ret (join_errs (map (\<lambda>i. outcome_error (fst (rs ! i)))
                                     (finish_order rt (map world sts)))), st'))"

text \<open>\<open>run\<close> after the preparation of the stage.\<close>

definition run_stage_queries ::
  "nat \<Rightarrow> ('c, 'h, 'w, 'g) runtime \<Rightarrow> 'c stage \<Rightarrow> (go_error option, 'w) action" where
  "run_stage_queries k rt s =
     (if Queries s = [] \<and> QueryFiles s = [] then give None
      else case StreamCount s of
             Some n \<Rightarrow> if 1 < n then run_as_multiple_streams k rt s (nat n)
                       else run_mode k rt s (rand_seed rt)
           | None \<Rightarrow> run_mode k rt s (rand_seed rt))"

definition run_stage_body ::
  "nat \<Rightarrow> ('c, 'h, 'w, 'g) runtime \<Rightarrow> 'c stage \<Rightarrow> (go_error option, 'w) action" where
  "run_stage_body k rt s =
     chain (run_scripts rt s [] (PreStageShellScripts s)) (\<lambda>pre.
       case pre of
         Some e \<Rightarrow> give (Some (Wrap ''pre-stage script execution failed'' e))
       | None \<Rightarrow> chain (expand_query_file_dirs rt s) (\<lambda>(xe, s').
           case xe of
             Some e \<Rightarrow> give (Some (Wrap ''failed to expand query file directories'' e))
           | None \<Rightarrow> chain (run_stage_queries k rt s') (\<lambda>e.
               chain (run_scripts rt s' [] (PostStageShellScripts s')) (\<lambda>pe.
                 give (join_errs [e, pe])))))"

section \<open>Rules for actions\<close>

text \<open>
  What a function of this file may change is a relation between the state before and after. The
  locale \<open>script_frame\<close> takes a relation that scripts respect, \<open>body_frame\<close> one that the steps of one
  query respect, \<open>exec_frame\<close> one that all steps respect; every function of the file then respects
  it.
\<close>

definition within_rel :: "('w exec \<Rightarrow> 'w exec \<Rightarrow> bool) \<Rightarrow> ('a, 'w) action \<Rightarrow> bool" where
  "within_rel R a \<longleftrightarrow> (\<forall>st. R st (snd (a st)))"

lemma within_relD: "within_rel R a \<Longrightarrow> a st = (out, st') \<Longrightarrow> R st st'"
  unfolding within_rel_def by (metis snd_conv)

locale script_frame =
  fixes R :: "'w exec \<Rightarrow> 'w exec \<Rightarrow> bool"
  assumes refl: "R st st"
    and trans: "R st1 st2 \<Longrightarrow> R st2 st3 \<Longrightarrow> R st1 st3"
    and world: "R st (st\<lparr>world := w\<rparr>)"
    and exit: "R st (swap_exit c st)"
begin

lemma give: "within_rel R (give x)"
  by (simp add: within_rel_def give_def refl)

lemma panic: "within_rel R (\<lambda>st. (Panic p, st))"
  by (simp add: within_rel_def refl)

lemma outside: "within_rel R (outside f)"
  by (simp add: within_rel_def outside_def world split: prod.split)

lemma load: "(\<And>x. p = Some x \<Longrightarrow> within_rel R (f x)) \<Longrightarrow> within_rel R (load p f)"
  by (cases p) (auto simp: within_rel_def load_def refl)

lemma chain: "within_rel R a \<Longrightarrow> (\<And>x. within_rel R (f x)) \<Longrightarrow> within_rel R (chain a f)"
  unfolding within_rel_def
proof (intro allI)
  fix st
  assume a: "\<forall>st. R st (snd (a st))" and f: "\<And>x. \<forall>st. R st (snd (f x st))"
  obtain out st1 where 1: "a st = (out, st1)" by (cases "a st")
  with a have "R st st1" by (metis snd_conv)
  with f show "R st (snd (chain a f st))"
    by (cases out) (auto simp: chain_def 1 intro: trans)
qed

lemma modify: "(\<And>st. R st (g st)) \<Longrightarrow> within_rel R (modify g)"
  by (simp add: within_rel_def modify_def)

lemma at_state: "(\<And>x. within_rel R (f x)) \<Longrightarrow> within_rel R (\<lambda>st. f (g st) st)"
  by (simp add: within_rel_def)

lemmas frame_rules = give panic outside load chain modify exit

lemma must_abort: "within_rel R (must_abort rt s)"
  unfolding must_abort_def by (intro frame_rules) (auto intro!: frame_rules)

lemma run_scripts: "within_rel R (run_scripts rt s extra scs)"
proof (induction scs)
  case Nil
  then show ?case by (simp add: give)
next
  case (Cons sc scs)
  show ?case
    unfolding run_scripts.simps
    by (rule chain, rule outside) (auto split: script_run.split option.split
        intro!: frame_rules must_abort Cons.IH)
qed

end

locale body_frame = script_frame +
  assumes count_rows: "R st (st\<lparr>cur := (cur st)\<lparr>RowCount := n\<rparr>\<rparr>)"
    and set_ids: "R st (st\<lparr>cur := (cur st)\<lparr>QueryId := i, InfoUrl := u\<rparr>\<rparr>)"
    and set_outputs: "R st (st\<lparr>outputs := os\<rparr>)"
    and set_metadata: "R st (st\<lparr>metadata_files := ms\<rparr>)"
begin

lemma save_column_metadata: "within_rel R (save_column_metadata rt s src b)"
  unfolding save_column_metadata_def by (auto intro!: frame_rules set_metadata)

lemma handle_batches: "within_rel R (handle_batches rt s q src bs)"
  by (induction bs) (auto simp: handle_batch_def intro!: frame_rules count_rows save_column_metadata)

lemma drain_query: "within_rel R (drain_query rt s q src save h)"
  unfolding drain_query_def
  by (auto intro!: frame_rules handle_batches set_outputs refl
      at_state [where f = "\<lambda>i. run_scripts rt s (query_env q (Some i) e) scs" for e scs]
      run_scripts)

lemma submit_query: "within_rel R (submit_query rt s q)"
  unfolding submit_query_def
  by (auto intro!: frame_rules drain_query set_ids refl split: option.split)

end

locale exec_frame = body_frame +
  assumes any_cur: "R st (st\<lparr>cur := r\<rparr>)"
    and send: "R st (st\<lparr>sent := sent st @ rs\<rparr>)"
    and set_erc: "R st (st\<lparr>erc := es\<rparr>)"
    and set_json: "R st (st\<lparr>json_files := js\<rparr>)"
    and set_seed: "R st (st\<lparr>rand_seed_used := b\<rparr>)"
begin

lemma query_body: "within_rel R (query_body rt s q)"
  unfolding query_body_def
  by (auto intro!: frame_rules any_cur run_scripts submit_query)

lemma run_query: "within_rel R (run_query rt s q)"
  unfolding within_rel_def
proof (intro allI)
  fix st
  obtain out st1 where b: "query_body rt s q st = (out, st1)" by (cases "query_body rt s q st")
  have "R st st1" using within_relD [OF query_body b] .
  moreover obtain t w where "time_now rt (world st1) = (t, w)" by (cases "time_now rt (world st1)")
  ultimately show "R st (snd (run_query rt s q st))"
    using trans [OF trans [OF _ world] any_cur, of st st1]
    by (simp add: run_query_def b Let_def)
qed

lemma run_once: "within_rel R (run_once rt s q)"
  unfolding run_once_def save_query_json_def
  by (auto intro!: frame_rules run_query must_abort set_json send split: option.split)

lemma run_runs: "within_rel R (run_runs rt s mk k js)"
proof (induction js)
  case Nil
  then show ?case by (simp add: give)
next
  case (Cons j js)
  have "within_rel R (\<lambda>st. run_once rt s (mk j (expected_rows (erc st) k)) st)"
    by (rule at_state [where f = "\<lambda>e. run_once rt s (mk j e)"]) (rule run_once)
  with Cons show ?case by (auto intro!: frame_rules)
qed

lemma run_queries_from: "within_rel R (run_queries_from rt s file start n i qs)"
proof (induction qs arbitrary: i)
  case Nil
  then show ?case by (simp add: give)
next
  case (Cons q qs)
  then show ?case by (auto intro!: frame_rules run_scripts run_runs split: option.split)
qed

lemma run_queries: "within_rel R (run_queries rt s qs file start)"
  by (simp add: run_queries_def run_queries_from)

lemma run_query_file: "within_rel R (run_query_file rt s f start alias)"
  unfolding run_query_file_def
  by (auto intro!: frame_rules run_queries set_erc split: sum.split)

lemma run_files: "within_rel R (run_files rt s start fs)"
  by (induction fs arbitrary: start) (auto intro!: frame_rules run_query_file)

lemma run_sequentially: "within_rel R (run_sequentially rt s)"
  unfolding run_sequentially_def
  by (auto intro!: frame_rules set_erc run_queries run_files)

lemma run_selection: "within_rel R (run_selection rt s i idx)"
  unfolding run_selection_def Let_def
  by (auto intro!: frame_rules run_queries run_query_file)

lemma random_loop: "within_rel R (random_loop k rt s u i p)"
proof (induction k arbitrary: i p)
  case 0
  then show ?case by (simp add: within_rel_def refl)
next
  case (Suc k)
  then show ?case
    by (auto simp: continue_execution_def
        intro!: frame_rules run_selection split: until.split option.split prod.split)
qed

lemma run_randomly: "within_rel R (run_randomly k rt s seed)"
  unfolding run_randomly_def Let_def
  by (auto intro!: frame_rules set_seed random_loop split: option.split)

lemma run_mode: "within_rel R (run_mode k rt s seed)"
  unfolding run_mode_def by (auto intro!: frame_rules run_randomly run_sequentially)

lemma swaps: "R st (fold (\<lambda>i. swap_exit (c i)) ks st)"
  by (induction ks arbitrary: st) (auto intro: refl trans exit)

lemma join_streams: "R st (join_streams rt st sts)"
  unfolding join_streams_def
  by (rule trans [OF _ swaps])
    (rule trans [OF trans [OF trans [OF trans [OF trans [OF world send] set_outputs] set_metadata]
       set_json] set_seed, of st, simplified])

lemma run_as_multiple_streams: "within_rel R (run_as_multiple_streams k rt s n)"
  unfolding within_rel_def run_as_multiple_streams_def Let_def
  by (auto intro: join_streams split: option.split outcome.split)

lemma run_stage_queries: "within_rel R (run_stage_queries k rt s)"
  unfolding run_stage_queries_def
  by (auto intro!: frame_rules run_mode run_as_multiple_streams split: option.split)

lemma expand_query_files: "within_rel R (expand_query_files rt fs)"
  by (induction fs) (auto intro!: frame_rules split: sum.split bool.split)

lemma run_stage_body: "within_rel R (run_stage_body k rt s)"
  unfolding run_stage_body_def expand_query_file_dirs_def
  by (auto intro!: frame_rules run_scripts expand_query_files run_stage_queries
      split: option.split sum.split)

end

section \<open>What is kept\<close>

text \<open>A query leaves everything alone but the world, the exit code, its own result and the names of
  output and metadata files.\<close>

definition same_run :: "'w exec \<Rightarrow> 'w exec \<Rightarrow> bool" where
  "same_run st st' \<longleftrightarrow> sent st' = sent st \<and> erc st' = erc st \<and> json_files st' = json_files st
     \<and> rand_seed_used st' = rand_seed_used st \<and> StageId (cur st') = StageId (cur st)
     \<and> Query (cur st') = Query (cur st) \<and> StartTime (cur st') = StartTime (cur st)"

text \<open>The exit code of the run is set at most once.\<close>

definition exit_sticky :: "'w exec \<Rightarrow> 'w exec \<Rightarrow> bool" where
  "exit_sticky st st' \<longleftrightarrow> (exit_code st \<noteq> 0 \<longrightarrow> exit_code st' = exit_code st)"

text \<open>Results that have been sent stay sent.\<close>

definition sent_grows :: "'w exec \<Rightarrow> 'w exec \<Rightarrow> bool" where
  "sent_grows st st' \<longleftrightarrow> prefix (sent st) (sent st')"

interpretation body: body_frame same_run
  by unfold_locales (simp_all add: same_run_def swap_exit_def)

interpretation sticky: exec_frame exit_sticky
  by unfold_locales (auto simp: exit_sticky_def swap_exit_def)

interpretation sending: exec_frame sent_grows
  by unfold_locales (auto simp: sent_grows_def swap_exit_def intro: prefix_order.trans)

lemma chain_Ret:
  "chain m f st = (Ret y, st2) \<longleftrightarrow> (\<exists>x st1. m st = (Ret x, st1) \<and> f x st1 = (Ret y, st2))"
  by (auto simp: chain_def split: prod.split outcome.split)

lemma chain_bad:
  "bad_outcome out \<Longrightarrow> chain m f st = (out, st2) \<longleftrightarrow>
     (\<exists>o1. m st = (o1, st2) \<and> bad_outcome o1 \<and>
        ((\<exists>p. o1 = Panic p \<and> out = Panic p) \<or> (o1 = OutOfFuel \<and> out = OutOfFuel)))
     \<or> (\<exists>x st1. m st = (Ret x, st1) \<and> f x st1 = (out, st2))"
  by (auto simp: chain_def split: prod.split outcome.split)

text \<open>\<open>runQuery\<close> never panics; its result carries the error it returns.\<close>

lemma run_query_result:
  obtains r e st1 where "run_query rt s q st = (Ret (r, e), st1)"
    and "QueryError r = e" and "Query r = q" and "StageId r = stage_id s"
    and "\<exists>t. EndTime r = Some t \<and> Duration r = Some (t - StartTime r)"
    and "cur st1 = r" and "sent st1 = sent st" and "erc st1 = erc st"
proof -
  obtain t w where t: "time_now rt (world st) = (t, w)" by (cases "time_now rt (world st)")
  define st0 where "st0 = st\<lparr>world := w, cur := \<lparr>StageId = stage_id s, Query = q, QueryId = [], InfoUrl = [],
      QueryError = None, RowCount = 0, StartTime = t, EndTime = None, Duration = None\<rparr>\<rparr>"
  define rest where "rest = chain (outside (ctx_err rt)) (\<lambda>ce.
       if ce \<noteq> None then chain (outside (ctx_err rt)) give
       else chain (run_scripts rt s (query_env q None None) (PreQueryShellScripts s)) (\<lambda>pe.
         if pe \<noteq> None then give pe else submit_query rt s q))"
  have q: "query_body rt s q st = rest st0"
    by (simp add: query_body_def rest_def st0_def chain_def outside_def modify_def t)
  obtain out st1 where b: "rest st0 = (out, st1)" by (cases "rest st0")
  have "within_rel same_run rest"
    unfolding rest_def
    by (auto intro!: body.frame_rules body.run_scripts body.submit_query)
  then have "same_run st0 st1" using b by (rule within_relD)
  then have keep: "Query (cur st1) = q" "StageId (cur st1) = stage_id s" "sent st1 = sent st" "erc st1 = erc st"
    by (simp_all add: same_run_def st0_def)
  obtain t' w' where t': "time_now rt (world st1) = (t', w')" by (cases "time_now rt (world st1)")
  let ?e = "case out of Ret e \<Rightarrow> e | Panic p \<Rightarrow> Some (Plain p) | OutOfFuel \<Rightarrow> Some (Plain [])"
  let ?r = "(cur st1)\<lparr>QueryError := ?e, EndTime := Some t', Duration := Some (t' - StartTime (cur st1))\<rparr>"
  have "run_query rt s q st = (Ret (?r, ?e), st1\<lparr>world := w', cur := ?r\<rparr>)"
    by (simp add: run_query_def q b Let_def t')
  then show thesis by (rule that) (simp_all add: keep)
qed

lemma chain_step: "m st = (Ret x, st1) \<Longrightarrow> chain m f st = f x st1"
  by (simp add: chain_def)

lemma chainE:
  assumes "chain m f st = (out, st2)"
  obtains (goes) x st1 where "m st = (Ret x, st1)" "f x st1 = (out, st2)"
  | (stops) o1 where "m st = (o1, st2)" "bad_outcome o1" "bad_outcome out"
  using assms by (auto simp: chain_def split: prod.splits outcome.splits)

text \<open>Steps that send nothing and leave the expected row counts alone.\<close>

definition quiet :: "'w exec \<Rightarrow> 'w exec \<Rightarrow> bool" where
  "quiet st st' \<longleftrightarrow> sent st' = sent st \<and> erc st' = erc st"

interpretation quietly: body_frame quiet
  by unfold_locales (simp_all add: quiet_def swap_exit_def)

lemma save_query_json_quiet: "within_rel quiet (save_query_json rt s r)"
  unfolding save_query_json_def
  by (auto intro!: quietly.frame_rules simp: quiet_def)

text \<open>The decision after a failed query: to abort, with an exit code, or to go on.\<close>

definition decide :: "('c, 'h, 'w, 'g) runtime \<Rightarrow> 'c stage \<Rightarrow> query_result \<Rightarrow> go_error \<Rightarrow> (go_error option, 'w) action" where
  "decide rt s r err = chain (must_abort rt s) (\<lambda>ab.
     if ab then chain (modify (swap_exit 1)) (\<lambda>_. give (Some (OfResult (StageId r) (QueryId r) err)))
     else give None)"

lemma decide_quiet: "within_rel quiet (decide rt s r err)"
  unfolding decide_def
  by (auto intro!: quietly.frame_rules quietly.must_abort)

lemma decide_exit:
  "decide rt s r err st = (Ret (Some e), st') \<Longrightarrow> exit_code st' \<noteq> 0 \<and> e = OfResult (StageId r) (QueryId r) err"
  unfolding decide_def
  by (erule chainE; auto simp: chain_def modify_def give_def swap_exit_def split: if_splits)

lemma decide_abort:
  "AbortOnError s = Some True \<Longrightarrow>
     decide rt s r err st = (Ret (Some (OfResult (StageId r) (QueryId r) err)), swap_exit 1 st)"
  by (simp add: decide_def must_abort_def chain_def load_def modify_def give_def)

lemma swap_exit_nonzero [simp]: "c \<noteq> 0 \<Longrightarrow> exit_code (swap_exit c st) \<noteq> 0"
  by (simp add: swap_exit_def)

lemma run_once_decide:
  "run_once rt s q = chain (run_query rt s q) (\<lambda>(r, e).
     chain (outside (on_completion rt r)) (\<lambda>_. chain (save_query_json rt s r) (\<lambda>_.
     chain (modify (\<lambda>st. st\<lparr>sent := sent st @ [r]\<rparr>)) (\<lambda>_.
       case e of None \<Rightarrow> give None | Some err \<Rightarrow> decide rt s r err))))"
  unfolding run_once_def decide_def by (rule refl)

lemma run_once_sent:
  assumes "run_once rt s q st = (out, st')"
  shows "\<exists>rs. sent st' = sent st @ rs \<and> erc st' = erc st
     \<and> prefix (map Query rs) [q] \<and> (\<not> bad_outcome out \<longrightarrow> map Query rs = [q])
     \<and> list_all (\<lambda>r. StageId r = stage_id s) rs
     \<and> (\<forall>e. out = Ret (Some e) \<longrightarrow> rs \<noteq> [] \<and> QueryError (last rs) \<noteq> None \<and> exit_code st' \<noteq> 0
          \<and> e = OfResult (StageId (last rs)) (QueryId (last rs)) (the (QueryError (last rs))))
     \<and> (AbortOnError s = Some True \<and> rs \<noteq> [] \<and> QueryError (last rs) \<noteq> None \<longrightarrow>
          (\<exists>e. out = Ret (Some e)) \<and> exit_code st' \<noteq> 0)"
proof -
  obtain r e st0 where q: "run_query rt s q st = (Ret (r, e), st0)"
    and r: "QueryError r = e" "Query r = q" "StageId r = stage_id s"
    and same: "sent st0 = sent st" "erc st0 = erc st"
    by (rule run_query_result)
  have k: "quiet st st0" using same by (simp add: quiet_def)
  define after where "after = (case e of None \<Rightarrow> give None | Some err \<Rightarrow> decide rt s r err)"
  have "chain (outside (on_completion rt r)) (\<lambda>_. chain (save_query_json rt s r) (\<lambda>_.
      chain (modify (\<lambda>st. st\<lparr>sent := sent st @ [r]\<rparr>)) (\<lambda>_. after))) st0 = (out, st')"
    using assms unfolding run_once_decide chain_step [where m = "run_query rt s q", OF q] after_def by simp
  then show ?thesis
  proof (cases rule: chainE)
    case (goes x st1)
    then have k1: "quiet st st1"
      using within_relD [OF quietly.outside] quietly.trans k by blast
    from goes(2) show ?thesis
    proof (cases rule: chainE)
      case (goes y st2)
      then have k2: "quiet st st2"
        using within_relD [OF save_query_json_quiet] quietly.trans k1 by blast
      have a: "after (st2\<lparr>sent := sent st2 @ [r]\<rparr>) = (out, st')"
        using goes(2) by (simp add: chain_def modify_def)
      have "within_rel quiet after"
        unfolding after_def by (cases e) (simp_all add: quietly.give decide_quiet)
      from within_relD [OF this a] k2 have "sent st' = sent st @ [r]" "erc st' = erc st"
        by (simp_all add: quiet_def)
      moreover have "e \<noteq> None \<and> exit_code st' \<noteq> 0 \<and> e' = OfResult (StageId r) (QueryId r) (the e)"
        if "out = Ret (Some e')" for e'
        using a that by (cases e) (auto simp: after_def give_def dest: decide_exit)
      moreover have "(\<exists>e'. out = Ret (Some e')) \<and> exit_code st' \<noteq> 0" if "AbortOnError s = Some True" "e \<noteq> None"
        using a that by (auto simp: after_def decide_abort)
      ultimately show ?thesis using r by auto
    next
      case (stops o1)
      then have "quiet st st'"
        using within_relD [OF save_query_json_quiet] quietly.trans k1 by blast
      with stops show ?thesis by (auto simp: quiet_def intro!: exI [of _ "[]"])
    qed
  next
    case (stops o1)
    then show ?thesis by (auto simp: outside_def split: prod.splits)
  qed
qed

text \<open>The queries that a batch plans: \<open>c\<close> cold runs of \<open>r\<close> runs each, expected row counts \<open>es\<close>.\<close>

fun planned :: "int \<Rightarrow> nat \<Rightarrow> int list \<Rightarrow> string option \<Rightarrow> nat \<Rightarrow> nat \<Rightarrow> nat \<Rightarrow> string list \<Rightarrow> query list" where
  "planned c r es file start n i [] = []"
| "planned c r es file start n i (t # qs) =
     map (\<lambda>j. batch_query file n c t (expected_rows es (start + i)) i j) [0 ..< r]
     @ planned c r es file start n (Suc i) qs"

text \<open>Scripts: quiet, and the exit code sticks.\<close>

definition quiet_exit :: "'w exec \<Rightarrow> 'w exec \<Rightarrow> bool" where
  "quiet_exit st st' \<longleftrightarrow> quiet st st' \<and> exit_sticky st st'"

interpretation scripts: script_frame quiet_exit
  by unfold_locales (auto simp: quiet_exit_def quiet_def exit_sticky_def swap_exit_def)

text \<open>
  Reasoning about a batch, once and for all: a relation between the queries that a function plans,
  the states around it and whether it ended without an error. If one run respects the relation and
  the relation can be composed, the whole batch respects it.
\<close>

locale batch_rel =
  fixes F :: "query list \<Rightarrow> 'w exec \<Rightarrow> 'w exec \<Rightarrow> bool \<Rightarrow> bool"
    and rt :: "('c, 'h, 'w, 'g) runtime"
    and s :: "'c stage"
  assumes once: "run_once rt s q st = (out, st') \<Longrightarrow> F [q] st st' (out = Ret None)"
    and none: "F [] st st True"
    and append: "F p1 st st1 True \<Longrightarrow> F p2 st1 st2 full \<Longrightarrow> F (p1 @ p2) st st2 full"
    and cut: "F p st st' full \<Longrightarrow> F (p @ q') st st' False"
    and before: "quiet_exit st st1 \<Longrightarrow> F p st1 st2 full \<Longrightarrow> F p st st2 full"
    and after: "F p st st1 full \<Longrightarrow> quiet_exit st1 st2 \<Longrightarrow> F p st st2 full"
    and same_erc: "F p st st' full \<Longrightarrow> erc st' = erc st"
begin

lemma early: "quiet_exit st st' \<Longrightarrow> F p st st' False"
  using cut [OF after [OF none]] by fastforce

lemma runs:
  "run_runs rt s mk k js st = (out, st') \<Longrightarrow>
     F (map (\<lambda>j. mk j (expected_rows (erc st) k)) js) st st' (out = Ret None)"
proof (induction js arbitrary: st)
  case Nil
  then show ?case by (auto simp: give_def none)
next
  case (Cons j js)
  let ?q = "\<lambda>j. mk j (expected_rows (erc st) k)"
  from Cons.prems have "chain (\<lambda>st. run_once rt s (mk j (expected_rows (erc st) k)) st)
      (\<lambda>ab. if ab \<noteq> None then give ab else run_runs rt s mk k js) st = (out, st')" by simp
  then show ?case
  proof (cases rule: chainE)
    case (goes ab st1)
    from once [OF goes(1)] have 1: "F [?q j] st st1 (ab = None)" by simp
    show ?thesis
    proof (cases ab)
      case None
      then have "run_runs rt s mk k js st1 = (out, st')" using goes(2) by simp
      from Cons.IH [OF this] same_erc [OF 1] have "F (map ?q js) st1 st' (out = Ret None)" by simp
      with append [of "[?q j]"] 1 None show ?thesis by fastforce
    next
      case (Some e)
      with goes(2) have "out \<noteq> Ret None" "st' = st1" by (auto simp: give_def)
      with cut [OF 1, of "map ?q js"] show ?thesis by simp
    qed
  next
    case (stops o1)
    then have "out \<noteq> Ret None" by auto
    with cut [OF once [OF stops(1)], of "map ?q js"] show ?thesis by simp
  qed
qed

lemma queries_from:
  assumes "ColdRuns s = Some c" and "total_runs s = Some r"
  shows "run_queries_from rt s file start n i qs st = (out, st') \<Longrightarrow>
     F (planned c (nat r) (erc st) file start n i qs) st st' (out = Ret None)"
proof (induction qs arbitrary: st i)
  case Nil
  then show ?case by (auto simp: give_def none)
next
  case (Cons t qs)
  let ?mk = "\<lambda>j e. batch_query file n c t e i j"
  let ?p1 = "map (\<lambda>j. ?mk j (expected_rows (erc st) (start + i))) [0 ..< nat r]"
  let ?p2 = "planned c (nat r) (erc st) file start n (Suc i) qs"
  note script = within_relD [OF scripts.run_scripts]
  have stopped: ?case if "out \<noteq> Ret None" "F (?p1 @ ?p2) st st' False"
    using that by simp
  from Cons.prems show ?case
    unfolding run_queries_from.simps
  proof (cases rule: chainE)
    case stops
    then have "out \<noteq> Ret None" by auto
    with stopped early [OF script [OF stops(1)]] show ?thesis by blast
  next
    case (goes pre st1)
    note q1 = script [OF goes(1)]
    then have erc1: "erc st1 = erc st" by (simp add: quiet_exit_def quiet_def)
    show ?thesis
    proof (cases pre)
      case (Some e)
      with goes(2) have "st' = st1" "out \<noteq> Ret None" by (auto simp: give_def)
      with q1 stopped early show ?thesis by blast
    next
      case None
      with goes(2) have "chain (run_runs rt s ?mk (start + i) [0 ..< nat r]) (\<lambda>ab.
           chain (run_scripts rt s (query_cycle_env file i) (PostQueryCycleShellScripts s)) (\<lambda>post.
             if ab \<noteq> None then give ab
             else case post of
                    Some e \<Rightarrow> give (Some (Wrap ''post-query script execution failed'' e))
                  | None \<Rightarrow> run_queries_from rt s file start n (Suc i) qs)) st1 = (out, st')"
        by (simp add: load_def assms)
      then show ?thesis
      proof (cases rule: chainE)
        case stops
        then have "out \<noteq> Ret None" by auto
        with stopped cut [OF before [OF q1 runs [OF stops(1)]]] erc1 show ?thesis by simp
      next
        case (goes ab st2)
        from before [OF q1 runs [OF goes(1)]] erc1 have f2: "F ?p1 st st2 (ab = None)" by simp
        from goes(2) show ?thesis
        proof (cases rule: chainE)
          case stops
          then have "out \<noteq> Ret None" by auto
          with stopped cut [OF after [OF f2 script [OF stops(1)]]] show ?thesis by blast
        next
          case (goes post st3)
          note f3 = after [OF f2 script [OF goes(1)]]
          show ?thesis
          proof (cases "ab = None \<and> post = None")
            case True
            then have f: "F ?p1 st st3 True" using f3 by simp
            have "run_queries_from rt s file start n (Suc i) qs st3 = (out, st')"
              using goes(2) True by simp
            from Cons.IH [OF this] same_erc [OF f] append [OF f] show ?thesis by simp
          next
            case False
            with goes(2) have "out \<noteq> Ret None" "st' = st3"
              by (auto simp: give_def split: option.splits if_splits)
            with stopped cut [OF f3] show ?thesis by blast
          qed
        qed
      qed
    qed
  qed
qed

end

text \<open>The results of a function against its plan: they are a prefix of the plan, and all of it if
  the function ends without an error.\<close>

definition follows :: "string \<Rightarrow> query list \<Rightarrow> 'w exec \<Rightarrow> 'w exec \<Rightarrow> bool \<Rightarrow> bool" where
  "follows sid plan st st' full \<longleftrightarrow> (\<exists>rs. sent st' = sent st @ rs \<and> erc st' = erc st
     \<and> prefix (map Query rs) plan \<and> (full \<longrightarrow> map Query rs = plan)
     \<and> list_all (\<lambda>r. StageId r = sid) rs)"

interpretation plan: batch_rel "follows (stage_id s)" rt s for rt s
proof unfold_locales
  fix q :: query and st st' out
  assume "run_once rt s q st = (out, st')"
  then show "follows (stage_id s) [q] st st' (out = Ret None)"
    by (auto dest!: run_once_sent simp: follows_def)
next
  fix p1 p2 st st1 st2 full
  assume 1: "follows (stage_id s) p1 st st1 True" and 2: "follows (stage_id s) p2 st1 st2 full"
  obtain rs1 where 1: "sent st1 = sent st @ rs1" "erc st1 = erc st" "map Query rs1 = p1"
    "list_all (\<lambda>r. StageId r = stage_id s) rs1"
    using 1 by (auto simp: follows_def)
  obtain rs2 where 2: "sent st2 = sent st1 @ rs2" "erc st2 = erc st1" "prefix (map Query rs2) p2"
    "full \<longrightarrow> map Query rs2 = p2" "list_all (\<lambda>r. StageId r = stage_id s) rs2"
    using 2 by (auto simp: follows_def)
  show "follows (stage_id s) (p1 @ p2) st st2 full"
    unfolding follows_def by (rule exI [of _ "rs1 @ rs2"]) (use 1 2 in auto)
qed (auto simp: follows_def quiet_exit_def quiet_def intro: prefix_order.trans)

text \<open>With \<open>abort_on_error\<close> no query is run after a failed query, and the exit code is set.\<close>

definition stops_at_failure :: "'c stage \<Rightarrow> query list \<Rightarrow> 'w exec \<Rightarrow> 'w exec \<Rightarrow> bool \<Rightarrow> bool" where
  "stops_at_failure s plan st st' full \<longleftrightarrow> (\<exists>rs. sent st' = sent st @ rs \<and> erc st' = erc st
     \<and> (AbortOnError s = Some True \<longrightarrow>
          list_all (\<lambda>r. QueryError r = None) (butlast rs)
          \<and> (rs \<noteq> [] \<and> QueryError (last rs) \<noteq> None \<longrightarrow> \<not> full \<and> exit_code st' \<noteq> 0)))"

interpretation aborting: batch_rel "stops_at_failure s" rt s for rt s
proof unfold_locales
  fix q :: query and st st' out
  assume "run_once rt s q st = (out, st')"
  then obtain rs where "sent st' = sent st @ rs" "erc st' = erc st" "prefix (map Query rs) [q]"
    "AbortOnError s = Some True \<and> rs \<noteq> [] \<and> QueryError (last rs) \<noteq> None \<longrightarrow>
       (\<exists>e. out = Ret (Some e)) \<and> exit_code st' \<noteq> 0"
    using run_once_sent by blast
  moreover from this(3) have "butlast rs = []" by (cases rs) auto
  ultimately show "stops_at_failure s [q] st st' (out = Ret None)"
    unfolding stops_at_failure_def by (intro exI [of _ rs]) auto
next
  fix p1 p2 st st1 st2 full
  assume 1: "stops_at_failure s p1 st st1 True" and 2: "stops_at_failure s p2 st1 st2 full"
  obtain rs1 where 1: "sent st1 = sent st @ rs1" "erc st1 = erc st"
    "AbortOnError s = Some True \<longrightarrow> list_all (\<lambda>r. QueryError r = None) (butlast rs1)
       \<and> (rs1 \<noteq> [] \<longrightarrow> QueryError (last rs1) = None)"
    using 1 by (auto simp: stops_at_failure_def)
  obtain rs2 where 2: "sent st2 = sent st1 @ rs2" "erc st2 = erc st1"
    "AbortOnError s = Some True \<longrightarrow> list_all (\<lambda>r. QueryError r = None) (butlast rs2)
       \<and> (rs2 \<noteq> [] \<and> QueryError (last rs2) \<noteq> None \<longrightarrow> \<not> full \<and> exit_code st2 \<noteq> 0)"
    using 2 by (auto simp: stops_at_failure_def)
  have "list_all (\<lambda>r. QueryError r = None) rs1" if "AbortOnError s = Some True"
    using 1(3) that by (cases rs1 rule: rev_cases) auto
  with 1 2 show "stops_at_failure s (p1 @ p2) st st2 full"
    unfolding stops_at_failure_def
    by (intro exI [of _ "rs1 @ rs2"]) (auto simp: butlast_append)
next
  fix p st st1 st2 full
  assume "stops_at_failure s p st st1 full" and "quiet_exit st1 st2"
  then show "stops_at_failure s p st st2 full"
    by (auto simp: stops_at_failure_def quiet_exit_def quiet_def exit_sticky_def)
qed (auto simp: stops_at_failure_def quiet_exit_def quiet_def)

text \<open>What happens after the failure: the last of the results \<open>rs\<close> is that of a query that failed, and ended its run
  in \<open>st1\<close> with the exit code set. From there the scripts after the query are run, once, with their
  environment for this query, and nothing else. The batch ends with the error of the query, whatever error
  the scripts return; only a panic of the scripts is passed on.\<close>

definition aborted_by ::
  "('c, 'h, 'w, 'g) runtime \<Rightarrow> 'c stage \<Rightarrow> string option \<Rightarrow> query_result list \<Rightarrow> query_result list \<Rightarrow> go_error option outcome \<Rightarrow> 'w exec \<Rightarrow> bool" where
  "aborted_by rt s file before rs out st' \<longleftrightarrow>
     (\<exists>st0 st1 err o1. sent st0 = before @ butlast rs \<and> run_once rt s (Query (last rs)) st0 = (Ret (Some err), st1)
        \<and> sent st1 = before @ rs \<and> exit_code st1 \<noteq> 0
        \<and> err = OfResult (StageId (last rs)) (QueryId (last rs)) (the (QueryError (last rs)))
        \<and> run_scripts rt s (query_cycle_env file (Index (Query (last rs)))) (PostQueryCycleShellScripts s) st1 = (o1, st')
        \<and> out = (case o1 of Ret _ \<Rightarrow> Ret (Some err) | Panic p \<Rightarrow> Panic p | OutOfFuel \<Rightarrow> OutOfFuel))"

lemma case_no_error:
  "\<not> (\<exists>e. out = Ret (Some e)) \<Longrightarrow> (case out of Ret (Some err) \<Rightarrow> P err | _ \<Rightarrow> Q) = Q"
  by (cases out) (simp_all split: option.split)

lemma run_once_abort:
  assumes "AbortOnError s = Some True" and "run_once rt s q st = (out, st')"
  shows "\<exists>rs. sent st' = sent st @ rs \<and> erc st' = erc st
     \<and> (case out of
          Ret (Some err) \<Rightarrow> \<exists>r. rs = [r] \<and> Query r = q \<and> QueryError r \<noteq> None \<and> exit_code st' \<noteq> 0
            \<and> err = OfResult (StageId r) (QueryId r) (the (QueryError r))
        | _ \<Rightarrow> list_all (\<lambda>r. QueryError r = None) rs)"
proof -
  obtain rs where rs: "sent st' = sent st @ rs" "erc st' = erc st" "prefix (map Query rs) [q]"
    "\<not> bad_outcome out \<longrightarrow> map Query rs = [q]"
    "\<forall>e. out = Ret (Some e) \<longrightarrow> rs \<noteq> [] \<and> QueryError (last rs) \<noteq> None \<and> exit_code st' \<noteq> 0
          \<and> e = OfResult (StageId (last rs)) (QueryId (last rs)) (the (QueryError (last rs)))"
    "AbortOnError s = Some True \<and> rs \<noteq> [] \<and> QueryError (last rs) \<noteq> None \<longrightarrow>
          (\<exists>e. out = Ret (Some e)) \<and> exit_code st' \<noteq> 0"
    using run_once_sent [OF assms(2)] by (elim exE conjE) (rule that)
  from rs(3) consider "rs = []" | r where "rs = [r]" "Query r = q" by (cases rs) auto
  then show ?thesis
  proof cases
    case 1
    with rs(5) have "\<not> (\<exists>e. out = Ret (Some e))" by blast
    with 1 rs(1,2) show ?thesis by (intro exI [of _ "[]"]) (simp add: case_no_error)
  next
    case 2
    show ?thesis
    proof (cases "\<exists>e. out = Ret (Some e)")
      case True
      then obtain err where err: "out = Ret (Some err)" ..
      have q: "QueryError r \<noteq> None" "exit_code st' \<noteq> 0" "err = OfResult (StageId r) (QueryId r) (the (QueryError r))"
        using rs(5) [rule_format, OF err] unfolding 2(1) last.simps by simp_all
      show ?thesis
        unfolding err outcome.case option.case using rs(1,2) 2 q by blast
    next
      case False
      then have "QueryError r = None" using rs(6) assms(1) 2(1) by auto
      then have "list_all (\<lambda>r. QueryError r = None) rs" unfolding 2(1) by simp
      with rs(1,2) False show ?thesis by (intro exI [of _ rs]) (simp add: case_no_error)
    qed
  qed
qed

lemma run_runs_abort:
  assumes "AbortOnError s = Some True"
  shows "run_runs rt s mk k js st = (out, st') \<Longrightarrow> \<exists>rs. sent st' = sent st @ rs \<and> erc st' = erc st
     \<and> (case out of
          Ret (Some err) \<Rightarrow> rs \<noteq> [] \<and> list_all (\<lambda>r. QueryError r = None) (butlast rs) \<and> QueryError (last rs) \<noteq> None
            \<and> exit_code st' \<noteq> 0 \<and> err = OfResult (StageId (last rs)) (QueryId (last rs)) (the (QueryError (last rs)))
            \<and> (\<exists>j. Query (last rs) = mk j (expected_rows (erc st) k))
            \<and> (\<exists>st0. sent st0 = sent st @ butlast rs \<and> run_once rt s (Query (last rs)) st0 = (out, st'))
        | _ \<Rightarrow> list_all (\<lambda>r. QueryError r = None) rs)"
proof (induction js arbitrary: st)
  case Nil
  then show ?case by (auto simp: give_def)
next
  case (Cons j js)
  from Cons.prems have "chain (\<lambda>st. run_once rt s (mk j (expected_rows (erc st) k)) st)
      (\<lambda>ab. if ab \<noteq> None then give ab else run_runs rt s mk k js) st = (out, st')" by simp
  then show ?case
  proof (cases rule: chainE)
    case (goes ab st1)
    obtain rs where rs: "sent st1 = sent st @ rs" "erc st1 = erc st"
      "case ab of Some err \<Rightarrow> \<exists>r. rs = [r] \<and> Query r = mk j (expected_rows (erc st) k) \<and> QueryError r \<noteq> None \<and> exit_code st1 \<noteq> 0
            \<and> err = OfResult (StageId r) (QueryId r) (the (QueryError r))
        | None \<Rightarrow> list_all (\<lambda>r. QueryError r = None) rs"
      using run_once_abort [OF assms goes(1)] by (cases ab) auto
    show ?thesis
    proof (cases ab)
      case None
      then have "run_runs rt s mk k js st1 = (out, st')" using goes(2) by simp
      from Cons.IH [OF this] obtain rs2 where rs2: "sent st' = sent st1 @ rs2" "erc st' = erc st1"
        "case out of
          Ret (Some err) \<Rightarrow> rs2 \<noteq> [] \<and> list_all (\<lambda>r. QueryError r = None) (butlast rs2) \<and> QueryError (last rs2) \<noteq> None
            \<and> exit_code st' \<noteq> 0 \<and> err = OfResult (StageId (last rs2)) (QueryId (last rs2)) (the (QueryError (last rs2)))
            \<and> (\<exists>j. Query (last rs2) = mk j (expected_rows (erc st1) k))
            \<and> (\<exists>st0. sent st0 = sent st1 @ butlast rs2 \<and> run_once rt s (Query (last rs2)) st0 = (out, st'))
        | _ \<Rightarrow> list_all (\<lambda>r. QueryError r = None) rs2" by blast
      have ok: "list_all (\<lambda>r. QueryError r = None) rs" using rs(3) None by simp
      show ?thesis
        using rs(1,2) rs2 ok
        by (intro exI [of _ "rs @ rs2"]) (auto simp: butlast_append split: outcome.splits option.splits)
    next
      case (Some err)
      with goes(2) have out: "out = Ret (Some err)" "st' = st1" by (auto simp: give_def)
      from rs(3) Some obtain r where r: "rs = [r]" "Query r = mk j (expected_rows (erc st) k)" "QueryError r \<noteq> None"
        "exit_code st1 \<noteq> 0" "err = OfResult (StageId r) (QueryId r) (the (QueryError r))" by auto
      have "run_once rt s (Query r) st = (out, st')" using goes(1) out Some r(2) by simp
      then show ?thesis
        using rs(1,2) out r by (intro exI [of _ "[r]"]) auto
    qed
  next
    case (stops o1)
    from run_once_abort [OF assms stops(1)] stops(2,3) show ?thesis
      by (cases o1; cases out) (auto split: option.splits)
  qed
qed

lemma aborted_by_append:
  "rs2 \<noteq> [] \<Longrightarrow> aborted_by rt s file (before @ rs1) rs2 out st' \<Longrightarrow> aborted_by rt s file before (rs1 @ rs2) out st'"
  by (simp add: aborted_by_def butlast_append)

lemma queries_from_abort:
  assumes "AbortOnError s = Some True" and "ColdRuns s = Some c" and "total_runs s = Some r"
  shows "run_queries_from rt s file start n i qs st = (out, st') \<Longrightarrow> \<exists>rs. sent st' = sent st @ rs
     \<and> (list_all (\<lambda>r. QueryError r = None) rs
        \<or> rs \<noteq> [] \<and> list_all (\<lambda>r. QueryError r = None) (butlast rs) \<and> QueryError (last rs) \<noteq> None
          \<and> aborted_by rt s file (sent st) rs out st')"
proof (induction qs arbitrary: st i)
  case Nil
  then show ?case by (auto simp: give_def)
next
  case (Cons t qs)
  let ?mk = "\<lambda>j e. batch_query file n c t e i j"
  note script = within_relD [OF scripts.run_scripts, unfolded quiet_exit_def quiet_def]
  have none: ?case if "sent st' = sent st" using that by (intro exI [of _ "[]"]) simp
  from Cons.prems show ?case
    unfolding run_queries_from.simps
  proof (cases rule: chainE)
    case stops
    then show ?thesis using none script [OF stops(1)] by blast
  next
    case (goes pre st1)
    have q1: "sent st1 = sent st" using script [OF goes(1)] by blast
    show ?thesis
    proof (cases pre)
      case (Some e)
      with goes(2) q1 none show ?thesis by (auto simp: give_def)
    next
      case None
      with goes(2) have "chain (run_runs rt s ?mk (start + i) [0 ..< nat r]) (\<lambda>ab.
           chain (run_scripts rt s (query_cycle_env file i) (PostQueryCycleShellScripts s)) (\<lambda>post.
             if ab \<noteq> None then give ab
             else case post of
                    Some e \<Rightarrow> give (Some (Wrap ''post-query script execution failed'' e))
                  | None \<Rightarrow> run_queries_from rt s file start n (Suc i) qs)) st1 = (out, st')"
        by (simp add: load_def assms)
      then show ?thesis
      proof (cases rule: chainE)
        case (stops o1)
        obtain rs where "sent st' = sent st1 @ rs" "list_all (\<lambda>r. QueryError r = None) rs"
          using run_runs_abort [OF assms(1) stops(1)] stops(2) by (cases o1) auto
        with q1 show ?thesis by auto
      next
        case (goes ab st2)
        show ?thesis
        proof (cases ab)
          case (Some err)
          from run_runs_abort [OF assms(1) goes(1)] Some obtain rs st0 j where rs: "sent st2 = sent st @ rs" "rs \<noteq> []"
            "list_all (\<lambda>r. QueryError r = None) (butlast rs)" "QueryError (last rs) \<noteq> None" "exit_code st2 \<noteq> 0"
            "err = OfResult (StageId (last rs)) (QueryId (last rs)) (the (QueryError (last rs)))"
            "Query (last rs) = ?mk j (expected_rows (erc st1) (start + i))"
            "sent st0 = sent st @ butlast rs" "run_once rt s (Query (last rs)) st0 = (Ret (Some err), st2)"
            by (auto simp: q1)
          have idx: "Index (Query (last rs)) = i" using rs(7) by (simp add: batch_query_def)
          from goes(2) obtain o1 where post: "run_scripts rt s (query_cycle_env file i) (PostQueryCycleShellScripts s) st2 = (o1, st')"
            and out: "out = (case o1 of Ret _ \<Rightarrow> Ret (Some err) | Panic p \<Rightarrow> Panic p | OutOfFuel \<Rightarrow> OutOfFuel)"
            using Some by (auto simp: chain_def give_def split: prod.splits outcome.splits)
          have "sent st' = sent st @ rs" using script [OF post] rs(1) by simp
          moreover have "aborted_by rt s file (sent st) rs out st'"
            unfolding aborted_by_def idx using rs(1,5,6,8,9) post out by blast
          ultimately show ?thesis using rs(2-4) by blast
        next
          case None
          from run_runs_abort [OF assms(1) goes(1)] None obtain rs1 where rs1: "sent st2 = sent st @ rs1"
            "list_all (\<lambda>r. QueryError r = None) rs1" by (auto simp: q1)
          from goes(2) show ?thesis
          proof (cases rule: chainE)
            case stops
            with rs1 script [OF stops(1)] show ?thesis by auto
          next
            case (goes post st3)
            have s3: "sent st3 = sent st @ rs1" using script [OF goes(1)] rs1(1) by simp
            show ?thesis
            proof (cases post)
              case (Some e)
              with goes(2) \<open>ab = None\<close> s3 rs1(2) show ?thesis by (auto simp: give_def)
            next
              case None
              with goes(2) \<open>ab = None\<close> have "run_queries_from rt s file start n (Suc i) qs st3 = (out, st')" by simp
              from Cons.IH [OF this] obtain rs2 where rs2: "sent st' = sent st3 @ rs2"
                "list_all (\<lambda>r. QueryError r = None) rs2
                 \<or> rs2 \<noteq> [] \<and> list_all (\<lambda>r. QueryError r = None) (butlast rs2) \<and> QueryError (last rs2) \<noteq> None
                   \<and> aborted_by rt s file (sent st3) rs2 out st'" by blast
              have shift: "aborted_by rt s file (sent st) (rs1 @ rs2) out st'"
                if "rs2 \<noteq> []" "aborted_by rt s file (sent st3) rs2 out st'"
                using that aborted_by_append unfolding s3 by blast
              have "sent st' = sent st @ (rs1 @ rs2)" using rs2(1) s3 by simp
              moreover have "list_all (\<lambda>r. QueryError r = None) (rs1 @ rs2)
                 \<or> rs1 @ rs2 \<noteq> [] \<and> list_all (\<lambda>r. QueryError r = None) (butlast (rs1 @ rs2)) \<and> QueryError (last (rs1 @ rs2)) \<noteq> None
                   \<and> aborted_by rt s file (sent st) (rs1 @ rs2) out st'"
                using rs2(2) rs1(2) shift by (auto simp: butlast_append)
              ultimately show ?thesis by blast
            qed
          qed
        qed
      qed
    qed
  qed
qed

section \<open>Nothing stops a run that does not abort\<close>

text \<open>Every command can be started and the context is never cancelled.\<close>

definition calm :: "('c, 'h, 'w, 'g) runtime \<Rightarrow> bool" where
  "calm rt \<longleftrightarrow> (\<forall>d c e w. case fst (run_command rt d c e w) of NotStarted _ \<Rightarrow> False | Finished _ _ \<Rightarrow> True)
     \<and> (\<forall>w. fst (ctx_err rt w) = None)"

lemma chain_total: "fst (m st) = Ret x \<Longrightarrow> fst (chain m f st) = fst (f x (snd (m st)))"
  by (auto simp: chain_def split: prod.split)

lemma must_abort_calm:
  "calm rt \<Longrightarrow> AbortOnError s = Some False \<Longrightarrow> fst (must_abort rt s st) = Ret False"
  by (auto simp: must_abort_def load_def chain_def outside_def give_def calm_def split: prod.split)
    (metis fst_conv option.distinct(1))+

lemma run_scripts_calm:
  assumes "calm rt" and "AbortOnError s = Some False"
  shows "fst (run_scripts rt s extra scs st) = Ret None"
proof (induction scs arbitrary: st)
  case Nil
  then show ?case by (simp add: give_def)
next
  case (Cons sc scs)
  obtain r w where r: "run_command rt (BaseDir s) sc (script_env rt s @ extra) (world st) = (r, w)"
    by (cases "run_command rt (BaseDir s) sc (script_env rt s @ extra) (world st)")
  with assms(1) obtain code e where f: "r = Finished code e"
    unfolding calm_def by (metis fst_conv script_run.exhaust script_run.simps(5))
  have o: "outside (run_command rt (BaseDir s) sc (script_env rt s @ extra)) st = (Ret r, st\<lparr>world := w\<rparr>)"
    by (simp add: outside_def r)
  show ?case
    unfolding run_scripts.simps chain_step [where m = "outside x" for x, OF o] f
    by (cases e) (simp_all add: Cons chain_total [OF must_abort_calm [OF assms]])
qed

lemma run_once_calm:
  assumes "calm rt" and "AbortOnError s = Some False" and "ready s"
  shows "fst (run_once rt s q st) = Ret None"
proof -
  obtain r e st0 where q: "run_query rt s q st = (Ret (r, e), st0)" and r: "Query r = q"
    by (rule run_query_result)
  have json: "fst (save_query_json rt s r st) = Ret ()" for st
    using assms(3)
    by (auto simp: save_query_json_def load_def give_def modify_def ready_def query_source_string_def
        total_runs_def Let_def split: option.splits)
  have "fst (outside (on_completion rt r) st0) = Ret ()"
    by (simp add: outside_def split: prod.split)
  then show ?thesis
    unfolding run_once_decide chain_step [where m = "run_query rt s q", OF q] prod.case
    by (cases e) (simp_all add: chain_total [OF json] chain_total [where m = "outside x" for x]
        chain_total [where m = "modify x" for x] modify_def give_def decide_def
        chain_total [OF must_abort_calm [OF assms(1,2)]])
qed

lemma run_runs_calm:
  assumes "calm rt" and "AbortOnError s = Some False" and "ready s"
  shows "fst (run_runs rt s mk k js st) = Ret None"
proof (induction js arbitrary: st)
  case Nil
  then show ?case by (simp add: give_def)
next
  case (Cons j js)
  then show ?case
    by (simp add: chain_total [where m = "\<lambda>st. run_once rt s (mk j (expected_rows (erc st) k)) st",
          OF run_once_calm [OF assms]])
qed

lemma run_queries_from_calm:
  assumes "calm rt" and "AbortOnError s = Some False" and "ready s"
  shows "fst (run_queries_from rt s file start n i qs st) = Ret None"
proof (induction qs arbitrary: i st)
  case Nil
  then show ?case by (simp add: give_def)
next
  case (Cons t qs)
  obtain c w where "ColdRuns s = Some c" "WarmRuns s = Some w"
    using assms(3) by (auto simp: ready_def split: option.splits)
  then have l: "load (ColdRuns s) f st = f c st" "load (total_runs s) g st = g (go_add c w) st" for f g st
    by (simp_all add: load_def total_runs_def)
  show ?case
    by (simp add: chain_total [OF run_scripts_calm [OF assms(1,2)]] l
        chain_total [OF run_runs_calm [OF assms]] Cons)
qed

section \<open>Random selections\<close>

text \<open>What \<open>rand.Perm\<close> promises.\<close>

definition perm_ok :: "('c, 'h, 'w, 'g) runtime \<Rightarrow> bool" where
  "perm_ok rt \<longleftrightarrow> (\<forall>n g. mset (fst (perm rt n g)) = mset [0 ..< n])"

lemma perm_ok_length: "perm_ok rt \<Longrightarrow> length (fst (perm rt n g)) = n"
  unfolding perm_ok_def by (metis diff_zero length_upt size_mset)

text \<open>The first \<open>n\<close> answers of \<open>nextIndex\<close>.\<close>

fun picks :: "nat \<Rightarrow> ('c, 'h, 'w, 'g) runtime \<Rightarrow> bool \<Rightarrow> nat \<Rightarrow> 'g picker \<Rightarrow> nat option list" where
  "picks 0 rt nodup tot p = []"
| "picks (Suc n) rt nodup tot p =
     (case next_index rt nodup tot p of (x, p') \<Rightarrow> x # picks n rt nodup tot p')"

text \<open>A list of numbered selections, run until one fails.\<close>

fun run_selections ::
  "('c, 'h, 'w, 'g) runtime \<Rightarrow> 'c stage \<Rightarrow> (nat \<times> nat) list \<Rightarrow> (go_error option, 'w) action" where
  "run_selections rt s [] = give None"
| "run_selections rt s ((i, idx) # xs) =
     chain (run_selection rt s i idx) (\<lambda>e. if e \<noteq> None then give e else run_selections rt s xs)"

lemma picks_Some:
  "perm_ok rt \<Longrightarrow> 0 < tot \<Longrightarrow> \<exists>xs. picks n rt nodup tot p = map Some xs"
proof (induction n arbitrary: p)
  case 0
  then show ?case by simp
next
  case (Suc n)
  obtain x p' where x: "next_index rt nodup tot p = (x, p')" by (cases "next_index rt nodup tot p")
  obtain y where "x = Some y"
    using x Suc.prems perm_ok_length [OF Suc.prems(1), of tot "gen p"]
    by (auto simp: next_index_def Let_def nil_list_def split: if_splits option.splits prod.splits)
  moreover obtain xs where "picks n rt nodup tot p' = map Some xs" using Suc.IH Suc.prems by blast
  ultimately have "picks (Suc n) rt nodup tot p = map Some (y # xs)" by (simp add: x)
  then show ?case by blast
qed

lemma chain_cong: "(\<And>x st'. m st = (Ret x, st') \<Longrightarrow> f x st' = g x st') \<Longrightarrow> chain m f st = chain m g st"
  by (auto simp: chain_def split: prod.split outcome.split)

lemma random_loop_count:
  assumes "NoRandomDuplicates s = Some nodup"
  shows "picks n rt nodup (length (Queries s) + length (QueryFiles s)) p = map Some xs \<Longrightarrow>
     int i + int n = c + 1 \<or> (n = 0 \<and> c < int i) \<Longrightarrow> n < k \<Longrightarrow>
     random_loop k rt s (UntilCount c) i p st =
       run_selections rt s (filter (\<lambda>(j, _). rand_skip rt < int j) (zip [i ..< i + n] xs)) st"
proof (induction n arbitrary: k i p xs st)
  case 0
  then obtain k' where "k = Suc k'" by (cases k) auto
  moreover have "\<not> int i \<le> c" using 0 by auto
  ultimately show ?case using 0 by (simp add: continue_execution_def chain_def give_def)
next
  case (Suc n)
  then obtain k' where k: "k = Suc k'" by (cases k) auto
  let ?tot = "length (Queries s) + length (QueryFiles s)"
  obtain x p' where x: "next_index rt nodup ?tot p = (x, p')" by (cases "next_index rt nodup ?tot p")
  with Suc.prems(1) obtain y ys where y: "x = Some y" "xs = y # ys" "picks n rt nodup ?tot p' = map Some ys"
    by (cases xs) auto
  have "int (i + 1) + int n = c + 1 \<or> (n = 0 \<and> c < int (i + 1))" "n < k'" using Suc.prems k by auto
  note IH = Suc.IH [OF y(3) this]
  have le: "int i \<le> c" using Suc.prems(2) by auto
  have upt: "[i ..< i + Suc n] = i # [i + 1 ..< i + 1 + n]" by (simp add: upt_rec)
  have "random_loop k rt s (UntilCount c) i p st =
      (if int i \<le> rand_skip rt then random_loop k' rt s (UntilCount c) (i + 1) p' st
       else chain (run_selection rt s i y) (\<lambda>e. if e \<noteq> None then give e
              else random_loop k' rt s (UntilCount c) (i + 1) p') st)"
    using le by (simp add: k continue_execution_def chain_step [where m = "give b" for b] give_def
        load_def assms x y(1))
  also have "\<dots> = run_selections rt s (filter (\<lambda>(j, _). rand_skip rt < int j)
      (zip [i ..< i + Suc n] xs)) st"
    unfolding upt y(2)
    by (auto simp: IH [unfolded Suc_eq_plus1 [symmetric]] simp del: upt_Suc intro!: chain_cong)
  finally show ?case .
qed

text \<open>Without duplicates the answers are one permutation after the other.\<close>

lemma picks_rest:
  assumes "indices p = Some xs" and "pos p \<le> length xs"
  shows "picks (length xs - pos p + n) rt True tot p =
     map Some (drop (pos p) xs) @ picks n rt True tot (p\<lparr>pos := length xs\<rparr>)"
  using assms
proof (induction "length xs - pos p" arbitrary: p)
  case 0
  then have "p\<lparr>pos := length xs\<rparr> = p" by simp
  with 0 show ?case by simp
next
  case (Suc d)
  then have lt: "pos p < length xs" by simp
  have d: "d = length xs - pos (p\<lparr>pos := pos p + 1\<rparr>)" using Suc(2) by simp
  have "picks (length xs - pos p + n) rt True tot p =
      Some (xs ! pos p) # picks (d + n) rt True tot (p\<lparr>pos := pos p + 1\<rparr>)"
    using Suc.prems lt by (subst Suc(2) [symmetric]) (simp add: next_index_def nil_list_def)
  also have "picks (d + n) rt True tot (p\<lparr>pos := pos p + 1\<rparr>) =
      map Some (drop (pos p + 1) xs) @ picks n rt True tot (p\<lparr>pos := length xs\<rparr>)"
    using Suc(1) [OF d] Suc.prems lt d by simp
  finally show ?case using lt by (simp flip: Cons_nth_drop_Suc)
qed

lemma picks_round:
  assumes "perm_ok rt" and "0 < tot"
    and "indices p = None \<or> (\<exists>xs. indices p = Some xs \<and> length xs \<le> pos p)"
  shows "\<exists>ys p'. mset ys = mset [0 ..< tot] \<and> (\<exists>xs. indices p' = Some xs \<and> length xs \<le> pos p')
     \<and> (\<forall>n. picks (tot + n) rt True tot p = map Some ys @ picks n rt True tot p')"
proof -
  obtain ys g where ys: "perm rt tot (gen p) = (ys, g)" by (cases "perm rt tot (gen p)")
  have len: "length ys = tot" using perm_ok_length [OF assms(1), of tot "gen p"] by (simp add: ys)
  have ms: "mset ys = mset [0 ..< tot]" using assms(1) ys unfolding perm_ok_def by (metis fst_conv)
  let ?p = "p\<lparr>indices := Some ys, pos := 0, gen := g\<rparr>"
  have "0 < length ys" using assms(2) len by simp
  then have "next_index rt True tot p = next_index rt True tot ?p"
    using assms(3) by (auto simp: next_index_def ys Let_def nil_list_def)
  then have same: "picks (tot + n) rt True tot p = picks (tot + n) rt True tot ?p" for n
    using assms(2) by (cases tot) auto
  have "picks (tot + n) rt True tot ?p = map Some ys @ picks n rt True tot (?p\<lparr>pos := length ys\<rparr>)" for n
    using picks_rest [of ?p ys n rt tot] len by simp
  with ms same show ?thesis by (intro exI [of _ ys] exI [of _ "?p\<lparr>pos := length ys\<rparr>"]) simp
qed

lemma picks_blocks:
  assumes "perm_ok rt" and "0 < tot"
  shows "indices p = None \<or> (\<exists>xs. indices p = Some xs \<and> length xs \<le> pos p) \<Longrightarrow>
     (b + 1) * tot \<le> n \<Longrightarrow>
     mset (take tot (drop (b * tot) (picks n rt True tot p))) = mset (map Some [0 ..< tot])"
proof (induction b arbitrary: p n)
  case 0
  obtain m where n: "n = tot + m" using 0 by (auto simp: le_iff_add)
  from picks_round [OF assms 0(1)] obtain ys p'
    where "mset ys = mset [0 ..< tot]" "\<forall>n. picks (tot + n) rt True tot p = map Some ys @ picks n rt True tot p'"
    by blast
  moreover from this(1) have "length ys = tot" by (metis diff_zero length_upt size_mset)
  ultimately show ?case by (simp add: n)
next
  case (Suc b)
  then have "tot + (b + 1) * tot \<le> n" by simp
  then obtain m where n: "n = tot + m" "(b + 1) * tot \<le> m" by (metis add_le_cancel_left le_Suc_ex le_add1 le_trans)
  from picks_round [OF assms Suc.prems(1)] obtain ys p'
    where 1: "mset ys = mset [0 ..< tot]" "\<exists>xs. indices p' = Some xs \<and> length xs \<le> pos p'"
      "\<forall>n. picks (tot + n) rt True tot p = map Some ys @ picks n rt True tot p'"
    by blast
  from 1(1) have "length ys = tot" by (metis diff_zero length_upt size_mset)
  with 1(2,3) Suc.IH [of p' m] n show ?case by simp
qed

section \<open>Rows\<close>

text \<open>Scripts change the world and the exit code only.\<close>

definition only_outside :: "'w exec \<Rightarrow> 'w exec \<Rightarrow> bool" where
  "only_outside st st' \<longleftrightarrow> st' = st\<lparr>world := world st', exit_code := exit_code st'\<rparr>"

interpretation shell: script_frame only_outside
proof unfold_locales
  fix st1 st2 st3 :: "'a exec"
  assume "only_outside st1 st2" and "only_outside st2 st3"
  then show "only_outside st1 st3"
    by (cases st1; cases st2; cases st3) (simp add: only_outside_def)
qed (simp_all add: only_outside_def swap_exit_def)

lemma only_outsideD:
  "only_outside st st' \<Longrightarrow> cur st' = cur st \<and> outputs st' = outputs st \<and> sent st' = sent st"
  by (metis exec.select_convs(4,5,6) exec.surjective exec.update_convs(1,3) only_outside_def)

lemma save_column_metadata_keeps:
  "save_column_metadata rt s src b st = (Ret x, st') \<Longrightarrow> cur st' = cur st \<and> outputs st' = outputs st"
  by (auto simp: save_column_metadata_def load_def chain_def outside_def give_def modify_def
      split: option.splits if_splits prod.splits)

lemma handle_batches_rows:
  "handle_batches rt s q src bs st = (Ret x, st') \<Longrightarrow>
     RowCount (cur st') = RowCount (cur st) + length (concat (map rows bs)) \<and> outputs st' = outputs st"
proof (induction bs arbitrary: st)
  case Nil
  then show ?case by (simp add: give_def)
next
  case (Cons b bs)
  from Cons.prems obtain st1 y where h: "handle_batch rt s q src b st = (Ret y, st1)"
    and rest: "handle_batches rt s q src bs st1 = (Ret x, st')"
    by (auto simp: chain_Ret)
  have "RowCount (cur st1) = RowCount (cur st) + length (rows b) \<and> outputs st1 = outputs st"
    using h by (auto simp: handle_batch_def chain_def modify_def give_def
        dest: save_column_metadata_keeps split: if_splits)
  with Cons.IH [OF rest] show ?case by simp
qed

lemma drain_query_rows:
  assumes "drain_query rt s q src True h st = (Ret None, st')" and "RowCount (cur st) = 0"
  shows "\<exists>rs. outputs st' = outputs st @ [(output_file rt src ''.output'', rs)] \<and> RowCount (cur st') = length rs"
proof -
  obtain bs e w where d: "drain rt h (world st) = ((bs, e), w)"
    by (metis prod.exhaust)
  let ?st = "st\<lparr>world := w, outputs := outputs st @ [(output_file rt src ''.output'', concat (map rows bs))]\<rparr>"
  from assms(1) obtain x st2 where h: "handle_batches rt s q src bs ?st = (Ret x, st2)"
    and rest: "chain (\<lambda>st. run_scripts rt s (query_env q (Some (QueryId (cur st))) (map_option err_text e))
              (PostQueryShellScripts s) st) (\<lambda>pe. give (join_errs [e, pe])) st2 = (Ret None, st')"
    by (auto simp: drain_query_def chain_Ret outside_def modify_def d)
  from rest obtain pe st3 where "run_scripts rt s (query_env q (Some (QueryId (cur st2))) (map_option err_text e))
       (PostQueryShellScripts s) st2 = (Ret pe, st3)" and "st' = st3"
    by (auto simp: chain_Ret give_def)
  then have "cur st' = cur st2 \<and> outputs st' = outputs st2"
    using only_outsideD [OF within_relD [OF shell.run_scripts]] by blast
  with handle_batches_rows [OF h] assms(2) show ?thesis by auto
qed

lemma submit_query_rows:
  assumes "submit_query rt s q st = (Ret None, st')" and "SaveOutput s = Some True" and "RowCount (cur st) = 0"
  shows "\<exists>src rs. query_source_string s q = Some src
     \<and> outputs st' = outputs st @ [(output_file rt src ''.output'', rs)] \<and> RowCount (cur st') = length rs"
proof -
  obtain src where src: "query_source_string s q = Some src"
    using assms(1) by (cases "query_source_string s q") (auto simp: submit_query_def load_def)
  obtain h st1 where "drain_query rt s q src True h st1 = (Ret None, st')"
    and "outputs st1 = outputs st" and "RowCount (cur st1) = 0"
    using assms src
    by (auto simp: submit_query_def load_def chain_Ret outside_def modify_def give_def
        split: option.splits if_splits prod.splits)
  with drain_query_rows src show ?thesis by metis
qed

section \<open>A small runtime for the witnesses\<close>

text \<open>The world is a counter; the script \<open>false\<close> fails, the query \<open>bad\<close> fails, and there is one
  query file.\<close>

definition demo_runtime :: "(unit, unit, nat, nat) runtime" where
  "demo_runtime = \<lparr>
     run_command = (\<lambda>d c e n. (if c = ''false'' then Finished 1 (Some (Plain ''exit status 1''))
                               else Finished 0 None, n + 1)),
     ctx_err = (\<lambda>n. (None, n)),
     time_now = (\<lambda>n. (int n, n + 1)),
     submit = (\<lambda>_ t src n. if t = ''bad'' then ((Some ((), ''id'', ''uri''), Some (Plain ''syntax error'')), n + 1)
                            else ((Some ((), ''id'', ''uri''), None), n + 1)),
     drain = (\<lambda>_ n. (([\<lparr>rows = [''1'', ''2''], last_page = True, has_columns = True\<rparr>], None), n + 1)),
     create_file = (\<lambda>_ n. (None, n)),
     on_completion = (\<lambda>_ n. ((), n)),
     open_file = (\<lambda>f n. (if f = ''/w/q.sql'' then Inr (''a;b;'', [], False) else Inl (Plain ''no such file''), n)),
     stat_path = (\<lambda>f n. (Inr (f = ''/w/d''), n)),
     list_dir = (\<lambda>f n. (Inr [(''x.sql'', False), (''sub'', True), (''y.sql'', False)], n)),
     regexp_match = (\<lambda>_ _. None),
     new_rand = nat, perm = (\<lambda>n g. ([0 ..< n], g)), intn = (\<lambda>n g. (g mod n, g + 1)),
     fork_world = (\<lambda>_ n. n), join_worlds = (\<lambda>n _. n), finish_order = (\<lambda>ws. [0 ..< length ws]),
     interleave = concat, output_path = ''/out'', rand_seed = 7, rand_skip = 0\<rparr>"

definition demo_stage :: "unit stage" where
  "demo_stage = empty_stage\<lparr>stage_id := ''s'', BaseDir := ''/w'', RandomExecution := Some False,
     NoRandomDuplicates := Some True, AbortOnError := Some False, SaveOutput := Some True,
     SaveColumnMetadata := Some False, SaveJson := Some False, ColdRuns := Some 1, WarmRuns := Some 1,
     Client := Some ()\<rparr>"

definition demo_exec :: "nat exec" where
  "demo_exec = \<lparr>world = 0, erc = [5], exit_code = 0,
     cur = \<lparr>StageId = [], Query = \<lparr>Text = [], File = None, Index = 0, BatchSize = 0, ColdRun = False,
              SequenceNo = 0, ExpectedRowCount = 0\<rparr>, QueryId = [], InfoUrl = [], QueryError = None,
            RowCount = 0, StartTime = 0, EndTime = None, Duration = None\<rparr>,
     sent = [], outputs = [], metadata_files = [], json_files = [], rand_seed_used = False\<rparr>"

lemmas demo_defs = demo_runtime_def demo_stage_def demo_exec_def empty_stage_def

lemma demo_runs: "ColdRuns demo_stage = Some 1" "total_runs demo_stage = Some 2"
  by (simp_all add: demo_stage_def total_runs_def go_add_small in_int64_def)

lemma demo_stage_settings [simp]:
  "AbortOnError demo_stage = Some False" "SaveOutput demo_stage = Some True"
  "NoRandomDuplicates demo_stage = Some True" "RandomlyExecuteUntil demo_stage = None"
  "Queries demo_stage = []" "QueryFiles demo_stage = []"
  by (simp_all add: demo_stage_def empty_stage_def)

lemma demo_exec_start [simp]: "sent demo_exec = []" "erc demo_exec = [5]" "exit_code demo_exec = 0" "outputs demo_exec = []"
  by (simp_all add: demo_exec_def)

lemma demo_calm: "calm demo_runtime"
  by (auto simp: calm_def demo_runtime_def)

lemma demo_ready: "ready demo_stage"
  by (simp add: ready_def demo_stage_def go_add_small in_int64_def)

section \<open>Properties\<close>

text \<open>C7: The results of a batch of queries: one result for each run, in the order query by query,
  cold runs before warm runs, each with its index, sequence number and the expected row count of
  its query; all of them if the batch ends without an error, and the first ones if it ends early,
  by an error or a panic.\<close>

theorem run_queries_results:
  assumes "ColdRuns s = Some c" and "total_runs s = Some r"
    and "run_queries rt s qs file start st = (out, st')"
  shows "\<exists>rs. sent st' = sent st @ rs
     \<and> prefix (map Query rs) (planned c (nat r) (erc st) file start (length qs) 0 qs)
     \<and> (out = Ret None \<longrightarrow> map Query rs = planned c (nat r) (erc st) file start (length qs) 0 qs)
     \<and> list_all (\<lambda>x. StageId x = stage_id s) rs"
  using plan.queries_from [OF assms(1,2) assms(3) [unfolded run_queries_def]]
  unfolding follows_def by blast

theorem run_queries_results_witness:
  "\<exists>rs. sent (snd (run_queries demo_runtime demo_stage [''a'', ''bad''] None 0 demo_exec)) = rs
     \<and> map (\<lambda>r. (Index (Query r), SequenceNo (Query r), ExpectedRowCount (Query r))) rs
       = [(0, 0, 5), (0, 1, 5), (1, 0, -1), (1, 1, -1)]"
proof -
  obtain out st' where r: "run_queries demo_runtime demo_stage [''a'', ''bad''] None 0 demo_exec = (out, st')"
    by (cases "run_queries demo_runtime demo_stage [''a'', ''bad''] None 0 demo_exec")
  have "fst (run_queries demo_runtime demo_stage [''a'', ''bad''] None 0 demo_exec) = Ret None"
    unfolding run_queries_def by (intro run_queries_from_calm demo_calm demo_ready demo_stage_settings)
  with r have out: "out = Ret None" by simp
  obtain rs where "sent st' = sent demo_exec @ rs"
    and "out = Ret None \<longrightarrow> map Query rs
      = planned 1 (nat 2) (erc demo_exec) None 0 (length [''a'', ''bad'']) 0 [''a'', ''bad'']"
    using run_queries_results [OF demo_runs r] by blast
  then have "sent st' = rs" "map Query rs = planned 1 2 [5] None 0 2 0 [''a'', ''bad'']"
    by (simp_all only: out demo_exec_start append_Nil simp_thms list.size nat_numeral numeral_2_eq_2 One_nat_def add_Suc_right add_0_right)
  moreover have "map (\<lambda>r. (Index r, SequenceNo r, ExpectedRowCount r)) (planned 1 2 [5] None 0 2 0 [''a'', ''bad''])
      = [(0, 0, 5), (0, 1, 5), (1, 0, -1), (1, 1, -1)]"
    by code_simp
  ultimately have "map (\<lambda>r. (Index r, SequenceNo r, ExpectedRowCount r)) (map Query rs)
      = [(0, 0, 5), (0, 1, 5), (1, 0, -1), (1, 1, -1)]" by simp
  with r \<open>sent st' = rs\<close> show ?thesis by (simp add: comp_def)
qed

text \<open>C29: With \<open>abort_on_error\<close> no query is run after one that failed: every result but the last is a success. If the
  last is a failure, the exit code of the run is not zero, the batch ends with the error of this query,
  and of the batch only the scripts of \<open>post_query_cycle_scripts\<close> are still run, once, for the query that
  failed; their own error is dropped.\<close>

theorem run_queries_abort:
  assumes "AbortOnError s = Some True" and "ColdRuns s = Some c" and "total_runs s = Some r"
    and "run_queries rt s qs file start st = (out, st')"
  shows "\<exists>rs. sent st' = sent st @ rs \<and> list_all (\<lambda>x. QueryError x = None) (butlast rs)
     \<and> (rs \<noteq> [] \<and> QueryError (last rs) \<noteq> None \<longrightarrow>
          out \<noteq> Ret None \<and> exit_code st' \<noteq> 0 \<and> aborted_by rt s file (sent st) rs out st')"
proof -
  obtain rs where rs: "sent st' = sent st @ rs" "list_all (\<lambda>x. QueryError x = None) (butlast rs)"
    "rs \<noteq> [] \<and> QueryError (last rs) \<noteq> None \<longrightarrow> out \<noteq> Ret None \<and> exit_code st' \<noteq> 0"
    using aborting.queries_from [OF assms(2,3) assms(4) [unfolded run_queries_def]] assms(1)
    unfolding stops_at_failure_def by blast
  obtain rs' where "sent st' = sent st @ rs'" and after: "list_all (\<lambda>r. QueryError r = None) rs'
      \<or> rs' \<noteq> [] \<and> list_all (\<lambda>r. QueryError r = None) (butlast rs') \<and> QueryError (last rs') \<noteq> None
        \<and> aborted_by rt s file (sent st) rs' out st'"
    using queries_from_abort [OF assms(1,2,3) assms(4) [unfolded run_queries_def]] by blast
  with rs(1) have "rs' = rs" by simp
  with after have "aborted_by rt s file (sent st) rs out st'" if "rs \<noteq> []" "QueryError (last rs) \<noteq> None"
    using that by (auto simp: list_all_iff)
  with rs show ?thesis by blast
qed

theorem run_queries_abort_witness:
  "exit_code (snd (run_queries demo_runtime (demo_stage\<lparr>AbortOnError := Some True\<rparr>) [''bad''] None 0 demo_exec)) \<noteq> 0
    \<and> (\<exists>rs out st'. aborted_by demo_runtime (demo_stage\<lparr>AbortOnError := Some True\<rparr>) None [] rs out st')"
proof -
  let ?s = "demo_stage\<lparr>AbortOnError := Some True\<rparr>"
  let ?r = "run_queries demo_runtime ?s [''bad''] None 0 demo_exec"
  have "AbortOnError ?s = Some True" "ColdRuns ?s = Some 1" "total_runs ?s = Some 2"
    using demo_runs by (simp_all add: total_runs_def)
  note abort = run_queries_abort [OF this]
  have "?r = (fst ?r, snd ?r)" by simp
  then obtain rs where "sent (snd ?r) = sent demo_exec @ rs"
    and "rs \<noteq> [] \<and> QueryError (last rs) \<noteq> None \<longrightarrow> fst ?r \<noteq> Ret None \<and> exit_code (snd ?r) \<noteq> 0
      \<and> aborted_by demo_runtime ?s None (sent demo_exec) rs (fst ?r) (snd ?r)"
    using abort by blast
  then have rs: "sent (snd ?r) = rs"
    "rs \<noteq> [] \<and> QueryError (last rs) \<noteq> None \<longrightarrow> exit_code (snd ?r) \<noteq> 0 \<and> aborted_by demo_runtime ?s None [] rs (fst ?r) (snd ?r)"
    by (simp_all only: demo_exec_start append_Nil) blast
  have "sent (snd ?r) \<noteq> [] \<and> QueryError (last (sent (snd ?r))) \<noteq> None" by code_simp
  with rs show ?thesis by blast
qed

text \<open>Without \<open>abort_on_error\<close>, if the context is not cancelled and every command can be
  started, a batch never ends early: whatever queries and scripts fail, it ends without an error
  and every planned run has a result.\<close>

theorem run_queries_continue:
  assumes "calm rt" and "ready s" and "AbortOnError s = Some False"
    and "ColdRuns s = Some c" and "total_runs s = Some r"
  shows "\<exists>st' rs. run_queries rt s qs file start st = (Ret None, st') \<and> sent st' = sent st @ rs
     \<and> map Query rs = planned c (nat r) (erc st) file start (length qs) 0 qs"
proof -
  obtain out st' where o: "run_queries rt s qs file start st = (out, st')"
    by (cases "run_queries rt s qs file start st")
  then have "out = Ret None"
    using run_queries_from_calm [OF assms(1,3,2)] unfolding run_queries_def by (metis fst_conv)
  with o plan.queries_from [OF assms(4,5) o [unfolded run_queries_def]] show ?thesis
    unfolding follows_def by auto
qed

theorem run_queries_continue_witness:
  "\<exists>st' rs. run_queries demo_runtime demo_stage [''bad'', ''a''] None 0 demo_exec = (Ret None, st')
     \<and> sent st' = rs \<and> length rs = 4"
proof -
  let ?qs = "[''bad'', ''a'']"
  obtain st' rs where r: "run_queries demo_runtime demo_stage ?qs None 0 demo_exec = (Ret None, st')"
    "sent st' = sent demo_exec @ rs"
    "map Query rs = planned 1 (nat 2) (erc demo_exec) None 0 (length ?qs) 0 ?qs"
    using run_queries_continue [OF demo_calm demo_ready demo_stage_settings(1) demo_runs, of ?qs None 0 demo_exec]
    by blast
  from r(3) have "length rs = length (planned 1 (nat 2) (erc demo_exec) None 0 (length ?qs) 0 ?qs)"
    by (metis length_map)
  with r(1,2) show ?thesis by simp
qed

text \<open>\<open>runQuery\<close> always gives one result, also when it panics inside: it carries the returned
  error, the query, the id of the stage, the end time and the duration.\<close>

theorem run_query_total:
  "\<exists>r e st'. run_query rt s q st = (Ret (r, e), st') \<and> QueryError r = e \<and> Query r = q
     \<and> StageId r = stage_id s \<and> sent st' = sent st
     \<and> (\<exists>t. EndTime r = Some t \<and> Duration r = Some (t - StartTime r))"
  by (rule run_query_result [of rt s q st]) blast

text \<open>The exit code of a run is set at most once: nothing that a stage does afterwards, on any
  path, changes a code that is not zero; and results that have been sent stay sent.\<close>

theorem run_stage_body_keeps:
  assumes "run_stage_body k rt s st = (out, st')"
  shows "(exit_code st \<noteq> 0 \<longrightarrow> exit_code st' = exit_code st) \<and> prefix (sent st) (sent st')"
  using within_relD [OF sticky.run_stage_body assms] within_relD [OF sending.run_stage_body assms]
  by (simp add: exit_sticky_def sent_grows_def)

theorem run_stage_body_keeps_witness:
  "exit_code (snd (run_stage_body 0 demo_runtime (demo_stage\<lparr>Queries := [''bad'']\<rparr>) (demo_exec\<lparr>exit_code := 3\<rparr>))) = 3"
  using run_stage_body_keeps [of 0 demo_runtime "demo_stage\<lparr>Queries := [''bad'']\<rparr>" "demo_exec\<lparr>exit_code := 3\<rparr>"]
  by (cases "run_stage_body 0 demo_runtime (demo_stage\<lparr>Queries := [''bad'']\<rparr>) (demo_exec\<lparr>exit_code := 3\<rparr>)") auto

text \<open>A stage script that cannot be started (because the context is already cancelled, or the
  directory of the stage does not exist) ends the process with a nil pointer panic instead of an
  error, whatever the settings of the stage.\<close>

theorem unstarted_script_panics:
  assumes "run_command rt (BaseDir s) sc (script_env rt s) (world st) = (NotStarted e, w)"
    and "PreStageShellScripts s = sc # scs"
  shows "run_stage_body k rt s st = (Panic ''nil pointer dereference'', st\<lparr>world := w\<rparr>)"
  using assms by (simp add: run_stage_body_def chain_def outside_def)

theorem unstarted_script_panics_witness:
  "fst (run_stage_body 0 (demo_runtime\<lparr>run_command := \<lambda>_ _ _ n. (NotStarted (Plain ''context canceled''), n)\<rparr>)
      (demo_stage\<lparr>PreStageShellScripts := [''true'']\<rparr>) demo_exec) = Panic ''nil pointer dereference''"
  by (subst unstarted_script_panics) simp_all

text \<open>Random execution without \<open>randomly_execute_until\<close> is an error that leaves the exit code of
  the run as it is, also with \<open>abort_on_error\<close>, unlike a value that cannot be parsed.\<close>

theorem random_until_missing:
  "(RandomlyExecuteUntil s = None \<longrightarrow>
      (\<exists>e. run_randomly k rt s seed st = (Ret (Some e), st)))
   \<and> (\<forall>txt. RandomlyExecuteUntil s = Some txt \<and> parse_duration txt = None \<and> atoi txt = None
        \<and> AbortOnError s = Some True \<and> exit_code st = 0 \<longrightarrow>
      (\<exists>e st'. run_randomly k rt s seed st = (Ret (Some e), st') \<and> exit_code st' = 2))"
  by (auto simp: run_randomly_def give_def load_def chain_def modify_def swap_exit_def Let_def)

theorem random_until_missing_witness:
  "exit_code (snd (run_randomly 0 demo_runtime (demo_stage\<lparr>AbortOnError := Some True\<rparr>) 0 demo_exec)) = 0"
proof -
  have "RandomlyExecuteUntil (demo_stage\<lparr>AbortOnError := Some True\<rparr>) = None"
    by (simp add: demo_stage_def empty_stage_def)
  with random_until_missing [of "demo_stage\<lparr>AbortOnError := Some True\<rparr>" 0 demo_runtime 0 demo_exec]
  show ?thesis by (auto simp: demo_exec_def)
qed

text \<open>A context that has been cancelled stays cancelled.\<close>

definition ctx_stays :: "('c, 'h, 'w, 'g) runtime \<Rightarrow> bool" where
  "ctx_stays rt \<longleftrightarrow> (\<forall>w e w' w''. ctx_err rt w = (Some e, w') \<longrightarrow> ctx_err rt w' \<noteq> (None, w''))"

text \<open>With \<open>save_output\<close> a successful query hands all its rows, and nothing else, to one output
  file named after its source string; the row count of the result is their number.\<close>

theorem run_query_output:
  assumes "run_query rt s q st = (Ret (r, None), st')" and "SaveOutput s = Some True"
    and "ctx_stays rt"
  shows "\<exists>src rs. query_source_string s q = Some src
     \<and> outputs st' = outputs st @ [(output_file rt src ''.output'', rs)] \<and> RowCount r = length rs"
proof -
  obtain out st1 where b: "query_body rt s q st = (out, st1)" by (cases "query_body rt s q st")
  have "out = Ret None" "RowCount r = RowCount (cur st1)"
    "outputs st' = outputs st1"
    using assms(1) by (auto simp: run_query_def b Let_def split: prod.splits outcome.splits)
  moreover from b \<open>out = Ret None\<close> assms(3) obtain st0 where sub: "submit_query rt s q st0 = (Ret None, st1)"
    and "outputs st0 = outputs st" and "RowCount (cur st0) = 0"
    by (auto simp: query_body_def chain_Ret outside_def modify_def give_def ctx_stays_def
        split: if_splits prod.splits dest!: within_relD [OF shell.run_scripts] only_outsideD)
  ultimately show ?thesis
    using submit_query_rows [OF sub assms(2)] by simp
qed

theorem run_query_output_witness:
  "\<exists>rs. outputs (snd (run_query demo_runtime demo_stage (batch_query None 1 1 ''a'' 5 0 0) demo_exec))
     = [(''/out/s_inline_c0.output'', rs)] \<and> length rs = 2"
proof -
  let ?q = "batch_query None 1 1 ''a'' 5 0 0"
  let ?r = "run_query demo_runtime demo_stage ?q demo_exec"
  obtain r e st' where r: "?r = (Ret (r, e), st')" by (rule run_query_result)
  have "case fst ?r of Ret (r, e) \<Rightarrow> e = None \<and> RowCount r = 2 | _ \<Rightarrow> False" by code_simp
  with r have e: "e = None" "RowCount r = 2" by simp_all
  have src: "query_source_string demo_stage ?q = Some ''s_inline_c0''" by code_simp
  have out: "output_file demo_runtime ''s_inline_c0'' ''.output'' = ''/out/s_inline_c0.output''" by code_simp
  have "ctx_stays demo_runtime" by (simp add: ctx_stays_def demo_runtime_def)
  with run_query_output [of demo_runtime demo_stage ?q demo_exec r st'] r e src
  show ?thesis by (auto simp: demo_stage_def demo_exec_def out)
qed

text \<open>C30: A query file: its queries are run with their place in the array of expected row counts,
  and the offset moves on by their number. A file that cannot be read sends nothing; it is an error
  with exit code if the stage aborts on errors, and otherwise it ends the checking of row counts.\<close>

theorem run_query_file_results:
  assumes "run_query_file rt s f (Some k) None st = (Ret (e, start'), st')"
    and "open_file rt f (world st) = (file, w)"
    and "ColdRuns s = Some c" and "total_runs s = Some r"
  shows "case read_queries file of
       Inr qs \<Rightarrow> start' = Some (k + length qs) \<and> (\<exists>rs. sent st' = sent st @ rs
         \<and> prefix (map Query rs) (planned c (nat r) (erc st) (Some (file_alias s f)) k (length qs) 0 qs)
         \<and> (e = None \<longrightarrow> map Query rs = planned c (nat r) (erc st) (Some (file_alias s f)) k (length qs) 0 qs))
     | Inl err \<Rightarrow> start' = Some k \<and> sent st' = sent st
         \<and> (if AbortOnError s = Some True then e = Some err \<and> exit_code st' \<noteq> 0 else e = None \<and> erc st' = [])"
proof (cases "read_queries file")
  case (Inl err)
  with assms(1,2) show ?thesis
    by (cases "AbortOnError s") (auto simp: run_query_file_def chain_Ret outside_def load_def give_def modify_def
        swap_exit_def split: if_splits)
next
  case (Inr qs)
  with assms(1,2) have "run_queries rt s qs (Some (file_alias s f)) k (st\<lparr>world := w\<rparr>) = (Ret e, st')"
    and "start' = Some (k + length qs)"
    by (auto simp: run_query_file_def chain_Ret outside_def give_def)
  with Inr plan.queries_from [OF assms(3,4), of rt "Some (file_alias s f)" k "length qs" 0 qs "st\<lparr>world := w\<rparr>"]
  show ?thesis by (auto simp: run_queries_def follows_def)
qed

theorem run_query_file_results_witness:
  "\<exists>st'. run_query_file demo_runtime demo_stage ''/w/none.sql'' (Some 3) None demo_exec = (Ret (None, Some 3), st')
     \<and> sent st' = [] \<and> erc st' = []"
proof -
  let ?r = "run_query_file demo_runtime demo_stage ''/w/none.sql'' (Some 3) None demo_exec"
  have "fst ?r = Ret (None, Some 3)"
    by (simp add: run_query_file_def chain_def outside_def demo_defs read_queries_def load_def modify_def give_def)
  then obtain st' where r: "?r = (Ret (None, Some 3), st')" by (metis prod.collapse)
  have "open_file demo_runtime ''/w/none.sql'' (world demo_exec) = (Inl (Plain ''no such file''), 0)"
    by (simp add: demo_defs)
  from run_query_file_results [OF r this demo_runs] r show ?thesis
    by (simp add: read_queries_def demo_defs)
qed

text \<open>Random execution for a number of queries: with that much fuel it ends, and it runs exactly
  that many selections of the generator, in order, without the first \<open>RandSkip\<close> ones, until one
  fails. With \<open>no_random_duplicates\<close> every round of as many selections as there are queries and
  query files has each of them once.\<close>

theorem random_execution_count:
  assumes "RandomlyExecuteUntil s = Some t" and "parse_duration t = None" and "atoi t = Some c"
    and "NoRandomDuplicates s = Some nodup" and "perm_ok rt"
    and "tot = length (Queries s) + length (QueryFiles s)" and "0 < tot" and "nat c < k"
  shows "\<exists>xs. picks (nat c) rt nodup tot \<lparr>indices = None, pos = 0, gen = new_rand rt seed\<rparr> = map Some xs
     \<and> run_randomly k rt s seed st =
         run_selections rt s (filter (\<lambda>(j, _). rand_skip rt < int j) (zip [1 ..< 1 + nat c] xs))
           (st\<lparr>rand_seed_used := True\<rparr>)
     \<and> (nodup \<longrightarrow> (\<forall>b. (b + 1) * tot \<le> nat c \<longrightarrow>
          mset (take tot (drop (b * tot) xs)) = mset [0 ..< tot]))"
proof -
  let ?p = "\<lparr>indices = None, pos = 0, gen = new_rand rt seed\<rparr>"
  obtain xs where xs: "picks (nat c) rt nodup tot ?p = map Some xs"
    using picks_Some [OF assms(5,7)] by blast
  have "int 1 + int (nat c) = c + 1 \<or> (nat c = 0 \<and> c < int 1)" by auto
  from random_loop_count [OF assms(4) xs [unfolded assms(6)] this assms(8)]
  have run: "run_randomly k rt s seed st =
      run_selections rt s (filter (\<lambda>(j, _). rand_skip rt < int j) (zip [1 ..< 1 + nat c] xs))
        (st\<lparr>rand_seed_used := True\<rparr>)"
    by (simp add: run_randomly_def assms(1-3) Let_def chain_def modify_def)
  have "mset (take tot (drop (b * tot) xs)) = mset [0 ..< tot]" if "nodup" "(b + 1) * tot \<le> nat c" for b
  proof -
    have "mset (map Some (take tot (drop (b * tot) xs))) = mset (map Some [0 ..< tot])"
      using picks_blocks [OF assms(5,7), of ?p b "nat c"] xs that by (simp add: take_map drop_map)
    then have "image_mset the (mset (map Some (take tot (drop (b * tot) xs))))
        = image_mset the (mset (map Some [0 ..< tot]))"
      by simp
    then show ?thesis by (simp add: multiset.map_comp comp_def)
  qed
  with xs run show ?thesis by blast
qed
theorem random_execution_count_witness:
  "\<exists>xs. mset (take 2 (drop 2 xs)) = mset [0, 1 :: nat]
     \<and> run_randomly 5 demo_runtime (demo_stage\<lparr>Queries := [''a'', ''bad''], RandomlyExecuteUntil := Some ''4''\<rparr>) 9 demo_exec
       = run_selections demo_runtime (demo_stage\<lparr>Queries := [''a'', ''bad''], RandomlyExecuteUntil := Some ''4''\<rparr>)
           (zip [1 ..< 5] xs) (demo_exec\<lparr>rand_seed_used := True\<rparr>)"
proof -
  let ?s = "demo_stage\<lparr>Queries := [''a'', ''bad''], RandomlyExecuteUntil := Some ''4''\<rparr>"
  have n: "atoi ''4'' = Some 4" "parse_duration ''4'' = None"
    by (simp_all add: parse_duration_digits is_digit_def)
      (simp add: atoi_def split_sign_def is_digit_def digits_value_def digit_value_def in_int64_def)
  have p: "perm_ok demo_runtime" by (simp add: perm_ok_def demo_runtime_def)
  have f: "filter (\<lambda>(j, _). rand_skip demo_runtime < int j) (zip [1 ..< 5] ys) = zip [1 ..< 5] ys" for ys :: "nat list"
    by (intro filter_True) (auto simp: demo_runtime_def dest!: set_zip_leftD)
  have st: "RandomlyExecuteUntil ?s = Some ''4''" "NoRandomDuplicates ?s = Some True"
    "2 = length (Queries ?s) + length (QueryFiles ?s)" "0 < (2 :: nat)" "nat 4 < 5" by simp_all
  obtain xs where x: "run_randomly 5 demo_runtime ?s 9 demo_exec = run_selections demo_runtime ?s
      (filter (\<lambda>(j, _). rand_skip demo_runtime < int j) (zip [1 ..< 1 + nat 4] xs)) (demo_exec\<lparr>rand_seed_used := True\<rparr>)"
    and b: "\<forall>b. (b + 1) * 2 \<le> nat 4 \<longrightarrow> mset (take 2 (drop (b * 2) xs)) = mset [0 ..< 2 :: nat]"
    using random_execution_count [OF st(1) n(2,1) st(2) p st(3-5)] by blast
  have n5: "1 + nat 4 = 5" and n01: "[0 ..< 2] = [0, 1 :: nat]" by (simp_all add: upt_rec)
  have "mset (take 2 (drop 2 xs)) = mset [0, 1 :: nat]"
    using b [rule_format, of 1] unfolding n01 by simp
  then show ?thesis using x unfolding n5 f by blast
qed


text \<open>What the directories of a file system without changes give.\<close>

definition expansion :: "(string \<Rightarrow> bool) \<Rightarrow> (string \<Rightarrow> (string \<times> bool) list) \<Rightarrow> string \<Rightarrow> string list" where
  "expansion isdir ls f =
     (if isdir f then map (\<lambda>(n, _). path_join f n) (filter (\<lambda>(_, d). \<not> d) (ls f)) else [f])"

text \<open>If every query file exists, \<open>expandQueryFileDirs\<close> replaces each directory by the files
  directly in it, in the order of the listing and without subdirectories, and keeps everything else
  of the stage.\<close>

theorem expand_query_file_dirs_result:
  assumes "\<And>f w. f \<in> set (QueryFiles s) \<Longrightarrow> stat_path rt f w = (Inr (isdir f), w)"
    and "\<And>f w. f \<in> set (QueryFiles s) \<Longrightarrow> isdir f \<Longrightarrow> list_dir rt f w = (Inr (ls f), w)"
  shows "expand_query_file_dirs rt s st =
     (Ret (None, s\<lparr>QueryFiles := concat (map (expansion isdir ls) (QueryFiles s))\<rparr>), st)"
proof -
  have "(\<And>f w. f \<in> set fs \<Longrightarrow> stat_path rt f w = (Inr (isdir f), w)) \<Longrightarrow>
      (\<And>f w. f \<in> set fs \<Longrightarrow> isdir f \<Longrightarrow> list_dir rt f w = (Inr (ls f), w)) \<Longrightarrow>
      expand_query_files rt fs st = (Ret (Inr (concat (map (expansion isdir ls) fs))), st)" for fs
  proof (induction fs)
    case Nil
    then show ?case by (simp add: give_def)
  next
    case (Cons f fs)
    then have "expand_query_files rt fs st = (Ret (Inr (concat (map (expansion isdir ls) fs))), st)" by simp
    with Cons.prems [of f "world st"] show ?case
      by (cases "isdir f") (simp_all add: chain_def outside_def give_def expansion_def [of _ _ f])
  qed
  from this [of "QueryFiles s"] assms show ?thesis
    by (simp add: expand_query_file_dirs_def chain_def give_def)
qed

theorem expand_query_file_dirs_result_witness:
  "expand_query_file_dirs demo_runtime (demo_stage\<lparr>QueryFiles := [''/w/a.sql'', ''/w/d'']\<rparr>) demo_exec
   = (Ret (None, demo_stage\<lparr>QueryFiles := [''/w/a.sql'', ''/w/d/x.sql'', ''/w/d/y.sql'']\<rparr>), demo_exec)"
proof -
  have j: "path_join ''/w/d'' ''x.sql'' = ''/w/d/x.sql''" "path_join ''/w/d'' ''y.sql'' = ''/w/d/y.sql''"
    by code_simp+
  show ?thesis
    by (subst expand_query_file_dirs_result [where isdir = "\<lambda>f. f = ''/w/d''"
          and ls = "\<lambda>f. [(''x.sql'', False), (''sub'', True), (''y.sql'', False)]"])
      (simp_all add: demo_runtime_def expansion_def j)
qed

end
