(* ===== verification/StageGraph.thy ===== *)
theory StageGraph
  imports StageDef GoPath
begin

text \<open>
  Reading stage files and linking them into a graph: \<open>stage/map.go\<close>. The type \<open>Map\<close> is a map from
  ids to stages; a \<open>*Stage\<close> held in \<open>NextStages\<close> is the id under which the stage is in the map. The
  operating system and the JSON decoder are a record \<open>host\<close> that the functions take as an argument.
  The recursion of the parser and of the check for cycles has fuel: running out of it is \<open>None\<close>,
  and it is proved how much fuel is enough.
\<close>

subsection \<open>The host\<close>

text \<open>\<open>stat_dir\<close> is \<open>os.Stat\<close>: \<open>None\<close> is its error, \<open>Some d\<close> says whether the path is a directory.
  \<open>decode\<close> is \<open>json.Unmarshal\<close> into a stage.\<close>

record 'c host =
  abs_path :: "string \<Rightarrow> string option"
  read_file :: "string \<Rightarrow> string option"
  stat_dir :: "string \<Rightarrow> bool option"
  decode :: "string \<Rightarrow> 'c stage \<Rightarrow> 'c stage option"

datatype graph_error =
  NoAbsolutePath string
| CannotRead string
| CannotDecode string
| NotValid string
| NoQueryFile string string
| NoNextFile string string
| NextIsDirectory string string
| CycleAt string
| DuplicateNext string string

text \<open>The \<open>validate\<close> tags of the struct: \<open>gte=0\<close> for the runs, \<open>gte=1\<close> for the streams, nothing if
  the pointer is nil.\<close>

definition valid_stage :: "'c stage \<Rightarrow> bool" where
  "valid_stage s \<longleftrightarrow>
     (case ColdRuns s of None \<Rightarrow> True | Some n \<Rightarrow> 0 \<le> n)
     \<and> (case WarmRuns s of None \<Rightarrow> True | Some n \<Rightarrow> 0 \<le> n)
     \<and> (case StreamCount s of None \<Rightarrow> True | Some n \<Rightarrow> 1 \<le> n)"

subsection \<open>ReadStageFromFile\<close>

text \<open>A path of a stage file, relative to the directory of the file.\<close>

definition resolve :: "string \<Rightarrow> string \<Rightarrow> string" where
  "resolve bdir p = (if is_abs p then p else path_join bdir p)"

text \<open>The loop over the query files: the first that does not exist is the error.\<close>

fun check_query_files ::
  "'c host \<Rightarrow> string \<Rightarrow> string \<Rightarrow> string list \<Rightarrow> graph_error + string list" where
  "check_query_files h sid bdir [] = Inr []"
| "check_query_files h sid bdir (q # qs) =
     (case stat_dir h (resolve bdir q) of
        None \<Rightarrow> Inl (NoQueryFile sid (resolve bdir q))
      | Some _ \<Rightarrow> (case check_query_files h sid bdir qs of
                     Inl e \<Rightarrow> Inl e
                   | Inr rs \<Rightarrow> Inr (resolve bdir q # rs)))"

definition read_stage_from_file :: "'c host \<Rightarrow> string \<Rightarrow> graph_error + 'c stage" where
  "read_stage_from_file h path0 =
     (case abs_path h path0 of
        None \<Rightarrow> Inl (NoAbsolutePath path0)
      | Some path \<Rightarrow>
        (case read_file h path of
           None \<Rightarrow> Inl (CannotRead path)
         | Some bytes \<Rightarrow>
           (case decode h bytes (empty_stage\<lparr>stage_id := file_name_without_path_and_ext path,
                                             BaseDir := dir path\<rparr>) of
              None \<Rightarrow> Inl (CannotDecode path)
            | Some s \<Rightarrow>
              if \<not> valid_stage s then Inl (NotValid path)
              else (case check_query_files h (stage_id s) (BaseDir s) (QueryFiles s) of
                      Inl e \<Rightarrow> Inl e
                    | Inr qs \<Rightarrow> Inr (s\<lparr>QueryFiles := qs\<rparr>)))))"

subsection \<open>ParseStage and ParseStageFromFile\<close>

type_synonym 'c stages = "string \<Rightarrow> 'c stage option"

fun check_next_files ::
  "'c host \<Rightarrow> string \<Rightarrow> string \<Rightarrow> string list \<Rightarrow> graph_error + string list" where
  "check_next_files h sid bdir [] = Inr []"
| "check_next_files h sid bdir (p # ps) =
     (case stat_dir h (resolve bdir p) of
        None \<Rightarrow> Inl (NoNextFile sid (resolve bdir p))
      | Some True \<Rightarrow> Inl (NextIsDirectory sid (resolve bdir p))
      | Some False \<Rightarrow> (case check_next_files h sid bdir ps of
                        Inl e \<Rightarrow> Inl e
                      | Inr rs \<Rightarrow> Inr (resolve bdir p # rs)))"

text \<open>\<open>stage.NextStages = append(stage.NextStages, nextStage)\<close> and
  \<open>nextStage.wgPrerequisites.Add(1)\<close>. The two may be the same stage.\<close>

definition link :: "string \<Rightarrow> string \<Rightarrow> 'c stages \<Rightarrow> 'c stages" where
  "link sid nid st =
     (let st1 = st(sid := map_option (\<lambda>s. s\<lparr>NextStages := NextStages s @ [nid]\<rparr>) (st sid))
      in st1(nid := map_option (\<lambda>n. n\<lparr>wgPrerequisites := wgPrerequisites n + 1\<rparr>) (st1 nid)))"

text \<open>\<open>parse_next\<close> is the loop over the next stages; \<open>parse_from_file\<close> is \<open>ParseStageFromFile\<close>.
  Both functions of the code return the stage: here the id under which it is in the map.\<close>

function (sequential)
  parse_stage :: "nat \<Rightarrow> 'c host \<Rightarrow> 'c stage \<Rightarrow> 'c stages
     \<Rightarrow> (graph_error + string \<times> 'c stages) option" and
  parse_from_file :: "nat \<Rightarrow> 'c host \<Rightarrow> string \<Rightarrow> 'c stages
     \<Rightarrow> (graph_error + string \<times> 'c stages) option" and
  parse_next :: "nat \<Rightarrow> 'c host \<Rightarrow> string \<Rightarrow> string list \<Rightarrow> 'c stages
     \<Rightarrow> (graph_error + string \<times> 'c stages) option" where
  "parse_stage k h s st =
     (if st (stage_id s) \<noteq> None then Some (Inr (stage_id s, st))
      else case check_next_files h (stage_id s) (BaseDir s) (NextStagePaths s) of
             Inl e \<Rightarrow> Some (Inl e)
           | Inr paths \<Rightarrow>
             (case k of
                0 \<Rightarrow> None
              | Suc j \<Rightarrow> parse_next j h (stage_id s) paths
                           (st(stage_id s \<mapsto> s\<lparr>NextStagePaths := paths\<rparr>))))"
| "parse_from_file k h path st =
     (if st (file_name_without_path_and_ext path) \<noteq> None
      then Some (Inr (file_name_without_path_and_ext path, st))
      else case read_stage_from_file h path of
             Inl e \<Rightarrow> Some (Inl e)
           | Inr s \<Rightarrow> parse_stage k h s st)"
| "parse_next k h sid [] st = Some (Inr (sid, st))"
| "parse_next k h sid (p # ps) st =
     (case parse_from_file k h p st of
        None \<Rightarrow> None
      | Some (Inl e) \<Rightarrow> Some (Inl e)
      | Some (Inr (nid, st')) \<Rightarrow> parse_next k h sid ps (link sid nid st'))"
  by pat_completeness auto
termination
  by (relation "measures [\<lambda>x. case x of Inl (k, _) \<Rightarrow> k | Inr (Inl (k, _)) \<Rightarrow> k | Inr (Inr (k, _)) \<Rightarrow> k,
      \<lambda>x. case x of Inl _ \<Rightarrow> 0 | Inr (Inl _) \<Rightarrow> 1 | Inr (Inr (_, _, _, ps, _)) \<Rightarrow> 2 + length ps]")
    auto

declare parse_stage.simps [simp del] parse_from_file.simps [simp del]

subsection \<open>checkStageLinks\<close>

definition nexts :: "'c stages \<Rightarrow> string \<Rightarrow> string list" where
  "nexts st sid = (case st sid of None \<Rightarrow> [] | Some s \<Rightarrow> NextStages s)"

text \<open>The outer option is the fuel, the inner one the returned error. \<open>visiting\<close> is handed down;
  the deferred \<open>delete\<close> restores it for the caller, which put the id in only after testing that
  it was not there. \<open>seen\<close> is the map of the next stages met so far.\<close>

function (sequential)
  check_links :: "nat \<Rightarrow> 'c stages \<Rightarrow> string \<Rightarrow> string list \<Rightarrow> graph_error option option" and
  check_next :: "nat \<Rightarrow> 'c stages \<Rightarrow> string \<Rightarrow> string list \<Rightarrow> string list \<Rightarrow> string list
     \<Rightarrow> graph_error option option" where
  "check_links k st sid visiting =
     (if sid \<in> set visiting then Some (Some (CycleAt sid))
      else case k of 0 \<Rightarrow> None
           | Suc j \<Rightarrow> check_next j st sid (nexts st sid) [] (sid # visiting))"
| "check_next k st sid [] seen visiting = Some None"
| "check_next k st sid (n # ns) seen visiting =
     (if n \<in> set seen then Some (Some (DuplicateNext sid n))
      else case check_links k st n visiting of
             None \<Rightarrow> None
           | Some (Some e) \<Rightarrow> Some (Some e)
           | Some None \<Rightarrow> check_next k st sid ns (n # seen) visiting)"
  by pat_completeness auto
termination
  by (relation "measures [\<lambda>x. case x of Inl (k, _) \<Rightarrow> k | Inr (k, _) \<Rightarrow> k,
      \<lambda>x. case x of Inl _ \<Rightarrow> 0 | Inr (_, _, _, ns, _) \<Rightarrow> 1 + length ns]")
    auto

declare check_links.simps [simp del]

text \<open>\<open>ParseStageGraph\<close>: the fuel \<open>k\<close> is for the parser, \<open>j\<close> for the check.\<close>

definition parse_stage_graph ::
  "nat \<Rightarrow> nat \<Rightarrow> 'c host \<Rightarrow> 'c stage \<Rightarrow> (graph_error + string \<times> 'c stages) option" where
  "parse_stage_graph k j h start =
     (case parse_stage k h start (\<lambda>_. None) of
        None \<Rightarrow> None
      | Some (Inl e) \<Rightarrow> Some (Inl e)
      | Some (Inr (sid, st)) \<Rightarrow>
        (case check_links j st sid [] of
           None \<Rightarrow> None
         | Some (Some e) \<Rightarrow> Some (Inl e)
         | Some None \<Rightarrow> Some (Inr (sid, st))))"

section \<open>The check for cycles\<close>

definition edge :: "'c stages \<Rightarrow> string \<Rightarrow> string \<Rightarrow> bool" where
  "edge st a b \<longleftrightarrow> b \<in> set (nexts st a)"

text \<open>The contract of the check: what is reachable has no cycle and no repeated next stage.\<close>

definition well_linked :: "'c stages \<Rightarrow> string \<Rightarrow> bool" where
  "well_linked st sid \<longleftrightarrow>
     (\<forall>t. (edge st)\<^sup>*\<^sup>* sid t \<longrightarrow> distinct (nexts st t) \<and> \<not> (edge st)\<^sup>+\<^sup>+ t t)"

lemma well_linked_next: "well_linked st s \<Longrightarrow> edge st s n \<Longrightarrow> well_linked st n"
  unfolding well_linked_def by (meson converse_rtranclp_into_rtranclp)

text \<open>What an answer without error says of the stages reachable from here.\<close>

lemma check_links_sound:
  "check_links k st s V = Some None \<Longrightarrow>
     well_linked st s \<and> (\<forall>t. (edge st)\<^sup>*\<^sup>* s t \<longrightarrow> t \<notin> set V)"
  "check_next k st s ns seen V = Some None \<Longrightarrow>
     distinct ns \<and> set ns \<inter> set seen = {} \<and>
     (\<forall>n \<in> set ns. well_linked st n \<and> (\<forall>t. (edge st)\<^sup>*\<^sup>* n t \<longrightarrow> t \<notin> set V))"
proof (induction k st s V and k st s ns seen V rule: check_links_check_next.induct)
  case (1 k st s V)
  from "1.prems" obtain j where sV: "s \<notin> set V" and k: "k = Suc j"
    and c: "check_next j st s (nexts st s) [] (s # V) = Some None"
    by (auto simp: check_links.simps split: if_splits nat.splits)
  from "1.IH" [OF sV k c] have d: "distinct (nexts st s)"
    and r: "\<And>n. edge st s n \<Longrightarrow> well_linked st n \<and> (\<forall>t. (edge st)\<^sup>*\<^sup>* n t \<longrightarrow> t \<notin> set V \<and> t \<noteq> s)"
    by (auto simp: edge_def [of st s])
  have noself: "\<not> (edge st)\<^sup>+\<^sup>+ s s"
    by (meson r tranclpD)
  have "distinct (nexts st t) \<and> \<not> (edge st)\<^sup>+\<^sup>+ t t \<and> t \<notin> set V" if t: "(edge st)\<^sup>*\<^sup>* s t" for t
    using t
  proof (cases rule: converse_rtranclpE)
    case base
    with d noself sV show ?thesis by simp
  next
    case (step n)
    with r [OF step(1)] show ?thesis by (auto simp: well_linked_def)
  qed
  then show ?case by (auto simp: well_linked_def)
next
  case (2 k st s seen V)
  then show ?case by simp
next
  case (3 k st s n ns seen V)
  from "3.prems" have "n \<notin> set seen" and "check_links k st n V = Some None"
    and "check_next k st s ns (n # seen) V = Some None"
    by (auto split: if_splits option.splits)
  with "3.IH" show ?case by auto
qed

text \<open>What has no cycle and no repetition gives no error.\<close>

lemma check_links_complete:
  "check_links k st s V = Some (Some e) \<Longrightarrow> well_linked st s \<Longrightarrow>
     \<exists>t. (edge st)\<^sup>*\<^sup>* s t \<and> t \<in> set V"
  "check_next k st s ns seen V = Some (Some e) \<Longrightarrow> distinct ns \<Longrightarrow> set ns \<inter> set seen = {} \<Longrightarrow>
     \<forall>n \<in> set ns. well_linked st n \<Longrightarrow> \<exists>n \<in> set ns. \<exists>t. (edge st)\<^sup>*\<^sup>* n t \<and> t \<in> set V"
proof (induction k st s V and k st s ns seen V rule: check_links_check_next.induct)
  case (1 k st s V)
  show ?case
  proof (cases "s \<in> set V")
    case True
    then show ?thesis by blast
  next
    case False
    with "1.prems"(1) obtain j where k: "k = Suc j"
      and c: "check_next j st s (nexts st s) [] (s # V) = Some (Some e)"
      by (auto simp: check_links.simps split: nat.splits)
    have "distinct (nexts st s)" using "1.prems"(2) by (auto simp: well_linked_def)
    moreover have "\<forall>n \<in> set (nexts st s). well_linked st n"
      using "1.prems"(2) by (auto intro: well_linked_next simp: edge_def [of st s])
    ultimately obtain n t where n: "edge st s n" and t: "(edge st)\<^sup>*\<^sup>* n t" "t \<in> set (s # V)"
      using "1.IH" [OF False k c] by (auto simp: edge_def [of st s])
    have "\<not> (edge st)\<^sup>+\<^sup>+ s s" using "1.prems"(2) by (auto simp: well_linked_def)
    with n t(1) have "t \<noteq> s" by (meson rtranclp_into_tranclp2)
    with n t show ?thesis by (metis converse_rtranclp_into_rtranclp set_ConsD)
  qed
next
  case (2 k st s seen V)
  then show ?case by simp
next
  case (3 k st s n ns seen V)
  from "3.prems" have nseen: "n \<notin> set seen" by auto
  show ?case
  proof (cases "check_links k st n V")
    case None
    with "3.prems" nseen show ?thesis by simp
  next
    case (Some r)
    show ?thesis
    proof (cases r)
      case None
      with "3.prems" nseen Some "3.IH"(2) show ?thesis by auto
    next
      case (Some e')
      with \<open>check_links k st n V = Some r\<close> "3.prems" nseen "3.IH"(1) show ?thesis by auto
    qed
  qed
qed

text \<open>The check visits no stage twice on one path, so the number of stages is enough fuel.\<close>

definition closed_under_next :: "'c stages \<Rightarrow> string set \<Rightarrow> bool" where
  "closed_under_next st N \<longleftrightarrow> (\<forall>a \<in> N. set (nexts st a) \<subseteq> N)"

lemma check_links_fuel:
  "finite N \<Longrightarrow> closed_under_next st N \<Longrightarrow> s \<in> N \<Longrightarrow> card (N - set V) \<le> k \<Longrightarrow>
     check_links k st s V \<noteq> None"
  "finite N \<Longrightarrow> closed_under_next st N \<Longrightarrow> set ns \<subseteq> N \<Longrightarrow> card (N - set V) \<le> k \<Longrightarrow>
     check_next k st s ns seen V \<noteq> None"
proof (induction k st s V and k st s ns seen V rule: check_links_check_next.induct)
  case (1 k st s V)
  show ?case
  proof (cases "s \<in> set V")
    case True
    then show ?thesis by (simp add: check_links.simps)
  next
    case False
    with "1.prems" have "card (N - set V) \<noteq> 0" by auto
    with "1.prems" obtain j where k: "k = Suc j" by (cases k) auto
    have "N - set (s # V) = (N - set V) - {s}" by auto
    with "1.prems" False k have "card (N - set (s # V)) \<le> j" by simp
    moreover have "set (nexts st s) \<subseteq> N" using "1.prems" by (auto simp: closed_under_next_def)
    ultimately show ?thesis
      using "1.IH" [OF False k] "1.prems" False k by (simp add: check_links.simps)
  qed
next
  case (2 k st s seen V)
  then show ?case by simp
next
  case (3 k st s n ns seen V)
  show ?case
  proof (cases "n \<in> set seen")
    case True
    then show ?thesis by simp
  next
    case False
    from "3.IH"(1) [OF False] "3.prems" have "check_links k st n V \<noteq> None" by simp
    with "3.IH"(2) [OF False] "3.prems" False show ?thesis by (auto split: option.split)
  qed
qed

lemma check_links_decides:
  assumes "finite N" and "closed_under_next st N" and "s \<in> N" and "card N \<le> k"
  shows "\<exists>r. check_links k st s [] = Some r \<and> (r = None \<longleftrightarrow> well_linked st s)"
proof -
  obtain r where r: "check_links k st s [] = Some r"
    using check_links_fuel(1) [OF assms(1-3), of "[]" k] assms(4) by auto
  moreover have "r = None \<longleftrightarrow> well_linked st s"
    using r check_links_sound(1) [of k st s "[]"] check_links_complete(1) [of k st s "[]"]
    by (cases r) auto
  ultimately show ?thesis by blast
qed

section \<open>What the parser builds\<close>

text \<open>The documented behaviour of the decoder: fields tagged \<open>json:"-"\<close> and fields that are not
  exported stay as they are.\<close>

definition decode_ok :: "'c host \<Rightarrow> bool" where
  "decode_ok h \<longleftrightarrow> (\<forall>bytes s t. decode h bytes s = Some t \<longrightarrow>
     NextStages t = NextStages s \<and> wgPrerequisites t = wgPrerequisites s \<and> BaseDir t = BaseDir s
     \<and> Client t = Client s \<and> propagated t = propagated s)"

text \<open>The stage a path may stand for: by the name of the file or by the id its contents set.\<close>

definition denotes :: "'c host \<Rightarrow> string \<Rightarrow> string \<Rightarrow> bool" where
  "denotes h p n \<longleftrightarrow> n = file_name_without_path_and_ext p
     \<or> (\<exists>s. read_stage_from_file h p = Inr s \<and> stage_id s = n)"

definition indegree :: "'c stages \<Rightarrow> string \<Rightarrow> nat" where
  "indegree st n = (\<Sum>m \<in> dom st. count_list (nexts st m) n)"

definition unlinked :: "'c stage \<Rightarrow> bool" where
  "unlinked s \<longleftrightarrow> NextStages s = [] \<and> wgPrerequisites s = 0 \<and> \<not> propagated s"

text \<open>The invariant of the map while the stages of \<open>W\<close> are being parsed.\<close>

definition stages_ok :: "'c host \<Rightarrow> string set \<Rightarrow> 'c stages \<Rightarrow> bool" where
  "stages_ok h W st \<longleftrightarrow> finite (dom st) \<and> W \<subseteq> dom st \<and>
     (\<forall>m s. st m = Some s \<longrightarrow>
        stage_id s = m \<and> \<not> propagated s
        \<and> set (NextStages s) \<subseteq> dom st \<and> wgPrerequisites s = indegree st m
        \<and> (\<forall>p \<in> set (NextStagePaths s). stat_dir h p = Some False)
        \<and> (m \<notin> W \<longrightarrow> list_all2 (denotes h) (NextStagePaths s) (NextStages s)))"

text \<open>Stages are only added; the next stages of a stage in \<open>W\<close> may get longer.\<close>

definition grows :: "string set \<Rightarrow> 'c stages \<Rightarrow> 'c stages \<Rightarrow> bool" where
  "grows W st st' \<longleftrightarrow> (\<forall>m s. st m = Some s \<longrightarrow>
     (\<exists>s'. st' m = Some s' \<and> NextStagePaths s' = NextStagePaths s
        \<and> prefix (NextStages s) (NextStages s') \<and> (m \<notin> W \<longrightarrow> NextStages s' = NextStages s)))"

lemma growsD:
  "grows W st st' \<Longrightarrow> st m = Some s \<Longrightarrow>
     \<exists>s'. st' m = Some s' \<and> NextStagePaths s' = NextStagePaths s
        \<and> prefix (NextStages s) (NextStages s') \<and> (m \<notin> W \<longrightarrow> NextStages s' = NextStages s)"
  by (simp add: grows_def)

lemma grows_refl: "grows W st st"
  by (simp add: grows_def)

lemma grows_trans:
  assumes "grows W st st1" and "grows W' st1 st2"
  shows "grows (W \<union> W') st st2"
  unfolding grows_def
proof (intro allI impI)
  fix m s
  assume "st m = Some s"
  then obtain s1 where 1: "st1 m = Some s1" "NextStagePaths s1 = NextStagePaths s"
    "prefix (NextStages s) (NextStages s1)" "m \<notin> W \<longrightarrow> NextStages s1 = NextStages s"
    using growsD [OF assms(1)] by blast
  then obtain s2 where "st2 m = Some s2" "NextStagePaths s2 = NextStagePaths s1"
    "prefix (NextStages s1) (NextStages s2)" "m \<notin> W' \<longrightarrow> NextStages s2 = NextStages s1"
    using growsD [OF assms(2)] by blast
  with 1 show "\<exists>s'. st2 m = Some s' \<and> NextStagePaths s' = NextStagePaths s
      \<and> prefix (NextStages s) (NextStages s') \<and> (m \<notin> W \<union> W' \<longrightarrow> NextStages s' = NextStages s)"
    by (auto intro: prefix_order.trans)
qed

lemma grows_edge: "grows W st st' \<Longrightarrow> edge st a b \<Longrightarrow> edge st' a b"
  by (cases "st a") (auto simp: edge_def nexts_def dest!: growsD set_mono_prefix)

lemma grows_reach: "grows W st st' \<Longrightarrow> (edge st)\<^sup>*\<^sup>* a b \<Longrightarrow> (edge st')\<^sup>*\<^sup>* a b"
  by (rotate_tac, induction rule: rtranclp_induct) (auto dest: grows_edge intro: rtranclp.rtrancl_into_rtrancl)

lemma grows_dom: "grows W st st' \<Longrightarrow> dom st \<subseteq> dom st'"
  by (auto dest: growsD)

lemma link_apply:
  "link sid nid st m = map_option (\<lambda>s. s\<lparr>
     NextStages := NextStages s @ (if m = sid then [nid] else []),
     wgPrerequisites := wgPrerequisites s + (if m = nid then 1 else 0)\<rparr>) (st m)"
  by (cases "st m") (auto simp: link_def Let_def)

lemma dom_link [simp]: "dom (link sid nid st) = dom st"
  by (auto simp: link_apply dom_def)

lemma nexts_link:
  "nexts (link sid nid st) m = nexts st m @ (if m = sid \<and> m \<in> dom st then [nid] else [])"
  by (cases "st m") (auto simp: nexts_def link_apply dom_def)

lemma indegree_link:
  assumes "finite (dom st)" and "sid \<in> dom st"
  shows "indegree (link sid nid st) n = indegree st n + (if n = nid then 1 else 0)"
proof -
  have "indegree (link sid nid st) n
      = (\<Sum>m \<in> dom st. count_list (nexts st m) n + (if m = sid then (if n = nid then 1 else 0) else 0))"
    unfolding indegree_def dom_link by (rule sum.cong) (auto simp: nexts_link)
  also have "\<dots> = indegree st n + (if n = nid then 1 else 0)"
    using assms by (simp add: sum.distrib indegree_def)
  finally show ?thesis .
qed

lemma link_ok:
  assumes "stages_ok h W st" and "sid \<in> W" and "nid \<in> dom st"
  shows "stages_ok h W (link sid nid st)"
  unfolding stages_ok_def
proof (intro conjI allI impI)
  have d: "finite (dom st)" "W \<subseteq> dom st" using assms(1) by (auto simp: stages_ok_def)
  then show "finite (dom (link sid nid st))" "W \<subseteq> dom (link sid nid st)" by simp_all
  fix m s
  assume "link sid nid st m = Some s"
  then obtain s0 where s0: "st m = Some s0" and s: "s = s0\<lparr>
     NextStages := NextStages s0 @ (if m = sid then [nid] else []),
     wgPrerequisites := wgPrerequisites s0 + (if m = nid then 1 else 0)\<rparr>"
    by (auto simp: link_apply)
  from assms(1) s0 have ok: "stage_id s0 = m" "\<not> propagated s0" "set (NextStages s0) \<subseteq> dom st"
    "wgPrerequisites s0 = indegree st m" "\<forall>p \<in> set (NextStagePaths s0). stat_dir h p = Some False"
    "m \<notin> W \<Longrightarrow> list_all2 (denotes h) (NextStagePaths s0) (NextStages s0)"
    by (auto simp: stages_ok_def)
  show "stage_id s = m" using ok(1) by (simp add: s)
  show "\<not> propagated s" using ok(2) by (simp add: s)
  show "set (NextStages s) \<subseteq> dom (link sid nid st)" using ok(3) assms(3) by (auto simp: s)
  show "wgPrerequisites s = indegree (link sid nid st) m"
    using ok(4) d assms(2) by (subst indegree_link) (auto simp: s)
  show "\<forall>p \<in> set (NextStagePaths s). stat_dir h p = Some False" using ok(5) by (simp add: s)
  show "list_all2 (denotes h) (NextStagePaths s) (NextStages s)" if "m \<notin> W"
    using ok(6) that assms(2) by (auto simp: s)
qed

lemma link_grows: "grows {sid} st (link sid nid st)"
  by (auto simp: grows_def link_apply)

lemma check_next_files_ok:
  "check_next_files h sid bdir ps = Inr rs \<Longrightarrow>
     rs = map (resolve bdir) ps \<and> (\<forall>p \<in> set rs. stat_dir h p = Some False)"
  by (induction ps arbitrary: rs) (auto split: option.splits bool.splits sum.splits)

text \<open>A stage that is put into the map before its next stages are parsed.\<close>

lemma add_stage_ok:
  assumes ok: "stages_ok h W st" and new: "st (stage_id s) = None" and u: "unlinked s"
    and paths: "\<forall>p \<in> set ps. stat_dir h p = Some False"
  shows "stages_ok h (insert (stage_id s) W) (st(stage_id s \<mapsto> s\<lparr>NextStagePaths := ps\<rparr>))"
proof -
  let ?st = "st(stage_id s \<mapsto> s\<lparr>NextStagePaths := ps\<rparr>)"
  have fin: "finite (dom st)" and notin: "stage_id s \<notin> dom st"
    using ok new by (auto simp: stages_ok_def)
  have n1: "nexts ?st m = nexts st m" if "m \<in> dom st" for m
    using that new by (auto simp: nexts_def)
  have n2: "nexts ?st (stage_id s) = []" using u by (simp add: nexts_def unlinked_def)
  have "indegree ?st n = count_list (nexts ?st (stage_id s)) n + (\<Sum>m \<in> dom st. count_list (nexts ?st m) n)" for n
    unfolding indegree_def using fin notin by simp
  then have deg: "indegree ?st n = indegree st n" for n
    by (simp add: n1 n2 indegree_def)
  have "count_list (nexts st m) (stage_id s) = 0" if "m \<in> dom st" for m
  proof -
    from that obtain y where "st m = Some y" by blast
    with ok have "set (NextStages y) \<subseteq> dom st" by (auto simp: stages_ok_def)
    with notin \<open>st m = Some y\<close> show ?thesis by (auto simp: nexts_def count_list_0_iff)
  qed
  then have "indegree st (stage_id s) = 0" by (simp add: indegree_def)
  moreover have "\<exists>y. st x = Some y" if "st m = Some a" "x \<in> set (NextStages a)" for m a x
    using ok that unfolding stages_ok_def by blast
  ultimately show ?thesis
    using ok u paths deg by (auto simp: stages_ok_def unlinked_def)
qed

lemma finish_ok:
  assumes "stages_ok h (insert sid W) st" and "st sid = Some s0"
    and "list_all2 (denotes h) (NextStagePaths s0) (NextStages s0)"
  shows "stages_ok h W st"
proof -
  have "list_all2 (denotes h) (NextStagePaths s) (NextStages s)" if "st m = Some s" "m \<notin> W" for m s
    using assms that by (cases "m = sid") (auto simp: stages_ok_def)
  with assms(1) show ?thesis by (simp add: stages_ok_def)
qed

lemma read_stage_unlinked:
  assumes "decode_ok h" and "read_stage_from_file h p = Inr s"
  shows "unlinked s"
  using assms
  by (auto simp: read_stage_from_file_def decode_ok_def unlinked_def empty_stage_def
      split: option.splits if_splits sum.splits)

text \<open>What parsing adds: the invariant holds, and every new stage is reachable.\<close>

definition adds_from :: "string \<Rightarrow> 'c stages \<Rightarrow> 'c stages \<Rightarrow> bool" where
  "adds_from n st st' \<longleftrightarrow> n \<in> dom st' \<and> (\<forall>m \<in> dom st' - dom st. (edge st')\<^sup>*\<^sup>* n m)"

lemma parse_ok:
  "parse_stage k h s st = Some (Inr (n, st')) \<Longrightarrow> decode_ok h \<Longrightarrow> unlinked s \<Longrightarrow>
     stages_ok h W st \<Longrightarrow>
     n = stage_id s \<and> stages_ok h W st' \<and> grows {} st st' \<and> adds_from n st st'"
  "parse_from_file k h p st = Some (Inr (n, st')) \<Longrightarrow> decode_ok h \<Longrightarrow> stages_ok h W st \<Longrightarrow>
     denotes h p n \<and> stages_ok h W st' \<and> grows {} st st' \<and> adds_from n st st'"
  "parse_next k h sid ps st = Some (Inr (n, st')) \<Longrightarrow> decode_ok h \<Longrightarrow>
     stages_ok h (insert sid W) st \<Longrightarrow> sid \<notin> W \<Longrightarrow> st sid = Some s0 \<Longrightarrow>
     NextStagePaths s0 = done_paths @ ps \<Longrightarrow> list_all2 (denotes h) done_paths (NextStages s0) \<Longrightarrow>
     n = sid \<and> stages_ok h W st' \<and> grows {sid} st st' \<and> adds_from n st st'"
proof (induction k h s st and k h p st and k h sid ps st
    arbitrary: n st' W and n st' W and n st' W s0 done_paths
    rule: parse_stage_parse_from_file_parse_next.induct)
  case (1 k h s st)
  show ?case
  proof (cases "st (stage_id s)")
    case (Some t)
    with "1.prems" show ?thesis
      by (auto simp: parse_stage.simps grows_refl adds_from_def)
  next
    case None
    with "1.prems"(1) obtain paths j where paths: "check_next_files h (stage_id s) (BaseDir s) (NextStagePaths s) = Inr paths"
      and k: "k = Suc j"
      and p: "parse_next j h (stage_id s) paths (st(stage_id s \<mapsto> s\<lparr>NextStagePaths := paths\<rparr>)) = Some (Inr (n, st'))"
      by (auto simp: parse_stage.simps split: sum.splits nat.splits)
    let ?st = "st(stage_id s \<mapsto> s\<lparr>NextStagePaths := paths\<rparr>)"
    have okW: "stages_ok h (insert (stage_id s) W) ?st"
      using add_stage_ok [OF "1.prems"(4) None "1.prems"(3)] check_next_files_ok [OF paths] by blast
    have notW: "stage_id s \<notin> W" using "1.prems"(4) None by (auto simp: stages_ok_def)
    have r: "n = stage_id s" "stages_ok h W st'" "grows {stage_id s} ?st st'" "adds_from n ?st st'"
      using "1.IH" [OF _ paths k p "1.prems"(2) okW notW, of "s\<lparr>NextStagePaths := paths\<rparr>" "[]"]
        None "1.prems"(3)
      by (auto simp: unlinked_def simp del: fun_upd_apply simp add: fun_upd_same)
    have "grows {} st st'"
      unfolding grows_def
    proof (intro allI impI)
      fix m x
      assume "st m = Some x"
      with None have "m \<notin> {stage_id s}" and "?st m = Some x" by auto
      with growsD [OF r(3), of m x] show "\<exists>s'. st' m = Some s' \<and> NextStagePaths s' = NextStagePaths x
          \<and> prefix (NextStages x) (NextStages s') \<and> (m \<notin> {} \<longrightarrow> NextStages s' = NextStages x)"
        by blast
    qed
    moreover have "adds_from n st st'"
      using r(1,4) by (auto simp: adds_from_def)
    ultimately show ?thesis using r(1,2) by blast
  qed
next
  case (2 k h p st)
  show ?case
  proof (cases "st (file_name_without_path_and_ext p)")
    case (Some t)
    with "2.prems" show ?thesis
      by (auto simp: parse_from_file.simps grows_refl adds_from_def denotes_def)
  next
    case None
    with "2.prems"(1) obtain s where s: "read_stage_from_file h p = Inr s"
      and ps: "parse_stage k h s st = Some (Inr (n, st'))"
      by (auto simp: parse_from_file.simps split: sum.splits)
    from "2.IH" [OF _ s ps "2.prems"(2) read_stage_unlinked [OF "2.prems"(2) s] "2.prems"(3)] None s
    show ?thesis by (auto simp: denotes_def)
  qed
next
  case (3 k h sid st)
  from "3.prems" have "n = sid" "st' = st" by auto
  moreover have "stages_ok h W st"
    using "3.prems" by (intro finish_ok [of h sid W st s0]) auto
  ultimately show ?case using "3.prems" by (auto simp: grows_refl adds_from_def)
next
  case (4 k h sid p ps st)
  from "4.prems"(1) obtain nid st1 where p: "parse_from_file k h p st = Some (Inr (nid, st1))"
    and rest: "parse_next k h sid ps (link sid nid st1) = Some (Inr (n, st'))"
    by (auto split: option.splits sum.splits)
  have 1: "denotes h p nid" "stages_ok h (insert sid W) st1" "grows {} st st1" "adds_from nid st st1"
    using "4.IH"(1) [OF p "4.prems"(2,3)] by auto
  let ?st = "link sid nid st1"
  have 2: "stages_ok h (insert sid W) ?st"
    using link_ok [OF 1(2)] 1(4) by (auto simp: adds_from_def)
  obtain s1 where s1: "st1 sid = Some s1" "NextStagePaths s1 = NextStagePaths s0" "NextStages s1 = NextStages s0"
    using growsD [OF 1(3) "4.prems"(5)] by auto
  obtain s2 where s2: "?st sid = Some s2" "NextStagePaths s2 = (done_paths @ [p]) @ ps"
    "NextStages s2 = NextStages s0 @ [nid]"
    using s1 "4.prems"(6) by (auto simp: link_apply)
  have "list_all2 (denotes h) (done_paths @ [p]) (NextStages s2)"
    using "4.prems"(7) 1(1) s2(3) by (simp add: list_all2_appendI)
  from "4.IH"(2) [OF p _ _ rest "4.prems"(2) 2 "4.prems"(4) s2(1,2) this]
  have 3: "n = sid" "stages_ok h W st'" "grows {sid} ?st st'" "adds_from n ?st st'" by auto
  have g1: "grows {sid} st1 st'" using grows_trans [OF link_grows 3(3)] by simp
  have g: "grows {sid} st st'" using grows_trans [OF 1(3) g1] by simp
  have "edge ?st sid nid" using s1(1) by (simp add: edge_def nexts_link domI)
  then have e: "edge st' sid nid" by (rule grows_edge [OF 3(3)])
  have "adds_from n st st'"
    unfolding adds_from_def
  proof (intro conjI ballI)
    show "n \<in> dom st'" using 3(4) by (simp add: adds_from_def)
    fix m
    assume m: "m \<in> dom st' - dom st"
    show "(edge st')\<^sup>*\<^sup>* n m"
    proof (cases "m \<in> dom st1")
      case True
      with m 1(4) have "(edge st1)\<^sup>*\<^sup>* nid m" by (auto simp: adds_from_def)
      then have "(edge st')\<^sup>*\<^sup>* nid m" by (rule grows_reach [OF g1])
      with e 3(1) show ?thesis by (metis converse_rtranclp_into_rtranclp)
    next
      case False
      with m 3(4) show ?thesis by (auto simp: adds_from_def)
    qed
  qed
  with 3 g show ?case by blast
qed

text \<open>If the ids of all stage files lie in a finite set, its size is enough fuel for the parser.\<close>

definition id_range :: "'c host \<Rightarrow> string set \<Rightarrow> bool" where
  "id_range h I \<longleftrightarrow> finite I \<and> (\<forall>p s. read_stage_from_file h p = Inr s \<longrightarrow> stage_id s \<in> I)"

lemma parse_dom:
  "parse_stage k h s st = Some (Inr (n, st')) \<Longrightarrow> id_range h I \<Longrightarrow> stage_id s \<in> I \<Longrightarrow>
     dom st \<subseteq> dom st' \<and> dom st' \<subseteq> dom st \<union> I"
  "parse_from_file k h p st = Some (Inr (n, st')) \<Longrightarrow> id_range h I \<Longrightarrow>
     dom st \<subseteq> dom st' \<and> dom st' \<subseteq> dom st \<union> I"
  "parse_next k h sid ps st = Some (Inr (n, st')) \<Longrightarrow> id_range h I \<Longrightarrow>
     dom st \<subseteq> dom st' \<and> dom st' \<subseteq> dom st \<union> I"
proof (induction k h s st and k h p st and k h sid ps st arbitrary: n st' and n st' and n st'
    rule: parse_stage_parse_from_file_parse_next.induct)
  case (1 k h s st)
  show ?case
  proof (cases "st (stage_id s)")
    case (Some t)
    with "1.prems" show ?thesis by (auto simp: parse_stage.simps)
  next
    case None
    with "1.prems"(1) obtain paths j where p: "check_next_files h (stage_id s) (BaseDir s) (NextStagePaths s) = Inr paths"
      and k: "k = Suc j"
      and r: "parse_next j h (stage_id s) paths (st(stage_id s \<mapsto> s\<lparr>NextStagePaths := paths\<rparr>)) = Some (Inr (n, st'))"
      by (auto simp: parse_stage.simps split: sum.splits nat.splits)
    have "dom (st(stage_id s \<mapsto> s\<lparr>NextStagePaths := paths\<rparr>)) = insert (stage_id s) (dom st)" by simp
    with "1.IH" [OF _ p k r "1.prems"(2)] None "1.prems"(3) show ?thesis
      by (simp del: fun_upd_apply) blast
  qed
next
  case (2 k h p st)
  then show ?case
    by (auto simp: parse_from_file.simps id_range_def split: if_splits sum.splits)
next
  case (3 k h sid st)
  then show ?case by auto
next
  case (4 k h sid p ps st)
  from "4.prems"(1) obtain nid st1 where p: "parse_from_file k h p st = Some (Inr (nid, st1))"
    and rest: "parse_next k h sid ps (link sid nid st1) = Some (Inr (n, st'))"
    by (auto split: option.splits sum.splits)
  from "4.IH"(1) [OF p "4.prems"(2)] "4.IH"(2) [OF p _ _ rest "4.prems"(2)]
  show ?case unfolding dom_link by blast
qed

lemma parse_fuel:
  "id_range h I \<Longrightarrow> stage_id s \<in> I \<Longrightarrow> card (I - dom st) \<le> k \<Longrightarrow> parse_stage k h s st \<noteq> None"
  "id_range h I \<Longrightarrow> card (I - dom st) \<le> k \<Longrightarrow> parse_from_file k h p st \<noteq> None"
  "id_range h I \<Longrightarrow> card (I - dom st) \<le> k \<Longrightarrow> parse_next k h sid ps st \<noteq> None"
proof (induction k h s st and k h p st and k h sid ps st
    rule: parse_stage_parse_from_file_parse_next.induct)
  case (1 k h s st)
  show ?case
  proof (cases "st (stage_id s)")
    case (Some t)
    then show ?thesis by (simp add: parse_stage.simps)
  next
    case None
    have fin: "finite (I - dom st)" and mem: "stage_id s \<in> I - dom st"
      using "1.prems" None by (auto simp: id_range_def)
    then have "card (I - dom st) \<noteq> 0" by auto
    with "1.prems" obtain j where k: "k = Suc j" by (cases k) auto
    show ?thesis
    proof (cases "check_next_files h (stage_id s) (BaseDir s) (NextStagePaths s)")
      case (Inl e)
      then show ?thesis by (simp add: parse_stage.simps)
    next
      case (Inr paths)
      let ?st = "st(stage_id s \<mapsto> s\<lparr>NextStagePaths := paths\<rparr>)"
      have "I - dom ?st = (I - dom st) - {stage_id s}" by auto
      with fin mem "1.prems" k have "card (I - dom ?st) \<le> j" by simp
      with "1.IH" [OF _ Inr k "1.prems"(1)] None have "parse_next j h (stage_id s) paths ?st \<noteq> None"
        by blast
      with None Inr k show ?thesis by (simp add: parse_stage.simps del: fun_upd_apply)
    qed
  qed
next
  case (2 k h p st)
  then show ?case
    by (subst parse_from_file.simps) (auto simp: id_range_def split: sum.splits)
next
  case (3 k h sid st)
  then show ?case by simp
next
  case (4 k h sid p ps st)
  show ?case
  proof (cases "parse_from_file k h p st")
    case None
    with 4 show ?thesis by simp
  next
    case (Some r)
    show ?thesis
    proof (cases r)
      case (Inl e)
      with Some show ?thesis by simp
    next
      case (Inr ns)
      obtain nid st1 where ns: "ns = (nid, st1)" by (cases ns)
      with Some Inr have p: "parse_from_file k h p st = Some (Inr (nid, st1))" by simp
      have "dom st \<subseteq> dom (link sid nid st1)" using parse_dom(2) [OF p "4.prems"(1)] unfolding dom_link by blast
      then have "I - dom (link sid nid st1) \<subseteq> I - dom st" by blast
      then have "card (I - dom (link sid nid st1)) \<le> k"
        using "4.prems" by (meson card_mono finite_Diff id_range_def le_trans)
      with "4.IH"(2) [OF p _ _ "4.prems"(1)] p show ?thesis by simp
    qed
  qed
qed

section \<open>Which files the stages come from\<close>

text \<open>What \<open>ReadStageFromFile\<close> promises, said of the host alone: the stage \<open>r\<close> is the decoded contents of
  the file at \<open>p\<close>, valid, with the query files found beside that file.\<close>

definition beside :: "string \<Rightarrow> string \<Rightarrow> string" where
  "beside d p = (if is_abs p then p else path_join d p)"

definition reads_as :: "'c host \<Rightarrow> string \<Rightarrow> 'c stage \<Rightarrow> bool" where
  "reads_as h p r \<longleftrightarrow> (\<exists>path bytes d. abs_path h p = Some path \<and> read_file h path = Some bytes
     \<and> decode h bytes (empty_stage\<lparr>stage_id := file_name_without_path_and_ext path, BaseDir := dir path\<rparr>) = Some d
     \<and> valid_stage d \<and> r = d\<lparr>QueryFiles := map (beside (BaseDir d)) (QueryFiles d)\<rparr>
     \<and> (\<forall>q \<in> set (QueryFiles r). stat_dir h q \<noteq> None))"

text \<open>The stage in the map is the stage that was read, with its next files beside it, and its links.\<close>

definition as_read :: "'c stage \<Rightarrow> 'c stage \<Rightarrow> bool" where
  "as_read r t \<longleftrightarrow> t = r\<lparr>NextStagePaths := map (beside (BaseDir r)) (NextStagePaths r),
     NextStages := NextStages t, wgPrerequisites := wgPrerequisites t\<rparr>"

definition listed :: "'c stages \<Rightarrow> string set" where
  "listed st = {p. \<exists>m u. st m = Some u \<and> p \<in> set (NextStagePaths u)}"

text \<open>Where a stage of the map comes from: it is the one the parser started with, or it was read from a
  file that a stage of the map lists.\<close>

definition origin :: "'c host \<Rightarrow> 'c stage \<Rightarrow> 'c stages \<Rightarrow> 'c stage \<Rightarrow> bool" where
  "origin h start st r \<longleftrightarrow> r = start \<or> (\<exists>p \<in> listed st. reads_as h p r)"

definition all_from :: "'c host \<Rightarrow> 'c stage \<Rightarrow> 'c stages \<Rightarrow> bool" where
  "all_from h start st \<longleftrightarrow>
     (\<forall>n t. st n = Some t \<longrightarrow> (\<exists>r. origin h start st r \<and> stage_id r = n \<and> as_read r t))"

lemma resolve_beside: "resolve d = beside d"
  by (rule ext) (simp add: resolve_def beside_def)

lemma check_query_files_ok:
  "check_query_files h sid d ps = Inr rs \<Longrightarrow>
     rs = map (beside d) ps \<and> (\<forall>q \<in> set rs. stat_dir h q \<noteq> None)"
  by (induction ps arbitrary: rs) (auto simp: resolve_beside split: option.splits sum.splits)

lemma read_stage_reads: "read_stage_from_file h p = Inr r \<Longrightarrow> reads_as h p r"
  unfolding reads_as_def read_stage_from_file_def
  by (auto split: option.splits if_splits sum.splits dest!: check_query_files_ok)

lemma listed_link [simp]: "listed (link sid nid st) = listed st"
proof -
  have "(\<exists>u. link sid nid st m = Some u \<and> p \<in> set (NextStagePaths u))
      = (\<exists>u. st m = Some u \<and> p \<in> set (NextStagePaths u))" for m p
    by (cases "st m") (auto simp: link_apply)
  then show ?thesis by (simp add: listed_def)
qed

lemma as_read_iff:
  "as_read r t \<longleftrightarrow> (\<exists>x y. t = r\<lparr>NextStagePaths := map (beside (BaseDir r)) (NextStagePaths r),
     NextStages := x, wgPrerequisites := y\<rparr>)"
  unfolding as_read_def by (rule iffI, blast, elim exE, simp)

lemma as_read_links: "as_read r t \<Longrightarrow> as_read r (t\<lparr>NextStages := x, wgPrerequisites := y\<rparr>)"
  unfolding as_read_iff by (elim exE, rule exI [of _ x], rule exI [of _ y], simp)

lemma all_from_link:
  assumes "all_from h start st"
  shows "all_from h start (link sid nid st)"
  unfolding all_from_def
proof (intro allI impI)
  fix n t
  assume t: "link sid nid st n = Some t"
  then obtain u x y where u: "st n = Some u" and eq: "t = u\<lparr>NextStages := x, wgPrerequisites := y\<rparr>"
    by (auto simp: link_apply)
  with assms obtain r where r: "origin h start st r" "stage_id r = n" "as_read r u"
    by (auto simp: all_from_def)
  then have "as_read r t" using as_read_links eq by blast
  with r show "\<exists>r. origin h start (link sid nid st) r \<and> stage_id r = n \<and> as_read r t"
    by (auto simp: origin_def)
qed

lemma all_from_add:
  assumes "all_from h start st" and "origin h start st s" and "st (stage_id s) = None"
    and "ps = map (beside (BaseDir s)) (NextStagePaths s)"
  shows "all_from h start (st(stage_id s \<mapsto> s\<lparr>NextStagePaths := ps\<rparr>))"
    and "listed st \<union> set ps \<subseteq> listed (st(stage_id s \<mapsto> s\<lparr>NextStagePaths := ps\<rparr>))"
proof -
  let ?st = "st(stage_id s \<mapsto> s\<lparr>NextStagePaths := ps\<rparr>)"
  have "p \<in> listed ?st" if "p \<in> listed st" for p
  proof -
    from that obtain m u where "st m = Some u" "p \<in> set (NextStagePaths u)" by (auto simp: listed_def)
    moreover from this have "?st m = Some u" using assms(3) by auto
    ultimately show ?thesis unfolding listed_def by blast
  qed
  moreover have "p \<in> listed ?st" if "p \<in> set ps" for p
    unfolding listed_def using that by (intro CollectI exI [of _ "stage_id s"]) simp
  ultimately show l: "listed st \<union> set ps \<subseteq> listed ?st" by blast
  have o: "origin h start ?st r" if "origin h start st r" for r
    using that l by (auto simp: origin_def)
  have new: "as_read s (s\<lparr>NextStagePaths := ps\<rparr>)" by (simp add: as_read_def assms(4))
  show "all_from h start ?st"
    unfolding all_from_def
  proof (intro allI impI)
    fix n t
    assume t: "?st n = Some t"
    show "\<exists>r. origin h start ?st r \<and> stage_id r = n \<and> as_read r t"
    proof (cases "n = stage_id s")
      case True
      with t new o [OF assms(2)] show ?thesis by auto
    next
      case False
      with t assms(1) o show ?thesis by (auto simp: all_from_def) blast
    qed
  qed
qed

lemma parse_from:
  "parse_stage k h s st = Some (Inr (n, st')) \<Longrightarrow> all_from h start st \<Longrightarrow> origin h start st s \<Longrightarrow>
     all_from h start st' \<and> listed st \<subseteq> listed st'"
  "parse_from_file k h p st = Some (Inr (n, st')) \<Longrightarrow> all_from h start st \<Longrightarrow> p \<in> listed st \<Longrightarrow>
     all_from h start st' \<and> listed st \<subseteq> listed st'"
  "parse_next k h sid ps st = Some (Inr (n, st')) \<Longrightarrow> all_from h start st \<Longrightarrow> set ps \<subseteq> listed st \<Longrightarrow>
     all_from h start st' \<and> listed st \<subseteq> listed st'"
proof (induction k h s st and k h p st and k h sid ps st arbitrary: n st' and n st' and n st'
    rule: parse_stage_parse_from_file_parse_next.induct)
  case (1 k h s st)
  show ?case
  proof (cases "st (stage_id s)")
    case (Some t)
    with "1.prems" show ?thesis by (auto simp: parse_stage.simps)
  next
    case None
    with "1.prems"(1) obtain paths j where p: "check_next_files h (stage_id s) (BaseDir s) (NextStagePaths s) = Inr paths"
      and k: "k = Suc j"
      and r: "parse_next j h (stage_id s) paths (st(stage_id s \<mapsto> s\<lparr>NextStagePaths := paths\<rparr>)) = Some (Inr (n, st'))"
      by (auto simp: parse_stage.simps split: sum.splits nat.splits)
    have paths: "paths = map (beside (BaseDir s)) (NextStagePaths s)"
      using check_next_files_ok [OF p] by (simp add: resolve_beside)
    note a = all_from_add [OF "1.prems"(2,3) None paths]
    from a(2) have "set paths \<subseteq> listed (st(stage_id s \<mapsto> s\<lparr>NextStagePaths := paths\<rparr>))" by blast
    with "1.IH" [OF _ p k r a(1)] None a(2) show ?thesis by blast
  qed
next
  case (2 k h p st)
  show ?case
  proof (cases "st (file_name_without_path_and_ext p)")
    case (Some t)
    with "2.prems" show ?thesis by (auto simp: parse_from_file.simps)
  next
    case None
    with "2.prems"(1) obtain s where s: "read_stage_from_file h p = Inr s"
      and ps: "parse_stage k h s st = Some (Inr (n, st'))"
      by (auto simp: parse_from_file.simps split: sum.splits)
    have "origin h start st s"
      using read_stage_reads [OF s] "2.prems"(3) by (auto simp: origin_def)
    with "2.IH" [OF _ s ps "2.prems"(2)] None show ?thesis by blast
  qed
next
  case (3 k h sid st)
  then show ?case by auto
next
  case (4 k h sid p ps st)
  from "4.prems"(1) obtain nid st1 where p: "parse_from_file k h p st = Some (Inr (nid, st1))"
    and rest: "parse_next k h sid ps (link sid nid st1) = Some (Inr (n, st'))"
    by (auto split: option.splits sum.splits)
  have 1: "all_from h start st1" "listed st \<subseteq> listed st1"
    using "4.IH"(1) [OF p "4.prems"(2)] "4.prems"(3) by auto
  have "set ps \<subseteq> listed (link sid nid st1)" using 1(2) "4.prems"(3) by auto
  from "4.IH"(2) [OF p _ _ rest all_from_link [OF 1(1)] this] 1(2) show ?case by auto
qed

text \<open>If no two of the listed files give the same id, every link leads to the stage that was read from the
  very file that is listed: a link to the start would close a cycle.\<close>

definition linked_to_file :: "'c host \<Rightarrow> 'c stages \<Rightarrow> string \<Rightarrow> string \<Rightarrow> bool" where
  "linked_to_file h st p n \<longleftrightarrow> (\<exists>r t. st n = Some t \<and> reads_as h p r \<and> stage_id r = n \<and> as_read r t)"

definition no_clash :: "'c host \<Rightarrow> 'c stages \<Rightarrow> bool" where
  "no_clash h st \<longleftrightarrow> (\<forall>p \<in> listed st. \<forall>q \<in> listed st. \<forall>i. denotes h p i \<and> denotes h q i \<longrightarrow> p = q)"

lemma reads_stage:
  assumes "reads_as h p r"
  shows "\<exists>r'. read_stage_from_file h p = Inr r' \<and> stage_id r' = stage_id r"
proof -
  have q: "\<exists>rs. check_query_files h sid d ps = Inr rs" if "\<forall>q \<in> set (map (beside d) ps). stat_dir h q \<noteq> None"
    for sid d ps
    using that by (induction ps) (auto simp: resolve_beside split: option.split)
  from assms obtain path bytes d where *: "abs_path h p = Some path" "read_file h path = Some bytes"
    "decode h bytes (empty_stage\<lparr>stage_id := file_name_without_path_and_ext path, BaseDir := dir path\<rparr>) = Some d"
    "valid_stage d" "r = d\<lparr>QueryFiles := map (beside (BaseDir d)) (QueryFiles d)\<rparr>"
    "\<forall>q \<in> set (QueryFiles r). stat_dir h q \<noteq> None"
    by (auto simp: reads_as_def)
  then obtain rs where "check_query_files h (stage_id d) (BaseDir d) (QueryFiles d) = Inr rs"
    using q [of "BaseDir d" "QueryFiles d"] by auto
  with * show ?thesis by (simp add: read_stage_from_file_def)
qed

lemma links_to_files:
  assumes "all_from h start st" and "stages_ok h {} st" and "n = stage_id start"
    and "dom st = {m. (edge st)\<^sup>*\<^sup>* n m}" and "well_linked st n" and "no_clash h st" and "st m = Some u"
  shows "list_all2 (linked_to_file h st) (NextStagePaths u) (NextStages u)"
proof -
  have pair: "linked_to_file h st p i" if p: "p \<in> set (NextStagePaths u)" and i: "i \<in> set (NextStages u)" and d: "denotes h p i" for p i
  proof -
    have e: "edge st m i" using i assms(7) by (simp add: edge_def nexts_def)
    have "(edge st)\<^sup>*\<^sup>* n m" using assms(4,7) by blast
    then have "(edge st)\<^sup>+\<^sup>+ n i" using e by (rule rtranclp_into_tranclp1)
    then have "i \<noteq> n" using assms(5) by (auto simp: well_linked_def)
    obtain t where t: "st i = Some t" using assms(2,7) i unfolding stages_ok_def by blast
    with assms(1) obtain r where r: "origin h start st r" "stage_id r = i" "as_read r t"
      by (auto simp: all_from_def)
    with \<open>i \<noteq> n\<close> assms(3) obtain q where q: "q \<in> listed st" "reads_as h q r" by (auto simp: origin_def)
    then have "denotes h q i" using reads_stage [OF q(2)] r(2) by (auto simp: denotes_def)
    moreover have "p \<in> listed st" using p assms(7) by (auto simp: listed_def)
    ultimately have "q = p" using assms(6) d q(1) unfolding no_clash_def by blast
    with r q t show ?thesis by (auto simp: linked_to_file_def)
  qed
  have "list_all2 (denotes h) (NextStagePaths u) (NextStages u)"
    using assms(2,7) by (simp add: stages_ok_def)
  then show ?thesis by (rule list.rel_mono_strong) (use pair in blast)
qed

lemma parse_stage_graph_from:
  assumes "parse_stage_graph k j h s = Some (Inr (n, st))"
  shows "all_from h s st"
proof -
  from assms have "parse_stage k h s (\<lambda>_. None) = Some (Inr (n, st))"
    by (auto simp: parse_stage_graph_def split: option.splits sum.splits)
  moreover have "all_from h s (\<lambda>_. None)" and "origin h s (\<lambda>_. None) s"
    by (simp_all add: all_from_def origin_def)
  ultimately show ?thesis using parse_from(1) by blast
qed

section \<open>Properties\<close>

text \<open>With as much fuel as there are stages the check for cycles answers, and it answers
  without an error exactly if no stage reachable from the given one is on a cycle or lists a next
  stage twice.\<close>

theorem check_links_correct:
  assumes "finite (dom st)" and "closed_under_next st (dom st)" and "sid \<in> dom st"
    and "card (dom st) \<le> k"
  shows "\<exists>r. check_links k st sid [] = Some r \<and> (r = None \<longleftrightarrow> well_linked st sid)"
  using assms by (rule check_links_decides)

definition demo_stages :: "string list \<Rightarrow> string list \<Rightarrow> unit stages" where
  "demo_stages xs ys = [''a'' \<mapsto> empty_stage\<lparr>NextStages := xs\<rparr>, ''b'' \<mapsto> empty_stage\<lparr>NextStages := ys\<rparr>]"

theorem check_links_correct_witness:
  "\<exists>r. check_links 2 (demo_stages [''b''] []) ''a'' [] = Some r
     \<and> (r = None \<longleftrightarrow> well_linked (demo_stages [''b''] []) ''a'')"
proof (rule check_links_correct)
  show "card (dom (demo_stages [''b''] [])) \<le> 2"
    by (simp add: demo_stages_def card_insert_if)
qed (auto simp: demo_stages_def closed_under_next_def nexts_def empty_stage_def)

lemma parse_stage_graph_decides:
  assumes "decode_ok h" and "id_range h I" and "stage_id s \<in> I" and "unlinked s"
    and "card I \<le> k" and "card I \<le> j"
  shows "\<exists>r. parse_stage_graph k j h s = Some r
     \<and> (\<forall>n st. r = Inr (n, st) \<longrightarrow> n = stage_id s \<and> stages_ok h {} st
          \<and> dom st = {m. (edge st)\<^sup>*\<^sup>* n m} \<and> well_linked st n)
     \<and> (\<forall>n st. parse_stage k h s (\<lambda>_. None) = Some (Inr (n, st)) \<longrightarrow>
          (\<exists>e. r = Inl e) = (\<not> well_linked st n))"
proof -
  have "parse_stage k h s (\<lambda>_. None) \<noteq> None"
    using parse_fuel(1) [OF assms(2,3)] assms(5) by simp
  then obtain p where p: "parse_stage k h s (\<lambda>_. None) = Some p" by auto
  show ?thesis
  proof (cases p)
    case (Inl e)
    with p show ?thesis by (simp add: parse_stage_graph_def)
  next
    case (Inr ns)
    obtain n st where ns: "ns = (n, st)" by (cases ns)
    have r: "parse_stage k h s (\<lambda>_. None) = Some (Inr (n, st))" using p Inr ns by simp
    have "stages_ok h {} (\<lambda>_. None :: 'a stage option)" by (simp add: stages_ok_def)
    from parse_ok(1) [OF r assms(1,4) this]
    have ok: "n = stage_id s" "stages_ok h {} st" "adds_from n (\<lambda>_. None) st" by auto
    have sub: "dom st \<subseteq> I" using parse_dom(1) [OF r assms(2,3)] by simp
    then have fin: "finite (dom st)" and c: "card (dom st) \<le> j"
      using assms(2,6) card_mono [of I "dom st"] by (auto simp: id_range_def intro: finite_subset)
    have cl: "closed_under_next st (dom st)"
      unfolding closed_under_next_def nexts_def using ok(2) unfolding stages_ok_def by fastforce
    have n: "n \<in> dom st" using ok(3) by (simp add: adds_from_def)
    have "m \<in> dom st" if "(edge st)\<^sup>*\<^sup>* n m" for m
      using that by (induction rule: rtranclp_induct) (use n cl in \<open>auto simp: closed_under_next_def edge_def\<close>)
    then have dom: "dom st = {m. (edge st)\<^sup>*\<^sup>* n m}"
      using ok(3) by (auto simp: adds_from_def)
    from check_links_decides [OF fin cl n c] obtain e
      where e: "check_links j st n [] = Some e" "(e = None) = well_linked st n" by blast
    show ?thesis
      using r e ok dom by (cases e) (simp_all add: parse_stage_graph_def)
  qed
qed

text \<open>C1: Parsing a graph of stage files ends: with fuel for every stage id that the files can
  give, \<open>ParseStageGraph\<close> answers. If it answers without an error, the map holds exactly the stages
  reachable from the starting one, each under its id. Every stage but the starting one is what was read
  from a file that some stage of the map lists, with every field as the file has it, and its query files and
  next files are looked up beside the file they stand in. Every next file exists and is linked, in order, to the
  stage of that name (or of the id in the file); if no two of the listed files give the same id, to the
  stage that was read from that very file. The latch of a stage counts the links that lead to it, and nothing
  is on a cycle. If the files can be parsed, the only error is a cycle or a repeated next stage.\<close>

theorem parse_stage_graph_correct:
  assumes "decode_ok h" and "id_range h I" and "stage_id s \<in> I" and "unlinked s"
    and "card I \<le> k" and "card I \<le> j"
  shows "\<exists>r. parse_stage_graph k j h s = Some r
     \<and> (\<forall>n st. r = Inr (n, st) \<longrightarrow> n = stage_id s \<and> stages_ok h {} st
          \<and> dom st = {m. (edge st)\<^sup>*\<^sup>* n m} \<and> well_linked st n
          \<and> (\<forall>m t. st m = Some t \<longrightarrow> (\<exists>r. stage_id r = m \<and> as_read r t \<and> (r = s \<or> (\<exists>p \<in> listed st. reads_as h p r))))
          \<and> (no_clash h st \<longrightarrow>
               (\<forall>m t. st m = Some t \<longrightarrow> list_all2 (linked_to_file h st) (NextStagePaths t) (NextStages t))))
     \<and> (\<forall>n st. parse_stage k h s (\<lambda>_. None) = Some (Inr (n, st)) \<longrightarrow>
          (\<exists>e. r = Inl e) = (\<not> well_linked st n))"
proof -
  obtain r where r: "parse_stage_graph k j h s = Some r"
    and ok: "\<forall>n st. r = Inr (n, st) \<longrightarrow> n = stage_id s \<and> stages_ok h {} st
          \<and> dom st = {m. (edge st)\<^sup>*\<^sup>* n m} \<and> well_linked st n"
    and err: "\<forall>n st. parse_stage k h s (\<lambda>_. None) = Some (Inr (n, st)) \<longrightarrow> (\<exists>e. r = Inl e) = (\<not> well_linked st n)"
    using parse_stage_graph_decides [OF assms] by (elim exE conjE) (rule that)
  have f: "all_from h s st" if "r = Inr (n, st)" for n st
    using parse_stage_graph_from r that by blast
  have src: "\<exists>r. stage_id r = m \<and> as_read r t \<and> (r = s \<or> (\<exists>p \<in> listed st. reads_as h p r))"
    if "r = Inr (n, st)" "st m = Some t" for n st m t
    using f [OF that(1)] that(2) unfolding all_from_def origin_def by blast
  have lnk: "list_all2 (linked_to_file h st) (NextStagePaths t) (NextStages t)"
    if "r = Inr (n, st)" "no_clash h st" "st m = Some t" for n st m t
  proof -
    have o: "n = stage_id s \<and> stages_ok h {} st \<and> dom st = {m. (edge st)\<^sup>*\<^sup>* n m} \<and> well_linked st n"
      using ok that(1) by blast
    note c2 = conjunct2 [OF o]
    from links_to_files [OF f [OF that(1)] conjunct1 [OF c2] conjunct1 [OF o] conjunct1 [OF conjunct2 [OF c2]]
        conjunct2 [OF conjunct2 [OF c2]] that(2,3)]
    show ?thesis .
  qed
  have "\<forall>n st. r = Inr (n, st) \<longrightarrow> n = stage_id s \<and> stages_ok h {} st
          \<and> dom st = {m. (edge st)\<^sup>*\<^sup>* n m} \<and> well_linked st n
          \<and> (\<forall>m t. st m = Some t \<longrightarrow> (\<exists>r. stage_id r = m \<and> as_read r t \<and> (r = s \<or> (\<exists>p \<in> listed st. reads_as h p r))))
          \<and> (no_clash h st \<longrightarrow>
               (\<forall>m t. st m = Some t \<longrightarrow> list_all2 (linked_to_file h st) (NextStagePaths t) (NextStages t)))"
    (is "\<forall>n st. _ \<longrightarrow> ?graph n st")
  proof (intro allI impI)
    fix n st
    assume a: "r = Inr (n, st)"
    have 1: "\<forall>m t. st m = Some t \<longrightarrow> (\<exists>r. stage_id r = m \<and> as_read r t \<and> (r = s \<or> (\<exists>p \<in> listed st. reads_as h p r)))"
      using src [OF a] by (intro allI impI)
    have 2: "no_clash h st \<longrightarrow>
        (\<forall>m t. st m = Some t \<longrightarrow> list_all2 (linked_to_file h st) (NextStagePaths t) (NextStages t))"
      by (intro allI impI) (rule lnk [OF a])
    from ok a have "n = stage_id s \<and> stages_ok h {} st \<and> dom st = {m. (edge st)\<^sup>*\<^sup>* n m} \<and> well_linked st n"
      by blast
    with 1 2 show "?graph n st" by (elim conjE) (intro conjI; assumption)
  qed
  with r err show ?thesis by blast
qed

lemma parsed_graph:
  assumes "decode_ok h" and "id_range h I" and "stage_id s \<in> I" and "unlinked s"
    and "card I \<le> k" and "card I \<le> j" and "parse_stage_graph k j h s = Some (Inr (n, st))"
  shows "n = stage_id s \<and> stages_ok h {} st \<and> dom st = {m. (edge st)\<^sup>*\<^sup>* n m} \<and> well_linked st n"
  using parse_stage_graph_decides [OF assms(1-6)] assms(7) by auto

text \<open>Four stage files \<open>/w/a.json\<close> to \<open>/w/d.json\<close> in a diamond, for the witnesses.\<close>

definition demo_host :: "unit host" where
  "demo_host =
     \<lparr>abs_path = Some,
      read_file = (\<lambda>p. if p \<in> set [''/w/a.json'', ''/w/b.json'', ''/w/c.json'', ''/w/d.json'']
                       then Some p else None),
      stat_dir = (\<lambda>p. if p \<in> set [''/w/a.json'', ''/w/b.json'', ''/w/c.json'', ''/w/d.json'']
                       then Some False else None),
      decode = (\<lambda>bytes s. Some (s\<lparr>NextStagePaths :=
         (if bytes = ''/w/a.json'' then [''b.json'', ''c.json'']
          else if bytes = ''/w/d.json'' then [] else [''d.json''])\<rparr>))\<rparr>"

definition demo_start :: "unit stage" where
  "demo_start = empty_stage\<lparr>stage_id := ''a'', BaseDir := ''/w'', NextStagePaths := [''b.json'', ''c.json'']\<rparr>"

lemma demo_host_laws: "decode_ok demo_host" "id_range demo_host {''a'', ''b'', ''c'', ''d''}"
proof -
  show "decode_ok demo_host" by (auto simp: decode_ok_def demo_host_def)
  have n: "file_name_without_path_and_ext ''/w/a.json'' = ''a''"
    "file_name_without_path_and_ext ''/w/b.json'' = ''b''"
    "file_name_without_path_and_ext ''/w/c.json'' = ''c''"
    "file_name_without_path_and_ext ''/w/d.json'' = ''d''"
    by code_simp+
  show "id_range demo_host {''a'', ''b'', ''c'', ''d''}"
    unfolding id_range_def read_stage_from_file_def
    by (auto simp: demo_host_def n empty_stage_def split: if_splits sum.splits)
qed

theorem parse_stage_graph_correct_witness:
  "\<exists>n st d r p. parse_stage_graph 4 4 demo_host demo_start = Some (Inr (n, st))
     \<and> stages_ok demo_host {} st \<and> well_linked st n \<and> st ''d'' = Some d \<and> wgPrerequisites d = 2
     \<and> as_read r d \<and> p \<in> listed st \<and> reads_as demo_host p r"
proof -
  have c: "case parse_stage_graph 4 4 demo_host demo_start of
      Some (Inr (n, st)) \<Rightarrow> map_option wgPrerequisites (st ''d'') = Some 2 | _ \<Rightarrow> False"
    by code_simp
  have "stage_id demo_start \<in> {''a'', ''b'', ''c'', ''d''}" "unlinked demo_start"
    by (simp_all add: demo_start_def unlinked_def empty_stage_def)
  from parse_stage_graph_correct [OF demo_host_laws this, of 4 4]
  obtain x where x: "parse_stage_graph 4 4 demo_host demo_start = Some x"
    and ok: "\<And>n st. x = Inr (n, st) \<Longrightarrow> stages_ok demo_host {} st \<and> well_linked st n
       \<and> (\<forall>m t. st m = Some t \<longrightarrow> (\<exists>r. stage_id r = m \<and> as_read r t
            \<and> (r = demo_start \<or> (\<exists>p \<in> listed st. reads_as demo_host p r))))"
    by auto
  from c x obtain n st where xr: "x = Inr (n, st)" by (cases x) auto
  from c x xr obtain d where d: "st ''d'' = Some d" "wgPrerequisites d = 2" by auto
  from ok [OF xr] d(1) obtain r where r: "stage_id r = ''d''" "as_read r d"
    "r = demo_start \<or> (\<exists>p \<in> listed st. reads_as demo_host p r)"
    by blast
  moreover from r(1) have "r \<noteq> demo_start" by (auto simp: demo_start_def)
  ultimately show ?thesis using x xr d ok [OF xr] by blast
qed

text \<open>Merging stages of different directories: a relative next stage of any of them is looked
  up in the directory of the last one. If it does not exist there, the graph is refused, also when
  it exists beside the stage file that names it.\<close>

theorem merged_next_in_last_directory:
  assumes "p \<in> set (NextStagePaths s)" and "\<not> is_abs p"
    and "stat_dir h (path_join (BaseDir t) p) = None"
  shows "\<exists>e. parse_stage_graph k j h (merge_with s t) = Some (Inl e)"
proof -
  have "\<exists>e. check_next_files h sid bd ps = Inl e"
    if "p \<in> set ps" "\<not> is_abs p" "stat_dir h (path_join bd p) = None" for sid bd ps
    using that by (induction ps) (auto simp: resolve_def split: option.split bool.split sum.split)
  from this [of "NextStagePaths s @ NextStagePaths t" "BaseDir t" "stage_id t"]
  obtain e where "check_next_files h (stage_id t) (BaseDir t) (NextStagePaths s @ NextStagePaths t) = Inl e"
    using assms by auto
  then show ?thesis by (simp add: parse_stage_graph_def parse_stage.simps merge_with_def)
qed

theorem merged_next_in_last_directory_witness:
  "(\<exists>n st. parse_stage_graph 4 4 demo_host demo_start = Some (Inr (n, st)))
   \<and> (\<exists>e. parse_stage_graph 4 4 demo_host (merge_with demo_start (empty_stage\<lparr>stage_id := ''z'', BaseDir := ''/v''\<rparr>))
        = Some (Inl e))"
proof -
  have c: "case parse_stage_graph 4 4 demo_host demo_start of Some (Inr (n, st)) \<Rightarrow> True | _ \<Rightarrow> False"
    by code_simp
  have j: "path_join ''/v'' ''b.json'' = ''/v/b.json''" "\<not> is_abs ''b.json''" by code_simp+
  have "\<exists>e. parse_stage_graph 4 4 demo_host (merge_with demo_start (empty_stage\<lparr>stage_id := ''z'', BaseDir := ''/v''\<rparr>))
        = Some (Inl e)"
    by (rule merged_next_in_last_directory [of "''b.json''"])
      (simp_all add: demo_start_def demo_host_def empty_stage_def j)
  with c show ?thesis by (auto split: option.splits sum.splits)
qed

end
