(* ===== verification/StageRun.thy ===== *)
theory StageRun
  imports StageGraph
begin

text \<open>
  The concurrent execution of the graph of stages: \<open>run\<close> of \<open>stage/stage.go\<close> (lines 248 to 311) with
  \<open>waitForPrerequisites\<close> and the wait group and context that \<open>Run\<close> sets up. A state of the run holds
  the map of the stages (with their latches \<open>wgPrerequisites\<close>), for each stage how far its \<open>run\<close> has
  got, the goroutines that have been started but have not yet looked at \<open>started\<close>, the background
  writers, the counter \<open>wgExitMainStage\<close> and whether the context is cancelled. Each rule of the step
  relation is one atomic piece of one goroutine; the goroutines interleave in any order.
\<close>

section \<open>The state machine\<close>

text \<open>
  How far \<open>run\<close> of a stage has got. \<open>Idle\<close>: \<open>started\<close> is false. \<open>Waiting\<close>: in the \<open>select\<close>.
  \<open>Executing k\<close>: between the \<open>select\<close> and the end of the function body, with \<open>k\<close> background writers
  still to be started. \<open>Unblocking ns ok\<close> and \<open>Triggering ns\<close>: in the deferred function, with the
  next stages \<open>ns\<close> still to be unblocked or triggered. \<open>Ended ok\<close>: it has returned.
\<close>

datatype phase = Idle | Waiting | Executing nat | Unblocking "string list" bool | Triggering "string list" | Ended bool

record 'c run_state =
  stages :: "'c stages"
  new_client :: "'c option"
  phase_of :: "string \<Rightarrow> phase"
  calls :: "string \<Rightarrow> nat"
  writers :: nat
  exit_wg :: nat
  cancelled :: bool

definition latch :: "'c stages \<Rightarrow> string \<Rightarrow> nat" where
  "latch st n = (case st n of None \<Rightarrow> 0 | Some s \<Rightarrow> wgPrerequisites s)"

text \<open>\<open>nextStage.wgPrerequisites.Done()\<close>.\<close>

definition release :: "string \<Rightarrow> 'c stages \<Rightarrow> 'c stages" where
  "release n st = st(n := map_option (\<lambda>s. s\<lparr>wgPrerequisites := wgPrerequisites s - 1\<rparr>) (st n))"

text \<open>\<open>setDefaults\<close>, \<open>prepareClient\<close> and \<open>propagateStates\<close> of the stage \<open>n\<close>; \<open>None\<close> is a panic.\<close>

definition prepare :: "'c client_api \<Rightarrow> string \<Rightarrow> 'c stages \<Rightarrow> 'c option \<Rightarrow> ('c stages \<times> 'c option) option" where
  "prepare api n st nc =
     (case Option.bind (st n) set_defaults of
        None \<Rightarrow> None
      | Some s \<Rightarrow> (let (nc', s') = prepare_client api nc s
                   in map_option (\<lambda>st'. (st', nc')) (propagate_states s' (st(n \<mapsto> s')))))"

text \<open>\<open>*s.AbortOnError\<close>: \<open>None\<close> is the panic on a nil pointer.\<close>

definition abort_flag :: "'c stages \<Rightarrow> string \<Rightarrow> bool option" where
  "abort_flag st n = Option.bind (st n) AbortOnError"

text \<open>
  The steps. \<open>Run\<close> starts with one goroutine for the main stage. The body of a stage may end with or
  without an error; which it is, is the business of the execution of its queries. A stage whose body
  fails cancels the context before it unblocks its next stages, if it is to abort on errors.
\<close>

inductive run_step :: "'c client_api \<Rightarrow> 'c run_state \<Rightarrow> 'c run_state \<Rightarrow> bool" for api where
  enter: "\<lbrakk>0 < calls \<sigma> n; phase_of \<sigma> n = Idle\<rbrakk> \<Longrightarrow>
     run_step api \<sigma> (\<sigma>\<lparr>calls := (calls \<sigma>)(n := calls \<sigma> n - 1), phase_of := (phase_of \<sigma>)(n := Waiting)\<rparr>)"
| enter_again: "\<lbrakk>0 < calls \<sigma> n; phase_of \<sigma> n \<noteq> Idle\<rbrakk> \<Longrightarrow>
     run_step api \<sigma> (\<sigma>\<lparr>calls := (calls \<sigma>)(n := calls \<sigma> n - 1), exit_wg := exit_wg \<sigma> - 1\<rparr>)"
| give_up: "\<lbrakk>phase_of \<sigma> n = Waiting; cancelled \<sigma>; abort_flag (stages \<sigma>) n \<noteq> None\<rbrakk> \<Longrightarrow>
     run_step api \<sigma> (\<sigma>\<lparr>phase_of := (phase_of \<sigma>)(n := Unblocking (nexts (stages \<sigma>) n) False)\<rparr>)"
| start: "\<lbrakk>phase_of \<sigma> n = Waiting; latch (stages \<sigma>) n = 0; prepare api n (stages \<sigma>) (new_client \<sigma>) = Some (st', nc')\<rbrakk> \<Longrightarrow>
     run_step api \<sigma> (\<sigma>\<lparr>stages := st', new_client := nc', phase_of := (phase_of \<sigma>)(n := Executing k)\<rparr>)"
| spawn_writer: "phase_of \<sigma> n = Executing (Suc k) \<Longrightarrow>
     run_step api \<sigma> (\<sigma>\<lparr>phase_of := (phase_of \<sigma>)(n := Executing k), writers := writers \<sigma> + 1,
       exit_wg := exit_wg \<sigma> + 1\<rparr>)"
| writer_ends: "0 < writers \<sigma> \<Longrightarrow>
     run_step api \<sigma> (\<sigma>\<lparr>writers := writers \<sigma> - 1, exit_wg := exit_wg \<sigma> - 1\<rparr>)"
| succeed: "phase_of \<sigma> n = Executing k \<Longrightarrow>
     run_step api \<sigma> (\<sigma>\<lparr>phase_of := (phase_of \<sigma>)(n := Unblocking (nexts (stages \<sigma>) n) True)\<rparr>)"
| fail: "\<lbrakk>phase_of \<sigma> n = Executing k; abort_flag (stages \<sigma>) n = Some ab\<rbrakk> \<Longrightarrow>
     run_step api \<sigma> (\<sigma>\<lparr>phase_of := (phase_of \<sigma>)(n := Unblocking (nexts (stages \<sigma>) n) False),
       cancelled := (cancelled \<sigma> \<or> ab)\<rparr>)"
| unblock: "phase_of \<sigma> n = Unblocking (c # cs) ok \<Longrightarrow>
     run_step api \<sigma> (\<sigma>\<lparr>phase_of := (phase_of \<sigma>)(n := Unblocking cs ok), stages := release c (stages \<sigma>)\<rparr>)"
| unblocked: "phase_of \<sigma> n = Unblocking [] True \<Longrightarrow>
     run_step api \<sigma> (\<sigma>\<lparr>phase_of := (phase_of \<sigma>)(n := Triggering (nexts (stages \<sigma>) n)),
       exit_wg := exit_wg \<sigma> + length (nexts (stages \<sigma>) n)\<rparr>)"
| trigger: "phase_of \<sigma> n = Triggering (c # cs) \<Longrightarrow>
     run_step api \<sigma> (\<sigma>\<lparr>phase_of := (phase_of \<sigma>)(n := Triggering cs), calls := (calls \<sigma>)(c := calls \<sigma> c + 1)\<rparr>)"
| return_ok: "phase_of \<sigma> n = Triggering [] \<Longrightarrow>
     run_step api \<sigma> (\<sigma>\<lparr>phase_of := (phase_of \<sigma>)(n := Ended True), exit_wg := exit_wg \<sigma> - 1\<rparr>)"
| return_failed: "phase_of \<sigma> n = Unblocking [] False \<Longrightarrow>
     run_step api \<sigma> (\<sigma>\<lparr>phase_of := (phase_of \<sigma>)(n := Ended False), exit_wg := exit_wg \<sigma> - 1\<rparr>)"

text \<open>The steps of \<open>run\<close> itself that end the process: a stage that gives up waiting, or fails, dereferences a
  nil \<open>AbortOnError\<close>, or the preparation dereferences a nil pointer.\<close>

definition panics :: "'c client_api \<Rightarrow> 'c run_state \<Rightarrow> string \<Rightarrow> bool" where
  "panics api \<sigma> n \<longleftrightarrow>
     (phase_of \<sigma> n = Waiting \<and> cancelled \<sigma> \<and> abort_flag (stages \<sigma>) n = None)
     \<or> (phase_of \<sigma> n = Waiting \<and> latch (stages \<sigma>) n = 0 \<and> prepare api n (stages \<sigma>) (new_client \<sigma>) = None)
     \<or> ((\<exists>k. phase_of \<sigma> n = Executing k) \<and> abort_flag (stages \<sigma>) n = None)"



text \<open>The goroutine that \<open>waitForPrerequisites\<close> starts for the \<open>select\<close> of the stage: it waits for the latch,
  closes a channel, and touches nothing else. It is not counted in \<open>wgExitMainStage\<close>, so that it needs no
  step of its own; this is whether it is still there.\<close>

definition helper_waits :: "'c run_state \<Rightarrow> string \<Rightarrow> bool" where
  "helper_waits \<sigma> n \<longleftrightarrow> phase_of \<sigma> n \<noteq> Idle \<and> 0 < latch (stages \<sigma>) n"

text \<open>A signal cancels the context from outside.\<close>

inductive signal :: "'c run_state \<Rightarrow> 'c run_state \<Rightarrow> bool" where
  "\<not> cancelled \<sigma> \<Longrightarrow> signal \<sigma> (\<sigma>\<lparr>cancelled := True\<rparr>)"

definition start_run :: "'c stages \<Rightarrow> 'c option \<Rightarrow> string \<Rightarrow> 'c run_state" where
  "start_run st nc main =
     \<lparr>stages = st, new_client = nc, phase_of = (\<lambda>_. Idle), calls = (\<lambda>_. 0)(main := 1), writers = 0,
      exit_wg = 1, cancelled = False\<rparr>"

inductive reaches :: "'c client_api \<Rightarrow> 'c run_state \<Rightarrow> 'c run_state \<Rightarrow> bool" for api where
  here: "reaches api \<sigma> \<sigma>"
| step: "reaches api \<sigma> \<tau> \<Longrightarrow> run_step api \<tau> \<upsilon> \<Longrightarrow> reaches api \<sigma> \<upsilon>"
| signalled: "reaches api \<sigma> \<tau> \<Longrightarrow> signal \<tau> \<upsilon> \<Longrightarrow> reaches api \<sigma> \<upsilon>"

inductive_simps signal_simps [simp]: "signal \<sigma> \<tau>"

inductive_cases run_stepE: "run_step api \<sigma> \<tau>"

section \<open>What the preparation changes\<close>

text \<open>The settings may change, the links and latches do not; what has been propagated to, stays so.\<close>

definition same_links :: "'c stage \<Rightarrow> 'c stage \<Rightarrow> bool" where
  "same_links s t \<longleftrightarrow> NextStages t = NextStages s \<and> wgPrerequisites t = wgPrerequisites s
     \<and> (propagated s \<longrightarrow> propagated t) \<and> (AbortOnError s \<noteq> None \<longrightarrow> AbortOnError t \<noteq> None)"

lemma same_links_refl: "same_links s s"
  by (simp add: same_links_def)

lemma same_links_trans: "same_links s t \<Longrightarrow> same_links t u \<Longrightarrow> same_links s u"
  by (simp add: same_links_def)

definition same_graph :: "'c stages \<Rightarrow> 'c stages \<Rightarrow> bool" where
  "same_graph st st' \<longleftrightarrow> (\<forall>m. rel_option same_links (st m) (st' m))"

lemma same_graph_refl: "same_graph st st"
  unfolding same_graph_def by (intro allI option.rel_refl same_links_refl)

lemma same_graphE:
  assumes "same_graph st st'"
  obtains (absent) "st m = None" "st' m = None"
  | (present) s s' where "st m = Some s" "st' m = Some s'" "same_links s s'"
proof -
  have "rel_option same_links (st m) (st' m)" using assms by (simp add: same_graph_def)
  then show thesis by (cases rule: option.rel_cases) (auto intro: absent present)
qed

lemma same_graph_trans:
  assumes "same_graph st1 st2" and "same_graph st2 st3"
  shows "same_graph st1 st3"
  unfolding same_graph_def
proof
  fix m
  have "rel_option same_links (st1 m) (st2 m)" "rel_option same_links (st2 m) (st3 m)"
    using assms by (simp_all add: same_graph_def)
  then show "rel_option same_links (st1 m) (st3 m)"
    by (auto simp: option_rel_Some1 elim!: option.rel_cases intro: same_links_trans)
qed

lemma same_graph_update:
  assumes "st m = Some s" and "same_links s t"
  shows "same_graph st (st(m \<mapsto> t))"
  unfolding same_graph_def
proof
  fix n
  show "rel_option same_links (st n) ((st(m \<mapsto> t)) n)"
    using assms by (cases "n = m") (auto intro: option.rel_refl same_links_refl)
qed

lemma same_graphD:
  assumes "same_graph st st'"
  shows "nexts st' m = nexts st m \<and> latch st' m = latch st m \<and> (m \<in> dom st' \<longleftrightarrow> m \<in> dom st)"
  by (cases rule: same_graphE [OF assms, of m]) (auto simp: nexts_def latch_def same_links_def)

lemma at_least_one_run_links:
  "at_least_one_run s = Some t \<Longrightarrow> same_links s t \<and> AbortOnError t = AbortOnError s"
  by (auto simp: at_least_one_run_def same_links_def split: option.splits if_splits)

lemma set_defaults_links:
  assumes "set_defaults s = Some t"
  shows "same_links s t \<and> ready t \<and> AbortOnError t \<noteq> None"
proof -
  let ?s0 = "s\<lparr>RandomExecution := default_from (RandomExecution s) (Some False),
     NoRandomDuplicates := default_from (NoRandomDuplicates s) (Some False),
     AbortOnError := default_from (AbortOnError s) (Some False),
     SaveOutput := default_from (SaveOutput s) (Some False),
     SaveColumnMetadata := default_from (SaveColumnMetadata s) (Some False),
     SaveJson := default_from (SaveJson s) (Some False),
     ColdRuns := default_from (ColdRuns s) (Some 0),
     WarmRuns := default_from (WarmRuns s) (Some 0)\<rparr>"
  have "at_least_one_run ?s0 = Some t" using assms by (simp only: set_defaults_def)
  from at_least_one_run_links [OF this] have "same_links s t"
    by (simp add: same_links_def)
  have "ready t" using set_defaults_ready [of s] assms by auto
  then have "AbortOnError t \<noteq> None" by (simp add: ready_def)
  with \<open>same_links s t\<close> \<open>ready t\<close> show ?thesis by blast
qed

text \<open>A relation that setting a client and the current values respects holds around
  \<open>prepareClient\<close>.\<close>

lemma prepare_client_rel:
  assumes "prepare_client api nc s = (nc', t)"
    and "\<And>c cat sch tz. P (s\<lparr>Client := c, currentCatalog := cat, currentSchema := sch, currentTimeZone := tz\<rparr>)"
  shows "P t"
proof -
  have "P (configure_client api c0 s)" for c0
    unfolding configure_client_def Let_def by (rule assms(2))
  moreover have "P (s\<lparr>currentCatalog := cat, currentSchema := sch, currentTimeZone := tz\<rparr>)" for cat sch tz
    using assms(2) [where c = "Client s"] by simp
  ultimately show ?thesis
    using assms(1) unfolding prepare_client_def Let_def by (cases "Client s") (auto split: if_splits)
qed

lemma prepare_client_links:
  assumes "prepare_client api nc s = (nc', t)"
  shows "same_links s t \<and> (ready s \<longrightarrow> ready t) \<and> NextStages t = NextStages s \<and> AbortOnError t = AbortOnError s"
  by (rule prepare_client_rel [OF assms]) (simp add: same_links_def ready_def)

lemma propagate_to_links:
  assumes "ready s"
  shows "\<exists>t. propagate_to s c = Some t \<and> same_links c t \<and> propagated t
     \<and> (\<not> propagated c \<longrightarrow> AbortOnError t \<noteq> None)"
proof (cases "propagated c")
  case True
  then show ?thesis by (simp add: propagate_to_def same_links_refl)
next
  case False
  obtain t where t: "propagate_body s (c\<lparr>propagated := True\<rparr>) = Some t" "ready t"
    using propagate_body_ready [OF assms] by blast
  then have "same_links c t" "propagated t"
    using assms
    by (auto simp: propagate_body_def at_least_one_run_def Let_def same_links_def ready_def
        split: prod.splits option.splits if_splits)
  with t False show ?thesis by (simp add: propagate_to_def ready_def)
qed

text \<open>After the propagation to a list of stages each of them has been propagated to and has its
  abort flag, if every stage that had been propagated to before has it.\<close>

definition flags_ok :: "'c stages \<Rightarrow> bool" where
  "flags_ok st \<longleftrightarrow> (\<forall>m s. st m = Some s \<and> propagated s \<longrightarrow> AbortOnError s \<noteq> None)"

lemma propagate_loop_links:
  "ready s \<Longrightarrow> set ns \<subseteq> dom st \<Longrightarrow> flags_ok st \<Longrightarrow>
     \<exists>st'. propagate_loop s ns st = Some st' \<and> same_graph st st' \<and> flags_ok st'
       \<and> (\<forall>n \<in> set ns. \<exists>t. st' n = Some t \<and> propagated t)"
proof (induction ns arbitrary: st)
  case Nil
  then show ?case by (simp add: same_graph_refl)
next
  case (Cons n ns)
  then obtain c where c: "st n = Some c" by auto
  obtain t where t: "propagate_to s c = Some t" "same_links c t" "propagated t"
    "\<not> propagated c \<longrightarrow> AbortOnError t \<noteq> None"
    using propagate_to_links [OF Cons.prems(1)] by blast
  let ?st = "st(n \<mapsto> t)"
  have g: "same_graph st ?st" using c t(2) by (rule same_graph_update)
  have "AbortOnError t \<noteq> None"
    using t c Cons.prems(3) by (auto simp: flags_ok_def same_links_def)
  then have "flags_ok ?st" using Cons.prems(3) by (auto simp: flags_ok_def)
  moreover have "set ns \<subseteq> dom ?st" using Cons.prems(2) by auto
  ultimately obtain st' where st': "propagate_loop s ns ?st = Some st'" "same_graph ?st st'"
    "flags_ok st'" "\<forall>n \<in> set ns. \<exists>t. st' n = Some t \<and> propagated t"
    using Cons.IH Cons.prems(1) by blast
  have "\<exists>t. st' n = Some t \<and> propagated t"
    using t(3) by (cases rule: same_graphE [OF st'(2), of n]) (auto simp: same_links_def)
  with st' c t(1) same_graph_trans [OF g st'(2)] show ?case by auto
qed

lemma prepare_links:
  assumes "st n = Some s" and "set (NextStages s) \<subseteq> dom st" and "flags_ok st"
  shows "\<exists>st' nc'. prepare api n st nc = Some (st', nc') \<and> same_graph st st' \<and> flags_ok st'
     \<and> abort_flag st' n \<noteq> None \<and> (\<forall>c \<in> set (nexts st n). \<exists>t. st' c = Some t \<and> propagated t)"
proof -
  obtain s1 where s1: "set_defaults s = Some s1" using set_defaults_ready by blast
  obtain nc' s2 where s2: "prepare_client api nc s1 = (nc', s2)" by (cases "prepare_client api nc s1")
  note l1 = set_defaults_links [OF s1] and l2 = prepare_client_links [OF s2]
  have l: "same_links s s2" "ready s2" "NextStages s2 = NextStages s" "AbortOnError s2 \<noteq> None"
    using l1 l2 same_links_trans by (auto simp: same_links_def)
  let ?st = "st(n \<mapsto> s2)"
  have g: "same_graph st ?st" using assms(1) l(1) by (rule same_graph_update)
  have "flags_ok ?st" using assms(3) l(4) by (auto simp: flags_ok_def)
  moreover have "set (NextStages s2) \<subseteq> dom ?st" using assms(2) l(3) by auto
  ultimately obtain st' where st': "propagate_loop s2 (NextStages s2) ?st = Some st'" "same_graph ?st st'"
    "flags_ok st'" "\<forall>n \<in> set (NextStages s2). \<exists>t. st' n = Some t \<and> propagated t"
    using propagate_loop_links [OF l(2)] by blast
  have "abort_flag st' n \<noteq> None"
    using l(4) by (cases rule: same_graphE [OF st'(2), of n]) (auto simp: same_links_def abort_flag_def)
  with st' s1 s2 assms(1) l(3) same_graph_trans [OF g st'(2)] show ?thesis
    by (auto simp: prepare_def propagate_states_def nexts_def)
qed

section \<open>Invariants\<close>

text \<open>The graphs that the parser gives (\<open>stages_ok\<close> and \<open>well_linked\<close>), as far as the run needs it.\<close>

definition run_graph :: "'c stages \<Rightarrow> string \<Rightarrow> bool" where
  "run_graph st main \<longleftrightarrow> finite (dom st) \<and> dom st = {m. (edge st)\<^sup>*\<^sup>* main m} \<and> well_linked st main
     \<and> (\<forall>m. latch st m = indegree st m) \<and> (\<forall>m s. st m = Some s \<longrightarrow> \<not> propagated s)"

text \<open>The next stages that a stage has still to unblock.\<close>

fun to_unblock :: "string list \<Rightarrow> phase \<Rightarrow> string list" where
  "to_unblock ns (Unblocking cs ok) = cs"
| "to_unblock ns (Triggering cs) = []"
| "to_unblock ns (Ended ok) = []"
| "to_unblock ns Idle = ns"
| "to_unblock ns Waiting = ns"
| "to_unblock ns (Executing k) = ns"

text \<open>What a stage holds of \<open>wgExitMainStage\<close>: one for its goroutine, and one for each next stage
  that it has counted and not yet started.\<close>

fun owed :: "phase \<Rightarrow> nat" where
  "owed Idle = 0"
| "owed (Ended ok) = 0"
| "owed (Triggering cs) = 1 + length cs"
| "owed (Unblocking cs ok) = 1"
| "owed Waiting = 1"
| "owed (Executing k) = 1"

text \<open>Phases after the preparation of the stage, phases after its success, and the next stages that have
  been called.\<close>

fun prepared :: "phase \<Rightarrow> bool" where
  "prepared (Executing k) = True"
| "prepared (Unblocking cs ok) = ok"
| "prepared (Triggering cs) = True"
| "prepared (Ended ok) = ok"
| "prepared Idle = False"
| "prepared Waiting = False"

fun succeeded :: "phase \<Rightarrow> bool" where
  "succeeded (Triggering cs) = True"
| "succeeded (Ended ok) = ok"
| "succeeded (Executing k) = False"
| "succeeded (Unblocking cs ok) = False"
| "succeeded Idle = False"
| "succeeded Waiting = False"

fun has_called :: "phase \<Rightarrow> string \<Rightarrow> bool" where
  "has_called (Triggering cs) m = (m \<notin> set cs)"
| "has_called (Ended ok) m = ok"
| "has_called _ m = False"

definition called :: "'c run_state \<Rightarrow> string \<Rightarrow> bool" where
  "called \<sigma> m \<longleftrightarrow> 0 < calls \<sigma> m \<or> phase_of \<sigma> m \<noteq> Idle"

definition total_of :: "string set \<Rightarrow> (string \<Rightarrow> nat) \<Rightarrow> nat" where
  "total_of D f = (\<Sum>m \<in> D. f m)"

definition links_ok :: "'c stages \<Rightarrow> 'c run_state \<Rightarrow> bool" where
  "links_ok st0 \<sigma> \<longleftrightarrow> dom (stages \<sigma>) = dom st0 \<and> (\<forall>m. nexts (stages \<sigma>) m = nexts st0 m)"

definition latches_ok :: "'c stages \<Rightarrow> 'c run_state \<Rightarrow> bool" where
  "latches_ok st0 \<sigma> \<longleftrightarrow> (\<forall>m. latch (stages \<sigma>) m =
     total_of (dom st0) (\<lambda>p. count_list (to_unblock (nexts st0 p) (phase_of \<sigma> p)) m))"

definition counter_ok :: "'c stages \<Rightarrow> 'c run_state \<Rightarrow> bool" where
  "counter_ok st0 \<sigma> \<longleftrightarrow> exit_wg \<sigma> =
     total_of (dom st0) (calls \<sigma>) + total_of (dom st0) (owed \<circ> phase_of \<sigma>) + writers \<sigma>"

definition calls_ok :: "'c stages \<Rightarrow> string \<Rightarrow> 'c run_state \<Rightarrow> bool" where
  "calls_ok st0 main \<sigma> \<longleftrightarrow>
     (\<forall>m. called \<sigma> m \<longrightarrow> m \<in> dom st0 \<and> (m = main \<or> (\<exists>p. edge st0 p m \<and> succeeded (phase_of \<sigma> p))))
     \<and> called \<sigma> main
     \<and> (\<forall>p m. edge st0 p m \<and> has_called (phase_of \<sigma> p) m \<longrightarrow> called \<sigma> m)
     \<and> (\<forall>p cs. phase_of \<sigma> p = Triggering cs \<longrightarrow> set cs \<subseteq> set (nexts st0 p))"

definition settings_ok :: "'c stages \<Rightarrow> 'c run_state \<Rightarrow> bool" where
  "settings_ok st0 \<sigma> \<longleftrightarrow> flags_ok (stages \<sigma>)
     \<and> (\<forall>p c. edge st0 p c \<and> prepared (phase_of \<sigma> p) \<longrightarrow> (\<exists>s. stages \<sigma> c = Some s \<and> propagated s))
     \<and> (\<forall>p k. phase_of \<sigma> p = Executing k \<longrightarrow> abort_flag (stages \<sigma>) p \<noteq> None)"

definition run_inv :: "'c stages \<Rightarrow> string \<Rightarrow> 'c run_state \<Rightarrow> bool" where
  "run_inv st0 main \<sigma> \<longleftrightarrow> links_ok st0 \<sigma> \<and> latches_ok st0 \<sigma> \<and> counter_ok st0 \<sigma> \<and> calls_ok st0 main \<sigma>
     \<and> settings_ok st0 \<sigma>"

text \<open>Sums over the stages when one stage changes.\<close>

lemma total_of_upd:
  "finite D \<Longrightarrow> n \<in> D \<Longrightarrow> total_of D (f(n := v)) + f n = total_of D f + v"
  unfolding total_of_def by (simp add: sum.remove [of D n])

lemma total_of_ge: "finite D \<Longrightarrow> n \<in> D \<Longrightarrow> f n \<le> total_of D f"
  unfolding total_of_def by (simp add: sum.remove [of D n])

lemma owed_upd: "owed \<circ> ph(n := x) = (owed \<circ> ph)(n := owed x)"
  by auto

lemma count_upd:
  "(\<lambda>p. count_list (to_unblock (ns p) ((ph(n := x)) p)) m)
     = (\<lambda>p. count_list (to_unblock (ns p) (ph p)) m)(n := count_list (to_unblock (ns n) x) m)"
  by auto

lemma latch_release: "latch (release c st) m = latch st m - (if m = c then 1 else 0)"
  by (auto simp: latch_def release_def split: option.split)

lemma nexts_release [simp]: "nexts (release c st) m = nexts st m"
  by (auto simp: nexts_def release_def split: option.split)

lemma dom_release [simp]: "dom (release c st) = dom st"
  by (auto simp: release_def)

lemma release_flags:
  "flags_ok st \<Longrightarrow> flags_ok (release c st)"
  "abort_flag (release c st) m = abort_flag st m"
  "(\<exists>s. release c st m = Some s \<and> propagated s) \<longleftrightarrow> (\<exists>s. st m = Some s \<and> propagated s)"
  by (auto simp: flags_ok_def release_def, cases "st c",
      auto simp: release_def abort_flag_def split: option.splits)

text \<open>The preparation in a step.\<close>

lemma prepare_step:
  assumes "links_ok st0 \<sigma>" and "settings_ok st0 \<sigma>" and "prepare api n (stages \<sigma>) nc = Some (st', nc')"
    and "closed_under_next st0 (dom st0)"
  shows "same_graph (stages \<sigma>) st' \<and> flags_ok st' \<and> abort_flag st' n \<noteq> None
     \<and> (\<forall>c. edge st0 n c \<longrightarrow> (\<exists>t. st' c = Some t \<and> propagated t))"
proof -
  obtain s where s: "stages \<sigma> n = Some s"
    using assms(3) by (cases "stages \<sigma> n") (simp_all add: prepare_def)
  have "nexts st0 n = nexts (stages \<sigma>) n" using assms(1) by (simp add: links_ok_def)
  with s have "n \<in> dom st0" "NextStages s = nexts st0 n"
    using assms(1) by (auto simp: links_ok_def nexts_def [of "stages \<sigma>"])
  with assms(4) have "set (NextStages s) \<subseteq> dom (stages \<sigma>)"
    using assms(1) by (auto simp: closed_under_next_def links_ok_def)
  from prepare_links [OF s this, of api nc] assms show ?thesis
    by (auto simp: settings_ok_def links_ok_def edge_def [of st0 n])
qed

lemma run_graphD:
  assumes "run_graph st main"
  shows "finite (dom st)" "main \<in> dom st" "edge st p m \<Longrightarrow> p \<in> dom st \<Longrightarrow> m \<in> dom st"
    "closed_under_next st (dom st)"
proof -
  have dom: "dom st = {m. (edge st)\<^sup>*\<^sup>* main m}" using assms by (simp add: run_graph_def)
  show "finite (dom st)" "main \<in> dom st" using assms by (auto simp: run_graph_def)
  have out: "m \<in> dom st" if "edge st p m" "p \<in> dom st" for p m
    using that unfolding dom by (auto intro: rtranclp.rtrancl_into_rtrancl)
  then show "edge st p m \<Longrightarrow> p \<in> dom st \<Longrightarrow> m \<in> dom st" .
  from out show "closed_under_next st (dom st)" by (auto simp: closed_under_next_def edge_def)
qed

lemma edge_dom: "edge st p m \<Longrightarrow> p \<in> dom st"
  by (cases "st p") (auto simp: edge_def nexts_def)

lemma run_inv_prepare:
  assumes "run_graph st0 main" and "run_inv st0 main \<sigma>"
    and "prepare api n (stages \<sigma>) nc = Some (st', nc')"
  shows "same_graph (stages \<sigma>) st'" "flags_ok st'" "abort_flag st' n \<noteq> None"
    "edge st0 n c \<Longrightarrow> \<exists>t. st' c = Some t \<and> propagated t"
proof -
  have "links_ok st0 \<sigma>" "settings_ok st0 \<sigma>" using assms(2) by (simp_all add: run_inv_def)
  from prepare_step [OF this assms(3) run_graphD(4) [OF assms(1)]]
  show "same_graph (stages \<sigma>) st'" "flags_ok st'" "abort_flag st' n \<noteq> None"
    "edge st0 n c \<Longrightarrow> \<exists>t. st' c = Some t \<and> propagated t" by auto
qed

lemma run_inv_links:
  assumes "run_graph st0 main" and "run_inv st0 main \<sigma>" and "run_step api \<sigma> \<tau>"
  shows "links_ok st0 \<tau>"
  using assms(3)
proof cases
  case (start n st' nc' k)
  from same_graphD [OF run_inv_prepare(1) [OF assms(1,2) start(4)]] assms(2) show ?thesis
    unfolding start run_inv_def links_ok_def by (auto simp: set_eq_iff)
qed (use assms(2) in \<open>auto simp: run_inv_def links_ok_def\<close>)

lemma run_inv_started_dom: "run_inv st0 main \<sigma> \<Longrightarrow> called \<sigma> n \<Longrightarrow> n \<in> dom st0"
  by (auto simp: run_inv_def calls_ok_def)

lemma run_inv_latches:
  assumes g: "run_graph st0 main" and inv: "run_inv st0 main \<sigma>" and step: "run_step api \<sigma> \<tau>"
  shows "latches_ok st0 \<tau>"
proof -
  note fin = run_graphD(1) [OF g]
  let ?f = "\<lambda>m p. count_list (to_unblock (nexts st0 p) (phase_of \<sigma> p)) m"
  have l: "latch (stages \<sigma>) m = total_of (dom st0) (?f m)" for m
    using inv by (simp add: run_inv_def latches_ok_def)
  have nx: "nexts (stages \<sigma>) n = nexts st0 n" for n using inv by (simp add: run_inv_def links_ok_def)
  have same: "latches_ok st0 \<tau>" if "\<And>m. latch (stages \<tau>) m = latch (stages \<sigma>) m"
    "phase_of \<tau> = (phase_of \<sigma>)(n := x)" "to_unblock (nexts st0 n) x = to_unblock (nexts st0 n) (phase_of \<sigma> n)" for n x
    using l that unfolding latches_ok_def by (simp only: count_upd) (simp add: fun_upd_idem)
  from step show ?thesis
  proof cases
    case (start n st' nc' k)
    from same_graphD [OF run_inv_prepare(1) [OF g inv start(4)]] show ?thesis by (intro same [of n "Executing k"]) (simp_all add: start)
  next
    case (unblock n c cs ok)
    have n: "n \<in> dom st0" using run_inv_started_dom [OF inv] unblock by (auto simp: called_def)
    show ?thesis
      unfolding latches_ok_def
    proof
      fix m
      have "total_of (dom st0) ((?f m)(n := count_list cs m)) + ?f m n = total_of (dom st0) (?f m) + count_list cs m"
        by (rule total_of_upd [OF fin n])
      moreover have "?f m n = count_list cs m + (if m = c then 1 else 0)" using unblock by simp
      ultimately have "total_of (dom st0) ((?f m)(n := count_list cs m)) = latch (stages \<sigma>) m - (if m = c then 1 else 0)"
        by (simp add: l)
      moreover have "stages \<tau> = release c (stages \<sigma>)" "phase_of \<tau> = (phase_of \<sigma>)(n := Unblocking cs ok)"
        by (simp_all add: unblock)
      ultimately show "latch (stages \<tau>) m
          = total_of (dom st0) (\<lambda>p. count_list (to_unblock (nexts st0 p) (phase_of \<tau> p)) m)"
        by (simp only: count_upd latch_release to_unblock.simps)
    qed
  next
    case enter_again
    with l show ?thesis by (simp add: latches_ok_def)
  next
    case writer_ends
    with l show ?thesis by (simp add: latches_ok_def)
  next
    case (enter n)
    then show ?thesis by (intro same [of n "Waiting"]) (simp_all add: nx)
  next
    case (give_up n)
    then show ?thesis by (intro same [of n "Unblocking (nexts st0 n) False"]) (simp_all add: nx)
  next
    case (spawn_writer n k)
    then show ?thesis by (intro same [of n "Executing k"]) (simp_all add: nx)
  next
    case (succeed n k)
    then show ?thesis by (intro same [of n "Unblocking (nexts st0 n) True"]) (simp_all add: nx)
  next
    case (fail n k ab)
    then show ?thesis by (intro same [of n "Unblocking (nexts st0 n) False"]) (simp_all add: nx)
  next
    case (unblocked n)
    then show ?thesis by (intro same [of n "Triggering (nexts st0 n)"]) (simp_all add: nx)
  next
    case (trigger n c cs)
    then show ?thesis by (intro same [of n "Triggering cs"]) (simp_all add: nx)
  next
    case (return_ok n)
    then show ?thesis by (intro same [of n "Ended True"]) (simp_all add: nx)
  next
    case (return_failed n)
    then show ?thesis by (intro same [of n "Ended False"]) (simp_all add: nx)
  qed
qed

lemma run_inv_counter:
  assumes g: "run_graph st0 main" and inv: "run_inv st0 main \<sigma>" and step: "run_step api \<sigma> \<tau>"
  shows "counter_ok st0 \<tau>"
proof -
  note fin = run_graphD(1) [OF g]
  have w: "exit_wg \<sigma> = total_of (dom st0) (calls \<sigma>) + total_of (dom st0) (owed \<circ> phase_of \<sigma>) + writers \<sigma>"
    using inv by (simp add: run_inv_def counter_ok_def)
  have nx: "nexts (stages \<sigma>) n = nexts st0 n" for n using inv by (simp add: run_inv_def links_ok_def)
  have ph: "total_of (dom st0) (owed \<circ> (phase_of \<sigma>)(n := x)) + owed (phase_of \<sigma> n)
      = total_of (dom st0) (owed \<circ> phase_of \<sigma>) + owed x" if "phase_of \<sigma> n \<noteq> Idle \<or> 0 < calls \<sigma> n" for n x
  proof -
    have "n \<in> dom st0" using run_inv_started_dom [OF inv] that by (auto simp: called_def)
    from total_of_upd [OF fin this, of "owed \<circ> phase_of \<sigma>" "owed x"] show ?thesis by (simp add: owed_upd)
  qed
  have cl: "total_of (dom st0) ((calls \<sigma>)(n := v)) + calls \<sigma> n = total_of (dom st0) (calls \<sigma>) + v"
    if "n \<in> dom st0" for n v
    using total_of_upd [OF fin that] .
  from step show ?thesis
  proof cases
    case (enter n)
    with run_inv_started_dom [OF inv] have "n \<in> dom st0" by (auto simp: called_def)
    with ph [of n Waiting] cl [of n "calls \<sigma> n - 1"] w enter show ?thesis by (simp add: counter_ok_def)
  next
    case (enter_again n)
    with run_inv_started_dom [OF inv] have "n \<in> dom st0" by (auto simp: called_def)
    with cl [of n "calls \<sigma> n - 1"] w enter_again show ?thesis by (simp add: counter_ok_def)
  next
    case (give_up n)
    with ph [of n "Unblocking (nexts st0 n) False"] w show ?thesis by (simp add: counter_ok_def nx)
  next
    case (start n st' nc' k)
    with ph [of n "Executing k"] w show ?thesis by (simp add: counter_ok_def)
  next
    case (spawn_writer n k)
    with ph [of n "Executing k"] w show ?thesis by (simp add: counter_ok_def)
  next
    case writer_ends
    with w show ?thesis by (simp add: counter_ok_def)
  next
    case (succeed n k)
    with ph [of n "Unblocking (nexts st0 n) True"] w show ?thesis by (simp add: counter_ok_def nx)
  next
    case (fail n k ab)
    with ph [of n "Unblocking (nexts st0 n) False"] w show ?thesis by (simp add: counter_ok_def nx)
  next
    case (unblock n c cs ok)
    with ph [of n "Unblocking cs ok"] w show ?thesis by (simp add: counter_ok_def)
  next
    case (unblocked n)
    with ph [of n "Triggering (nexts st0 n)"] w show ?thesis by (simp add: counter_ok_def nx)
  next
    case (trigger n c cs)
    have "\<forall>p cs. phase_of \<sigma> p = Triggering cs \<longrightarrow> set cs \<subseteq> set (nexts st0 p)"
      using inv by (simp add: run_inv_def calls_ok_def)
    from this [rule_format, OF trigger(2)] have "edge st0 n c" by (simp add: edge_def)
    moreover have "n \<in> dom st0" using run_inv_started_dom [OF inv, of n] trigger by (simp add: called_def)
    ultimately have "c \<in> dom st0" by (rule run_graphD(3) [OF g])
    from trigger ph [of n "Triggering cs"] cl [OF this, of "calls \<sigma> c + 1"] w show ?thesis
      by (simp add: counter_ok_def)
  next
    case (return_ok n)
    with ph [of n "Ended True"] w show ?thesis by (simp add: counter_ok_def)
  next
    case (return_failed n)
    with ph [of n "Ended False"] w show ?thesis by (simp add: counter_ok_def)
  qed
qed

lemma run_inv_calls:
  assumes g: "run_graph st0 main" and inv: "run_inv st0 main \<sigma>" and step: "run_step api \<sigma> \<tau>"
  shows "calls_ok st0 main \<tau>"
proof -
  have nx: "nexts (stages \<sigma>) n = nexts st0 n" for n using inv by (simp add: run_inv_def links_ok_def)
  have c: "calls_ok st0 main \<sigma>" using inv by (simp add: run_inv_def)
  have keeps: "called \<tau> m" if "called \<sigma> m" for m
    using step that by cases (auto simp: called_def)
  have succ: "succeeded (phase_of \<tau> p)" if "succeeded (phase_of \<sigma> p)" for p
    using step that by cases auto
  have reason: "m \<in> dom st0 \<and> (m = main \<or> (\<exists>p. edge st0 p m \<and> succeeded (phase_of \<sigma> p)))"
    if "called \<sigma> m" for m
    using c that by (auto simp: calls_ok_def)
  have sub: "set cs \<subseteq> set (nexts st0 p)" if "phase_of \<sigma> p = Triggering cs" for p cs
    using c that by (auto simp: calls_ok_def)
  have new: "called \<sigma> m \<or> (\<exists>p cs. phase_of \<sigma> p = Triggering (m # cs))" if "called \<tau> m" for m
    using step that by cases (auto simp: called_def split: if_splits)
  have "m \<in> dom st0 \<and> (m = main \<or> (\<exists>p. edge st0 p m \<and> succeeded (phase_of \<tau> p)))" if "called \<tau> m" for m
  proof -
    from new [OF that] have "m \<in> dom st0 \<and> (m = main \<or> (\<exists>p. edge st0 p m \<and> succeeded (phase_of \<sigma> p)))"
    proof
      assume "\<exists>p cs. phase_of \<sigma> p = Triggering (m # cs)"
      then obtain p cs where p: "phase_of \<sigma> p = Triggering (m # cs)" by blast
      then have e: "edge st0 p m" using sub [OF p] by (simp add: edge_def)
      with p run_graphD(3) [OF g e] edge_dom [OF e] show ?thesis by (metis succeeded.simps(1))
    qed (rule reason)
    with succ show ?thesis by blast
  qed
  moreover have "called \<tau> main" using keeps c by (simp add: calls_ok_def)
  moreover have "called \<tau> m" if e: "edge st0 p m" and h: "has_called (phase_of \<tau> p) m" for p m
  proof (cases "has_called (phase_of \<sigma> p) m")
    case True
    with e c keeps show ?thesis by (auto simp: calls_ok_def)
  next
    case False
    from step h False have "(\<exists>cs. phase_of \<sigma> p = Triggering (m # cs) \<and> phase_of \<tau> p = Triggering cs)
        \<or> (phase_of \<tau> p = Triggering (nexts st0 p))"
      by cases (auto simp: nx split: if_splits)
    moreover have "m \<in> set (nexts st0 p)" using e by (simp add: edge_def)
    ultimately obtain cs where "phase_of \<sigma> p = Triggering (m # cs)" "phase_of \<tau> p = Triggering cs"
      using h by auto
    with step show ?thesis by cases (auto simp: called_def split: if_splits)
  qed
  moreover have "set cs \<subseteq> set (nexts st0 p)" if "phase_of \<tau> p = Triggering cs" for p cs
  proof -
    from step that have "(\<exists>c. phase_of \<sigma> p = Triggering (c # cs)) \<or> phase_of \<sigma> p = Triggering cs \<or> cs = nexts st0 p"
      by cases (auto simp: nx split: if_splits)
    then show ?thesis using sub by fastforce
  qed
  ultimately show ?thesis unfolding calls_ok_def by blast
qed

lemma run_inv_settings:
  assumes g: "run_graph st0 main" and inv: "run_inv st0 main \<sigma>" and step: "run_step api \<sigma> \<tau>"
  shows "settings_ok st0 \<tau>"
proof -
  have c: "flags_ok (stages \<sigma>)"
    "\<And>p c. edge st0 p c \<Longrightarrow> prepared (phase_of \<sigma> p) \<Longrightarrow> \<exists>s. stages \<sigma> c = Some s \<and> propagated s"
    "\<And>p k. phase_of \<sigma> p = Executing k \<Longrightarrow> abort_flag (stages \<sigma>) p \<noteq> None"
    using inv by (auto simp: run_inv_def settings_ok_def)
  have nx: "nexts (stages \<sigma>) n = nexts st0 n" for n using inv by (simp add: run_inv_def links_ok_def)
  from step show ?thesis
  proof cases
    case (start n st' nc' k)
    note prep = run_inv_prepare [OF g inv start(4)]
    have keep: "\<exists>s'. st' m = Some s' \<and> propagated s'" if "\<exists>s. stages \<sigma> m = Some s \<and> propagated s" for m
      using that by (cases rule: same_graphE [OF prep(1), of m]) (auto simp: same_links_def)
    have "abort_flag st' p \<noteq> None" if "abort_flag (stages \<sigma>) p \<noteq> None" for p
      using that by (cases rule: same_graphE [OF prep(1), of p]) (auto simp: same_links_def abort_flag_def)
    with prep keep c start show ?thesis by (auto simp: settings_ok_def split: if_splits)
  next
    case (unblock n d cs ok)
    have "prepared (phase_of \<sigma> p)" if "prepared (phase_of \<tau> p)" for p
      using that unblock by (auto split: if_splits)
    moreover have "phase_of \<sigma> p = Executing k" if "phase_of \<tau> p = Executing k" for p k
      using that unblock by (auto split: if_splits)
    moreover have "stages \<tau> = release d (stages \<sigma>)" by (simp add: unblock)
    ultimately show ?thesis using c by (auto simp: settings_ok_def release_flags)
  qed (use c in \<open>auto simp: settings_ok_def nx split: if_splits\<close>)
qed

lemma run_inv_step:
  assumes "run_graph st0 main" and "run_inv st0 main \<sigma>" and "run_step api \<sigma> \<tau>"
  shows "run_inv st0 main \<tau>"
  unfolding run_inv_def [of st0 main \<tau>]
  using run_inv_links [OF assms] run_inv_latches [OF assms] run_inv_counter [OF assms]
    run_inv_calls [OF assms] run_inv_settings [OF assms] by blast

lemma run_inv_signal: "run_inv st0 main \<sigma> \<Longrightarrow> signal \<sigma> \<tau> \<Longrightarrow> run_inv st0 main \<tau>"
  by (auto simp: run_inv_def links_ok_def latches_ok_def counter_ok_def calls_ok_def called_def settings_ok_def)

lemma run_inv_start:
  assumes "run_graph st0 main"
  shows "run_inv st0 main (start_run st0 nc main)"
proof -
  note fin = run_graphD(1,2) [OF assms]
  have "total_of (dom st0) ((\<lambda>_. 0)(main := 1)) = 1"
    using total_of_upd [OF fin, of "\<lambda>_. 0" 1] by (simp add: total_of_def)
  then have "counter_ok st0 (start_run st0 nc main)"
    by (simp add: counter_ok_def start_run_def total_of_def)
  moreover have "latches_ok st0 (start_run st0 nc main)"
    using assms by (simp add: latches_ok_def start_run_def run_graph_def indegree_def total_of_def)
  moreover have "settings_ok st0 (start_run st0 nc main)"
    using assms by (auto simp: settings_ok_def start_run_def run_graph_def flags_ok_def)
  ultimately show ?thesis
    using fin by (auto simp: run_inv_def links_ok_def calls_ok_def called_def start_run_def)
qed

lemma reaches_inv:
  assumes "run_graph st0 main" and "reaches api (start_run st0 nc main) \<sigma>"
  shows "run_inv st0 main \<sigma>"
  using assms(2)
proof (induction "start_run st0 nc main" \<sigma> rule: reaches.induct)
  case here
  then show ?case by (rule run_inv_start [OF assms(1)])
next
  case (step \<tau> \<upsilon>)
  then show ?case using run_inv_step [OF assms(1)] by blast
next
  case (signalled \<tau> \<upsilon>)
  then show ?case using run_inv_signal by blast
qed

section \<open>Progress\<close>

fun rank :: "phase \<Rightarrow> nat" where
  "rank Idle = 0"
| "rank Waiting = 1"
| "rank (Executing k) = 2"
| "rank (Unblocking cs ok) = 3"
| "rank (Triggering cs) = 4"
| "rank (Ended ok) = 5"

fun budget :: "phase \<Rightarrow> nat" where
  "budget (Executing k) = 2 * k"
| "budget (Unblocking cs ok) = length cs"
| "budget (Triggering cs) = 2 * length cs"
| "budget _ = 0"

lemma rank_le: "rank p \<le> 5"
  by (cases p) simp_all

lemma step_rank: "run_step api \<sigma> \<tau> \<Longrightarrow> rank (phase_of \<sigma> n) \<le> rank (phase_of \<tau> n)"
  by (cases rule: run_step.cases) auto

lemma reaches_rank: "reaches api \<sigma> \<tau> \<Longrightarrow> rank (phase_of \<sigma> n) \<le> rank (phase_of \<tau> n)"
  by (induction rule: reaches.induct) (auto dest: step_rank [where n = n])

text \<open>The measure: how far the stages have to go, then what they have still to do in their phases.\<close>

definition to_go :: "string set \<Rightarrow> 'c run_state \<Rightarrow> nat" where
  "to_go D \<sigma> = total_of D (\<lambda>m. 5 - rank (phase_of \<sigma> m))"

definition work :: "string set \<Rightarrow> 'c run_state \<Rightarrow> nat" where
  "work D \<sigma> = total_of D (budget \<circ> phase_of \<sigma>) + total_of D (calls \<sigma>) + writers \<sigma>
     + (if cancelled \<sigma> then 0 else 1)"

lemma to_go_less:
  assumes "finite D" and "n \<in> D" and "phase_of \<tau> = (phase_of \<sigma>)(n := x)" and "rank (phase_of \<sigma> n) < rank x"
  shows "to_go D \<tau> < to_go D \<sigma>"
proof -
  let ?f = "\<lambda>m. 5 - rank (phase_of \<sigma> m)"
  have "(\<lambda>m. 5 - rank (phase_of \<tau> m)) = ?f(n := 5 - rank x)" using assms(3) by auto
  then have "to_go D \<tau> + ?f n = to_go D \<sigma> + (5 - rank x)"
    using total_of_upd [OF assms(1,2), of ?f] by (simp add: to_go_def)
  moreover have "5 - rank x < ?f n" using assms(4) rank_le [of x] by simp
  ultimately show ?thesis by linarith
qed

lemma to_go_same: "phase_of \<tau> = (phase_of \<sigma>)(n := x) \<Longrightarrow> rank (phase_of \<sigma> n) = rank x \<Longrightarrow> to_go D \<tau> = to_go D \<sigma>"
  unfolding to_go_def by (rule arg_cong [of _ _ "total_of D"]) auto

lemma budget_upd: "budget \<circ> ph(n := x) = (budget \<circ> ph)(n := budget x)"
  by auto

lemma run_measure:
  assumes g: "run_graph st0 main" and inv: "run_inv st0 main \<sigma>" and step: "run_step api \<sigma> \<tau>"
  shows "to_go (dom st0) \<tau> < to_go (dom st0) \<sigma>
     \<or> (to_go (dom st0) \<tau> = to_go (dom st0) \<sigma> \<and> work (dom st0) \<tau> < work (dom st0) \<sigma>)"
proof -
  note fin = run_graphD(1) [OF g]
  have up: ?thesis if "phase_of \<tau> = (phase_of \<sigma>)(n := x)" "rank (phase_of \<sigma> n) < rank x" "called \<sigma> n" for n x
    using to_go_less [OF fin run_inv_started_dom [OF inv that(3)] that(1,2)] by simp
  have cl: "total_of (dom st0) ((calls \<sigma>)(n := v)) + calls \<sigma> n = total_of (dom st0) (calls \<sigma>) + v"
    if "n \<in> dom st0" for n v
    using total_of_upd [OF fin that] .
  have bg: "total_of (dom st0) (budget \<circ> (phase_of \<sigma>)(n := x)) + budget (phase_of \<sigma> n)
      = total_of (dom st0) (budget \<circ> phase_of \<sigma>) + budget x" if "called \<sigma> n" for n x
    using total_of_upd [OF fin run_inv_started_dom [OF inv that], of "budget \<circ> phase_of \<sigma>" "budget x"]
    by (simp add: budget_upd)
  from step show ?thesis
  proof cases
    case (enter n)
    then show ?thesis by (intro up [of n Waiting]) (simp_all add: called_def)
  next
    case (enter_again n)
    then have "n \<in> dom st0" using run_inv_started_dom [OF inv, of n] by (simp add: called_def)
    with cl [of n "calls \<sigma> n - 1"] enter_again show ?thesis by (simp add: to_go_def work_def)
  next
    case (give_up n)
    then show ?thesis by (intro up [of n "Unblocking (nexts (stages \<sigma>) n) False"]) (simp_all add: called_def)
  next
    case (start n st' nc' k)
    then show ?thesis by (intro up [of n "Executing k"]) (simp_all add: called_def)
  next
    case (spawn_writer n k)
    with bg [of n "Executing k"] to_go_same [of \<tau> \<sigma> n "Executing k"] show ?thesis
      by (simp add: work_def called_def)
  next
    case writer_ends
    then show ?thesis by (simp add: to_go_def work_def)
  next
    case (succeed n k)
    then show ?thesis by (intro up [of n "Unblocking (nexts (stages \<sigma>) n) True"]) (simp_all add: called_def)
  next
    case (fail n k ab)
    then show ?thesis by (intro up [of n "Unblocking (nexts (stages \<sigma>) n) False"]) (simp_all add: called_def)
  next
    case (unblock n c cs ok)
    with bg [of n "Unblocking cs ok"] to_go_same [of \<tau> \<sigma> n "Unblocking cs ok"] show ?thesis
      by (simp add: work_def called_def)
  next
    case (unblocked n)
    then show ?thesis by (intro up [of n "Triggering (nexts (stages \<sigma>) n)"]) (simp_all add: called_def)
  next
    case (trigger n c cs)
    have "\<forall>p cs. phase_of \<sigma> p = Triggering cs \<longrightarrow> set cs \<subseteq> set (nexts st0 p)"
      using inv by (simp add: run_inv_def calls_ok_def)
    from this [rule_format, OF trigger(2)] have "edge st0 n c" by (simp add: edge_def)
    then have "c \<in> dom st0" using edge_dom run_graphD(3) [OF g] by blast
    from trigger bg [of n "Triggering cs"] cl [OF this, of "calls \<sigma> c + 1"] to_go_same [of \<tau> \<sigma> n "Triggering cs"]
    show ?thesis by (simp add: work_def called_def)
  next
    case (return_ok n)
    then show ?thesis by (intro up [of n "Ended True"]) (simp_all add: called_def)
  next
    case (return_failed n)
    then show ?thesis by (intro up [of n "Ended False"]) (simp_all add: called_def)
  qed
qed

lemma run_terminates_from:
  assumes "run_graph st0 main" and "run_inv st0 main (f 0)"
  shows "\<not> (\<forall>i. run_step api (f i) (f (Suc i)) \<or> signal (f i) (f (Suc i)))"
proof
  assume steps: "\<forall>i. run_step api (f i) (f (Suc i)) \<or> signal (f i) (f (Suc i))"
  have inv: "run_inv st0 main (f i)" for i
    by (induction i) (use assms steps run_inv_step run_inv_signal in blast)+
  let ?m = "\<lambda>i. (to_go (dom st0) (f i), work (dom st0) (f i))"
  have down: "(?m (Suc i), ?m i) \<in> less_than <*lex*> less_than" for i
  proof (cases "run_step api (f i) (f (Suc i))")
    case True
    from run_measure [OF assms(1) inv this] show ?thesis by auto
  next
    case False
    with steps have "signal (f i) (f (Suc i))" by blast
    then have "f (Suc i) = (f i)\<lparr>cancelled := True\<rparr>" "\<not> cancelled (f i)" by simp_all
    then show ?thesis by (simp add: to_go_def work_def)
  qed
  have "wf (less_than <*lex*> less_than)" by (intro wf_lex_prod wf_less_than)
  then have "\<nexists>g. \<forall>i. (g (Suc i), g i) \<in> less_than <*lex*> less_than"
    by (rule wf_iff_no_infinite_down_chain [THEN iffD1])
  moreover have "\<exists>g. \<forall>i. (g (Suc i), g i) \<in> less_than <*lex*> less_than"
    by (rule exI [of _ ?m], rule allI, rule down)
  ultimately show False by (rule notE)
qed

section \<open>An executable form of the steps\<close>

datatype act = Enter string | GiveUp string | Start string nat | SpawnWriter string | WriterEnds | Succeed string
  | Fail string | Continue string

text \<open>\<open>Continue\<close> is the next step of the deferred function. \<open>None\<close> means that the step is not
  possible.\<close>

definition do_act :: "'c client_api \<Rightarrow> act \<Rightarrow> 'c run_state \<Rightarrow> 'c run_state option" where
  "do_act api a \<sigma> = (case a of
     Enter n \<Rightarrow>
       (if calls \<sigma> n = 0 then None
        else if phase_of \<sigma> n = Idle
        then Some (\<sigma>\<lparr>calls := (calls \<sigma>)(n := calls \<sigma> n - 1), phase_of := (phase_of \<sigma>)(n := Waiting)\<rparr>)
        else Some (\<sigma>\<lparr>calls := (calls \<sigma>)(n := calls \<sigma> n - 1), exit_wg := exit_wg \<sigma> - 1\<rparr>))
   | GiveUp n \<Rightarrow>
       (if phase_of \<sigma> n = Waiting \<and> cancelled \<sigma> \<and> abort_flag (stages \<sigma>) n \<noteq> None
        then Some (\<sigma>\<lparr>phase_of := (phase_of \<sigma>)(n := Unblocking (nexts (stages \<sigma>) n) False)\<rparr>) else None)
   | Start n k \<Rightarrow>
       (if phase_of \<sigma> n = Waiting \<and> latch (stages \<sigma>) n = 0
        then map_option (\<lambda>(st', nc'). \<sigma>\<lparr>stages := st', new_client := nc', phase_of := (phase_of \<sigma>)(n := Executing k)\<rparr>)
               (prepare api n (stages \<sigma>) (new_client \<sigma>))
        else None)
   | SpawnWriter n \<Rightarrow>
       (case phase_of \<sigma> n of
          Executing (Suc k) \<Rightarrow> Some (\<sigma>\<lparr>phase_of := (phase_of \<sigma>)(n := Executing k), writers := writers \<sigma> + 1,
                                    exit_wg := exit_wg \<sigma> + 1\<rparr>)
        | _ \<Rightarrow> None)
   | WriterEnds \<Rightarrow>
       (if writers \<sigma> = 0 then None else Some (\<sigma>\<lparr>writers := writers \<sigma> - 1, exit_wg := exit_wg \<sigma> - 1\<rparr>))
   | Succeed n \<Rightarrow>
       (case phase_of \<sigma> n of
          Executing k \<Rightarrow> Some (\<sigma>\<lparr>phase_of := (phase_of \<sigma>)(n := Unblocking (nexts (stages \<sigma>) n) True)\<rparr>)
        | _ \<Rightarrow> None)
   | Fail n \<Rightarrow>
       (case (phase_of \<sigma> n, abort_flag (stages \<sigma>) n) of
          (Executing k, Some ab) \<Rightarrow>
             Some (\<sigma>\<lparr>phase_of := (phase_of \<sigma>)(n := Unblocking (nexts (stages \<sigma>) n) False),
                     cancelled := (cancelled \<sigma> \<or> ab)\<rparr>)
        | _ \<Rightarrow> None)
   | Continue n \<Rightarrow>
       (case phase_of \<sigma> n of
          Unblocking (c # cs) ok \<Rightarrow>
             Some (\<sigma>\<lparr>phase_of := (phase_of \<sigma>)(n := Unblocking cs ok), stages := release c (stages \<sigma>)\<rparr>)
        | Unblocking [] True \<Rightarrow>
             Some (\<sigma>\<lparr>phase_of := (phase_of \<sigma>)(n := Triggering (nexts (stages \<sigma>) n)),
                     exit_wg := exit_wg \<sigma> + length (nexts (stages \<sigma>) n)\<rparr>)
        | Unblocking [] False \<Rightarrow>
             Some (\<sigma>\<lparr>phase_of := (phase_of \<sigma>)(n := Ended False), exit_wg := exit_wg \<sigma> - 1\<rparr>)
        | Triggering (c # cs) \<Rightarrow>
             Some (\<sigma>\<lparr>phase_of := (phase_of \<sigma>)(n := Triggering cs), calls := (calls \<sigma>)(c := calls \<sigma> c + 1)\<rparr>)
        | Triggering [] \<Rightarrow> Some (\<sigma>\<lparr>phase_of := (phase_of \<sigma>)(n := Ended True), exit_wg := exit_wg \<sigma> - 1\<rparr>)
        | _ \<Rightarrow> None))"

lemma do_act_sound: "do_act api a \<sigma> = Some \<tau> \<Longrightarrow> run_step api \<sigma> \<tau>"
  unfolding do_act_def
  by (auto split: act.splits if_splits phase.splits nat.splits option.splits list.splits bool.splits prod.splits
      intro: run_step.intros [simplified])

lemma do_act_complete: "run_step api \<sigma> \<tau> \<Longrightarrow> \<exists>a. do_act api a \<sigma> = Some \<tau>"
proof (induction rule: run_step.induct)
  case (enter \<sigma> n) then show ?case by (intro exI [of _ "Enter n"]) (simp add: do_act_def)
next
  case (enter_again \<sigma> n) then show ?case by (intro exI [of _ "Enter n"]) (simp add: do_act_def)
next
  case (give_up \<sigma> n) then show ?case by (intro exI [of _ "GiveUp n"]) (simp add: do_act_def)
next
  case (start \<sigma> n st' nc' k) then show ?case by (intro exI [of _ "Start n k"]) (simp add: do_act_def)
next
  case (spawn_writer \<sigma> n k) then show ?case by (intro exI [of _ "SpawnWriter n"]) (simp add: do_act_def)
next
  case (writer_ends \<sigma>) then show ?case by (intro exI [of _ WriterEnds]) (simp add: do_act_def)
next
  case (succeed \<sigma> n k) then show ?case by (intro exI [of _ "Succeed n"]) (simp add: do_act_def)
next
  case (fail \<sigma> n k ab) then show ?case by (intro exI [of _ "Fail n"]) (simp add: do_act_def)
next
  case (unblock \<sigma> n c cs ok) then show ?case by (intro exI [of _ "Continue n"]) (simp add: do_act_def)
next
  case (unblocked \<sigma> n) then show ?case by (intro exI [of _ "Continue n"]) (simp add: do_act_def)
next
  case (trigger \<sigma> n c cs) then show ?case by (intro exI [of _ "Continue n"]) (simp add: do_act_def)
next
  case (return_ok \<sigma> n) then show ?case by (intro exI [of _ "Continue n"]) (simp add: do_act_def)
next
  case (return_failed \<sigma> n) then show ?case by (intro exI [of _ "Continue n"]) (simp add: do_act_def)
qed

lemma reaches_trans: "reaches api \<tau> \<upsilon> \<Longrightarrow> reaches api \<sigma> \<tau> \<Longrightarrow> reaches api \<sigma> \<upsilon>"
  by (induction rule: reaches.induct) (auto intro: reaches.intros)

fun do_acts :: "'c client_api \<Rightarrow> act list \<Rightarrow> 'c run_state \<Rightarrow> 'c run_state option" where
  "do_acts api [] \<sigma> = Some \<sigma>"
| "do_acts api (a # as) \<sigma> = Option.bind (do_act api a \<sigma>) (do_acts api as)"

lemma do_acts_reaches: "do_acts api as \<sigma> = Some \<tau> \<Longrightarrow> reaches api \<sigma> \<tau>"
proof (induction as arbitrary: \<sigma>)
  case Nil
  then show ?case by (simp add: reaches.here)
next
  case (Cons a as)
  then obtain \<upsilon> where u: "do_act api a \<sigma> = Some \<upsilon>" "do_acts api as \<upsilon> = Some \<tau>"
    by (auto simp: bind_eq_Some_conv)
  have "reaches api \<sigma> \<upsilon>" by (rule reaches.step [OF reaches.here do_act_sound [OF u(1)]])
  with Cons.IH [OF u(2)] show ?case by (rule reaches_trans)
qed

text \<open>Four stages for the witnesses: \<open>a\<close> before \<open>b\<close> and \<open>d\<close>, \<open>b\<close> before \<open>c\<close>, and \<open>c\<close> before \<open>d\<close>.\<close>

definition unit_api :: "unit client_api" where
  "unit_api = \<lparr>default_client = (), get_catalog = (\<lambda>_. []), get_schema = (\<lambda>_. []), get_timezone = (\<lambda>_. []),
     set_catalog = (\<lambda>_ c. c), set_schema = (\<lambda>_ c. c), set_timezone = (\<lambda>_ c. c), session_param = (\<lambda>_ _ c. c),
     append_tag = (\<lambda>_ c. c)\<rparr>"

definition chain_stage :: "string list \<Rightarrow> nat \<Rightarrow> unit stage" where
  "chain_stage ns k = empty_stage\<lparr>NextStages := ns, wgPrerequisites := k\<rparr>"

definition chain_stages :: "unit stages" where
  "chain_stages = [''a'' \<mapsto> chain_stage [''b'', ''d''] 0, ''b'' \<mapsto> chain_stage [''c''] 1,
     ''c'' \<mapsto> chain_stage [''d''] 1, ''d'' \<mapsto> chain_stage [] 2]"

lemma chain_nexts: "nexts chain_stages x = (if x = ''d'' then [] else if x = ''c'' then [''d'']
     else if x = ''b'' then [''c''] else if x = ''a'' then [''b'', ''d''] else [])"
  by (simp add: nexts_def chain_stages_def chain_stage_def empty_stage_def)

lemma chain_edges: "edge chain_stages x y \<longleftrightarrow>
   (x, y) \<in> {(''a'', ''b''), (''a'', ''d''), (''b'', ''c''), (''c'', ''d'')}"
  by (cases "x = ''a''"; cases "x = ''b''"; cases "x = ''c''") (simp_all add: edge_def chain_nexts)

lemma chain_latch: "latch chain_stages x = (if x = ''d'' then 2 else if x = ''c'' then 1 else if x = ''b'' then 1 else 0)"
  by (simp add: latch_def chain_stages_def chain_stage_def empty_stage_def)

lemma chain_run_graph: "run_graph chain_stages ''a''"
proof -
  have dom: "dom chain_stages = {''a'', ''b'', ''c'', ''d''}" by (simp add: chain_stages_def insert_commute)
  have up: "(edge chain_stages)\<^sup>+\<^sup>+ x y \<Longrightarrow> (x, y) \<in> {(''a'', ''b''), (''a'', ''c''), (''a'', ''d''), (''b'', ''c''),
      (''b'', ''d''), (''c'', ''d'')}" for x y
    by (induction rule: tranclp_induct) (auto simp: chain_edges)
  have "(edge chain_stages)\<^sup>*\<^sup>* ''a'' m \<Longrightarrow> m \<in> dom chain_stages" for m
    by (induction rule: rtranclp_induct) (auto simp: dom chain_edges)
  moreover have "(edge chain_stages)\<^sup>*\<^sup>* ''a'' m" if "m \<in> dom chain_stages" for m
  proof -
    have "(edge chain_stages)\<^sup>*\<^sup>* ''a'' ''b''" "edge chain_stages ''b'' ''c''" "edge chain_stages ''c'' ''d''"
      by (auto simp: chain_edges)
    with that show ?thesis unfolding dom by (auto intro: rtranclp.rtrancl_into_rtrancl)
  qed
  moreover have "distinct (nexts chain_stages m)" for m
    by (simp add: chain_nexts)
  moreover have "\<not> (edge chain_stages)\<^sup>+\<^sup>+ m m" for m using up [of m m] by auto
  moreover have "latch chain_stages m = indegree chain_stages m" for m
    unfolding indegree_def dom
    by (simp add: chain_nexts chain_latch)
  moreover have "chain_stages m = Some s \<Longrightarrow> \<not> propagated s" for m s
    by (auto simp: chain_stages_def chain_stage_def empty_stage_def split: if_splits)
  moreover have "finite (dom chain_stages)" by (simp add: dom)
  ultimately show ?thesis unfolding run_graph_def well_linked_def by blast
qed

text \<open>The main stage of the chain runs; then \<open>b\<close> is started and fails.\<close>

definition chain_b :: "act list" where
  "chain_b = [Enter ''a'', Start ''a'' 1, SpawnWriter ''a'', Succeed ''a'', Continue ''a'', Continue ''a'', Continue ''a'',
     Continue ''a'', Continue ''a'', Continue ''a'', Enter ''b'', Start ''b'' 0]"

definition chain_hang :: "act list" where
  "chain_hang = chain_b @ [Fail ''b'', Continue ''b'', Continue ''b'', WriterEnds]"

definition chain_start :: "unit run_state" where
  "chain_start = start_run chain_stages None ''a''"

lemma chain_b_state:
  "case do_acts unit_api chain_b chain_start of
     None \<Rightarrow> False
   | Some \<sigma> \<Rightarrow> phase_of \<sigma> ''b'' = Executing 0 \<and> exit_wg \<sigma> = 3"
  by code_simp

lemma chain_hang_state:
  "case do_acts unit_api chain_hang chain_start of
     None \<Rightarrow> False
   | Some \<sigma> \<Rightarrow> phase_of \<sigma> ''b'' = Ended False \<and> phase_of \<sigma> ''d'' = Idle \<and> calls \<sigma> ''d'' = 1 \<and> exit_wg \<sigma> = 1
       \<and> \<not> cancelled \<sigma>"
  by code_simp

text \<open>All the steps of a stage with \<open>k\<close> next stages that succeeds.\<close>

definition runs_well :: "string \<Rightarrow> nat \<Rightarrow> act list" where
  "runs_well n k = [Start n 0, Succeed n] @ replicate (2 * k + 2) (Continue n)"

definition chain_all :: "act list" where
  "chain_all = Enter ''a'' # runs_well ''a'' 2 @ [Enter ''d'', Enter ''b''] @ runs_well ''b'' 1 @ [Enter ''c'']
     @ runs_well ''c'' 1 @ runs_well ''d'' 0 @ [Enter ''d'']"

lemma chain_all_state:
  "case do_acts unit_api chain_all chain_start of
     None \<Rightarrow> False
   | Some \<sigma> \<Rightarrow> exit_wg \<sigma> = 0 \<and> (\<forall>n \<in> set [''a'', ''b'', ''c'', ''d'']. phase_of \<sigma> n = Ended True)"
  by code_simp

text \<open>When no step fails, no stage ends with an error.\<close>

fun no_error :: "phase \<Rightarrow> bool" where
  "no_error (Unblocking cs ok) = ok"
| "no_error (Ended ok) = ok"
| "no_error _ = True"

fun is_failure :: "act \<Rightarrow> bool" where
  "is_failure (Fail n) = True"
| "is_failure (GiveUp n) = True"
| "is_failure _ = False"

lemma do_acts_no_error:
  "do_acts api as \<sigma> = Some \<tau> \<Longrightarrow> \<forall>a \<in> set as. \<not> is_failure a \<Longrightarrow> \<forall>n. no_error (phase_of \<sigma> n) \<Longrightarrow>
     no_error (phase_of \<tau> m)"
proof (induction as arbitrary: \<sigma>)
  case (Cons a as)
  then obtain \<upsilon> where u: "do_act api a \<sigma> = Some \<upsilon>" "do_acts api as \<upsilon> = Some \<tau>"
    by (auto simp: bind_eq_Some_conv)
  have "no_error (phase_of \<upsilon> n)" for n
  proof -
    have "no_error (phase_of \<sigma> n)" "\<not> is_failure a" using Cons.prems by simp_all
    with u(1) show ?thesis unfolding do_act_def
      by (auto split: act.splits if_splits phase.splits nat.splits option.splits list.splits bool.splits)
  qed
  with Cons.IH [OF u(2)] Cons.prems(2) show ?case by simp
qed simp

section \<open>Order of execution\<close>

lemma step_latch:
  assumes "run_graph st0 main" and "run_inv st0 main \<sigma>" and "run_step api \<sigma> \<tau>"
  shows "latch (stages \<tau>) m \<le> latch (stages \<sigma>) m"
  using assms(3)
proof cases
  case (start n st' nc' k)
  from same_graphD [OF run_inv_prepare(1) [OF assms(1,2) start(4)], of m] show ?thesis by (simp add: start)
qed (simp_all add: latch_release)


definition waited :: "'c run_state \<Rightarrow> bool" where
  "waited \<sigma> \<longleftrightarrow> (\<forall>m. 2 \<le> rank (phase_of \<sigma> m) \<longrightarrow> latch (stages \<sigma>) m = 0 \<or> cancelled \<sigma>)
     \<and> (\<forall>m k. phase_of \<sigma> m = Executing k \<longrightarrow> latch (stages \<sigma>) m = 0)"

lemma step_waited:
  assumes "run_graph st0 main" and "run_inv st0 main \<sigma>" and "run_step api \<sigma> \<tau>" and "waited \<sigma>"
  shows "waited \<tau>"
proof -
  have l: "latch (stages \<tau>) m = 0" if "latch (stages \<sigma>) m = 0" for m
    using step_latch [OF assms(1-3), of m] that by simp
  have r: "2 \<le> rank (phase_of \<sigma> m) \<Longrightarrow> latch (stages \<tau>) m = 0 \<or> cancelled \<sigma>"
    and e: "phase_of \<sigma> m = Executing k \<Longrightarrow> latch (stages \<tau>) m = 0" for m k
    using assms(4) l by (auto simp: waited_def)
  have c: "cancelled \<sigma> \<longrightarrow> cancelled \<tau>" using assms(3) by cases simp_all
  have "2 \<le> rank (phase_of \<tau> m) \<Longrightarrow> latch (stages \<tau>) m = 0 \<or> cancelled \<sigma>" for m
    using assms(3)
  proof cases
    case (start n st' nc' k)
    with l r show "2 \<le> rank (phase_of \<tau> m) \<Longrightarrow> ?thesis" by (auto split: if_splits)
  qed (use r [of m] in \<open>auto split: if_splits\<close>)
  moreover have "phase_of \<tau> m = Executing k \<Longrightarrow> latch (stages \<tau>) m = 0" for m k
    using assms(3)
  proof cases
    case (start n st' nc' k')
    with l e show "phase_of \<tau> m = Executing k \<Longrightarrow> ?thesis" by (auto split: if_splits)
  qed (use e [of m] in \<open>auto split: if_splits\<close>)
  ultimately show ?thesis using c by (auto simp: waited_def)
qed

text \<open>To prove an invariant of the run it is enough to look at the steps from states with
  \<open>run_inv\<close>.\<close>

lemma run_invariant [consumes 2, case_names start step signal]:
  assumes "run_graph st0 main" and "reaches api (start_run st0 nc main) \<sigma>"
    and "I (start_run st0 nc main)"
    and "\<And>\<sigma> \<tau>. run_inv st0 main \<sigma> \<Longrightarrow> I \<sigma> \<Longrightarrow> run_step api \<sigma> \<tau> \<Longrightarrow> I \<tau>"
    and "\<And>\<sigma>. run_inv st0 main \<sigma> \<Longrightarrow> I \<sigma> \<Longrightarrow> \<not> cancelled \<sigma> \<Longrightarrow> I (\<sigma>\<lparr>cancelled := True\<rparr>)"
  shows "I \<sigma>"
  using assms(2)
proof (induction "start_run st0 nc main" \<sigma> rule: reaches.induct)
  case here
  show ?case by (rule assms(3))
next
  case (step \<tau> \<upsilon>)
  then show ?case using assms(4) reaches_inv [OF assms(1)] by blast
next
  case (signalled \<tau> \<upsilon>)
  then show ?case using assms(5) reaches_inv [OF assms(1)] by auto
qed

lemma reaches_waited:
  assumes "run_graph st0 main" and "reaches api (start_run st0 nc main) \<sigma>"
  shows "waited \<sigma>"
  using assms
proof (induction rule: run_invariant)
  case start
  then show ?case by (simp add: waited_def start_run_def)
next
  case (step \<sigma> \<tau>)
  then show ?case using step_waited [OF assms(1)] by blast
next
  case (signal \<sigma>)
  then show ?case by (simp add: waited_def)
qed

lemma latch_zero:
  assumes "run_graph st0 main" and "run_inv st0 main \<sigma>"
  shows "latch (stages \<sigma>) m = 0 \<longleftrightarrow> (\<forall>p. m \<notin> set (to_unblock (nexts st0 p) (phase_of \<sigma> p)))"
proof -
  have out: "m \<notin> set (to_unblock (nexts st0 p) (phase_of \<sigma> p))" if "p \<notin> dom st0" for p
  proof -
    have "phase_of \<sigma> p = Idle" using run_inv_started_dom [OF assms(2), of p] that by (auto simp: called_def)
    moreover have "nexts st0 p = []" using that by (cases "st0 p") (auto simp: nexts_def)
    ultimately show ?thesis by simp
  qed
  have "latch (stages \<sigma>) m = 0 \<longleftrightarrow>
     (\<forall>p \<in> dom st0. m \<notin> set (to_unblock (nexts st0 p) (phase_of \<sigma> p)))"
  proof -
    have "latch (stages \<sigma>) m =
       total_of (dom st0) (\<lambda>p. count_list (to_unblock (nexts st0 p) (phase_of \<sigma> p)) m)"
      using assms(2) by (simp add: run_inv_def latches_ok_def)
    then show ?thesis
      unfolding total_of_def by (simp only: sum_eq_0_iff [OF run_graphD(1) [OF assms(1)]] count_list_0_iff)
  qed
  also have "\<dots> \<longleftrightarrow> (\<forall>p. m \<notin> set (to_unblock (nexts st0 p) (phase_of \<sigma> p)))"
    using out by (simp only: Ball_def) metis
  finally show ?thesis .
qed

text \<open>C2: A stage runs its scripts and queries only after every stage that has it as a next stage has
  been through its own body and unblocked it, and, unless it is the main stage, after one of them
  has succeeded.\<close>

theorem executes_after_parents:
  assumes "run_graph st main" and "reaches api (start_run st nc main) \<sigma>" and "phase_of \<sigma> m = Executing k"
  shows "(\<forall>p. edge st p m \<longrightarrow> (\<exists>cs ok. phase_of \<sigma> p = Unblocking cs ok \<and> m \<notin> set cs)
       \<or> (\<exists>cs. phase_of \<sigma> p = Triggering cs) \<or> (\<exists>ok. phase_of \<sigma> p = Ended ok))
     \<and> (m = main \<or> (\<exists>p cs. edge st p m \<and> (phase_of \<sigma> p = Triggering cs \<or> phase_of \<sigma> p = Ended True)))"
proof -
  note inv = reaches_inv [OF assms(1,2)]
  have "latch (stages \<sigma>) m = 0"
    using reaches_waited [OF assms(1,2)] assms(3) by (simp add: waited_def)
  then have free: "m \<notin> set (to_unblock (nexts st p) (phase_of \<sigma> p))" for p
    using latch_zero [OF assms(1) inv] by blast
  have past: "(\<exists>cs ok. ph = Unblocking cs ok \<and> m \<notin> set cs) \<or> (\<exists>cs. ph = Triggering cs) \<or> (\<exists>ok. ph = Ended ok)"
    if "m \<in> set ns" "m \<notin> set (to_unblock ns ph)" for ph ns
    using that by (cases ph) auto
  have ok: "(\<exists>cs. ph = Triggering cs) \<or> ph = Ended True" if "succeeded ph" for ph
    using that by (cases ph) simp_all
  have "called \<sigma> m" using assms(3) by (simp add: called_def)
  then have "m = main \<or> (\<exists>p. edge st p m \<and> succeeded (phase_of \<sigma> p))"
    using inv by (simp add: run_inv_def calls_ok_def)
  with ok have "m = main \<or> (\<exists>p cs. edge st p m \<and> (phase_of \<sigma> p = Triggering cs \<or> phase_of \<sigma> p = Ended True))"
    by blast
  moreover have "\<forall>p. edge st p m \<longrightarrow> (\<exists>cs ok. phase_of \<sigma> p = Unblocking cs ok \<and> m \<notin> set cs)
       \<or> (\<exists>cs. phase_of \<sigma> p = Triggering cs) \<or> (\<exists>ok. phase_of \<sigma> p = Ended ok)"
  proof (intro allI impI)
    fix p
    assume "edge st p m"
    then have "m \<in> set (nexts st p)" by (simp add: edge_def)
    from past [OF this free] show "(\<exists>cs ok. phase_of \<sigma> p = Unblocking cs ok \<and> m \<notin> set cs)
       \<or> (\<exists>cs. phase_of \<sigma> p = Triggering cs) \<or> (\<exists>ok. phase_of \<sigma> p = Ended ok)" .
  qed
  ultimately show ?thesis by blast
qed

theorem executes_after_parents_witness:
  "\<exists>\<sigma>. reaches unit_api chain_start \<sigma> \<and> phase_of \<sigma> ''b'' = Executing 0 \<and>
     ((\<exists>cs ok. phase_of \<sigma> ''a'' = Unblocking cs ok \<and> ''b'' \<notin> set cs)
       \<or> (\<exists>cs. phase_of \<sigma> ''a'' = Triggering cs) \<or> (\<exists>ok. phase_of \<sigma> ''a'' = Ended ok))"
proof -
  obtain \<sigma> where s: "do_acts unit_api chain_b chain_start = Some \<sigma>" "phase_of \<sigma> ''b'' = Executing 0"
    using chain_b_state by (auto split: option.splits)
  note r = do_acts_reaches [OF s(1)]
  have "edge chain_stages ''a'' ''b''" by (simp add: chain_edges)
  with executes_after_parents [OF chain_run_graph r [unfolded chain_start_def] s(2)] r s(2)
  show ?thesis by blast
qed

section \<open>The counters and the end of the run\<close>

lemma counter_zero:
  assumes "run_graph st0 main" and "run_inv st0 main \<sigma>"
  shows "exit_wg \<sigma> = 0 \<longleftrightarrow>
     writers \<sigma> = 0 \<and> (\<forall>m. calls \<sigma> m = 0 \<and> (phase_of \<sigma> m = Idle \<or> (\<exists>ok. phase_of \<sigma> m = Ended ok)))"
proof -
  have out: "calls \<sigma> m = 0 \<and> phase_of \<sigma> m = Idle" if "m \<notin> dom st0" for m
    using run_inv_started_dom [OF assms(2), of m] that by (auto simp: called_def)
  have o: "owed ph = 0 \<longleftrightarrow> ph = Idle \<or> (\<exists>ok. ph = Ended ok)" for ph by (cases ph) auto
  have "exit_wg \<sigma> = 0 \<longleftrightarrow> writers \<sigma> = 0
      \<and> (\<forall>m \<in> dom st0. calls \<sigma> m = 0) \<and> (\<forall>m \<in> dom st0. owed (phase_of \<sigma> m) = 0)"
    using assms(2) run_graphD(1) [OF assms(1)] by (auto simp: run_inv_def counter_ok_def total_of_def)
  with out o show ?thesis by blast
qed

text \<open>A goroutine that can take a step, or a panic.\<close>

definition stuck :: "'c client_api \<Rightarrow> 'c run_state \<Rightarrow> bool" where
  "stuck api \<sigma> \<longleftrightarrow> (\<nexists>\<tau>. run_step api \<sigma> \<tau>) \<and> (\<forall>n. \<not> panics api \<sigma> n)"

lemma stuck_at_zero:
  assumes "run_graph st0 main" and "run_inv st0 main \<sigma>" and "exit_wg \<sigma> = 0"
  shows "stuck api \<sigma>"
proof -
  have quiet: "writers \<sigma> = 0" "calls \<sigma> m = 0" "phase_of \<sigma> m = Idle \<or> (\<exists>ok. phase_of \<sigma> m = Ended ok)" for m
    using counter_zero [OF assms(1,2)] assms(3) by blast+
  have "\<not> run_step api \<sigma> \<tau>" for \<tau>
  proof
    assume "run_step api \<sigma> \<tau>"
    then show False by cases (use quiet in \<open>metis less_irrefl phase.distinct phase.simps\<close>)+
  qed
  moreover have "\<not> panics api \<sigma> n" for n using quiet(3) [of n] by (auto simp: panics_def)
  ultimately show ?thesis by (simp add: stuck_def)
qed




section \<open>States in which nothing can happen\<close>

lemma stuck_phase:
  assumes "stuck api \<sigma>"
  shows "(phase_of \<sigma> n = Idle \<or> (\<exists>ok. phase_of \<sigma> n = Ended ok)
       \<or> phase_of \<sigma> n = Waiting \<and> 0 < latch (stages \<sigma>) n \<and> \<not> cancelled \<sigma>)
     \<and> calls \<sigma> n = 0 \<and> writers \<sigma> = 0"
proof -
  have no: "run_step api \<sigma> \<tau> \<Longrightarrow> False" and pa: "\<not> panics api \<sigma> n" for \<tau> n using assms by (auto simp: stuck_def)
  have "calls \<sigma> n = 0"
    using no [OF enter] no [OF enter_again] by (cases "phase_of \<sigma> n = Idle") blast+
  moreover have "writers \<sigma> = 0" using no [OF writer_ends] by blast
  moreover have "phase_of \<sigma> n = Idle \<or> (\<exists>ok. phase_of \<sigma> n = Ended ok)
       \<or> phase_of \<sigma> n = Waiting \<and> 0 < latch (stages \<sigma>) n \<and> \<not> cancelled \<sigma>"
  proof (cases "phase_of \<sigma> n")
    case Waiting
    then have "\<not> cancelled \<sigma>" using no [OF give_up] pa [of n] by (auto simp: panics_def)
    moreover have "prepare api n (stages \<sigma>) (new_client \<sigma>) \<noteq> None \<longrightarrow> latch (stages \<sigma>) n \<noteq> 0"
      using no [OF start] Waiting by auto
    ultimately show ?thesis using Waiting pa [of n] by (auto simp: panics_def)
  next
    case (Executing k)
    with no [OF succeed] show ?thesis by blast
  next
    case (Unblocking cs ok)
    with no [OF unblock] no [OF unblocked] no [OF return_failed] show ?thesis
      by (cases cs; cases ok) fastforce+
  next
    case (Triggering cs)
    with no [OF trigger] no [OF return_ok] show ?thesis by (cases cs) fastforce+
  qed blast+
  ultimately show ?thesis by blast
qed

lemma edge_wf:
  assumes "run_graph st main"
  shows "wf {(p, m). edge st p m}"
proof (rule finite_acyclic_wf)
  let ?r = "{(p, m). edge st p m}"
  have "?r \<subseteq> dom st \<times> dom st" using edge_dom run_graphD(3) [OF assms] by fastforce
  then show "finite ?r" using run_graphD(1) [OF assms] by (meson finite_SigmaI finite_subset)
  show "acyclic ?r"
    unfolding acyclic_def
  proof
    fix x
    show "(x, x) \<notin> ?r\<^sup>+"
    proof
      assume "(x, x) \<in> ?r\<^sup>+"
      then have c: "(edge st)\<^sup>+\<^sup>+ x x" by (simp add: trancl_def)
      then obtain y where "edge st x y" by (meson tranclpD)
      then have "x \<in> dom st" by (rule edge_dom)
      with c assms show False by (auto simp: run_graph_def well_linked_def)
    qed
  qed
qed

lemma stuck_all_ended:
  assumes g: "run_graph st0 main" and inv: "run_inv st0 main \<sigma>" and "stuck api \<sigma>"
    and ok: "\<forall>p. phase_of \<sigma> p = Ended False \<longrightarrow> nexts st0 p = []"
  shows "m \<in> dom st0 \<Longrightarrow> \<exists>b. phase_of \<sigma> m = Ended b"
proof (induction m rule: wf_induct_rule [OF edge_wf [OF g]])
  case (1 m)
  have par: "\<exists>b. phase_of \<sigma> p = Ended b" if "edge st0 p m" for p
    using 1 that edge_dom [OF that] by blast
  have "latch (stages \<sigma>) m = 0"
    unfolding latch_zero [OF g inv]
  proof
    fix p
    show "m \<notin> set (to_unblock (nexts st0 p) (phase_of \<sigma> p))"
    proof (cases "edge st0 p m")
      case True
      with par show ?thesis by fastforce
    next
      case False
      have "phase_of \<sigma> p = Idle \<or> (\<exists>b. phase_of \<sigma> p = Ended b) \<or> phase_of \<sigma> p = Waiting"
        using stuck_phase [OF assms(3), of p] by blast
      with False show ?thesis by (auto simp: edge_def)
    qed
  qed
  moreover have "phase_of \<sigma> m \<noteq> Idle"
  proof -
    have cl: "calls_ok st0 main \<sigma>" using inv by (simp add: run_inv_def)
    have "called \<sigma> m"
    proof (cases "m = main")
      case True
      with cl show ?thesis by (simp add: calls_ok_def)
    next
      case False
      have "(edge st0)\<^sup>*\<^sup>* main m" using \<open>m \<in> dom st0\<close> g by (auto simp: run_graph_def)
      with False obtain p where e: "edge st0 p m" by (meson rtranclp.cases)
      then have "nexts st0 p \<noteq> []" by (auto simp: edge_def)
      with ok par [OF e] have "phase_of \<sigma> p = Ended True" by (metis (full_types))
      then have "has_called (phase_of \<sigma> p) m" by simp
      with cl e show ?thesis unfolding calls_ok_def by blast
    qed
    then show ?thesis using stuck_phase [OF assms(3), of m] by (simp add: called_def)
  qed
  ultimately show ?case using stuck_phase [OF assms(3), of m] by auto
qed

lemma stuck_hang:
  assumes "run_graph st main" and "run_inv st main \<sigma>" and "stuck api \<sigma>"
  shows "exit_wg \<sigma> = 0 \<or> (\<not> cancelled \<sigma> \<and> (\<exists>p. phase_of \<sigma> p = Ended False \<and> nexts st p \<noteq> []))"
proof -
  note ph = stuck_phase [OF assms(3)]
  show ?thesis
  proof (cases "\<exists>m. phase_of \<sigma> m = Waiting")
    case True
    then obtain m where m: "phase_of \<sigma> m = Waiting" ..
    then have "m \<in> dom st" by (intro run_inv_started_dom [OF assms(2)]) (simp add: called_def)
    with m stuck_all_ended [OF assms, of m] have "\<exists>p. phase_of \<sigma> p = Ended False \<and> nexts st p \<noteq> []" by auto
    moreover have "\<not> cancelled \<sigma>" using ph [of m] m by auto
    ultimately show ?thesis by blast
  next
    case False
    then have "exit_wg \<sigma> = 0" unfolding counter_zero [OF assms(1,2)] using ph by blast
    then show ?thesis by blast
  qed
qed

text \<open>When nothing can happen any more, and no stage failed that has next stages, every stage of the
  graph has run to its end and \<open>Run\<close> goes on. So the only way to hang is the failure of a stage
  that does not cancel the context.\<close>

theorem run_completes:
  assumes "run_graph st main" and "reaches api (start_run st nc main) \<sigma>" and "stuck api \<sigma>"
  shows "((\<forall>p. phase_of \<sigma> p = Ended False \<longrightarrow> nexts st p = []) \<longrightarrow>
       (\<forall>m \<in> dom st. \<exists>ok. phase_of \<sigma> m = Ended ok))
     \<and> (exit_wg \<sigma> = 0 \<or> (\<not> cancelled \<sigma> \<and> (\<exists>p. phase_of \<sigma> p = Ended False \<and> nexts st p \<noteq> [])))"
  using stuck_all_ended [OF assms(1) reaches_inv [OF assms(1,2)] assms(3)]
    stuck_hang [OF assms(1) reaches_inv [OF assms(1,2)] assms(3)] by blast

theorem run_completes_witness:
  "\<exists>\<sigma>. reaches unit_api chain_start \<sigma> \<and> exit_wg \<sigma> = 0 \<and> (\<forall>m \<in> dom chain_stages. \<exists>ok. phase_of \<sigma> m = Ended ok)"
proof -
  obtain \<sigma> where s: "do_acts unit_api chain_all chain_start = Some \<sigma>" "exit_wg \<sigma> = 0"
    using chain_all_state by (auto split: option.splits)
  note r = do_acts_reaches [OF s(1)] and r' = do_acts_reaches [OF s(1), unfolded chain_start_def]
  have "no_error (phase_of \<sigma> m)" for m
    by (rule do_acts_no_error [OF s(1)])
      (auto simp: chain_all_def runs_well_def chain_start_def start_run_def)
  then have "phase_of \<sigma> m \<noteq> Ended False" for m by (metis no_error.simps(2))
  with run_completes [OF chain_run_graph r' stuck_at_zero [OF chain_run_graph reaches_inv [OF chain_run_graph r'] s(2)]]
    r s(2) show ?thesis by blast
qed

text \<open>C4: Every run is finite, whatever the order in which the goroutines take their steps.\<close>

theorem run_terminates:
  assumes "run_graph st main" and "f 0 = start_run st nc main"
  shows "\<exists>i. \<not> run_step api (f i) (f (Suc i)) \<and> \<not> signal (f i) (f (Suc i))"
  using run_terminates_from [of st main f api] assms run_inv_start by (metis (no_types))

theorem run_terminates_witness: "\<not> run_step unit_api chain_start chain_start"
  using run_terminates [OF chain_run_graph, of "\<lambda>_. chain_start" None unit_api]
  by (simp add: chain_start_def)

section \<open>Panics\<close>












section \<open>The goroutine that waits for the prerequisites\<close>

text \<open>The helper goroutine of a stage waits exactly as long as some stage has still to unblock it.\<close>

lemma helper_waits_iff:
  assumes "run_graph st main" and "reaches api (start_run st nc main) \<sigma>"
  shows "helper_waits \<sigma> n \<longleftrightarrow> phase_of \<sigma> n \<noteq> Idle \<and> (\<exists>p. n \<in> set (to_unblock (nexts st p) (phase_of \<sigma> p)))"
  using latch_zero [OF assms(1) reaches_inv [OF assms], of n] by (auto simp: helper_waits_def)

text \<open>After a cancellation a helper may be left behind when everything else has ended: \<open>b\<close> gives up and does not
  start \<open>c\<close>, for which the helper of \<open>d\<close> waits.\<close>

definition chain_cancelled :: "act list" where
  "chain_cancelled = [Enter ''d'', GiveUp ''b'', Continue ''b'', Continue ''b'', GiveUp ''d'', Continue ''d'']"

lemma helper_stays:
  "\<exists>\<sigma>. reaches unit_api chain_start \<sigma> \<and> exit_wg \<sigma> = 0 \<and> helper_waits \<sigma> ''d''"
proof -
  let ?acts = "Enter ''a'' # runs_well ''a'' 2 @ [Enter ''b'']"
  have "case do_acts unit_api ?acts chain_start of None \<Rightarrow> False
    | Some \<sigma> \<Rightarrow> \<not> cancelled \<sigma> \<and> (case do_acts unit_api chain_cancelled (\<sigma>\<lparr>cancelled := True\<rparr>) of None \<Rightarrow> False
        | Some \<tau> \<Rightarrow> exit_wg \<tau> = 0 \<and> phase_of \<tau> ''d'' = Ended False \<and> 0 < latch (stages \<tau>) ''d'')"
    by code_simp
  then obtain \<sigma> \<tau> where s: "do_acts unit_api ?acts chain_start = Some \<sigma>" "\<not> cancelled \<sigma>"
    and t: "do_acts unit_api chain_cancelled (\<sigma>\<lparr>cancelled := True\<rparr>) = Some \<tau>" "exit_wg \<tau> = 0"
      "phase_of \<tau> ''d'' = Ended False" "0 < latch (stages \<tau>) ''d''"
    by (auto split: option.splits)
  have "reaches unit_api chain_start (\<sigma>\<lparr>cancelled := True\<rparr>)"
    using do_acts_reaches [OF s(1)] s(2) by (auto intro: reaches.signalled)
  from reaches_trans [OF do_acts_reaches [OF t(1)] this] t(2-4) show ?thesis
    by (auto simp: helper_waits_def)
qed

section \<open>A stage that is never started\<close>

lemma step_called: "run_step api \<sigma> \<tau> \<Longrightarrow> called \<sigma> m \<Longrightarrow> called \<tau> m"
  by (cases rule: run_step.cases) (auto simp: called_def split: if_splits)

lemma step_ended: "run_step api \<sigma> \<tau> \<Longrightarrow> phase_of \<sigma> m = Ended ok \<Longrightarrow> phase_of \<tau> m = Ended ok"
  by (cases rule: run_step.cases) (auto split: if_splits)

lemma reaches_keeps:
  assumes "reaches api \<sigma> \<tau>"
  shows "called \<sigma> m \<Longrightarrow> called \<tau> m" and "phase_of \<sigma> p = Ended ok \<Longrightarrow> phase_of \<tau> p = Ended ok"
  using assms
proof (induction rule: reaches.induct)
  case (step \<sigma> \<tau> \<upsilon>)
  {
    case 1
    then show ?case using step step_called by blast
  next
    case 2
    then show ?case using step step_ended by blast
  }
qed (simp_all add: called_def)

text \<open>C6: If every stage that has \<open>c\<close> as a next stage has failed, \<open>c\<close> is never started. If \<open>c\<close> has a next
  stage \<open>d\<close> that another stage has started, then \<open>d\<close> waits for \<open>c\<close>, and unless the context is
  cancelled from outside or by another stage the program never exits.\<close>

theorem run_hangs:
  assumes "run_graph st main" and "reaches api (start_run st nc main) \<sigma>"
    and "c \<noteq> main" and "\<forall>p. edge st p c \<longrightarrow> phase_of \<sigma> p = Ended False"
    and "edge st c d" and "called \<sigma> d"
    and "reaches api \<sigma> \<tau>"
  shows "phase_of \<tau> c = Idle \<and> (cancelled \<tau> \<or> (exit_wg \<tau> \<noteq> 0 \<and> phase_of \<tau> d \<in> {Idle, Waiting}))"
proof -
  note r = reaches_trans [OF assms(7,2)]
  note inv = reaches_inv [OF assms(1) r]
  have "phase_of \<tau> p = Ended False" if "edge st p c" for p
    using reaches_keeps [OF assms(7)] assms(4) that by blast
  then have "\<not> (edge st p c \<and> succeeded (phase_of \<tau> p))" for p by auto
  with inv assms(3) have "\<not> called \<tau> c" by (auto simp: run_inv_def calls_ok_def)
  then have c: "phase_of \<tau> c = Idle" by (simp add: called_def)
  have "d \<in> set (to_unblock (nexts st c) (phase_of \<tau> c))"
    using assms(5) unfolding c by (simp add: edge_def)
  then have "latch (stages \<tau>) d \<noteq> 0" using latch_zero [OF assms(1) inv] by blast
  with reaches_waited [OF assms(1) r] have d: "cancelled \<tau> \<or> \<not> 2 \<le> rank (phase_of \<tau> d)"
    by (auto simp: waited_def)
  have "called \<tau> d" using reaches_keeps [OF assms(7)] assms(6) by blast
  then have "exit_wg \<tau> \<noteq> 0 \<and> phase_of \<tau> d \<in> {Idle, Waiting}" if "\<not> 2 \<le> rank (phase_of \<tau> d)"
    using that spec [OF conjunct2 [OF iffD1 [OF counter_zero [OF assms(1) inv]]], of d]
    by (cases "phase_of \<tau> d") (auto simp: called_def)
  with c d show ?thesis by blast
qed

theorem run_hangs_witness:
  "\<exists>\<sigma>. reaches unit_api chain_start \<sigma> \<and> \<not> cancelled \<sigma> \<and> (\<forall>\<tau>. reaches unit_api \<sigma> \<tau> \<longrightarrow> cancelled \<tau> \<or> exit_wg \<tau> \<noteq> 0)"
proof -
  obtain \<sigma> where s: "do_acts unit_api chain_hang chain_start = Some \<sigma>" "phase_of \<sigma> ''b'' = Ended False"
    "calls \<sigma> ''d'' = 1" "\<not> cancelled \<sigma>"
    using chain_hang_state by (auto split: option.splits)
  note r = do_acts_reaches [OF s(1)]
  have p: "\<forall>p. edge chain_stages p ''c'' \<longrightarrow> phase_of \<sigma> p = Ended False" "edge chain_stages ''c'' ''d''" "called \<sigma> ''d''"
    "''c'' \<noteq> ''a''"
    using s by (auto simp: chain_edges called_def)
  from run_hangs [OF chain_run_graph r [unfolded chain_start_def] p(4,1,2,3)] r s(4) show ?thesis by blast
qed

text \<open>The graphs that are accepted are such that they can be run.\<close>

lemma parsed_run_graph:
  assumes "stages_ok h {} st" and "dom st = {m. (edge st)\<^sup>*\<^sup>* n m}" and "well_linked st n"
  shows "run_graph st n"
proof -
  have "latch st m = indegree st m" for m
  proof (cases "st m")
    case None
    have "count_list (nexts st p) m = 0" if "p \<in> dom st" for p
    proof -
      from that obtain s where "st p = Some s" by blast
      with assms(1) have "set (NextStages s) \<subseteq> dom st" by (auto simp: stages_ok_def)
      with None \<open>st p = Some s\<close> show ?thesis by (auto simp: nexts_def count_list_0_iff)
    qed
    with None show ?thesis by (simp add: latch_def indegree_def)
  next
    case (Some s)
    with assms(1) show ?thesis by (simp add: stages_ok_def latch_def)
  qed
  with assms show ?thesis unfolding run_graph_def by (auto simp: stages_ok_def)
qed

text \<open>C5: What the parser accepts can be run: when nothing can happen any more and no stage has failed,
  every stage of the graph has been executed and \<open>Run\<close> goes on.\<close>

theorem parsed_graph_runs:
  assumes "decode_ok h" and "id_range h I" and "stage_id s \<in> I" and "unlinked s"
    and "card I \<le> k" and "card I \<le> j" and "parse_stage_graph k j h s = Some (Inr (main, st))"
    and "reaches api (start_run st nc main) \<sigma>" and "stuck api \<sigma>" and "\<forall>m. phase_of \<sigma> m \<noteq> Ended False"
  shows "exit_wg \<sigma> = 0 \<and> dom st = {m. (edge st)\<^sup>*\<^sup>* (stage_id s) m} \<and> (\<forall>m \<in> dom st. phase_of \<sigma> m = Ended True)"
proof -
  from parsed_graph [OF assms(1-7)]
  have p: "main = stage_id s" "stages_ok h {} st" "dom st = {m. (edge st)\<^sup>*\<^sup>* main m}" "well_linked st main"
    by blast+
  then have g: "run_graph st main" using parsed_run_graph by blast
  note inv = reaches_inv [OF g assms(8)]
  have all: "phase_of \<sigma> m = Ended True" if "m \<in> dom st" for m
    using stuck_all_ended [OF g inv assms(9) _ that] assms(10) by (metis (full_types))
  have "exit_wg \<sigma> = 0"
    unfolding counter_zero [OF g inv]
  proof (intro conjI allI)
    show "writers \<sigma> = 0" "calls \<sigma> m = 0" for m using stuck_phase [OF assms(9)] by blast+
    show "phase_of \<sigma> m = Idle \<or> (\<exists>ok. phase_of \<sigma> m = Ended ok)" for m
      using all [of m] run_inv_started_dom [OF inv, of m] by (auto simp: called_def)
  qed
  with all p show ?thesis by blast
qed

definition solo_start :: "unit stage" where
  "solo_start = empty_stage\<lparr>stage_id := ''a'', BaseDir := ''/w''\<rparr>"

definition solo_stages :: "unit stages" where
  "solo_stages = [''a'' \<mapsto> solo_start]"

definition solo_all :: "act list" where
  "solo_all = Enter ''a'' # runs_well ''a'' 0"

lemma solo_parsed: "parse_stage_graph 4 4 demo_host solo_start = Some (Inr (''a'', solo_stages))"
proof -
  have "parse_stage (Suc 3) demo_host solo_start (\<lambda>_. None) = Some (Inr (''a'', solo_stages))"
    by (simp add: parse_stage.simps solo_start_def solo_stages_def empty_stage_def)
  moreover have "check_links (Suc 3) solo_stages ''a'' [] = Some None"
    by (simp add: check_links.simps nexts_def solo_start_def solo_stages_def empty_stage_def)
  ultimately show ?thesis by (simp add: parse_stage_graph_def eval_nat_numeral)
qed

lemma solo_all_state:
  "case do_acts unit_api solo_all (start_run solo_stages None ''a'') of None \<Rightarrow> False | Some \<sigma> \<Rightarrow> exit_wg \<sigma> = 0"
  by code_simp

theorem parsed_graph_runs_witness:
  "\<exists>\<sigma>. reaches unit_api (start_run solo_stages None ''a'') \<sigma> \<and> exit_wg \<sigma> = 0
     \<and> (\<forall>m \<in> dom solo_stages. phase_of \<sigma> m = Ended True)"
proof -
  obtain \<sigma> where s: "do_acts unit_api solo_all (start_run solo_stages None ''a'') = Some \<sigma>" "exit_wg \<sigma> = 0"
    using solo_all_state by (auto split: option.splits)
  note r = do_acts_reaches [OF s(1)]
  have "no_error (phase_of \<sigma> m)" for m
    by (rule do_acts_no_error [OF s(1)])
      (auto simp: solo_all_def runs_well_def start_run_def)
  then have ok: "\<forall>m. phase_of \<sigma> m \<noteq> Ended False" by (metis no_error.simps(2))
  have start: "stage_id solo_start \<in> {''a'', ''b'', ''c'', ''d''}" "unlinked solo_start"
    by (simp_all add: solo_start_def unlinked_def empty_stage_def)
  have k: "card {''a'', ''b'', ''c'', ''d''} \<le> (4::nat)" by simp
  have g: "run_graph solo_stages ''a''"
    using parsed_graph [OF demo_host_laws start k k solo_parsed] parsed_run_graph by blast
  have "stuck unit_api \<sigma>" by (rule stuck_at_zero [OF g reaches_inv [OF g r] s(2)])
  from parsed_graph_runs [OF demo_host_laws start k k solo_parsed r this ok] r show ?thesis by blast
qed

end
