(* ===== verification/GoCsv.thy ===== *)
theory GoCsv
  imports GoBase
begin

text \<open>
  \<open>encoding/csv.Writer\<close>, with its default comma and with \<open>UseCRLF\<close> off, as \<open>stage/run_recorder.go\<close>
  uses it, and a reader of comma-separated files (RFC 4180) that tells what was written.
\<close>

definition newline :: char where
  "newline = CHR 0x0A"

definition quote :: char where
  "quote = CHR 0x22"

text \<open>\<open>fieldNeedsQuotes\<close>.\<close>

definition csv_needs_quotes :: "string \<Rightarrow> bool" where
  "csv_needs_quotes f \<longleftrightarrow>
     f \<noteq> [] \<and> (f = [CHR 0x5C, CHR ''.''] \<or> (\<exists>c \<in> set f. c \<in> {newline, CHR 0x0D, quote, CHR '',''})
       \<or> (\<exists>r \<in> set space_runes. has_prefix f r))"

fun csv_escape :: "string \<Rightarrow> string" where
  "csv_escape [] = []"
| "csv_escape (c # cs) = (if c = quote then [quote, quote] else [c]) @ csv_escape cs"

definition csv_field :: "string \<Rightarrow> string" where
  "csv_field f = (if csv_needs_quotes f then quote # csv_escape f @ [quote] else f)"

text \<open>\<open>Write\<close>: one record.\<close>

definition csv_record :: "string list \<Rightarrow> string" where
  "csv_record fs = join_str '','' (map csv_field fs) @ [newline]"

section \<open>Reading\<close>

text \<open>The states of a reader: at the start of a field, in a bare field, in a quoted field, and after a
  quote in a quoted field. The accumulators are the field and the record read so far.\<close>

datatype csv_state = AtStart | Bare | Quoted | AfterQuote

fun csv_read_from :: "csv_state \<Rightarrow> string \<Rightarrow> string list \<Rightarrow> string \<Rightarrow> string list list" where
  "csv_read_from st f r [] = (if f = [] \<and> r = [] then [] else [r @ [f]])"
| "csv_read_from st f r (c # cs) =
     (if st = Quoted then
        (if c = quote then csv_read_from AfterQuote f r cs else csv_read_from Quoted (f @ [c]) r cs)
      else if c = CHR '','' then csv_read_from AtStart [] (r @ [f]) cs
      else if c = newline then (r @ [f]) # csv_read_from AtStart [] [] cs
      else if c = quote \<and> st = AtStart then csv_read_from Quoted f r cs
      else if c = quote \<and> st = AfterQuote then csv_read_from Quoted (f @ [c]) r cs
      else csv_read_from Bare (f @ [c]) r cs)"

definition csv_read :: "string \<Rightarrow> string list list" where
  "csv_read s = csv_read_from AtStart [] [] s"

lemma csv_chars [simp]: "quote \<noteq> CHR '',''" "CHR '','' \<noteq> quote" "newline \<noteq> quote" "quote \<noteq> newline"
    "newline \<noteq> CHR '',''" "CHR '','' \<noteq> newline"
  by (simp_all add: quote_def newline_def)

lemma read_escaped:
  "csv_read_from Quoted f r (csv_escape g @ quote # s) = csv_read_from AfterQuote (f @ g) r s"
  by (induction g arbitrary: f) simp_all

lemma read_bare:
  "\<forall>c \<in> set g. c \<notin> {newline, quote, CHR '',''} \<Longrightarrow> st \<noteq> Quoted \<Longrightarrow> g \<noteq> [] \<Longrightarrow>
    csv_read_from st f r (g @ s) = csv_read_from Bare (f @ g) r s"
proof (induction g arbitrary: st f)
  case (Cons c g)
  then have "csv_read_from st f r ((c # g) @ s) = csv_read_from Bare (f @ [c]) r (g @ s)" by auto
  then show ?case using Cons by (cases "g = []") simp_all
qed simp

text \<open>The end of a field: a comma or a newline in any state but inside quotes.\<close>

lemma read_field:
  assumes "c = CHR '','' \<or> c = newline"
  shows "\<exists>st. st \<noteq> Quoted \<and> csv_read_from AtStart [] r (csv_field f @ c # s) = csv_read_from st f r (c # s)"
proof (cases "csv_needs_quotes f")
  case True
  then show ?thesis
    by (intro exI [of _ AfterQuote]) (simp add: csv_field_def read_escaped)
next
  case plain: False
  show ?thesis
  proof (cases "f = []")
    case True
    with plain show ?thesis by (intro exI [of _ AtStart]) (simp add: csv_field_def)
  next
    case False
    with plain have "\<forall>c \<in> set f. c \<notin> {newline, quote, CHR '',''}"
      by (auto simp: csv_needs_quotes_def)
    with False plain show ?thesis
      by (intro exI [of _ Bare]) (simp add: csv_field_def read_bare)
  qed
qed

lemma read_comma: "csv_read_from AtStart [] r (csv_field f @ CHR '','' # s) = csv_read_from AtStart [] (r @ [f]) s"
  using read_field [of "CHR '',''" r f s] by auto

lemma read_newline: "csv_read_from AtStart [] r (csv_field f @ newline # s) = (r @ [f]) # csv_read_from AtStart [] [] s"
  using read_field [of newline r f s] by auto

lemma read_fields: "fs \<noteq> [] \<Longrightarrow>
    csv_read_from AtStart [] r (join_str '','' (map csv_field fs) @ newline # s) = (r @ fs) # csv_read s"
proof (induction fs arbitrary: r rule: induct_list012)
  case (2 f)
  then show ?case by (simp add: read_newline csv_read_def)
next
  case (3 f g fs)
  from "3.IH"(2) [of "r @ [f]"] show ?case by (simp add: read_comma)
qed simp

text \<open>Round trip: records that are not empty are read back.\<close>

lemma csv_roundtrip: "[] \<notin> set rs \<Longrightarrow> csv_read (concat (map csv_record rs)) = rs"
proof (induction rs)
  case Nil
  then show ?case by (simp add: csv_read_def)
next
  case (Cons r rs)
  have "csv_read (csv_record r @ t) = r # csv_read t" if "r \<noteq> []" for t
    using read_fields [OF that, of "[]" t] by (simp add: csv_record_def csv_read_def)
  moreover have "r \<noteq> []" using Cons.prems by auto
  ultimately show ?case using Cons by simp
qed

end
