(* ===== verification/Recorders.thy ===== *)
theory Recorders
  imports StageExec GoCsv
begin

text \<open>
  Run recorders: \<open>stage/run_recorder.go\<close> (the summary file), \<open>stage/mysql_run_recorder.go\<close>,
  \<open>stage/influx_run_recorder.go\<close>, \<open>stage/no_influx.go\<close> and \<open>stage/pulumi_run_recorder.go\<close>, with
  \<open>RegisterRunRecorder\<close> of \<open>stage/states.go\<close>.

  What a recorder asks of the outside (SQL statements, points for InfluxDB, files) is kept as a list of
  effects: these are requests, and not yet writes. The outside answers from a world of its own, so that every
  request may fail; what it really stores is read off its world (\<open>outside_works\<close>). Times are nanoseconds
  since the Unix epoch.
\<close>

section \<open>The outside\<close>

record query_row =
  row_stage :: string
  row_file :: string
  row_index :: nat
  row_query_id :: string
  row_sequence :: nat
  row_cold :: bool
  row_succeeded :: bool
  row_start :: int
  row_end :: int
  row_count :: nat
  row_expected :: "int option"
  row_duration :: int
  row_url :: string

text \<open>The statements of the recorders with their arguments, in the order of the placeholders; the run
  id is that of \<open>run_id = ?\<close>.\<close>

datatype sql =
    CreateRuns | CreateQueries | CreateClusters
  | InsertRun string string int string
  | InsertQuery int query_row
  | UpdateRun int nat nat int
  | CompleteRun int int "int option" int
  | InsertCluster string string int

datatype influx_value = IntField int | BoolField bool | StringField string

record influx_point =
  measurement :: string
  point_tags :: "string \<rightharpoonup> string"
  point_fields :: "string \<rightharpoonup> influx_value"
  point_time :: int

datatype effect = Sql sql | Point influx_point | WroteFile string string

text \<open>The answer to a statement: an error, or the results of \<open>LastInsertId\<close> and \<open>RowsAffected\<close>.\<close>

datatype sql_answer = SqlError string | SqlDone "string option \<times> int" "string option \<times> int"

text \<open>A resource of a Pulumi stack: type, cluster FQDN, cluster name, time of creation.\<close>

record resource =
  res_type :: string
  res_fqdn :: string
  res_name :: string
  res_created :: int

text \<open>
  \<open>list_stacks\<close> and \<open>export_stack\<close> are the requests to Pulumi; \<open>None\<close> is any failure. \<open>format_time\<close>
  is \<open>time.Format\<close> with RFC 3339, \<open>format_seconds\<close> a duration in seconds with six decimals. The flag
  of \<open>write_point\<close> tells whether the context of the run is cancelled.
\<close>

record 'w rec_host =
  exec_sql :: "sql \<Rightarrow> 'w \<Rightarrow> sql_answer \<times> 'w"
  write_point :: "bool \<Rightarrow> influx_point \<Rightarrow> 'w \<Rightarrow> string option \<times> 'w"
  write_file :: "string \<Rightarrow> string \<Rightarrow> 'w \<Rightarrow> string option \<times> 'w"
  list_stacks :: "'w \<Rightarrow> string list option \<times> 'w"
  export_stack :: "string \<Rightarrow> 'w \<Rightarrow> resource list option \<times> 'w"
  now :: "'w \<Rightarrow> int \<times> 'w"
  format_time :: "int \<Rightarrow> string"
  format_seconds :: "int \<Rightarrow> string"

record 'w rec_env =
  rec_world :: 'w
  effects :: "effect list"

definition emit :: "effect \<Rightarrow> ('w \<Rightarrow> 'a \<times> 'w) \<Rightarrow> 'w rec_env \<Rightarrow> 'a \<times> 'w rec_env" where
  "emit f op e = (let (x, w) = op (rec_world e) in (x, e\<lparr>rec_world := w, effects := effects e @ [f]\<rparr>))"

definition ask :: "('w \<Rightarrow> 'a \<times> 'w) \<Rightarrow> 'w rec_env \<Rightarrow> 'a \<times> 'w rec_env" where
  "ask op e = (let (x, w) = op (rec_world e) in (x, e\<lparr>rec_world := w\<rparr>))"

abbreviation run_sql :: "'w rec_host \<Rightarrow> sql \<Rightarrow> 'w rec_env \<Rightarrow> sql_answer \<times> 'w rec_env" where
  "run_sql h q \<equiv> emit (Sql q) (exec_sql h q)"

text \<open>What the recorders read of \<open>SharedStageStates\<close> and of the main stage.\<close>

record run_info =
  info_name :: string
  info_comment :: string
  info_fqdn :: string
  info_seed :: int
  info_seed_used :: bool
  info_start :: int
  info_finish :: int
  info_path :: string
  info_stage :: string

section \<open>Time\<close>

text \<open>\<open>ConcludeExecution\<close>, given the current time.\<close>

definition conclude_execution :: "int \<Rightarrow> query_result \<Rightarrow> query_result" where
  "conclude_execution t q = q\<lparr>EndTime := Some t, Duration := Some (time_sub t (StartTime q))\<rparr>"

section \<open>The summary file\<close>

definition csv_header :: "string list" where
  "csv_header = [''stage_id'', ''query_file'', ''query_index'', ''cold_run'', ''sequence_no'',
     ''info_url'', ''succeeded'', ''row_count'', ''expected_row_count'',
     ''start_time'', ''end_time'', ''duration_in_seconds'']"

definition file_or_inline :: "query_result \<Rightarrow> string" where
  "file_or_inline q = (case File (Query q) of Some f \<Rightarrow> f | None \<Rightarrow> ''inline'')"

definition csv_row :: "'w rec_host \<Rightarrow> query_result \<Rightarrow> string list" where
  "csv_row h q =
     [StageId q, file_or_inline q, itoa (int (Index (Query q))), format_bool (ColdRun (Query q)),
      itoa (int (SequenceNo (Query q))), InfoUrl q, format_bool (QueryError q = None), itoa (int (RowCount q)),
      itoa (ExpectedRowCount (Query q)), format_time h (StartTime q),
      (case EndTime q of None \<Rightarrow> [] | Some t \<Rightarrow> format_time h t),
      format_seconds h (case Duration q of None \<Rightarrow> 0 | Some d \<Rightarrow> d)]"

definition summary_path :: "run_info \<Rightarrow> string" where
  "summary_path i = path_join (info_path i) (info_stage i @ ''_summary.csv'')"

section \<open>MySQL\<close>

definition mismatched :: "query_result \<Rightarrow> bool" where
  "mismatched q \<longleftrightarrow> 0 \<le> ExpectedRowCount (Query q) \<and> ExpectedRowCount (Query q) \<noteq> int (RowCount q)"

definition to_int32 :: "int \<Rightarrow> int" where
  "to_int32 x = signed_take_bit 31 x"

definition mysql_row :: "query_result \<Rightarrow> query_row" where
  "mysql_row q =
     \<lparr>row_stage = StageId q, row_file = file_or_inline q, row_index = Index (Query q), row_query_id = QueryId q,
      row_sequence = SequenceNo (Query q), row_cold = ColdRun (Query q), row_succeeded = (QueryError q = None),
      row_start = StartTime q, row_end = (case EndTime q of None \<Rightarrow> zero_time | Some t \<Rightarrow> t),
      row_count = RowCount q,
      row_expected = (if 0 \<le> ExpectedRowCount (Query q) then Some (to_int32 (ExpectedRowCount (Query q))) else None),
      row_duration = (case Duration q of None \<Rightarrow> 0 | Some d \<Rightarrow> milliseconds d),
      row_url = InfoUrl q\<rparr>"

record mysql_recorder =
  run_id :: int
  my_failed :: nat
  my_mismatch :: nat

text \<open>\<open>NewMySQLRunRecorderWithDb\<close>; \<open>None\<close> is the nil recorder, and the flag tells whether there is a
  connection.\<close>

definition new_mysql_recorder :: "'w rec_host \<Rightarrow> bool \<Rightarrow> 'w rec_env \<Rightarrow> mysql_recorder option \<times> 'w rec_env" where
  "new_mysql_recorder h connected e =
     (if \<not> connected then (None, e)
      else
        (let (a, e1) = run_sql h CreateRuns e;
             (b, e2) = (case a of SqlError m \<Rightarrow> (a, e1) | SqlDone _ _ \<Rightarrow> run_sql h CreateQueries e1)
         in (case b of SqlError m \<Rightarrow> None
             | SqlDone _ _ \<Rightarrow> Some \<lparr>run_id = -1, my_failed = 0, my_mismatch = 0\<rparr>, e2)))"

definition mysql_start :: "'w rec_host \<Rightarrow> run_info \<Rightarrow> mysql_recorder \<Rightarrow> 'w rec_env \<Rightarrow> (string option \<times> mysql_recorder) \<times> 'w rec_env" where
  "mysql_start h i m e =
     (let (a, e1) = run_sql h (InsertRun (info_name i) (info_fqdn i) (info_start i) (info_comment i)) e
      in case a of
           SqlError er \<Rightarrow> ((Some er, m), e1)
         | SqlDone (er, rid) _ \<Rightarrow> ((er, m\<lparr>run_id := rid\<rparr>), e1))"

text \<open>The counters are increased before the statements are sent.\<close>

definition mysql_count :: "query_result \<Rightarrow> mysql_recorder \<Rightarrow> mysql_recorder" where
  "mysql_count q m =
     (let m1 = (if QueryError q \<noteq> None then m\<lparr>my_failed := my_failed m + 1\<rparr> else m)
      in if mismatched q then m1\<lparr>my_mismatch := my_mismatch m1 + 1\<rparr> else m1)"

definition mysql_query :: "'w rec_host \<Rightarrow> run_info \<Rightarrow> query_result \<Rightarrow> mysql_recorder \<Rightarrow> 'w rec_env \<Rightarrow> mysql_recorder \<times> 'w rec_env" where
  "mysql_query h i q m e =
     (let m2 = mysql_count q m;
          (_, e1) = run_sql h (InsertQuery (run_id m2) (mysql_row q)) e;
          (_, e2) = run_sql h (UpdateRun (info_start i) (my_failed m2) (my_mismatch m2) (run_id m2)) e1
      in (m2, e2))"

definition mysql_run :: "'w rec_host \<Rightarrow> run_info \<Rightarrow> mysql_recorder \<Rightarrow> 'w rec_env \<Rightarrow> 'w rec_env" where
  "mysql_run h i m e =
     snd (run_sql h (CompleteRun (info_start i) (milliseconds (time_sub (info_finish i) (info_start i)))
       (if info_seed_used i then Some (info_seed i) else None) (run_id m)) e)"

section \<open>InfluxDB\<close>

record influx_recorder =
  influx_failed :: nat
  influx_mismatch :: nat

definition influx_count :: "query_result \<Rightarrow> influx_recorder \<Rightarrow> influx_recorder" where
  "influx_count q r =
     (let r1 = (if mismatched q then r\<lparr>influx_mismatch := influx_mismatch r + 1\<rparr> else r)
      in if QueryError q \<noteq> None then r1\<lparr>influx_failed := influx_failed r1 + 1\<rparr> else r1)"

definition query_point :: "run_info \<Rightarrow> query_result \<Rightarrow> influx_point" where
  "query_point i q =
     (let fields =
        [''query_index'' \<mapsto> IntField (int (Index (Query q))),
         ''cold_run'' \<mapsto> BoolField (ColdRun (Query q)),
         ''sequence_no'' \<mapsto> IntField (int (SequenceNo (Query q))),
         ''info_url'' \<mapsto> StringField (InfoUrl q),
         ''succeeded'' \<mapsto> BoolField (QueryError q = None),
         ''row_count'' \<mapsto> IntField (int (RowCount q)),
         ''expected_row_count'' \<mapsto> IntField (ExpectedRowCount (Query q)),
         ''start_time'' \<mapsto> IntField (StartTime q)];
        timed = (case Duration q of None \<Rightarrow> fields | Some d \<Rightarrow> fields(''duration_ms'' \<mapsto> IntField (milliseconds d)));
        expected = (if ExpectedRowCount (Query q) < 0 then timed(''expected_row_count'' := None) else timed)
      in \<lparr>measurement = ''queries'',
          point_tags = [''run_name'' \<mapsto> info_name i, ''stage_id'' \<mapsto> StageId q, ''query_id'' \<mapsto> QueryId q],
          point_fields = expected(''query_file'' \<mapsto> StringField (file_or_inline q)),
          point_time = (case EndTime q of None \<Rightarrow> zero_time | Some t \<Rightarrow> t)\<rparr>)"

definition influx_query ::
  "'w rec_host \<Rightarrow> bool \<Rightarrow> run_info \<Rightarrow> query_result \<Rightarrow> influx_recorder \<Rightarrow> 'w rec_env \<Rightarrow> influx_recorder \<times> 'w rec_env" where
  "influx_query h cancelled i q r e =
     (influx_count q r, snd (emit (Point (query_point i q)) (write_point h cancelled (query_point i q)) e))"

definition run_point :: "run_info \<Rightarrow> nat \<Rightarrow> influx_recorder \<Rightarrow> influx_point" where
  "run_point i n r =
     (let fields =
        [''start_time'' \<mapsto> IntField (info_start i),
         ''queries_ran'' \<mapsto> IntField (int n),
         ''failed'' \<mapsto> IntField (int (influx_failed r)),
         ''mismatch'' \<mapsto> IntField (int (influx_mismatch r)),
         ''duration_ms'' \<mapsto> IntField (milliseconds (time_sub (info_finish i) (info_start i))),
         ''comment'' \<mapsto> StringField (info_comment i)]
      in \<lparr>measurement = ''runs'', point_tags = [''run_name'' \<mapsto> info_name i],
          point_fields = (if info_seed_used i then fields(''rand_seed'' \<mapsto> IntField (info_seed i)) else fields),
          point_time = info_finish i\<rparr>)"

definition influx_run :: "'w rec_host \<Rightarrow> bool \<Rightarrow> run_info \<Rightarrow> query_result list \<Rightarrow> influx_recorder \<Rightarrow> 'w rec_env \<Rightarrow> 'w rec_env" where
  "influx_run h cancelled i qs r e =
     (let p = run_point i (length qs) r in snd (emit (Point p) (write_point h cancelled p) e))"

section \<open>Pulumi\<close>

text \<open>\<open>b\<close>, one or more digits and \<open>n\<close> or \<open>j\<close> at the front of a text: the build number and the rest.\<close>

definition build_at :: "string \<Rightarrow> (string \<times> string) option" where
  "build_at s =
     (case s of [] \<Rightarrow> None
      | c # cs \<Rightarrow>
          (let ds = takeWhile is_digit cs; rest = dropWhile is_digit cs
           in if c = CHR ''b'' \<and> ds \<noteq> [] \<and> rest \<noteq> [] \<and> hd rest \<in> {CHR ''n'', CHR ''j''}
              then Some (c # ds @ [hd rest], tl rest) else None))"

definition cluster_domain :: string where
  "cluster_domain = ''.ibm.prestodb.dev''"

text \<open>The two regular expressions. Their greedy prefix \<open>.+\<close> makes them find the last place that
  matches; host names and names of stacks have no newlines.\<close>

definition fqdn_build :: "string \<Rightarrow> string option" where
  "fqdn_build s =
     first_some (\<lambda>p. case build_at (drop p s) of
        None \<Rightarrow> None | Some (b, rest) \<Rightarrow> if has_prefix rest cluster_domain then Some b else None)
       (rev [1..<length s])"

definition stack_build :: "string \<Rightarrow> string option" where
  "stack_build s =
     first_some (\<lambda>p. case drop p s of
          [] \<Rightarrow> None
        | c # cs \<Rightarrow>
            if c \<noteq> CHR ''-'' then None
            else (case build_at cs of
                    None \<Rightarrow> None
                  | Some (b, rest) \<Rightarrow> if rest \<noteq> [] \<and> hd rest = CHR ''-'' \<and> tl rest \<noteq> [] then Some b else None))
       (rev [1..<length s])"

definition stack_type :: string where
  "stack_type = ''pulumi:pulumi:Stack''"

fun find_in_stacks :: "'w rec_host \<Rightarrow> string \<Rightarrow> string \<Rightarrow> string list \<Rightarrow> 'w rec_env \<Rightarrow> resource option \<times> 'w rec_env" where
  "find_in_stacks h fqdn b [] e = (None, e)"
| "find_in_stacks h fqdn b (s # ss) e =
     (if stack_build s \<noteq> Some b then find_in_stacks h fqdn b ss e
      else
        (let (rs, e1) = ask (export_stack h s) e
         in case rs of
              None \<Rightarrow> (None, e1)
            | Some rs \<Rightarrow>
                (case find (\<lambda>r. res_type r = stack_type \<and> res_fqdn r = fqdn) rs of
                   Some r \<Rightarrow> (Some r, e1)
                 | None \<Rightarrow> find_in_stacks h fqdn b ss e1)))"

definition find_pulumi_stack :: "'w rec_host \<Rightarrow> string \<Rightarrow> 'w rec_env \<Rightarrow> resource option \<times> 'w rec_env" where
  "find_pulumi_stack h fqdn e =
     (case fqdn_build fqdn of
        None \<Rightarrow> (None, e)
      | Some b \<Rightarrow>
          (case ask (list_stacks h) e of
             (None, e1) \<Rightarrow> (None, e1)
           | (Some ss, e1) \<Rightarrow> find_in_stacks h fqdn b ss e1))"

text \<open>\<open>strings.SplitN(fqdn, ".", 2)\<close> has one part only if there is no dot.\<close>

definition find_non_pulumi_stack :: "'w rec_host \<Rightarrow> string \<Rightarrow> 'w rec_env \<Rightarrow> resource option \<times> 'w rec_env" where
  "find_non_pulumi_stack h fqdn e =
     (case index_byte (CHR ''.'') fqdn of
        None \<Rightarrow> (None, e)
      | Some n \<Rightarrow>
          (let (t, e1) = ask (now h) e
           in (Some \<lparr>res_type = stack_type, res_fqdn = fqdn, res_name = take n fqdn, res_created = t\<rparr>, e1)))"

definition find_stack :: "'w rec_host \<Rightarrow> string \<Rightarrow> 'w rec_env \<Rightarrow> resource option \<times> 'w rec_env" where
  "find_stack h fqdn e =
     (if has_suffix fqdn cluster_domain \<and> \<not> contains (trim_suffix fqdn cluster_domain) ''.''
      then find_pulumi_stack h fqdn e else find_non_pulumi_stack h fqdn e)"

definition pulumi_start :: "'w rec_host \<Rightarrow> run_info \<Rightarrow> 'w rec_env \<Rightarrow> string option \<times> 'w rec_env" where
  "pulumi_start h i e =
     (case find_stack h (info_fqdn i) e of
        (None, e1) \<Rightarrow> (None, e1)
      | (Some r, e1) \<Rightarrow>
          (case run_sql h (InsertCluster (res_name r) (info_fqdn i) (res_created r)) e1 of
             (SqlError er, e2) \<Rightarrow> (Some er, e2)
           | (SqlDone _ _, e2) \<Rightarrow> (None, e2)))"

section \<open>The interface RunRecorder\<close>

text \<open>\<open>FileRecorder\<close> has the text written to its buffer.\<close>

datatype recorder = FileRecorder string | MySqlRecorder mysql_recorder | InfluxRecorder influx_recorder
  | PulumiRecorder | NotSupportedRecorder

definition register_recorder :: "recorder option \<Rightarrow> recorder list \<Rightarrow> recorder list" where
  "register_recorder r rs = (case r of None \<Rightarrow> rs | Some r \<Rightarrow> rs @ [r])"

definition start_recorder :: "'w rec_host \<Rightarrow> run_info \<Rightarrow> recorder \<Rightarrow> 'w rec_env \<Rightarrow> (string option \<times> recorder) \<times> 'w rec_env" where
  "start_recorder h i r e =
     (case r of
        FileRecorder buf \<Rightarrow> ((None, FileRecorder (buf @ csv_record csv_header)), e)
      | MySqlRecorder m \<Rightarrow> (case mysql_start h i m e of ((er, m'), e') \<Rightarrow> ((er, MySqlRecorder m'), e'))
      | InfluxRecorder c \<Rightarrow> ((None, r), e)
      | PulumiRecorder \<Rightarrow> (case pulumi_start h i e of (er, e') \<Rightarrow> ((er, r), e'))
      | NotSupportedRecorder \<Rightarrow> ((Some ''InfluxDB support not available with this build'', r), e))"

definition record_query :: "'w rec_host \<Rightarrow> bool \<Rightarrow> run_info \<Rightarrow> query_result \<Rightarrow> recorder \<Rightarrow> 'w rec_env \<Rightarrow> recorder \<times> 'w rec_env" where
  "record_query h cancelled i q r e =
     (case r of
        FileRecorder buf \<Rightarrow> (FileRecorder (buf @ csv_record (csv_row h q)), e)
      | MySqlRecorder m \<Rightarrow> (case mysql_query h i q m e of (m', e') \<Rightarrow> (MySqlRecorder m', e'))
      | InfluxRecorder c \<Rightarrow> (case influx_query h cancelled i q c e of (c', e') \<Rightarrow> (InfluxRecorder c', e'))
      | _ \<Rightarrow> (r, e))"

definition record_run :: "'w rec_host \<Rightarrow> bool \<Rightarrow> run_info \<Rightarrow> query_result list \<Rightarrow> recorder \<Rightarrow> 'w rec_env \<Rightarrow> 'w rec_env" where
  "record_run h cancelled i qs r e =
     (case r of
        FileRecorder buf \<Rightarrow> snd (emit (WroteFile (summary_path i) buf) (write_file h (summary_path i) buf) e)
      | MySqlRecorder m \<Rightarrow> mysql_run h i m e
      | InfluxRecorder c \<Rightarrow> influx_run h cancelled i qs c e
      | _ \<Rightarrow> e)"

section \<open>The counters\<close>

text \<open>Two recorders count failed and mismatched queries, each in its own order.\<close>

locale counting_recorder =
  fixes count :: "query_result \<Rightarrow> 'r \<Rightarrow> 'r"
    and failed :: "'r \<Rightarrow> nat"
    and mismatch :: "'r \<Rightarrow> nat"
  assumes failed_count: "failed (count q r) = failed r + (if QueryError q = None then 0 else 1)"
    and mismatch_count: "mismatch (count q r) = mismatch r + (if mismatched q then 1 else 0)"
begin

lemma failed_fold: "failed (fold count qs r) = failed r + length (filter (\<lambda>q. QueryError q \<noteq> None) qs)"
  by (induction qs arbitrary: r) (simp_all add: failed_count)

lemma mismatch_fold: "mismatch (fold count qs r) = mismatch r + length (filter mismatched qs)"
  by (induction qs arbitrary: r) (simp_all add: mismatch_count)

end

interpretation my: counting_recorder mysql_count my_failed my_mismatch
  by unfold_locales (simp_all add: mysql_count_def Let_def)

interpretation influx: counting_recorder influx_count influx_failed influx_mismatch
  by unfold_locales (simp_all add: influx_count_def Let_def)

lemma mysql_count_run [simp]: "run_id (mysql_count q m) = run_id m"
  by (simp add: mysql_count_def Let_def)

section \<open>What a recorder does for a query\<close>

text \<open>The recorder after a query, and its effects: neither depends on what the outside answers.\<close>

fun after_query :: "'w rec_host \<Rightarrow> query_result \<Rightarrow> recorder \<Rightarrow> recorder" where
  "after_query h q (FileRecorder buf) = FileRecorder (buf @ csv_record (csv_row h q))"
| "after_query h q (MySqlRecorder m) = MySqlRecorder (mysql_count q m)"
| "after_query h q (InfluxRecorder c) = InfluxRecorder (influx_count q c)"
| "after_query h q r = r"

fun query_effects :: "run_info \<Rightarrow> query_result \<Rightarrow> recorder \<Rightarrow> effect list" where
  "query_effects i q (MySqlRecorder m) =
     [Sql (InsertQuery (run_id m) (mysql_row q)),
      Sql (UpdateRun (info_start i) (my_failed (mysql_count q m)) (my_mismatch (mysql_count q m)) (run_id m))]"
| "query_effects i q (InfluxRecorder c) = [Point (query_point i q)]"
| "query_effects i q r = []"

fun run_effects :: "run_info \<Rightarrow> query_result list \<Rightarrow> recorder \<Rightarrow> effect list" where
  "run_effects i qs (FileRecorder buf) = [WroteFile (summary_path i) buf]"
| "run_effects i qs (MySqlRecorder m) =
     [Sql (CompleteRun (info_start i) (milliseconds (time_sub (info_finish i) (info_start i)))
        (if info_seed_used i then Some (info_seed i) else None) (run_id m))]"
| "run_effects i qs (InfluxRecorder c) = [Point (run_point i (length qs) c)]"
| "run_effects i qs r = []"

lemma effects_emit [simp]: "effects (snd (emit f op e)) = effects e @ [f]"
  by (simp add: emit_def split: prod.split)

lemma effects_ask [simp]: "effects (snd (ask op e)) = effects e"
  by (simp add: ask_def split: prod.split)

lemma record_query_after: "fst (record_query h c i q r e) = after_query h q r"
  by (cases r) (simp_all add: record_query_def mysql_query_def influx_query_def Let_def split: prod.split)

lemma record_query_effects: "effects (snd (record_query h c i q r e)) = effects e @ query_effects i q r"
proof (cases r)
  case (MySqlRecorder m)
  obtain a e1 where 1: "emit (Sql (InsertQuery (run_id m) (mysql_row q))) (exec_sql h (InsertQuery (run_id m) (mysql_row q))) e = (a, e1)"
    by fastforce
  have "effects e1 = effects e @ [Sql (InsertQuery (run_id m) (mysql_row q))]"
    using 1 effects_emit by (metis snd_conv)
  then show ?thesis
    by (simp add: MySqlRecorder record_query_def mysql_query_def Let_def 1 split: prod.split)
      (metis append.assoc append_Cons append_Nil effects_emit snd_conv)
qed (simp_all add: record_query_def influx_query_def)

lemma record_run_effects: "effects (record_run h c i qs r e) = effects e @ run_effects i qs r"
  by (cases r) (simp_all add: record_run_def mysql_run_def influx_run_def Let_def)

section \<open>What the outside stores\<close>

text \<open>An outside that is up, where \<open>db\<close> reads from the world what it has stored: a statement is executed, a
  file is written, and a point is stored, unless the context of the run is cancelled. Then the client of
  InfluxDB returns an error and stores nothing.\<close>

definition outside_works :: "'w rec_host \<Rightarrow> ('w \<Rightarrow> effect list) \<Rightarrow> bool" where
  "outside_works h db \<longleftrightarrow>
     (\<forall>q w. (\<exists>a b. fst (exec_sql h q w) = SqlDone a b) \<and> db (snd (exec_sql h q w)) = db w @ [Sql q])
     \<and> (\<forall>p w. fst (write_point h False p w) = None \<and> db (snd (write_point h False p w)) = db w @ [Point p])
     \<and> (\<forall>p w. fst (write_point h True p w) \<noteq> None \<and> db (snd (write_point h True p w)) = db w)
     \<and> (\<forall>f x w. fst (write_file h f x w) = None \<and> db (snd (write_file h f x w)) = db w @ [WroteFile f x])"

fun passes :: "bool \<Rightarrow> effect \<Rightarrow> bool" where
  "passes c (Point p) = (\<not> c)"
| "passes c _ = True"

lemma emit_world: "rec_world (snd (emit f op e)) = snd (op (rec_world e))"
  by (simp add: emit_def split: prod.split)

lemma outside_stores:
  assumes "outside_works h db"
  shows "db (rec_world (snd (run_sql h q e))) = db (rec_world e) @ [Sql q]"
    and "db (rec_world (snd (emit f (write_point h c p) e))) = db (rec_world e) @ filter (passes c) [Point p]"
    and "db (rec_world (snd (emit f (write_file h n x) e))) = db (rec_world e) @ [WroteFile n x]"
  using assms by (cases c; simp add: emit_world outside_works_def)+

lemma record_query_stores:
  assumes "outside_works h db"
  shows "db (rec_world (snd (record_query h c i q r e))) = db (rec_world e) @ filter (passes c) (query_effects i q r)"
proof (cases r)
  case (MySqlRecorder m)
  have "rec_world (snd (mysql_query h i q m e)) =
      rec_world (snd (run_sql h (UpdateRun (info_start i) (my_failed (mysql_count q m)) (my_mismatch (mysql_count q m)) (run_id m))
        (snd (run_sql h (InsertQuery (run_id m) (mysql_row q)) e))))"
    by (simp add: mysql_query_def Let_def split: prod.split)
  moreover obtain m' e' where "mysql_query h i q m e = (m', e')" by fastforce
  ultimately show ?thesis
    using MySqlRecorder by (simp add: record_query_def outside_stores(1) [OF assms])
next
  case (InfluxRecorder x)
  then show ?thesis by (simp add: record_query_def influx_query_def outside_stores(2) [OF assms])
qed (simp_all add: record_query_def)

lemma record_run_stores:
  assumes "outside_works h db"
  shows "db (rec_world (record_run h c i qs r e)) = db (rec_world e) @ filter (passes c) (run_effects i qs r)"
  by (cases r) (simp_all add: record_run_def mysql_run_def influx_run_def Let_def outside_stores [OF assms])

text \<open>Which requests are statements and which are points, and which recorder makes them.\<close>

fun is_sql :: "effect \<Rightarrow> bool" where
  "is_sql (Sql q) = True"
| "is_sql _ = False"

fun is_point :: "effect \<Rightarrow> bool" where
  "is_point (Point p) = True"
| "is_point _ = False"

fun is_mysql :: "recorder \<Rightarrow> bool" where
  "is_mysql (MySqlRecorder m) = True"
| "is_mysql _ = False"

fun is_influx :: "recorder \<Rightarrow> bool" where
  "is_influx (InfluxRecorder c) = True"
| "is_influx _ = False"

lemma effects_by_kind:
  "filter is_sql (query_effects i q r) = (if is_mysql r then query_effects i q r else [])"
  "filter is_point (query_effects i q r) = (if is_influx r then query_effects i q r else [])"
  "filter is_sql (run_effects i qs r) = (if is_mysql r then run_effects i qs r else [])"
  "filter is_point (run_effects i qs r) = (if is_influx r then run_effects i qs r else [])"
  by (cases r; simp)+

lemma kind_after [simp]: "is_mysql (after_query h q r) = is_mysql r" "is_influx (after_query h q r) = is_influx r"
  by (cases r; simp)+

lemma passes_kinds:
  "filter is_sql (filter (passes c) es) = filter is_sql es"
  "filter is_point (filter (passes c) es) = (if c then [] else filter is_point es)"
proof -
  have "is_sql x \<and> passes c x \<longleftrightarrow> is_sql x" "is_point x \<and> passes c x \<longleftrightarrow> \<not> c \<and> is_point x" for x
    by (cases x; auto)+
  then show "filter is_sql (filter (passes c) es) = filter is_sql es"
    "filter is_point (filter (passes c) es) = (if c then [] else filter is_point es)"
    by (simp_all add: conj_commute)
qed

text \<open>The buffer of the summary file and the counters after a number of queries.\<close>

lemma after_queries_file:
  "fold (after_query h) qs (FileRecorder buf) = FileRecorder (buf @ concat (map (csv_record \<circ> csv_row h) qs))"
  by (induction qs arbitrary: buf) simp_all

lemma after_queries_mysql: "fold (after_query h) qs (MySqlRecorder m) = MySqlRecorder (fold mysql_count qs m)"
  by (induction qs arbitrary: m) simp_all

lemma after_queries_influx: "fold (after_query h) qs (InfluxRecorder c) = InfluxRecorder (fold influx_count qs c)"
  by (induction qs arbitrary: c) simp_all

section \<open>The cluster of a run\<close>

text \<open>What is found is the stack of the host name that was asked for.\<close>

lemma find_in_stacks_fqdn: "fst (find_in_stacks h fqdn b ss e) = Some r \<Longrightarrow> res_fqdn r = fqdn"
  by (induction ss arbitrary: e)
    (auto simp: find_Some_iff split: if_splits prod.splits option.splits)

lemma find_stack_fqdn: "fst (find_stack h fqdn e) = Some r \<Longrightarrow> res_fqdn r = fqdn"
  by (auto simp: find_stack_def find_pulumi_stack_def find_non_pulumi_stack_def find_in_stacks_fqdn Let_def
      split: if_splits option.splits prod.splits dest: find_in_stacks_fqdn [OF arg_cong [of _ _ fst, THEN trans]])

end
