(* ===== verification/Utils.thy ===== *)
theory Utils
  imports GoPath
begin

text \<open>
  What the commands share: \<open>utils/utils.go\<close> (home directory, output directory) and
  \<open>utils/presto_flags.go\<close> (the connection flags of one cluster and of several).
\<close>

section \<open>Directories\<close>

text \<open>\<open>utils.ExpandHomeDirectory\<close>.\<close>

definition expand_home :: "string option \<Rightarrow> string \<Rightarrow> string" where
  "expand_home home path =
     (if path = ''~'' \<or> has_prefix path [CHR 0x7E, slash] then
        (case home of None \<Rightarrow> path | Some h \<Rightarrow> path_join h (trim_prefix path ''~''))
      else path)"

text \<open>\<open>PrepareOutputDirectory\<close>: what \<open>os.Stat\<close> says of the path, and whether the directory can be
  made. The answer is whether the program goes on.\<close>

datatype path_status = Missing | StatFailed | IsFile | IsDirectory

definition prepare_output_directory :: "path_status \<Rightarrow> bool \<Rightarrow> bool" where
  "prepare_output_directory st made =
     (case st of Missing \<Rightarrow> made | StatFailed \<Rightarrow> False | IsFile \<Rightarrow> False | IsDirectory \<Rightarrow> True)"

section \<open>Presto flags\<close>

record presto_flags =
  server_url :: string
  is_trino :: bool
  force_https :: bool
  user_name :: string
  password :: string

text \<open>\<open>NewPrestoClient\<close>: the settings of the client in the order in which they are made; \<open>valid\<close> tells
  whether the library accepts the address, and \<open>None\<close> is the fatal error.\<close>

datatype client_setting = SetTrino bool | SetUserPassword string string | SetUser string | SetForceHttps

definition new_presto_client :: "(string \<Rightarrow> bool) \<Rightarrow> presto_flags \<Rightarrow> (string \<times> client_setting list) option" where
  "new_presto_client valid f =
     (if \<not> valid (server_url f) then None
      else Some (server_url f,
        [SetTrino (is_trino f)]
        @ (if user_name f \<noteq> [] then
             (if password f \<noteq> [] then [SetUserPassword (user_name f) (password f)] else [SetUser (user_name f)])
           else [])
        @ (if force_https f then [SetForceHttps] else [])))"

record presto_flags_array =
  server_urls :: "string list"
  is_trinos :: "bool list"
  force_https_flags :: "bool list"
  user_names :: "string list"
  passwords :: "string list"

text \<open>The loop \<open>for i, x := range xs { if i < len(ret) { ret[i].F = x } }\<close>, from index \<open>i\<close> on.\<close>

fun set_each :: "('a \<Rightarrow> presto_flags \<Rightarrow> presto_flags) \<Rightarrow> nat \<Rightarrow> 'a list \<Rightarrow> presto_flags list \<Rightarrow> presto_flags list" where
  "set_each f i [] ret = ret"
| "set_each f i (x # xs) ret = set_each f (Suc i) xs (if i < length ret then ret[i := f x (ret ! i)] else ret)"

definition pivot :: "presto_flags_array \<Rightarrow> presto_flags list" where
  "pivot a =
     (let ret = map (\<lambda>u. \<lparr>server_url = u, is_trino = False, force_https = False, user_name = [], password = []\<rparr>) (server_urls a);
          ret = set_each (\<lambda>x f. f\<lparr>is_trino := x\<rparr>) 0 (is_trinos a) ret;
          ret = set_each (\<lambda>x f. f\<lparr>force_https := x\<rparr>) 0 (force_https_flags a) ret;
          ret = set_each (\<lambda>x f. f\<lparr>user_name := x\<rparr>) 0 (user_names a) ret
      in set_each (\<lambda>x f. f\<lparr>password := x\<rparr>) 0 (passwords a) ret)"

text \<open>The \<open>i\<close>-th value of a flag that may have been given fewer times than there are servers.\<close>

definition given :: "'a \<Rightarrow> 'a list \<Rightarrow> nat \<Rightarrow> 'a" where
  "given d xs i = (if i < length xs then xs ! i else d)"

lemma length_set_each [simp]: "length (set_each f i xs ret) = length ret"
  by (induction xs arbitrary: i ret) simp_all

lemma set_each_nth:
  "j < length ret \<Longrightarrow>
    set_each f i xs ret ! j = (if i \<le> j \<and> j - i < length xs then f (xs ! (j - i)) (ret ! j) else ret ! j)"
proof (induction xs arbitrary: i ret)
  case (Cons x xs)
  have eq: "(x # xs) ! (j - i) = xs ! (j - Suc i)" if "i < j"
    using that by (simp add: nth_Cons')
  show ?case
    using Cons.IH [of "if i < length ret then ret[i := f x (ret ! i)] else ret" "Suc i"] Cons.prems eq
    by (cases "i = j") (auto simp: nth_list_update)
qed simp

text \<open>Every server gets the flags given for it and the zero values for the others, whatever the numbers
  of flags: no index is out of range.\<close>

lemma pivot_nth:
  "length (pivot a) = length (server_urls a)"
  "i < length (server_urls a) \<Longrightarrow> pivot a ! i =
     \<lparr>server_url = server_urls a ! i, is_trino = given False (is_trinos a) i,
      force_https = given False (force_https_flags a) i, user_name = given [] (user_names a) i,
      password = given [] (passwords a) i\<rparr>"
  by (simp_all add: pivot_def Let_def set_each_nth given_def)

end
