(* ===== verification/StageMain.thy ===== *)
theory StageMain
  imports Recorders Utils
begin

text \<open>
  The method \<open>Run\<close> of \<open>stage/stage.go\<close>: what the main goroutine does while the stages run. It names
  the run, starts the recorders, receives the results of the queries from a channel, hands each to
  every recorder, and when the last goroutine has ended drains the channel, takes the time of the last
  query and lets the recorders conclude the run.

  The goroutines of the stages (modelled in \<open>StageExec\<close> and \<open>StageRun\<close>) are seen here only as senders
  of results; their steps and those of the main loop are interleaved in a step relation.
\<close>

section \<open>Before the stages start\<close>

text \<open>The name of the run, the output directory and the log file, from the name and the path of the
  command line and the id and directory of the main stage.\<close>

definition run_paths :: "string \<Rightarrow> string \<Rightarrow> string \<Rightarrow> string \<Rightarrow> string \<times> string \<times> string" where
  "run_paths name path sid base_dir =
     (let n = (if name = [] then sid else name);
          p = path_join (if path = [] then base_dir else path) n
      in (n, p, path_join p (n @ ''.log'')))"

text \<open>The recorders are started one after the other; an error ends the program.\<close>

fun start_all :: "'w rec_host \<Rightarrow> run_info \<Rightarrow> recorder list \<Rightarrow> 'w rec_env \<Rightarrow> (string + recorder list) \<times> 'w rec_env" where
  "start_all h i [] e = (Inr [], e)"
| "start_all h i (r # rs) e =
     (case start_recorder h i r e of
        ((Some er, _), e1) \<Rightarrow> (Inl er, e1)
      | ((None, r'), e1) \<Rightarrow>
          (case start_all h i rs e1 of
             (Inl er, e2) \<Rightarrow> (Inl er, e2)
           | (Inr rs', e2) \<Rightarrow> (Inr (r' # rs'), e2)))"

section \<open>The main loop\<close>

text \<open>
  \<open>channel\<close> is \<open>resultChan\<close>, \<open>pending\<close> whether a signal waits in \<open>timeToExit\<close>, \<open>closed\<close> whether that
  channel has been closed; \<open>sent_results\<close> is everything that has been sent so far, and \<open>returned\<close>
  what \<open>Run\<close> has returned.
\<close>

record 'w main_state =
  channel :: "query_result list"
  pending :: bool
  closed :: bool
  sent_results :: "query_result list"
  exit_status :: int
  info :: run_info
  received :: "query_result list"
  recorders :: "recorder list"
  rec_env :: "'w rec_env"
  aborted :: bool
  returned :: "int option"

fun record_all :: "'w rec_host \<Rightarrow> bool \<Rightarrow> run_info \<Rightarrow> query_result \<Rightarrow> recorder list \<Rightarrow> 'w rec_env \<Rightarrow> recorder list \<times> 'w rec_env" where
  "record_all h c i q [] e = ([], e)"
| "record_all h c i q (r # rs) e =
     (let (r', e1) = record_query h c i q r e; (rs', e2) = record_all h c i q rs e1 in (r' # rs', e2))"

fun record_end :: "'w rec_host \<Rightarrow> bool \<Rightarrow> run_info \<Rightarrow> query_result list \<Rightarrow> recorder list \<Rightarrow> 'w rec_env \<Rightarrow> 'w rec_env" where
  "record_end h c i qs [] e = e"
| "record_end h c i qs (r # rs) e = record_end h c i qs rs (record_run h c i qs r e)"

text \<open>\<open>case result := <-s.States.resultChan\<close>.\<close>

definition receive :: "'w rec_host \<Rightarrow> 'w main_state \<Rightarrow> 'w main_state" where
  "receive h s =
     (case channel s of
        [] \<Rightarrow> s
      | q # ch \<Rightarrow>
          (let (rs, e) = record_all h (aborted s) (info s) q (recorders s) (rec_env s)
           in s\<lparr>channel := ch, received := received s @ [q], recorders := rs, rec_env := e\<rparr>))"

text \<open>The drain loop, until the channel is empty.\<close>

definition drain_channel :: "'w rec_host \<Rightarrow> 'w main_state \<Rightarrow> 'w main_state" where
  "drain_channel h s = (receive h ^^ length (channel s)) s"

text \<open>The time of the last query, from the time \<open>t\<close> on.\<close>

fun latest :: "int \<Rightarrow> query_result list \<Rightarrow> int" where
  "latest t [] = t"
| "latest t (q # qs) = latest (case EndTime q of None \<Rightarrow> t | Some e \<Rightarrow> if t < e then e else t) qs"

definition leave :: "'w rec_host \<Rightarrow> 'w main_state \<Rightarrow> 'w main_state" where
  "leave h s =
     (let s1 = drain_channel h s;
          i = (info s1)\<lparr>info_finish := latest (info_finish (info s1)) (received s1)\<rparr>
      in s1\<lparr>info := i, rec_env := record_end h (aborted s1) i (received s1) (recorders s1) (rec_env s1),
           returned := Some (exit_status s1)\<rparr>)"

text \<open>
  The steps. As long as \<open>timeToExit\<close> is open, goroutines send results (the channel has room for 16),
  use the random seed, abort the run, set the exit code; signals arrive. The last goroutine to end
  closes \<open>timeToExit\<close>, and nothing is sent any more. The main goroutine receives a result, handles a
  signal, or, with the channel \<open>timeToExit\<close> closed and no signal in it, leaves the loop.
\<close>

inductive main_step :: "'w rec_host \<Rightarrow> 'w main_state \<Rightarrow> 'w main_state \<Rightarrow> bool" for h where
  send: "\<not> closed s \<Longrightarrow> length (channel s) < 16 \<Longrightarrow>
    main_step h s (s\<lparr>channel := channel s @ [q], sent_results := sent_results s @ [q]\<rparr>)"
| use_seed: "\<not> closed s \<Longrightarrow> main_step h s (s\<lparr>info := (info s)\<lparr>info_seed_used := True\<rparr>\<rparr>)"
| abort: "\<not> closed s \<Longrightarrow> main_step h s (s\<lparr>aborted := True\<rparr>)"
| set_exit: "\<not> closed s \<Longrightarrow> exit_status s = 0 \<Longrightarrow> main_step h s (s\<lparr>exit_status := c\<rparr>)"
| signalled: "\<not> closed s \<Longrightarrow> main_step h s (s\<lparr>pending := True\<rparr>)"
| all_done: "\<not> closed s \<Longrightarrow> main_step h s (s\<lparr>closed := True\<rparr>)"
| result: "returned s = None \<Longrightarrow> channel s \<noteq> [] \<Longrightarrow> main_step h s (receive h s)"
| handle: "returned s = None \<Longrightarrow> pending s \<Longrightarrow> main_step h s (s\<lparr>pending := False, aborted := True\<rparr>)"
| exit: "returned s = None \<Longrightarrow> closed s \<Longrightarrow> \<not> pending s \<Longrightarrow> main_step h s (leave h s)"

definition main_start :: "run_info \<Rightarrow> recorder list \<Rightarrow> 'w rec_env \<Rightarrow> 'w main_state" where
  "main_start i rs e =
     \<lparr>channel = [], pending = False, closed = False, sent_results = [], exit_status = 0,
      info = i\<lparr>info_finish := zero_time\<rparr>, received = [], recorders = rs, rec_env = e, aborted = False, returned = None\<rparr>"

inductive main_reaches :: "'w rec_host \<Rightarrow> 'w main_state \<Rightarrow> 'w main_state \<Rightarrow> bool" for h where
  here: "main_reaches h s s"
| later: "main_reaches h s t \<Longrightarrow> main_step h t u \<Longrightarrow> main_reaches h s u"

inductive_cases main_stepE: "main_step h s t"

section \<open>What the recorders are told\<close>

text \<open>The specification: for every result, in the order in which they were sent, what each recorder
  does for it; then the end of the run.\<close>

fun query_trace :: "'w rec_host \<Rightarrow> run_info \<Rightarrow> recorder list \<Rightarrow> query_result list \<Rightarrow> effect list" where
  "query_trace h i rs [] = []"
| "query_trace h i rs (q # qs) = concat (map (query_effects i q) rs) @ query_trace h i (map (after_query h q) rs) qs"

definition after_all :: "'w rec_host \<Rightarrow> query_result list \<Rightarrow> recorder list \<Rightarrow> recorder list" where
  "after_all h qs rs = map (fold (after_query h) qs) rs"

definition run_trace :: "'w rec_host \<Rightarrow> run_info \<Rightarrow> recorder list \<Rightarrow> query_result list \<Rightarrow> effect list" where
  "run_trace h i rs qs = query_trace h i rs qs @ concat (map (run_effects i qs) (after_all h qs rs))"

lemma query_effects_settings [simp]:
  "query_effects (i\<lparr>info_seed_used := b\<rparr>) = query_effects i"
  "query_effects (i\<lparr>info_finish := t\<rparr>) = query_effects i"
proof -
  have "query_effects (i\<lparr>info_seed_used := b\<rparr>) q r = query_effects i q r
      \<and> query_effects (i\<lparr>info_finish := t\<rparr>) q r = query_effects i q r" for q r
    by (cases r) (simp_all add: query_point_def)
  then show "query_effects (i\<lparr>info_seed_used := b\<rparr>) = query_effects i"
    "query_effects (i\<lparr>info_finish := t\<rparr>) = query_effects i"
    by (simp_all add: fun_eq_iff)
qed

lemma query_trace_settings [simp]:
  "query_trace h (i\<lparr>info_seed_used := b\<rparr>) rs qs = query_trace h i rs qs"
  "query_trace h (i\<lparr>info_finish := t\<rparr>) rs qs = query_trace h i rs qs"
  by (induction qs arbitrary: rs) simp_all

lemma record_all_spec:
  "fst (record_all h c i q rs e) = map (after_query h q) rs
   \<and> effects (snd (record_all h c i q rs e)) = effects e @ concat (map (query_effects i q) rs)"
proof (induction rs arbitrary: e)
  case (Cons r rs)
  obtain r' e1 where r: "record_query h c i q r e = (r', e1)" by fastforce
  then have "r' = after_query h q r" and "effects e1 = effects e @ query_effects i q r"
    using record_query_after [of h c i q r e] record_query_effects [of h c i q r e] by simp_all
  then show ?case
    using Cons.IH [of e1] by (auto simp: r split: prod.splits)
qed simp

lemma record_end_effects:
  "effects (record_end h c i qs rs e) = effects e @ concat (map (run_effects i qs) rs)"
  by (induction rs arbitrary: e) (simp_all add: record_run_effects)

lemma query_trace_snoc:
  "query_trace h i rs (qs @ [q]) = query_trace h i rs qs @ concat (map (query_effects i q) (after_all h qs rs))"
  by (induction qs arbitrary: rs) (simp_all add: after_all_def comp_def)

lemma after_all_snoc: "after_all h (qs @ [q]) rs = map (after_query h q) (after_all h qs rs)"
  by (simp add: after_all_def)

section \<open>The loop refines the specification\<close>

text \<open>The invariant: what has been received and what is in the channel is what has been sent; the
  recorders have been told what has been received, and the end of the run if \<open>Run\<close> has returned.\<close>

definition main_inv :: "'w rec_host \<Rightarrow> run_info \<Rightarrow> recorder list \<Rightarrow> effect list \<Rightarrow> 'w main_state \<Rightarrow> bool" where
  "main_inv h i0 rs0 es0 s \<longleftrightarrow>
     received s @ channel s = sent_results s
     \<and> recorders s = after_all h (received s) rs0
     \<and> (case returned s of
          None \<Rightarrow> effects (rec_env s) = es0 @ query_trace h i0 rs0 (received s)
            \<and> info s = i0\<lparr>info_seed_used := info_seed_used (info s), info_finish := zero_time\<rparr>
        | Some c \<Rightarrow> closed s \<and> c = exit_status s \<and> channel s = []
            \<and> effects (rec_env s) = es0 @ run_trace h (info s) rs0 (received s)
            \<and> info s = i0\<lparr>info_seed_used := info_seed_used (info s), info_finish := latest zero_time (received s)\<rparr>)"

lemma main_inv_info:
  "main_inv h i0 rs0 es0 s \<Longrightarrow> returned s = None \<Longrightarrow>
    \<exists>b. info s = i0\<lparr>info_seed_used := b, info_finish := zero_time\<rparr>"
  by (simp only: main_inv_def option.case) blast

lemma receive_inv:
  assumes inv: "main_inv h i0 rs0 es0 s" and open_run: "returned s = None"
  shows "main_inv h i0 rs0 es0 (receive h s)"
proof (cases "channel s")
  case Nil
  with inv show ?thesis by (simp add: receive_def)
next
  case (Cons q ch)
  obtain b where i: "info s = i0\<lparr>info_seed_used := b, info_finish := zero_time\<rparr>"
    using main_inv_info [OF inv open_run] by blast
  obtain rs e where rec: "record_all h (aborted s) (info s) q (recorders s) (rec_env s) = (rs, e)" by fastforce
  then have "rs = map (after_query h q) (recorders s)"
    and "effects e = effects (rec_env s) @ concat (map (query_effects i0 q) (recorders s))"
    using record_all_spec [of h "aborted s" "info s" q "recorders s" "rec_env s"] by (simp_all add: i)
  then show ?thesis
    using inv open_run i rec
    by (simp add: main_inv_def receive_def Cons query_trace_snoc after_all_snoc)
qed

lemma receive_returned [simp]: "returned (receive h s) = returned s" "pending (receive h s) = pending s"
    "closed (receive h s) = closed s" "sent_results (receive h s) = sent_results s"
    "exit_status (receive h s) = exit_status s" "info (receive h s) = info s" "aborted (receive h s) = aborted s"
  by (simp_all add: receive_def split: list.split prod.split)

lemma receive_channel [simp]: "channel (receive h s) = tl (channel s)"
  by (simp add: receive_def split: list.split prod.split)

lemma drain_inv:
  "main_inv h i0 rs0 es0 s \<Longrightarrow> returned s = None \<Longrightarrow>
    main_inv h i0 rs0 es0 ((receive h ^^ n) s) \<and> returned ((receive h ^^ n) s) = None
    \<and> channel ((receive h ^^ n) s) = drop n (channel s) \<and> closed ((receive h ^^ n) s) = closed s
    \<and> exit_status ((receive h ^^ n) s) = exit_status s \<and> sent_results ((receive h ^^ n) s) = sent_results s"
  by (induction n) (simp_all add: receive_inv drop_Suc tl_drop)

lemma leave_inv:
  assumes inv: "main_inv h i0 rs0 es0 s" and "returned s = None" and "closed s"
  shows "main_inv h i0 rs0 es0 (leave h s)"
proof -
  let ?s = "drain_channel h s"
  have inv': "main_inv h i0 rs0 es0 ?s" "returned ?s = None" "channel ?s = []" "closed ?s"
    using drain_inv [OF inv assms(2), of "length (channel s)"] assms(3) by (simp_all add: drain_channel_def)
  obtain b where i: "info ?s = i0\<lparr>info_seed_used := b, info_finish := zero_time\<rparr>"
    using main_inv_info [OF inv'(1,2)] by blast
  have "query_trace h i0 = query_trace h (i0\<lparr>info_seed_used := b, info_finish := t\<rparr>)" for t
    by (intro ext) simp
  then show ?thesis
    using inv' i by (simp add: main_inv_def leave_def Let_def record_end_effects run_trace_def)
qed

lemma seed_settings:
  "i = i0\<lparr>info_seed_used := b, info_finish := t\<rparr> \<Longrightarrow> i\<lparr>info_seed_used := c\<rparr> = i0\<lparr>info_seed_used := c, info_finish := t\<rparr>"
  by simp

lemma main_step_inv: "main_step h s t \<Longrightarrow> main_inv h i0 rs0 es0 s \<Longrightarrow> main_inv h i0 rs0 es0 t"
proof (induction rule: main_step.induct)
  case (result s)
  then show ?case by (simp add: receive_inv)
next
  case (exit s)
  then show ?case by (simp add: leave_inv)
qed (auto simp: main_inv_def split: option.splits dest: seed_settings)

lemma main_reaches_inv: "main_reaches h s t \<Longrightarrow> main_inv h i0 rs0 es0 s \<Longrightarrow> main_inv h i0 rs0 es0 t"
  by (induction rule: main_reaches.induct) (simp_all add: main_step_inv)

lemma main_start_inv: "main_inv h i rs (effects e) (main_start i rs e)"
  by (simp add: main_inv_def main_start_def after_all_def)

lemma main_loop_inv:
  assumes "main_reaches h (main_start i rs e) s" and "returned s = Some c"
  shows "received s = sent_results s \<and> c = exit_status s
    \<and> recorders s = after_all h (sent_results s) rs
    \<and> info s = i\<lparr>info_seed_used := info_seed_used (info s), info_finish := latest zero_time (sent_results s)\<rparr>
    \<and> effects (rec_env s) = effects e @ run_trace h (info s) rs (sent_results s)"
proof -
  have inv: "received s @ channel s = sent_results s \<and> recorders s = after_all h (received s) rs
      \<and> closed s \<and> c = exit_status s \<and> channel s = []
      \<and> effects (rec_env s) = effects e @ run_trace h (info s) rs (received s)
      \<and> info s = i\<lparr>info_seed_used := info_seed_used (info s), info_finish := latest zero_time (received s)\<rparr>"
    using main_reaches_inv [OF assms(1) main_start_inv] unfolding main_inv_def assms(2) option.case .
  then have same: "received s = sent_results s" by (metis append_Nil2)
  show ?thesis
    using inv unfolding same by blast
qed

text \<open>C11: \<open>Run\<close> refines its specification, whatever the interleaving: when it returns, every result
  that any goroutine sent has been received, in the order of the sending; every recorder has been told
  of each of them exactly once and in that order, and then once of the end of the run with all of
  them; the finish time is the latest end time; the answer is the exit code.\<close>

theorem main_loop_records:
  assumes "main_reaches h (main_start i rs e) s" and "returned s = Some c"
  shows "received s = sent_results s \<and> c = exit_status s
    \<and> recorders s = after_all h (sent_results s) rs
    \<and> info s = i\<lparr>info_seed_used := info_seed_used (info s), info_finish := latest zero_time (sent_results s)\<rparr>
    \<and> effects (rec_env s) = effects e @ run_trace h (info s) rs (sent_results s)"
  using main_loop_inv [OF assms] .

section \<open>The loop ends\<close>

text \<open>How many steps the main goroutine can still make once \<open>timeToExit\<close> is closed.\<close>

definition steps_left :: "'w main_state \<Rightarrow> nat" where
  "steps_left s = (if returned s = None then 1 + length (channel s) else 0) + (if pending s \<and> returned s = None then 1 else 0)"

lemma leave_returned [simp]: "returned (leave h s) \<noteq> None" "closed (leave h s) = closed s"
  "sent_results (leave h s) = sent_results s"
proof -
  have "closed ((receive h ^^ n) s) = closed s \<and> sent_results ((receive h ^^ n) s) = sent_results s" for n
    by (induction n) simp_all
  then show "returned (leave h s) \<noteq> None" "closed (leave h s) = closed s" "sent_results (leave h s) = sent_results s"
    by (simp_all add: leave_def Let_def drain_channel_def)
qed

text \<open>C12: When the last goroutine has ended, \<open>Run\<close> returns: nothing more is sent, the main goroutine
  can always make a step until it has returned, and every step brings it nearer to the end, whichever
  case of its select is chosen; so it returns after at most as many steps as there are results in the
  channel, plus two.\<close>

theorem main_loop_returns:
  assumes "closed s"
  shows "steps_left s \<le> length (channel s) + 2 \<and> (returned s = None \<longrightarrow> (\<exists>t. main_step h s t))
    \<and> (\<forall>t. main_step h s t \<longrightarrow> steps_left t < steps_left s \<and> closed t \<and> sent_results t = sent_results s)"
proof (intro conjI allI impI)
  show "steps_left s \<le> length (channel s) + 2" by (simp add: steps_left_def)
  show "\<exists>t. main_step h s t" if "returned s = None"
    using main_step.handle [OF that] main_step.exit [OF that assms] by blast
  fix t
  assume "main_step h s t"
  then have "steps_left t < steps_left s \<and> closed t \<and> sent_results t = sent_results s"
    using assms by (cases rule: main_stepE) (auto simp: steps_left_def neq_Nil_conv)
  then show "steps_left t < steps_left s" "closed t" "sent_results t = sent_results s" by simp_all
qed

section \<open>What is left of a run\<close>

lemma query_trace_append:
  "query_trace h i rs (xs @ ys) = query_trace h i rs xs @ query_trace h i (after_all h xs rs) ys"
  by (induction xs arbitrary: rs) (simp_all add: after_all_def comp_def)

lemma told_query:
  "r \<in> set rs \<Longrightarrow> k < length qs \<Longrightarrow>
    set (query_effects i (qs ! k) (fold (after_query h) (take k qs) r)) \<subseteq> set (query_trace h i rs qs)"
  using query_trace_append [of h i rs "take k qs" "qs ! k # drop (Suc k) qs"]
  by (auto simp: id_take_nth_drop [symmetric] after_all_def)

lemma told_end: "r \<in> set rs \<Longrightarrow> set (run_effects i qs (fold (after_query h) qs r)) \<subseteq> set (run_trace h i rs qs)"
  by (auto simp: run_trace_def after_all_def)

lemma summary_path_settings: "summary_path (i\<lparr>info_seed_used := b, info_finish := t\<rparr>) = summary_path i"
  by (simp add: summary_path_def)

lemma mysql_counts_run: "run_id (fold mysql_count qs m) = run_id m"
  by (induction qs arbitrary: m) simp_all

lemma query_trace_info: "query_trace h (i\<lparr>info_seed_used := b, info_finish := t\<rparr>) = query_trace h i"
  by (intro ext) simp

definition failures :: "query_result list \<Rightarrow> nat" where
  "failures qs = length (filter (\<lambda>q. QueryError q \<noteq> None) qs)"

definition mismatches :: "query_result list \<Rightarrow> nat" where
  "mismatches qs = length (filter mismatched qs)"

lemma main_loop_info:
  assumes "main_reaches h (main_start i rs e) s" and "returned s = Some c"
  shows "query_trace h (info s) = query_trace h i" and "summary_path (info s) = summary_path i"
proof -
  have eq: "info s = i\<lparr>info_seed_used := info_seed_used (info s), info_finish := latest zero_time (sent_results s)\<rparr>"
    using main_loop_inv [OF assms] by blast
  show "query_trace h (info s) = query_trace h i"
    using arg_cong [OF eq, of "query_trace h"] unfolding query_trace_info .
  show "summary_path (info s) = summary_path i"
    using arg_cong [OF eq, of summary_path] unfolding summary_path_settings .
qed

text \<open>C13: The summary file can be read back: when the run returns it has been written, a header and
  one record for every result that was sent, in that order, each with its twelve columns, whatever
  commas, quotes and line breaks the file names and addresses contain.\<close>

theorem summary_file:
  assumes "main_reaches h (main_start i rs e) s" and "returned s = Some c"
    and "FileRecorder (csv_record csv_header) \<in> set rs"
  shows "\<exists>content. WroteFile (path_join (info_path i) (info_stage i @ ''_summary.csv'')) content \<in> set (effects (rec_env s))
    \<and> csv_read content = csv_header # map (csv_row h) (sent_results s)"
proof -
  let ?qs = "sent_results s"
  let ?file = "csv_record csv_header @ concat (map (csv_record \<circ> csv_row h) ?qs)"
  note run = main_loop_inv [OF assms(1,2)]
  have "WroteFile (summary_path (info s)) ?file \<in> set (effects (rec_env s))"
    using told_end [OF assms(3), of "info s" ?qs h] run by (simp add: after_queries_file)
  moreover have "?file = concat (map csv_record (csv_header # map (csv_row h) ?qs))"
    by (simp add: comp_def)
  then have "csv_read ?file = csv_header # map (csv_row h) ?qs"
    using csv_roundtrip [of "csv_header # map (csv_row h) ?qs"] by (auto simp: csv_header_def csv_row_def)
  ultimately show ?thesis
    unfolding main_loop_info(2) [OF assms(1,2)] unfolding summary_path_def by blast
qed

section \<open>What is stored\<close>

lemma record_all_stores:
  "outside_works h db \<Longrightarrow> db (rec_world (snd (record_all h c i q rs e)))
     = db (rec_world e) @ filter (passes c) (concat (map (query_effects i q) rs))"
proof (induction rs arbitrary: e)
  case (Cons r rs)
  obtain r' e1 where r: "record_query h c i q r e = (r', e1)" by fastforce
  with record_query_stores [OF Cons.prems, of c i q r e]
  have "db (rec_world e1) = db (rec_world e) @ filter (passes c) (query_effects i q r)" by simp
  moreover obtain rs' e2 where "record_all h c i q rs e1 = (rs', e2)" by fastforce
  ultimately show ?case
    using Cons.IH [OF Cons.prems, of e1] by (simp add: r)
qed simp

lemma record_end_stores:
  "outside_works h db \<Longrightarrow> db (rec_world (record_end h c i qs rs e))
     = db (rec_world e) @ filter (passes c) (concat (map (run_effects i qs) rs))"
  by (induction rs arbitrary: e) (simp_all add: record_run_stores)

text \<open>The invariant: of the requests for the first \<open>k\<close> results everything has been stored, of the later ones
  everything but the points. They are the results that were recorded after the cancellation.\<close>

definition stored_queries :: "'w rec_host \<Rightarrow> run_info \<Rightarrow> recorder list \<Rightarrow> nat \<Rightarrow> query_result list \<Rightarrow> effect list" where
  "stored_queries h i rs k qs = query_trace h i rs (take k qs)
     @ filter (passes True) (query_trace h i (after_all h (take k qs) rs) (drop k qs))"

definition store_inv ::
  "'w rec_host \<Rightarrow> ('w \<Rightarrow> effect list) \<Rightarrow> run_info \<Rightarrow> recorder list \<Rightarrow> effect list \<Rightarrow> 'w main_state \<Rightarrow> bool" where
  "store_inv h db i0 rs0 d0 s \<longleftrightarrow>
     (\<exists>k \<le> length (received s). (\<not> aborted s \<longrightarrow> k = length (received s))
        \<and> db (rec_world (rec_env s)) = d0 @ stored_queries h i0 rs0 k (received s)
            @ (if returned s = None then []
               else filter (passes (aborted s)) (concat (map (run_effects (info s) (received s)) (recorders s)))))"

lemma stored_queries_all: "stored_queries h i rs (length qs) qs = query_trace h i rs qs"
  by (simp add: stored_queries_def)

lemma stored_queries_snoc:
  assumes "k \<le> length qs"
  shows "stored_queries h i rs k (qs @ [q])
    = stored_queries h i rs k qs @ filter (passes True) (concat (map (query_effects i q) (after_all h qs rs)))"
proof -
  have "after_all h (drop k qs) (after_all h (take k qs) rs) = after_all h qs rs"
    by (simp add: after_all_def comp_def fold_append [symmetric, THEN fun_cong, simplified]
        flip: fold_append) (metis append_take_drop_id comp_apply fold_append)
  then show ?thesis
    using assms by (simp add: stored_queries_def query_trace_snoc)
qed

lemma receive_stores:
  assumes "outside_works h db" and inv: "main_inv h i0 rs0 es0 s" and "returned s = None"
    and "store_inv h db i0 rs0 d0 s"
  shows "store_inv h db i0 rs0 d0 (receive h s)"
proof (cases "channel s")
  case Nil
  with assms(4) show ?thesis by (simp add: receive_def)
next
  case (Cons q ch)
  let ?new = "concat (map (query_effects i0 q) (after_all h (received s) rs0))"
  obtain b where i: "info s = i0\<lparr>info_seed_used := b, info_finish := zero_time\<rparr>"
    using main_inv_info [OF inv assms(3)] by blast
  obtain rs e where rec: "record_all h (aborted s) (info s) q (recorders s) (rec_env s) = (rs, e)" by fastforce
  have rs0: "recorders s = after_all h (received s) rs0" using inv by (simp add: main_inv_def)
  have e: "db (rec_world e) = db (rec_world (rec_env s)) @ filter (passes (aborted s)) ?new"
    using record_all_stores [OF assms(1), of "aborted s" "info s" q "recorders s" "rec_env s"] rec rs0 by (simp add: i)
  have r: "receive h s = s\<lparr>channel := ch, received := received s @ [q], recorders := rs, rec_env := e\<rparr>"
    by (simp add: receive_def Cons rec)
  obtain k where k: "k \<le> length (received s)" "\<not> aborted s \<longrightarrow> k = length (received s)"
    and d: "db (rec_world (rec_env s)) = d0 @ stored_queries h i0 rs0 k (received s)"
    using assms(3,4) by (auto simp: store_inv_def)
  show ?thesis
  proof (cases "aborted s")
    case True
    then show ?thesis
      unfolding store_inv_def r using k d e assms(3)
      by (intro exI [of _ k]) (simp add: stored_queries_snoc)
  next
    case False
    have all: "filter (passes False) es = es" for es
      by (rule filter_True) (metis passes.elims(3))
    from False k d have "db (rec_world e) = d0 @ stored_queries h i0 rs0 (length (received s @ [q])) (received s @ [q])"
      unfolding stored_queries_all using e by (simp add: all stored_queries_all query_trace_snoc)
    with False assms(3) show ?thesis
      unfolding store_inv_def r by (intro exI [of _ "Suc (length (received s))"]) simp
  qed
qed

lemma drain_stores:
  assumes "outside_works h db" and "main_inv h i0 rs0 es0 s" and "returned s = None" and "store_inv h db i0 rs0 d0 s"
  shows "store_inv h db i0 rs0 d0 ((receive h ^^ n) s)"
proof (induction n)
  case (Suc n)
  then show ?case
    using receive_stores [OF assms(1), of i0 rs0 es0 "(receive h ^^ n) s" d0] drain_inv [OF assms(2,3), of n] by simp
qed (simp add: assms(4))

lemma leave_stores:
  assumes "outside_works h db" and "main_inv h i0 rs0 es0 s" and "returned s = None" and "store_inv h db i0 rs0 d0 s"
  shows "store_inv h db i0 rs0 d0 (leave h s)"
proof -
  let ?s = "drain_channel h s"
  have inv: "store_inv h db i0 rs0 d0 ?s" "returned ?s = None"
    using drain_stores [OF assms, of "length (channel s)"] drain_inv [OF assms(2,3), of "length (channel s)"]
    by (simp_all add: drain_channel_def)
  then show ?thesis
    by (auto simp: store_inv_def leave_def Let_def record_end_stores [OF assms(1)])
qed

lemma main_step_stores:
  assumes "main_step h s t" and "outside_works h db" and "main_inv h i0 rs0 es0 s" and "store_inv h db i0 rs0 d0 s"
  shows "store_inv h db i0 rs0 d0 t"
  using assms(1)
proof (cases rule: main_step.cases)
  case result
  then show ?thesis using receive_stores [OF assms(2,3) _ assms(4)] by simp
next
  case exit
  then show ?thesis using leave_stores [OF assms(2,3) _ assms(4)] by simp
next
  case send
  then show ?thesis using assms(3,4) by (auto simp: store_inv_def main_inv_def split: option.splits)
qed (use assms(3,4) in \<open>auto simp: store_inv_def main_inv_def split: option.splits\<close>)

lemma main_reaches_stores:
  "main_reaches h s t \<Longrightarrow> outside_works h db \<Longrightarrow> main_inv h i0 rs0 es0 s \<Longrightarrow> store_inv h db i0 rs0 d0 s \<Longrightarrow>
     store_inv h db i0 rs0 d0 t"
  by (induction rule: main_reaches.induct) (blast intro: main_step_stores main_reaches_inv)+

lemma main_loop_stores:
  assumes "main_reaches h (main_start i rs e) s" and "outside_works h db" and "returned s = Some c"
  shows "\<exists>k \<le> length (sent_results s). (\<not> aborted s \<longrightarrow> k = length (sent_results s))
    \<and> db (rec_world (rec_env s)) = db (rec_world e) @ stored_queries h i rs k (sent_results s)
        @ filter (passes (aborted s)) (concat (map (run_effects (info s) (sent_results s)) (after_all h (sent_results s) rs)))"
proof -
  have "store_inv h db i rs (db (rec_world e)) (main_start i rs e)"
    by (simp add: store_inv_def main_start_def stored_queries_def)
  from main_reaches_stores [OF assms(1,2) main_start_inv this] assms(3) show ?thesis
    using main_loop_inv [OF assms(1,3)] by (simp add: store_inv_def)
qed

text \<open>The statements and the points among the requests.\<close>

lemma after_all_kind:
  "filter is_mysql (after_all h qs rs) = after_all h qs (filter is_mysql rs)"
  "filter is_influx (after_all h qs rs) = after_all h qs (filter is_influx rs)"
proof -
  have "is_mysql (fold (after_query h) qs r) = is_mysql r" "is_influx (fold (after_query h) qs r) = is_influx r" for r
    by (induction qs arbitrary: r) simp_all
  then show "filter is_mysql (after_all h qs rs) = after_all h qs (filter is_mysql rs)"
    "filter is_influx (after_all h qs rs) = after_all h qs (filter is_influx rs)"
    by (simp_all add: after_all_def filter_map comp_def)
qed

lemma concat_kind:
  "filter is_sql (concat (map (query_effects i q) rs)) = concat (map (query_effects i q) (filter is_mysql rs))"
  "filter is_point (concat (map (query_effects i q) rs)) = concat (map (query_effects i q) (filter is_influx rs))"
  "filter is_sql (concat (map (run_effects i qs) rs)) = concat (map (run_effects i qs) (filter is_mysql rs))"
  "filter is_point (concat (map (run_effects i qs) rs)) = concat (map (run_effects i qs) (filter is_influx rs))"
  by (induction rs; simp add: effects_by_kind)+

lemma query_trace_kind:
  "filter is_sql (query_trace h i rs qs) = query_trace h i (filter is_mysql rs) qs"
  "filter is_point (query_trace h i rs qs) = query_trace h i (filter is_influx rs) qs"
  by (induction qs arbitrary: rs; simp add: concat_kind filter_map comp_def)+

lemma query_trace_influx:
  "query_trace h i [InfluxRecorder c] qs = map (Point \<circ> query_point i) qs"
  by (induction qs arbitrary: c) simp_all

lemma query_trace_mysql:
  "query_trace h i [MySqlRecorder m] qs = concat (map (\<lambda>k. query_effects i (qs ! k) (MySqlRecorder (fold mysql_count (take k qs) m)))
     [0..<length qs])"
proof (induction qs rule: rev_induct)
  case (snoc q qs)
  have "map (\<lambda>k. query_effects i ((qs @ [q]) ! k) (MySqlRecorder (fold mysql_count (take k (qs @ [q])) m))) [0..<length qs]
      = map (\<lambda>k. query_effects i (qs ! k) (MySqlRecorder (fold mysql_count (take k qs) m))) [0..<length qs]"
    by (rule map_cong) (simp_all add: nth_append)
  moreover have "query_trace h i [MySqlRecorder m] (qs @ [q])
      = query_trace h i [MySqlRecorder m] qs @ query_effects i q (MySqlRecorder (fold mysql_count qs m))"
    by (simp only: query_trace_snoc) (simp only: after_all_def after_queries_mysql list.map concat.simps append_Nil2)
  moreover have "[0..<length (qs @ [q])] = [0..<length qs] @ [length qs]" by simp
  ultimately show ?case
    unfolding snoc by (simp only: map_append concat_append) simp
qed simp

lemma stored_sql: "filter is_sql (stored_queries h i rs k qs) = query_trace h i (filter is_mysql rs) qs"
proof -
  have "query_trace h i (filter is_mysql rs) (take k qs @ drop k qs)
      = query_trace h i (filter is_mysql rs) (take k qs)
        @ query_trace h i (after_all h (take k qs) (filter is_mysql rs)) (drop k qs)"
    by (rule query_trace_append)
  then show ?thesis
    unfolding stored_queries_def filter_append passes_kinds query_trace_kind after_all_kind append_take_drop_id by simp
qed

lemma stored_points: "filter is_point (stored_queries h i rs k qs) = query_trace h i (filter is_influx rs) (take k qs)"
  unfolding stored_queries_def filter_append passes_kinds query_trace_kind by simp

lemma mysql_counts:
  "fold mysql_count qs \<lparr>run_id = n, my_failed = 0, my_mismatch = 0\<rparr> = \<lparr>run_id = n, my_failed = failures qs, my_mismatch = mismatches qs\<rparr>"
  by (rule mysql_recorder.equality) (simp_all add: mysql_counts_run my.failed_fold my.mismatch_fold failures_def mismatches_def)

lemma influx_counts:
  "fold influx_count qs \<lparr>influx_failed = 0, influx_mismatch = 0\<rparr> = \<lparr>influx_failed = failures qs, influx_mismatch = mismatches qs\<rparr>"
  by (rule influx_recorder.equality) (simp_all add: influx.failed_fold influx.mismatch_fold failures_def mismatches_def)

lemma mysql_query_effects:
  assumes "k < length qs"
  shows "query_effects i (qs ! k) (MySqlRecorder (fold mysql_count (take k qs) \<lparr>run_id = n, my_failed = 0, my_mismatch = 0\<rparr>)) =
     [Sql (InsertQuery n (mysql_row (qs ! k))),
      Sql (UpdateRun (info_start i) (failures (take (Suc k) qs)) (mismatches (take (Suc k) qs)) n)]"
proof -
  let ?m = "\<lparr>run_id = n, my_failed = 0, my_mismatch = 0\<rparr>"
  have "mysql_count (qs ! k) (fold mysql_count (take k qs) ?m) = fold mysql_count (take (Suc k) qs) ?m"
    using assms by (simp add: take_Suc_conv_app_nth)
  then show ?thesis by (simp add: mysql_counts)
qed

text \<open>C14: What a run leaves in the databases, if they are up. In MySQL every result is inserted, once and in the
  order in which it was sent, and after the \<open>k\<close>-th result the run is updated with the numbers of failed and
  mismatched results among the first \<open>k\<close>, the last of which are the totals; then the run is completed.
  This holds also for a run that was aborted. InfluxDB has a point for each of the first results, up to one;
  if the run was not aborted, for all of them, and a point for the run with the same totals as in MySQL. A run that
  was aborted by an error or a signal has no point of its own, and none for the results after the abort.\<close>

theorem run_totals:
  assumes "main_reaches h (main_start i rs e) s" and "returned s = Some c" and "outside_works h db"
    and "filter is_mysql rs = [MySqlRecorder \<lparr>run_id = n, my_failed = 0, my_mismatch = 0\<rparr>]"
    and "filter is_influx rs = [InfluxRecorder \<lparr>influx_failed = 0, influx_mismatch = 0\<rparr>]"
  shows "filter is_sql (db (rec_world (rec_env s))) = filter is_sql (db (rec_world e))
      @ concat (map (\<lambda>k. [Sql (InsertQuery n (mysql_row (sent_results s ! k))),
            Sql (UpdateRun (info_start i) (failures (take (Suc k) (sent_results s))) (mismatches (take (Suc k) (sent_results s))) n)])
          [0..<length (sent_results s)])
      @ [Sql (CompleteRun (info_start i) (milliseconds (time_sub (latest zero_time (sent_results s)) (info_start i)))
            (if info_seed_used (info s) then Some (info_seed i) else None) n)]
    \<and> (\<exists>k \<le> length (sent_results s). (\<not> aborted s \<longrightarrow> k = length (sent_results s))
      \<and> filter is_point (db (rec_world (rec_env s))) = filter is_point (db (rec_world e))
          @ map (Point \<circ> query_point i) (take k (sent_results s))
          @ (if aborted s then []
             else [Point (run_point (info s) (length (sent_results s))
               \<lparr>influx_failed = failures (sent_results s), influx_mismatch = mismatches (sent_results s)\<rparr>)]))"
proof -
  let ?qs = "sent_results s"
  obtain k where k: "k \<le> length ?qs" "\<not> aborted s \<longrightarrow> k = length ?qs"
    and d: "db (rec_world (rec_env s)) = db (rec_world e) @ stored_queries h i rs k ?qs
        @ filter (passes (aborted s)) (concat (map (run_effects (info s) ?qs) (after_all h ?qs rs)))"
    using main_loop_stores [OF assms(1,3,2)] by blast
  have "info s = i\<lparr>info_seed_used := info_seed_used (info s), info_finish := latest zero_time ?qs\<rparr>"
    using main_loop_inv [OF assms(1,2)] by blast
  then obtain b where i: "info s = i\<lparr>info_seed_used := b, info_finish := latest zero_time ?qs\<rparr>" by blast
  have sql: "query_trace h i (filter is_mysql rs) ?qs = concat (map (\<lambda>k. [Sql (InsertQuery n (mysql_row (?qs ! k))),
            Sql (UpdateRun (info_start i) (failures (take (Suc k) ?qs)) (mismatches (take (Suc k) ?qs)) n)]) [0..<length ?qs])"
    unfolding assms(4) query_trace_mysql by (intro arg_cong [where f = concat] map_cong) (simp_all only: mysql_query_effects set_upt atLeastLessThan_iff)
  have sql_end: "filter is_sql (concat (map (run_effects (info s) ?qs) (after_all h ?qs rs)))
      = [Sql (CompleteRun (info_start i) (milliseconds (time_sub (latest zero_time ?qs) (info_start i)))
          (if info_seed_used (info s) then Some (info_seed i) else None) n)]"
    unfolding concat_kind after_all_kind assms(4) by (simp add: after_all_def after_queries_mysql mysql_counts i)
  have point: "query_trace h i (filter is_influx rs) (take k ?qs) = map (Point \<circ> query_point i) (take k ?qs)"
    unfolding assms(5) by (rule query_trace_influx)
  have point_end: "filter is_point (concat (map (run_effects (info s) ?qs) (after_all h ?qs rs)))
      = [Point (run_point (info s) (length ?qs) \<lparr>influx_failed = failures ?qs, influx_mismatch = mismatches ?qs\<rparr>)]"
    unfolding concat_kind after_all_kind assms(5) by (simp add: after_all_def after_queries_influx influx_counts)
  have "filter is_sql (db (rec_world (rec_env s))) = filter is_sql (db (rec_world e)) @ query_trace h i (filter is_mysql rs) ?qs
      @ filter is_sql (concat (map (run_effects (info s) ?qs) (after_all h ?qs rs)))"
    unfolding d filter_append passes_kinds stored_sql ..
  moreover have "filter is_point (db (rec_world (rec_env s))) = filter is_point (db (rec_world e))
      @ query_trace h i (filter is_influx rs) (take k ?qs)
      @ (if aborted s then [] else filter is_point (concat (map (run_effects (info s) ?qs) (after_all h ?qs rs))))"
    unfolding d filter_append passes_kinds stored_points ..
  ultimately show ?thesis
    unfolding sql sql_end point point_end using k by blast
qed

text \<open>A run without any result keeps the zero time as its finish time, and its duration is the least
  one that \<open>Sub\<close> can return: about minus 292 years.\<close>

lemma empty_run_duration:
  "0 \<le> info_start i \<Longrightarrow> milliseconds (time_sub (latest zero_time []) (info_start i)) = - 9223372036854"
  by (simp add: time_sub_def zero_time_def milliseconds_def)

section \<open>Examples\<close>

text \<open>Two queries, the first of which failed and returned fewer rows than expected.\<close>

definition demo_rec_host :: "unit rec_host" where
  "demo_rec_host =
     \<lparr>exec_sql = \<lambda>_ w. (SqlDone (None, 5) (None, 1), w), write_point = \<lambda>c _ w. (if c then Some ''context canceled'' else None, w),
      write_file = \<lambda>_ _ w. (None, w), list_stacks = \<lambda>w. (None, w), export_stack = \<lambda>_ w. (None, w), now = \<lambda>w. (0, w),
      format_time = itoa, format_seconds = itoa\<rparr>"

definition demo_result :: "nat \<Rightarrow> go_error option \<Rightarrow> query_result" where
  "demo_result n er =
     \<lparr>StageId = ''main'', Query = \<lparr>Text = ''select 1'', File = Some ''a,b.sql'', Index = n, BatchSize = 2, ColdRun = False,
        SequenceNo = 0, ExpectedRowCount = 1\<rparr>, QueryId = ''q'', InfoUrl = ''http://h'', QueryError = er,
      RowCount = (if er = None then 1 else 0), StartTime = 10, EndTime = Some (20 + int n), Duration = Some 10\<rparr>"

definition demo_results :: "query_result list" where
  "demo_results = [demo_result 0 (Some (Plain ''boom'')), demo_result 1 None]"

definition demo_info :: run_info where
  "demo_info =
     \<lparr>info_name = ''run'', info_comment = [], info_fqdn = ''h'', info_seed = 1, info_seed_used = False, info_start = 0,
      info_finish = zero_time, info_path = ''out'', info_stage = ''main''\<rparr>"

definition demo_recorders :: "recorder list" where
  "demo_recorders =
     [FileRecorder (csv_record csv_header), MySqlRecorder \<lparr>run_id = 5, my_failed = 0, my_mismatch = 0\<rparr>,
      InfluxRecorder \<lparr>influx_failed = 0, influx_mismatch = 0\<rparr>]"

definition demo_sent :: "unit main_state" where
  "demo_sent = (main_start demo_info demo_recorders \<lparr>rec_world = (), effects = []\<rparr>)
     \<lparr>channel := demo_results, sent_results := demo_results, closed := True\<rparr>"

definition demo_end :: "unit main_state" where
  "demo_end = leave demo_rec_host demo_sent"

lemma demo_reaches: "main_reaches demo_rec_host (main_start demo_info demo_recorders \<lparr>rec_world = (), effects = []\<rparr>) demo_end"
proof -
  let ?s0 = "main_start demo_info demo_recorders \<lparr>rec_world = (), effects = []\<rparr>"
  let ?s1 = "?s0\<lparr>channel := channel ?s0 @ [demo_result 0 (Some (Plain ''boom''))],
    sent_results := sent_results ?s0 @ [demo_result 0 (Some (Plain ''boom''))]\<rparr>"
  let ?s2 = "?s1\<lparr>channel := channel ?s1 @ [demo_result 1 None], sent_results := sent_results ?s1 @ [demo_result 1 None]\<rparr>"
  have "main_step demo_rec_host ?s0 ?s1" by (rule main_step.send) (simp_all add: main_start_def)
  moreover have "main_step demo_rec_host ?s1 ?s2" by (rule main_step.send) (simp_all add: main_start_def)
  moreover have "main_step demo_rec_host ?s2 (?s2\<lparr>closed := True\<rparr>)" by (rule main_step.all_done) (simp add: main_start_def)
  ultimately have "main_reaches demo_rec_host ?s0 (?s2\<lparr>closed := True\<rparr>)"
    by (meson main_reaches.here main_reaches.later)
  also have "?s2\<lparr>closed := True\<rparr> = demo_sent"
    by (simp add: demo_sent_def demo_results_def main_start_def)
  finally have sent: "main_reaches demo_rec_host ?s0 demo_sent" .
  have "main_step demo_rec_host demo_sent demo_end"
    unfolding demo_end_def by (rule main_step.exit) (simp_all add: demo_sent_def main_start_def)
  with sent show ?thesis by (rule main_reaches.later)
qed

lemma demo_returned: "returned demo_end = Some 0" "sent_results demo_end = demo_results"
proof -
  have "exit_status ((receive h ^^ n) s) = exit_status s \<and> sent_results ((receive h ^^ n) s) = sent_results s"
    for h :: "unit rec_host" and n s
    by (induction n) simp_all
  then show "returned demo_end = Some 0" "sent_results demo_end = demo_results"
    by (simp_all add: demo_end_def leave_def Let_def drain_channel_def, simp_all add: demo_sent_def main_start_def)
qed

lemma demo_latest: "latest zero_time demo_results = 21"
  by (simp add: demo_results_def demo_result_def zero_time_def)

lemma demo_summary_path: "path_join (info_path demo_info) (info_stage demo_info @ ''_summary.csv'') = ''out/main_summary.csv''"
  by code_simp

theorem main_loop_records_witness: "received demo_end = demo_results \<and> info_finish (info demo_end) = 21"
proof -
  note run = main_loop_records [OF demo_reaches demo_returned(1), unfolded demo_returned(2)]
  then have "info demo_end = demo_info\<lparr>info_seed_used := info_seed_used (info demo_end), info_finish := latest zero_time demo_results\<rparr>"
    by blast
  from arg_cong [OF this, of info_finish] have "info_finish (info demo_end) = 21"
    by (simp add: demo_latest)
  with run show ?thesis by blast
qed

theorem main_loop_returns_witness: "steps_left demo_sent = 3 \<and> (\<exists>t. main_step demo_rec_host demo_sent t \<and> steps_left t < 3)"
proof -
  have "closed demo_sent" "returned demo_sent = None" "steps_left demo_sent = 3"
    by (simp_all add: demo_sent_def main_start_def steps_left_def demo_results_def)
  with main_loop_returns [of demo_sent demo_rec_host] show ?thesis by metis
qed

theorem summary_file_witness:
  "\<exists>content. WroteFile ''out/main_summary.csv'' content \<in> set (effects (rec_env demo_end))
    \<and> csv_read content = csv_header # map (csv_row demo_rec_host) demo_results"
proof -
  have "FileRecorder (csv_record csv_header) \<in> set demo_recorders"
    by (simp add: demo_recorders_def)
  from summary_file [OF demo_reaches demo_returned(1) this] demo_summary_path show ?thesis
    unfolding demo_returned(2) by simp
qed

lemma leave_keeps:
  "returned (leave h s) = Some (exit_status s) \<and> sent_results (leave h s) = sent_results s \<and> aborted (leave h s) = aborted s
   \<and> info_seed_used (info (leave h s)) = info_seed_used (info s)"
proof -
  have "exit_status ((receive h ^^ n) s) = exit_status s \<and> sent_results ((receive h ^^ n) s) = sent_results s
      \<and> aborted ((receive h ^^ n) s) = aborted s \<and> info ((receive h ^^ n) s) = info s" for n
    by (induction n) simp_all
  then show ?thesis by (simp add: leave_def Let_def drain_channel_def)
qed

text \<open>A database that stores what it is sent, and a run of two queries.\<close>

definition demo_db_host :: "effect list rec_host" where
  "demo_db_host =
     \<lparr>exec_sql = \<lambda>q w. (SqlDone (None, 5) (None, 1), w @ [Sql q]),
      write_point = \<lambda>c p w. (if c then (Some ''context canceled'', w) else (None, w @ [Point p])),
      write_file = \<lambda>f x w. (None, w @ [WroteFile f x]), list_stacks = \<lambda>w. (None, w), export_stack = \<lambda>_ w. (None, w),
      now = \<lambda>w. (0, w), format_time = itoa, format_seconds = itoa\<rparr>"

lemma demo_db_works: "outside_works demo_db_host (\<lambda>w. w)"
  by (simp add: outside_works_def demo_db_host_def)

definition demo_db_start :: "effect list main_state" where
  "demo_db_start = main_start demo_info demo_recorders \<lparr>rec_world = [], effects = []\<rparr>"

lemma demo_send:
  "main_reaches h s t \<Longrightarrow> \<not> closed t \<Longrightarrow> length (channel t) < 16 \<Longrightarrow>
     main_reaches h s (t\<lparr>channel := channel t @ [q], sent_results := sent_results t @ [q]\<rparr>)"
  by (rule main_reaches.later [OF _ main_step.send])

theorem run_totals_witness:
  "\<exists>s. main_reaches demo_db_host demo_db_start s \<and> returned s = Some 0 \<and> sent_results s = demo_results \<and> \<not> aborted s
    \<and> filter is_sql (rec_world (rec_env s)) =
        [Sql (InsertQuery 5 (mysql_row (demo_results ! 0))), Sql (UpdateRun 0 1 1 5),
         Sql (InsertQuery 5 (mysql_row (demo_results ! 1))), Sql (UpdateRun 0 1 1 5), Sql (CompleteRun 0 0 None 5)]
    \<and> length (filter is_point (rec_world (rec_env s))) = 3"
proof -
  let ?q0 = "demo_result 0 (Some (Plain ''boom''))" and ?q1 = "demo_result 1 None"
  let ?s2 = "demo_db_start\<lparr>channel := demo_results, sent_results := demo_results, closed := True\<rparr>"
  let ?s = "leave demo_db_host ?s2"
  have "main_reaches demo_db_host demo_db_start (demo_db_start\<lparr>channel := [?q0], sent_results := [?q0]\<rparr>)"
    using demo_send [OF main_reaches.here, of demo_db_start demo_db_host ?q0] by (simp add: demo_db_start_def main_start_def)
  from demo_send [OF this, of ?q1]
  have "main_reaches demo_db_host demo_db_start (demo_db_start\<lparr>channel := demo_results, sent_results := demo_results\<rparr>)"
    by (simp add: demo_db_start_def main_start_def demo_results_def)
  then have "main_reaches demo_db_host demo_db_start ?s2"
    using main_reaches.later [OF _ main_step.all_done] by (fastforce simp: demo_db_start_def main_start_def)
  then have reach: "main_reaches demo_db_host demo_db_start ?s"
    by (rule main_reaches.later [OF _ main_step.exit]) (simp_all add: demo_db_start_def main_start_def)
  have "returned ?s = Some 0 \<and> sent_results ?s = demo_results \<and> \<not> aborted ?s \<and> \<not> info_seed_used (info ?s)"
    using leave_keeps [of demo_db_host ?s2] by (simp add: demo_db_start_def main_start_def demo_info_def)
  then have s: "returned ?s = Some 0" "sent_results ?s = demo_results" "\<not> aborted ?s" "\<not> info_seed_used (info ?s)"
    by simp_all
  have r: "filter is_mysql demo_recorders = [MySqlRecorder \<lparr>run_id = 5, my_failed = 0, my_mismatch = 0\<rparr>]"
    "filter is_influx demo_recorders = [InfluxRecorder \<lparr>influx_failed = 0, influx_mismatch = 0\<rparr>]"
    by (simp_all add: demo_recorders_def)
  note t = run_totals [OF reach [unfolded demo_db_start_def] s(1) [unfolded demo_db_start_def] demo_db_works r,
      folded demo_db_start_def, unfolded s(2)]
  have n: "length demo_results = 2" "[0..<2] = [0, 1]" by (simp_all add: demo_results_def upt_rec)
  have c: "failures (take (Suc 0) demo_results) = 1" "mismatches (take (Suc 0) demo_results) = 1"
    "failures (take (Suc (Suc 0)) demo_results) = 1" "mismatches (take (Suc (Suc 0)) demo_results) = 1"
    "milliseconds (time_sub (latest zero_time demo_results) 0) = 0" "info_start demo_info = 0"
    by (simp_all add: demo_results_def demo_result_def failures_def mismatches_def mismatched_def zero_time_def milliseconds_def
        time_sub_def demo_info_def)
  have "filter is_sql (rec_world (rec_env ?s)) =
        [Sql (InsertQuery 5 (mysql_row (demo_results ! 0))), Sql (UpdateRun 0 1 1 5),
         Sql (InsertQuery 5 (mysql_row (demo_results ! 1))), Sql (UpdateRun 0 1 1 5), Sql (CompleteRun 0 0 None 5)]"
    using t s(4) unfolding n by (simp add: c)
  moreover have "length (filter is_point (rec_world (rec_env ?s))) = 3"
    using t s(3) unfolding n by (auto simp: n)
  ultimately show ?thesis using reach s by blast
qed

end
