(* ===== verification/WholeRun.thy ===== *)
theory WholeRun
  imports StageRun StageMain
begin

text \<open>
  The whole of a run: the goroutines of the stages (\<open>StageRun\<close>) and the main goroutine with its
  recorders (\<open>StageMain\<close>) in one system. They share the cancellable context, the counter
  \<open>wgExitMainStage\<close>, the channel \<open>resultChan\<close>, the exit code and the flag of the random seed. The
  goroutine that \<open>Run\<close> starts first waits for the counter and closes \<open>timeToExit\<close>. What \<open>StageMain\<close>
  leaves open - who sends results, and when the channel is closed - is determined here, and what
  \<open>StageRun\<close> leaves open - what cancels the context from outside - too.
\<close>

section \<open>The system\<close>

text \<open>\<open>senders\<close> remembers the stage that sent each result, in the order of the sending.\<close>

record ('c, 'w) whole =
  graph_run :: "'c run_state"
  main_loop :: "'w main_state"
  senders :: "string list"

text \<open>
  The steps. A stage sends results, uses the random seed and sets the exit code only between its
  \<open>select\<close> and the end of its function body. A step of a stage may cancel the context that the
  recorders use. The channel \<open>timeToExit\<close> is closed when the counter is zero. A signal is delivered
  as long as \<open>timeToExit\<close> is not closed; the main goroutine answers by cancelling the context.
\<close>

inductive whole_step :: "'c client_api \<Rightarrow> 'w rec_host \<Rightarrow> ('c, 'w) whole \<Rightarrow> ('c, 'w) whole \<Rightarrow> bool" for api h where
  stage_moves: "run_step api (graph_run s) \<tau> \<Longrightarrow>
     whole_step api h s (s\<lparr>graph_run := \<tau>, main_loop := (main_loop s)\<lparr>aborted := cancelled \<tau>\<rparr>\<rparr>)"
| sends: "\<lbrakk>phase_of (graph_run s) n = Executing k; length (channel (main_loop s)) < 16\<rbrakk> \<Longrightarrow>
     whole_step api h s (s\<lparr>main_loop := (main_loop s)\<lparr>channel := channel (main_loop s) @ [q],
       sent_results := sent_results (main_loop s) @ [q]\<rparr>, senders := senders s @ [n]\<rparr>)"
| seeds: "phase_of (graph_run s) n = Executing k \<Longrightarrow>
     whole_step api h s (s\<lparr>main_loop := (main_loop s)\<lparr>info := (info (main_loop s))\<lparr>info_seed_used := True\<rparr>\<rparr>\<rparr>)"
| sets_exit: "\<lbrakk>phase_of (graph_run s) n = Executing k; exit_status (main_loop s) = 0\<rbrakk> \<Longrightarrow>
     whole_step api h s (s\<lparr>main_loop := (main_loop s)\<lparr>exit_status := c\<rparr>\<rparr>)"
| signal_comes: "\<not> closed (main_loop s) \<Longrightarrow>
     whole_step api h s (s\<lparr>main_loop := (main_loop s)\<lparr>pending := True\<rparr>\<rparr>)"
| closes: "\<lbrakk>\<not> closed (main_loop s); exit_wg (graph_run s) = 0\<rbrakk> \<Longrightarrow>
     whole_step api h s (s\<lparr>main_loop := (main_loop s)\<lparr>closed := True\<rparr>\<rparr>)"
| receives: "\<lbrakk>returned (main_loop s) = None; channel (main_loop s) \<noteq> []\<rbrakk> \<Longrightarrow>
     whole_step api h s (s\<lparr>main_loop := receive h (main_loop s)\<rparr>)"
| handles: "\<lbrakk>returned (main_loop s) = None; pending (main_loop s)\<rbrakk> \<Longrightarrow>
     whole_step api h s (s\<lparr>graph_run := (graph_run s)\<lparr>cancelled := True\<rparr>,
       main_loop := (main_loop s)\<lparr>pending := False, aborted := True\<rparr>\<rparr>)"
| leaves: "\<lbrakk>returned (main_loop s) = None; closed (main_loop s); \<not> pending (main_loop s)\<rbrakk> \<Longrightarrow>
     whole_step api h s (s\<lparr>main_loop := leave h (main_loop s)\<rparr>)"

definition whole_start :: "'c stages \<Rightarrow> 'c option \<Rightarrow> string \<Rightarrow> run_info \<Rightarrow> recorder list \<Rightarrow> 'w rec_env \<Rightarrow> ('c, 'w) whole" where
  "whole_start st nc main i rs e =
     \<lparr>graph_run = start_run st nc main, main_loop = main_start i rs e, senders = []\<rparr>"

inductive whole_reaches :: "'c client_api \<Rightarrow> 'w rec_host \<Rightarrow> ('c, 'w) whole \<Rightarrow> ('c, 'w) whole \<Rightarrow> bool" for api h where
  at_start: "whole_reaches api h s s"
| one_more: "whole_reaches api h s t \<Longrightarrow> whole_step api h t u \<Longrightarrow> whole_reaches api h s u"

inductive_cases whole_stepE: "whole_step api h s t"

section \<open>The two parts\<close>

text \<open>What holds throughout: each part makes only steps of its own relation; they agree on the context;
  the channel \<open>timeToExit\<close> is closed only when all goroutines have ended.\<close>

definition parts_ok :: "'c client_api \<Rightarrow> 'w rec_host \<Rightarrow> ('c, 'w) whole \<Rightarrow> ('c, 'w) whole \<Rightarrow> bool" where
  "parts_ok api h s0 s \<longleftrightarrow> reaches api (graph_run s0) (graph_run s) \<and> main_reaches h (main_loop s0) (main_loop s)
     \<and> aborted (main_loop s) = cancelled (graph_run s)
     \<and> (closed (main_loop s) \<longrightarrow> exit_wg (graph_run s) = 0)"

lemma step_cancelled: "run_step api \<sigma> \<tau> \<Longrightarrow> cancelled \<sigma> \<Longrightarrow> cancelled \<tau>"
  by (induction rule: run_step.induct) simp_all

lemma main_abort:
  assumes "\<not> closed m" and "aborted m \<longrightarrow> b" and "main_reaches h m0 m"
  shows "main_reaches h m0 (m\<lparr>aborted := b\<rparr>)"
proof (cases "b = aborted m")
  case True
  with assms(3) show ?thesis by simp
next
  case False
  with assms(2) have "b = True" by blast
  with main_reaches.later [OF assms(3) main_step.abort [OF assms(1)]] show ?thesis by simp
qed

lemma leave_aborted [simp]: "aborted (leave h m) = aborted m"
proof -
  have "aborted ((receive h ^^ n) m) = aborted m" for n by (induction n) simp_all
  then show ?thesis by (simp add: leave_def drain_channel_def Let_def)
qed

text \<open>No stage executes and none moves once the channel is closed.\<close>

lemma closed_quiet:
  assumes "run_graph st main" and "run_inv st main \<sigma>" and "exit_wg \<sigma> = 0"
  shows "\<not> run_step api \<sigma> \<tau>" and "phase_of \<sigma> n \<noteq> Executing k"
  using stuck_at_zero [OF assms, of api] counter_zero [OF assms(1,2)] assms(3)
  by (auto simp: stuck_def dest: spec [of _ n])

lemma parts_ok_step:
  assumes g: "run_graph st main" and inv: "run_inv st main (graph_run s)"
    and ok: "parts_ok api h s0 s" and step: "whole_step api h s t"
  shows "parts_ok api h s0 t"
proof -
  note quiet = closed_quiet [OF g inv]
  have p: "reaches api (graph_run s0) (graph_run s)" "main_reaches h (main_loop s0) (main_loop s)"
    "aborted (main_loop s) = cancelled (graph_run s)" "closed (main_loop s) \<Longrightarrow> exit_wg (graph_run s) = 0"
    using ok by (simp_all add: parts_ok_def)
  have later: "main_step h (main_loop s) m \<Longrightarrow> main_reaches h (main_loop s0) m" for m
    by (rule main_reaches.later [OF p(2)])
  from step show ?thesis
  proof cases
    case (stage_moves \<tau>)
    have "\<not> closed (main_loop s)" using p(4) quiet(1) stage_moves(2) by blast
    moreover have "aborted (main_loop s) \<longrightarrow> cancelled \<tau>" using p(3) step_cancelled [OF stage_moves(2)] by simp
    ultimately have "main_reaches h (main_loop s0) ((main_loop s)\<lparr>aborted := cancelled \<tau>\<rparr>)"
      using p(2) by (rule main_abort)
    with reaches.step [OF p(1) stage_moves(2)] \<open>\<not> closed (main_loop s)\<close> show ?thesis
      by (simp add: parts_ok_def stage_moves(1))
  next
    case (sends n k q)
    have "\<not> closed (main_loop s)" using p(4) quiet(2) sends(2) by blast
    with later [OF main_step.send [of "main_loop s" h q]] p sends show ?thesis by (simp add: parts_ok_def)
  next
    case (seeds n k)
    have "\<not> closed (main_loop s)" using p(4) quiet(2) seeds(2) by blast
    with later [OF main_step.use_seed [of "main_loop s" h]] p seeds show ?thesis by (simp add: parts_ok_def)
  next
    case (sets_exit n k c)
    have "\<not> closed (main_loop s)" using p(4) quiet(2) sets_exit(2) by blast
    with later [OF main_step.set_exit [of "main_loop s" h c]] p sets_exit show ?thesis by (simp add: parts_ok_def)
  next
    case signal_comes
    with later [OF main_step.signalled [of "main_loop s" h]] p show ?thesis by (simp add: parts_ok_def)
  next
    case closes
    with later [OF main_step.all_done [of "main_loop s" h]] p show ?thesis by (simp add: parts_ok_def)
  next
    case receives
    with later [OF main_step.result [of "main_loop s" h]] p show ?thesis by (simp add: parts_ok_def)
  next
    case handles
    have "reaches api (graph_run s0) ((graph_run s)\<lparr>cancelled := True\<rparr>)"
    proof (cases "cancelled (graph_run s)")
      case True
      then have "(graph_run s)\<lparr>cancelled := True\<rparr> = graph_run s" by simp
      with p(1) show ?thesis by simp
    next
      case False
      then show ?thesis by (intro reaches.signalled [OF p(1)]) simp
    qed
    with later [OF main_step.handle [of "main_loop s" h]] p handles show ?thesis by (simp add: parts_ok_def)
  next
    case leaves
    with later [OF main_step.exit [of "main_loop s" h]] p show ?thesis by (simp add: parts_ok_def)
  qed
qed

lemma whole_parts:
  assumes "run_graph st main" and "whole_reaches api h (whole_start st nc main i rs e) s"
  shows "parts_ok api h (whole_start st nc main i rs e) s"
  using assms(2)
proof (induction "whole_start st nc main i rs e" s rule: whole_reaches.induct)
  case at_start
  show ?case
    by (simp add: parts_ok_def whole_start_def start_run_def main_start_def reaches.here main_reaches.here)
next
  case (one_more t u)
  then have "reaches api (start_run st nc main) (graph_run t)"
    by (simp add: parts_ok_def whole_start_def)
  from parts_ok_step [OF assms(1) reaches_inv [OF assms(1) this] one_more(2,3)] show ?case .
qed

text \<open>So everything that holds of each part alone holds in the whole.\<close>

lemma whole_graph:
  assumes "run_graph st main" and "whole_reaches api h (whole_start st nc main i rs e) s"
  shows "reaches api (start_run st nc main) (graph_run s)" and "main_reaches h (main_start i rs e) (main_loop s)"
    and "run_inv st main (graph_run s)" and "waited (graph_run s)"
    and "aborted (main_loop s) = cancelled (graph_run s)"
    and "closed (main_loop s) \<Longrightarrow> exit_wg (graph_run s) = 0"
  using whole_parts [OF assms] reaches_inv [OF assms(1)] reaches_waited [OF assms(1)]
  by (auto simp: parts_ok_def whole_start_def)

text \<open>Induction over the states of the whole, with what is known of the state before each step.\<close>

lemma whole_invariant [consumes 2, case_names start step]:
  assumes "run_graph st main" and "whole_reaches api h (whole_start st nc main i rs e) s"
    and "I (whole_start st nc main i rs e)"
    and "\<And>s t. run_inv st main (graph_run s) \<Longrightarrow> waited (graph_run s) \<Longrightarrow> I s \<Longrightarrow> whole_step api h s t \<Longrightarrow> I t"
  shows "I s"
  using assms(2)
proof (induction "whole_start st nc main i rs e" s rule: whole_reaches.induct)
  case at_start
  show ?case by (rule assms(3))
next
  case (one_more t u)
  show ?case
    using one_more(2) by (intro assms(4) [OF _ _ _ one_more(3)] whole_graph(3,4) [OF assms(1) one_more(1)])
qed

section \<open>The order of the results\<close>

text \<open>What is known of the stages that have sent results: they have been started, no stage that sent later
  is a direct predecessor of one that sent earlier, and none is an indirect one unless the context
  is cancelled.\<close>

definition sent_in_order :: "'c stages \<Rightarrow> ('c, 'w) whole \<Rightarrow> bool" where
  "sent_in_order st s \<longleftrightarrow> length (senders s) = length (sent_results (main_loop s))
     \<and> (\<forall>n \<in> set (senders s). 2 \<le> rank (phase_of (graph_run s) n) \<and> latch (stages (graph_run s)) n = 0)
     \<and> sorted_wrt (\<lambda>a b. \<not> edge st b a) (senders s)
     \<and> (\<not> cancelled (graph_run s) \<longrightarrow> sorted_wrt (\<lambda>a b. \<not> (edge st)\<^sup>+\<^sup>+ b a) (senders s))"

text \<open>A stage whose latch is zero has no predecessor that still executes.\<close>

lemma parents_past:
  assumes "run_graph st main" and "run_inv st main \<sigma>" and "latch (stages \<sigma>) m = 0" and "edge st p m"
  shows "3 \<le> rank (phase_of \<sigma> p)"
proof -
  have "m \<notin> set (to_unblock (nexts st p) (phase_of \<sigma> p))"
    using latch_zero [OF assms(1,2)] assms(3) by blast
  with assms(4) show ?thesis by (cases "phase_of \<sigma> p") (simp_all add: edge_def)
qed

text \<open>Without a cancellation this holds of the indirect predecessors, too.\<close>

lemma ancestors_past:
  assumes g: "run_graph st main" and inv: "run_inv st main \<sigma>" and w: "waited \<sigma>" and "\<not> cancelled \<sigma>"
    and "2 \<le> rank (phase_of \<sigma> m)" and "(edge st)\<^sup>+\<^sup>+ p m"
  shows "3 \<le> rank (phase_of \<sigma> p)"
  using assms(6,5)
proof (induction rule: converse_tranclp_induct)
  case (base p)
  then have "latch (stages \<sigma>) m = 0" using w assms(4) by (auto simp: waited_def)
  from parents_past [OF g inv this base(1)] show ?case .
next
  case (step p q)
  then have "2 \<le> rank (phase_of \<sigma> q)" by simp
  then have "latch (stages \<sigma>) q = 0" using w assms(4) by (auto simp: waited_def)
  from parents_past [OF g inv this step(1)] show ?case .
qed

lemma sent_in_order_send:
  assumes g: "run_graph st main" and inv: "run_inv st main (graph_run s)" and w: "waited (graph_run s)"
    and ok: "sent_in_order st s" and n: "phase_of (graph_run s) n = Executing k"
  shows "sorted_wrt (\<lambda>a b. \<not> edge st b a) (senders s @ [n])"
    and "\<not> cancelled (graph_run s) \<Longrightarrow> sorted_wrt (\<lambda>a b. \<not> (edge st)\<^sup>+\<^sup>+ b a) (senders s @ [n])"
    and "latch (stages (graph_run s)) n = 0"
proof -
  have early: "\<not> 3 \<le> rank (phase_of (graph_run s) n)" by (simp add: n)
  have old: "2 \<le> rank (phase_of (graph_run s) a)" "latch (stages (graph_run s)) a = 0" if "a \<in> set (senders s)" for a
    using ok that by (auto simp: sent_in_order_def)
  have "\<not> edge st n a" if "a \<in> set (senders s)" for a
    using parents_past [OF g inv old(2) [OF that]] early by blast
  with ok show "sorted_wrt (\<lambda>a b. \<not> edge st b a) (senders s @ [n])"
    by (simp add: sent_in_order_def sorted_wrt_append)
  assume c: "\<not> cancelled (graph_run s)"
  have "\<not> (edge st)\<^sup>+\<^sup>+ n a" if "a \<in> set (senders s)" for a
    using ancestors_past [OF g inv w c old(1) [OF that]] early by blast
  with ok c show "sorted_wrt (\<lambda>a b. \<not> (edge st)\<^sup>+\<^sup>+ b a) (senders s @ [n])"
    by (simp add: sent_in_order_def sorted_wrt_append)
next
  show "latch (stages (graph_run s)) n = 0" using w n by (simp add: waited_def)
qed

lemma sent_in_order_step:
  assumes g: "run_graph st main" and inv: "run_inv st main (graph_run s)" and w: "waited (graph_run s)"
    and ok: "sent_in_order st s" and step: "whole_step api h s t"
  shows "sent_in_order st t"
  using step
proof cases
  case (stage_moves \<tau>)
  have "2 \<le> rank (phase_of \<tau> n)" if "2 \<le> rank (phase_of (graph_run s) n)" for n
    using that step_rank [OF stage_moves(2), of n] by simp
  moreover have "latch (stages \<tau>) n = 0" if "latch (stages (graph_run s)) n = 0" for n
    using that step_latch [OF g inv stage_moves(2), of n] by simp
  moreover have "cancelled (graph_run s) \<longrightarrow> cancelled \<tau>"
    using step_cancelled [OF stage_moves(2)] by blast
  ultimately show ?thesis using ok by (auto simp: sent_in_order_def stage_moves(1))
next
  case (sends n k q)
  note new = sent_in_order_send [OF g inv w ok sends(2)]
  show ?thesis
    using ok new sends(2) by (auto simp: sent_in_order_def sends(1))
qed (use ok in \<open>simp_all add: sent_in_order_def\<close>)

lemma whole_sent:
  assumes "run_graph st main" and "whole_reaches api h (whole_start st nc main i rs e) s"
  shows "sent_in_order st s"
  using assms
proof (induction rule: whole_invariant)
  case start
  show ?case by (simp add: sent_in_order_def whole_start_def main_start_def)
next
  case (step s t)
  then show ?case using sent_in_order_step [OF assms(1)] by blast
qed

text \<open>What the recorders have been told is a prefix of what has been sent.\<close>

lemma whole_received:
  assumes "run_graph st main" and "whole_reaches api h (whole_start st nc main i rs e) s"
  shows "prefix (received (main_loop s)) (sent_results (main_loop s))"
proof -
  have "received (main_loop s) @ channel (main_loop s) = sent_results (main_loop s)"
    using main_reaches_inv [OF whole_graph(2) [OF assms] main_start_inv] by (simp add: main_inv_def)
  then show ?thesis by (metis prefixI)
qed

text \<open>C8: The results reach the recorders in an order that respects the graph: they are a prefix of the
  results that have been sent, each of which was sent by one stage; and no stage sends a result after
  one of its next stages has sent one, whatever fails and whatever signal arrives. As long as the
  context is not cancelled this holds of the stages that depend on it indirectly as well.\<close>

theorem results_in_order:
  assumes "run_graph st main" and "whole_reaches api h (whole_start st nc main i rs e) s"
  shows "prefix (received (main_loop s)) (sent_results (main_loop s))
    \<and> length (senders s) = length (sent_results (main_loop s)) \<and> set (senders s) \<subseteq> dom st
    \<and> sorted_wrt (\<lambda>earlier later. \<not> edge st later earlier) (senders s)
    \<and> (\<not> cancelled (graph_run s) \<longrightarrow> sorted_wrt (\<lambda>earlier later. \<not> (edge st)\<^sup>+\<^sup>+ later earlier) (senders s))"
proof -
  note ok = whole_sent [OF assms]
  have "n \<in> dom st" if "n \<in> set (senders s)" for n
  proof (rule run_inv_started_dom [OF whole_graph(3) [OF assms]])
    have "2 \<le> rank (phase_of (graph_run s) n)" using ok that by (simp add: sent_in_order_def)
    then show "called (graph_run s) n" by (auto simp: called_def)
  qed
  with ok whole_received [OF assms] show ?thesis by (auto simp: sent_in_order_def)
qed

section \<open>The end of the run\<close>



text \<open>A state in which the program rests: no step but the arrival of a signal, and no panic.\<close>

definition at_rest :: "'c client_api \<Rightarrow> 'w rec_host \<Rightarrow> ('c, 'w) whole \<Rightarrow> bool" where
  "at_rest api h s \<longleftrightarrow> (\<forall>n. \<not> panics api (graph_run s) n)
     \<and> (\<forall>t. whole_step api h s t \<longrightarrow> t = s\<lparr>main_loop := (main_loop s)\<lparr>pending := True\<rparr>\<rparr>)"

lemma at_rest_same:
  "at_rest api h s \<Longrightarrow> whole_step api h s (s\<lparr>graph_run := \<tau>, main_loop := m\<rparr>) \<Longrightarrow> m = (main_loop s)\<lparr>pending := True\<rparr>"
  unfolding at_rest_def by (cases s) auto

lemma at_rest_main:
  assumes "at_rest api h s" and "returned (main_loop s) = None"
  shows "channel (main_loop s) = []" and "\<not> closed (main_loop s)" and "exit_wg (graph_run s) \<noteq> 0"
    and "\<not> run_step api (graph_run s) \<tau>"
proof -
  let ?m = "main_loop s"
  have no: "m = ?m\<lparr>pending := True\<rparr>" if "whole_step api h s (s\<lparr>main_loop := m\<rparr>)" for m
    using at_rest_same [OF assms(1), where \<tau> = "graph_run s" and m = m] that by simp
  have pend: "\<not> pending ?m"
  proof
    assume "pending ?m"
    from at_rest_same [OF assms(1) whole_step.handles [OF assms(2) this]]
    have "pending (?m\<lparr>pending := False, aborted := True\<rparr>) = pending (?m\<lparr>pending := True\<rparr>)" by (rule arg_cong)
    then show False by simp
  qed
  show open_chan: "\<not> closed ?m"
  proof
    assume "closed ?m"
    from no [OF whole_step.leaves [OF assms(2) this pend]] have "returned (leave h ?m) = returned (?m\<lparr>pending := True\<rparr>)"
      by (rule arg_cong)
    with assms(2) show False by simp
  qed
  show "channel ?m = []"
  proof (rule ccontr)
    assume c: "channel ?m \<noteq> []"
    from no [OF whole_step.receives [OF assms(2) c]] have "channel (receive h ?m) = channel (?m\<lparr>pending := True\<rparr>)"
      by (rule arg_cong)
    with c show False by (cases "channel ?m") simp_all
  qed
  show "exit_wg (graph_run s) \<noteq> 0"
  proof
    assume "exit_wg (graph_run s) = 0"
    from no [OF whole_step.closes [OF open_chan this]] have "closed (?m\<lparr>closed := True\<rparr>) = closed (?m\<lparr>pending := True\<rparr>)"
      by (rule arg_cong)
    with open_chan show False by simp
  qed
  show "\<not> run_step api (graph_run s) \<tau>"
  proof
    assume "run_step api (graph_run s) \<tau>"
    from at_rest_same [OF assms(1) whole_step.stage_moves [OF this]]
    have "pending (?m\<lparr>aborted := cancelled \<tau>\<rparr>) = pending (?m\<lparr>pending := True\<rparr>)" by (rule arg_cong)
    with pend show False by simp
  qed
qed

text \<open>C10: The program does not deadlock: it rests only when \<open>Run\<close> has returned, or when the channel of
  the results is empty and a stage with next stages has failed without cancelling the context, so that
  stages wait for one that will never run. In particular the channel does not stay full while a stage
  waits to send, and a signal always lets \<open>Run\<close> return: with the context cancelled, the program cannot
  rest before it has.\<close>

theorem run_does_not_deadlock:
  assumes "run_graph st main" and "whole_reaches api h (whole_start st nc main i rs e) s" and "at_rest api h s"
  shows "returned (main_loop s) \<noteq> None
    \<or> (channel (main_loop s) = [] \<and> \<not> cancelled (graph_run s)
       \<and> (\<exists>p. phase_of (graph_run s) p = Ended False \<and> nexts st p \<noteq> []))"
proof (cases "returned (main_loop s)")
  case None
  note rest = at_rest_main [OF assms(3) None]
  have "stuck api (graph_run s)" using assms(3) rest(4) by (simp add: stuck_def at_rest_def)
  from stuck_hang [OF assms(1) whole_graph(3) [OF assms(1,2)] this] rest(1,3) show ?thesis by blast
qed simp

section \<open>An executable form of the steps\<close>

datatype whole_act = Stage act | Send string query_result | Seed string | SetExit string int | Signal | Close
  | Receive | Handle | Leave

definition executing :: "('c, 'w) whole \<Rightarrow> string \<Rightarrow> bool" where
  "executing s n = (case phase_of (graph_run s) n of Executing k \<Rightarrow> True | _ \<Rightarrow> False)"

definition do_whole :: "'c client_api \<Rightarrow> 'w rec_host \<Rightarrow> whole_act \<Rightarrow> ('c, 'w) whole \<Rightarrow> ('c, 'w) whole option" where
  "do_whole api h a s = (let m = main_loop s in case a of
     Stage b \<Rightarrow>
       map_option (\<lambda>\<tau>. s\<lparr>graph_run := \<tau>, main_loop := m\<lparr>aborted := cancelled \<tau>\<rparr>\<rparr>) (do_act api b (graph_run s))
   | Send n q \<Rightarrow>
       (if executing s n \<and> length (channel m) < 16
        then Some (s\<lparr>main_loop := m\<lparr>channel := channel m @ [q], sent_results := sent_results m @ [q]\<rparr>,
                     senders := senders s @ [n]\<rparr>)
        else None)
   | Seed n \<Rightarrow>
       (if executing s n then Some (s\<lparr>main_loop := m\<lparr>info := (info m)\<lparr>info_seed_used := True\<rparr>\<rparr>\<rparr>) else None)
   | SetExit n c \<Rightarrow>
       (if executing s n \<and> exit_status m = 0 then Some (s\<lparr>main_loop := m\<lparr>exit_status := c\<rparr>\<rparr>) else None)
   | Signal \<Rightarrow> (if closed m then None else Some (s\<lparr>main_loop := m\<lparr>pending := True\<rparr>\<rparr>))
   | Close \<Rightarrow>
       (if \<not> closed m \<and> exit_wg (graph_run s) = 0 then Some (s\<lparr>main_loop := m\<lparr>closed := True\<rparr>\<rparr>) else None)
   | Receive \<Rightarrow>
       (if returned m = None \<and> channel m \<noteq> [] then Some (s\<lparr>main_loop := receive h m\<rparr>) else None)
   | Handle \<Rightarrow>
       (if returned m = None \<and> pending m
        then Some (s\<lparr>graph_run := (graph_run s)\<lparr>cancelled := True\<rparr>, main_loop := m\<lparr>pending := False, aborted := True\<rparr>\<rparr>)
        else None)
   | Leave \<Rightarrow>
       (if returned m = None \<and> closed m \<and> \<not> pending m then Some (s\<lparr>main_loop := leave h m\<rparr>) else None))"

lemma executing_phase: "executing s n \<Longrightarrow> \<exists>k. phase_of (graph_run s) n = Executing k"
  by (cases "phase_of (graph_run s) n") (simp_all add: executing_def)

lemma do_whole_sound: "do_whole api h a s = Some t \<Longrightarrow> whole_step api h s t"
  unfolding do_whole_def Let_def
  by (auto split: whole_act.splits if_splits dest!: executing_phase do_act_sound intro: whole_step.intros)

lemma do_whole_complete: "whole_step api h s t \<Longrightarrow> \<exists>a. do_whole api h a s = Some t"
proof (induction rule: whole_step.induct)
  case (stage_moves s \<tau>)
  then obtain b where "do_act api b (graph_run s) = Some \<tau>" using do_act_complete by blast
  then show ?case by (intro exI [of _ "Stage b"]) (simp add: do_whole_def Let_def)
next
  case (sends s n k q) then show ?case by (intro exI [of _ "Send n q"]) (simp add: do_whole_def Let_def executing_def)
next
  case (seeds s n k) then show ?case by (intro exI [of _ "Seed n"]) (simp add: do_whole_def Let_def executing_def)
next
  case (sets_exit s n k c) then show ?case by (intro exI [of _ "SetExit n c"]) (simp add: do_whole_def Let_def executing_def)
next
  case (signal_comes s) then show ?case by (intro exI [of _ Signal]) (simp add: do_whole_def Let_def)
next
  case (closes s) then show ?case by (intro exI [of _ Close]) (simp add: do_whole_def Let_def)
next
  case (receives s) then show ?case by (intro exI [of _ Receive]) (simp add: do_whole_def Let_def)
next
  case (handles s) then show ?case by (intro exI [of _ Handle]) (simp add: do_whole_def Let_def)
next
  case (leaves s) then show ?case by (intro exI [of _ Leave]) (simp add: do_whole_def Let_def)
qed

fun do_wholes :: "'c client_api \<Rightarrow> 'w rec_host \<Rightarrow> whole_act list \<Rightarrow> ('c, 'w) whole \<Rightarrow> ('c, 'w) whole option" where
  "do_wholes api h [] s = Some s"
| "do_wholes api h (a # as) s = Option.bind (do_whole api h a s) (do_wholes api h as)"

lemma whole_reaches_trans: "whole_reaches api h t u \<Longrightarrow> whole_reaches api h s t \<Longrightarrow> whole_reaches api h s u"
  by (induction rule: whole_reaches.induct) (auto intro: whole_reaches.intros)

lemma do_wholes_reaches: "do_wholes api h as s = Some t \<Longrightarrow> whole_reaches api h s t"
proof (induction as arbitrary: s)
  case Nil
  then show ?case by (simp add: whole_reaches.at_start)
next
  case (Cons a as)
  then obtain u where u: "do_whole api h a s = Some u" "do_wholes api h as u = Some t"
    by (auto simp: bind_eq_Some_conv)
  have "whole_reaches api h s u"
    by (rule whole_reaches.one_more [OF whole_reaches.at_start do_whole_sound [OF u(1)]])
  with Cons.IH [OF u(2)] show ?case by (rule whole_reaches_trans)
qed

section \<open>Examples\<close>

text \<open>The four stages of \<open>StageRun\<close>, with two results; the second stage sets the exit code.\<close>

definition demo_whole :: "(unit, unit) whole" where
  "demo_whole = whole_start chain_stages None ''a'' demo_info demo_recorders \<lparr>rec_world = (), effects = []\<rparr>"

definition whole_well :: "whole_act list" where
  "whole_well =
     map Stage [Enter ''a'', Start ''a'' 0] @ [Send ''a'' (demo_result 0 (Some (Plain ''boom'')))]
     @ map Stage ([Succeed ''a''] @ replicate 6 (Continue ''a'') @ [Enter ''d'', Enter ''b'', Start ''b'' 0])
     @ [Send ''b'' (demo_result 1 None), Receive, SetExit ''b'' 1]
     @ map Stage ([Succeed ''b''] @ replicate 4 (Continue ''b'') @ [Enter ''c''] @ runs_well ''c'' 1 @ runs_well ''d'' 0 @ [Enter ''d''])
     @ [Close, Leave]"

definition whole_hang :: "whole_act list" where
  "whole_hang = map Stage chain_hang @ [Stage (Enter ''d'')]"

lemma whole_well_state:
  "case do_wholes unit_api demo_rec_host whole_well demo_whole of
     None \<Rightarrow> False
   | Some s \<Rightarrow> senders s = [''a'', ''b''] \<and> returned (main_loop s) = Some 1 \<and> \<not> cancelled (graph_run s)
       \<and> length (sent_results (main_loop s)) = 2"
  by code_simp

lemma whole_hang_state:
  "case do_wholes unit_api demo_rec_host whole_hang demo_whole of
     None \<Rightarrow> False
   | Some s \<Rightarrow> channel (main_loop s) = [] \<and> returned (main_loop s) = None \<and> \<not> pending (main_loop s) \<and> \<not> closed (main_loop s)
       \<and> \<not> cancelled (graph_run s) \<and> exit_wg (graph_run s) = 1 \<and> writers (graph_run s) = 0
       \<and> (\<forall>n \<in> set [''a'', ''b'', ''c'', ''d'']. calls (graph_run s) n = 0)
       \<and> phase_of (graph_run s) ''a'' = Ended True \<and> phase_of (graph_run s) ''b'' = Ended False
       \<and> phase_of (graph_run s) ''c'' = Idle \<and> phase_of (graph_run s) ''d'' = Waiting
       \<and> latch (stages (graph_run s)) ''d'' = 1"
  by code_simp

text \<open>A state that only waits rests.\<close>

lemma waiting_rests:
  assumes m: "channel (main_loop s) = []" "returned (main_loop s) = None" "\<not> pending (main_loop s)" "\<not> closed (main_loop s)"
    and g: "\<not> cancelled (graph_run s)" "exit_wg (graph_run s) \<noteq> 0" "writers (graph_run s) = 0"
    and ph: "\<And>n. calls (graph_run s) n = 0 \<and> (phase_of (graph_run s) n = Idle \<or> (\<exists>ok. phase_of (graph_run s) n = Ended ok)
      \<or> phase_of (graph_run s) n = Waiting \<and> 0 < latch (stages (graph_run s)) n)"
  shows "at_rest api h s"
proof -
  let ?g = "graph_run s"
  have calls: "calls ?g n = 0" and idle: "phase_of ?g n \<noteq> Executing k" "phase_of ?g n \<noteq> Unblocking cs ok"
    "phase_of ?g n \<noteq> Triggering cs" and latch: "phase_of ?g n = Waiting \<Longrightarrow> latch (stages ?g) n \<noteq> 0" for n k cs ok
    using ph [of n] by auto
  have step: "\<not> run_step api ?g \<tau>" for \<tau>
  proof
    assume "run_step api ?g \<tau>"
    then show False by cases (use calls idle latch g in auto)
  qed
  have "\<not> panics api ?g n" for n using g(1) latch [of n] idle(1) by (auto simp: panics_def)
  moreover have "t = s\<lparr>main_loop := (main_loop s)\<lparr>pending := True\<rparr>\<rparr>" if "whole_step api h s t" for t
    using that by cases (use step idle m g in auto)
  ultimately show ?thesis by (simp add: at_rest_def)
qed

theorem results_in_order_witness:
  "\<exists>s. whole_reaches unit_api demo_rec_host demo_whole s \<and> senders s = [''a'', ''b'']
     \<and> sorted_wrt (\<lambda>earlier later. \<not> (edge chain_stages)\<^sup>+\<^sup>+ later earlier) (senders s)"
proof -
  obtain s where s: "do_wholes unit_api demo_rec_host whole_well demo_whole = Some s" "senders s = [''a'', ''b'']"
    "\<not> cancelled (graph_run s)"
    using whole_well_state by (auto split: option.splits)
  note r = do_wholes_reaches [OF s(1)]
  from results_in_order [OF chain_run_graph r [unfolded demo_whole_def]] r s(2,3) show ?thesis by blast
qed


theorem run_does_not_deadlock_witness:
  "\<exists>s. whole_reaches unit_api demo_rec_host demo_whole s \<and> at_rest unit_api demo_rec_host s
     \<and> (\<exists>p. phase_of (graph_run s) p = Ended False \<and> nexts chain_stages p \<noteq> [])"
proof -
  obtain s where s: "do_wholes unit_api demo_rec_host whole_hang demo_whole = Some s"
    and m: "channel (main_loop s) = []" "returned (main_loop s) = None" "\<not> pending (main_loop s)" "\<not> closed (main_loop s)"
    and g: "\<not> cancelled (graph_run s)" "exit_wg (graph_run s) = 1" "writers (graph_run s) = 0"
    and ph: "\<forall>n \<in> set [''a'', ''b'', ''c'', ''d'']. calls (graph_run s) n = 0"
      "phase_of (graph_run s) ''a'' = Ended True" "phase_of (graph_run s) ''b'' = Ended False"
      "phase_of (graph_run s) ''c'' = Idle" "phase_of (graph_run s) ''d'' = Waiting"
      "latch (stages (graph_run s)) ''d'' = 1"
    using whole_hang_state by (auto split: option.splits)
  note r = do_wholes_reaches [OF s(1)] and r' = do_wholes_reaches [OF s(1), unfolded demo_whole_def]
  have dom: "dom chain_stages = set [''a'', ''b'', ''c'', ''d'']" by (auto simp: chain_stages_def)
  have "calls (graph_run s) n = 0 \<and> (phase_of (graph_run s) n = Idle \<or> (\<exists>ok. phase_of (graph_run s) n = Ended ok)
      \<or> phase_of (graph_run s) n = Waiting \<and> 0 < latch (stages (graph_run s)) n)" for n
  proof (cases "n \<in> dom chain_stages")
    case True
    with ph show ?thesis unfolding dom by auto
  next
    case False
    with run_inv_started_dom [OF whole_graph(3) [OF chain_run_graph r'], of n] show ?thesis by (auto simp: called_def)
  qed
  then have "at_rest unit_api demo_rec_host s" using m g by (intro waiting_rests) simp_all
  with run_does_not_deadlock [OF chain_run_graph r'] r m(2) show ?thesis by blast
qed

end
