(* ===== verification/GenDdl.thy ===== *)
theory GenDdl
  imports GoPath GoNumbers "HOL-Library.Multiset"
begin

text \<open>
  The generator of DDL scripts, \<open>cmd/genddl/main.go\<close>: from one configuration file it derives four
  variants of a schema (Hive or Iceberg, partitioned or not), classifies the table definitions for
  each of them, and writes numbered SQL and shell scripts from templates into two directories. The
  file system that is read, the JSON decoder and the template engine are arguments; what is written
  and removed is recorded as a list of events.
\<close>

section \<open>Data\<close>

record column =
  col_name :: string
  col_type :: "string option"
  partition_key :: "bool option"
  bucket_key :: "bool option"
  is_varchar :: bool

record table =
  table_name :: string
  partitioned :: bool
  partitioned_min_scale :: int
  columns :: "column list"
  last_column :: "column option"

record register_table =
  registered_name :: string
  external_location :: string

record schema =
  scale_factor :: string
  file_format :: string
  iceberg :: bool
  compression_method :: string
  schema_partitioned :: bool
  workload :: string
  workload_definition :: string
  schema_name :: string
  location_name :: string
  uncompressed_name :: string
  iceberg_location_name :: string
  part_iceberg_name :: string
  register_tables :: "register_table list"
  tables :: "string \<rightharpoonup> table"
  insert_tables :: "string \<rightharpoonup> table"
  session_variables :: "string \<rightharpoonup> string"

text \<open>The ways the process may stop before \<open>Run\<close> returns: \<open>log.Fatal\<close> and the panic of an index.\<close>

datatype ddl_stop = Fatal string | IndexPanic

text \<open>What \<open>Run\<close> does to the file system.\<close>

datatype ddl_event = Removed string | MadeDir string | Wrote string string

record 't ddl_state =
  events :: "ddl_event list"
  template_cache :: "string \<rightharpoonup> 't"

text \<open>
  What is outside: the files and directories, \<open>json.Unmarshal\<close> into the types at hand (a document
  that is an object gives an object), and \<open>text/template\<close>. A directory is listed in the order of the
  names, each with the answer of \<open>IsDir\<close>. The execution of a template gives what it has written and whether
  it succeeded.
\<close>

record 't ddl_host =
  abs_of :: "string \<Rightarrow> string option"
  read_bytes :: "string \<Rightarrow> string option"
  read_dir :: "string \<Rightarrow> (string \<times> bool) list option"
  can_remove :: "string \<Rightarrow> bool"
  can_make :: "string \<Rightarrow> bool"
  can_open :: "string \<Rightarrow> bool"
  unmarshal_schema :: "string \<Rightarrow> schema option"
  unmarshal_strings :: "string \<Rightarrow> (string \<rightharpoonup> string) option"
  unmarshal_table :: "string \<Rightarrow> table option"
  parse_template :: "string \<Rightarrow> 't option"
  execute :: "'t \<Rightarrow> schema \<Rightarrow> string \<times> bool"

text \<open>Steps that may stop the process, on the recorded state.\<close>

type_synonym ('t, 'a) ddl = "'t ddl_state \<Rightarrow> (ddl_stop + 'a) \<times> 't ddl_state"

definition give_back :: "'a \<Rightarrow> ('t, 'a) ddl" where
  "give_back x = (\<lambda>s. (Inr x, s))"

definition stop_with :: "ddl_stop \<Rightarrow> ('t, 'a) ddl" where
  "stop_with e = (\<lambda>s. (Inl e, s))"

definition and_then :: "('t, 'a) ddl \<Rightarrow> ('a \<Rightarrow> ('t, 'b) ddl) \<Rightarrow> ('t, 'b) ddl" where
  "and_then m f = (\<lambda>s. case m s of (Inl e, s') \<Rightarrow> (Inl e, s') | (Inr x, s') \<Rightarrow> f x s')"

definition emit :: "ddl_event \<Rightarrow> ('t, unit) ddl" where
  "emit e = (\<lambda>s. (Inr (), s\<lparr>events := events s @ [e]\<rparr>))"

definition or_fatal :: "string \<Rightarrow> 'a option \<Rightarrow> ('t, 'a) ddl" where
  "or_fatal msg x = (case x of None \<Rightarrow> stop_with (Fatal msg) | Some v \<Rightarrow> give_back v)"

fun for_each :: "('a \<Rightarrow> ('t, unit) ddl) \<Rightarrow> 'a list \<Rightarrow> ('t, unit) ddl" where
  "for_each f [] = give_back ()"
| "for_each f (x # xs) = and_then (f x) (\<lambda>_. for_each f xs)"

lemmas ddl_step_defs = give_back_def stop_with_def and_then_def emit_def or_fatal_def

section \<open>Operations on tables\<close>

definition init_is_varchar :: "table \<Rightarrow> table" where
  "init_is_varchar t = t\<lparr>columns := map (\<lambda>c. c\<lparr>is_varchar :=
     (case col_type c of None \<Rightarrow> False
      | Some ty \<Rightarrow> (case index_str ''('' ty of None \<Rightarrow> False | Some i \<Rightarrow> take i ty = ''VARCHAR''))\<rparr>) (columns t)\<rparr>"

text \<open>The loop that splits the columns, then the test whether any is a partition key.\<close>

definition is_partition_col :: "column \<Rightarrow> bool" where
  "is_partition_col c \<longleftrightarrow> partition_key c = Some True"

definition reorder_columns :: "schema \<Rightarrow> table \<Rightarrow> table" where
  "reorder_columns s t =
     (if columns t = [] \<or> \<not> schema_partitioned s \<or> \<not> partitioned t then t
      else
        (let (partition, non_partition) = foldl (\<lambda>(p, n) c. if is_partition_col c then (p @ [c], n) else (p, n @ [c]))
               ([], []) (columns t)
         in if 0 < length partition then t\<lparr>columns := non_partition @ partition\<rparr> else t))"

definition is_partitioned :: "table \<Rightarrow> int \<Rightarrow> bool" where
  "is_partitioned t sf = (if 0 < partitioned_min_scale t then partitioned_min_scale t \<le> sf else partitioned t)"

definition int_scale_factor :: "schema \<Rightarrow> int" where
  "int_scale_factor s =
     (if has_suffix (scale_factor s) ''k'' then
        (case atoi (trim_suffix (scale_factor s) ''k'') of None \<Rightarrow> 0 | Some n \<Rightarrow> signed_take_bit 63 (n * 1000))
      else (case atoi (scale_factor s) of None \<Rightarrow> 0 | Some n \<Rightarrow> n))"

definition is_register_table :: "table \<Rightarrow> schema \<Rightarrow> bool" where
  "is_register_table t s = (if iceberg s \<and> schema_partitioned s then \<not> partitioned t else False)"

definition is_insert_table :: "table \<Rightarrow> schema \<Rightarrow> bool" where
  "is_insert_table t s = (if schema_partitioned s then partitioned t else True)"

definition should_gen_insert :: "schema \<Rightarrow> bool" where
  "should_gen_insert s = iceberg s"

section \<open>Names and the four variants\<close>

definition to_hyphen :: "string \<Rightarrow> string" where
  "to_hyphen s = replace_first s ''_'' ''-''"

definition set_names :: "schema \<Rightarrow> schema" where
  "set_names s =
     (let ice = (if iceberg s then ''_iceberg'' else ''_hive'');
          part = (if schema_partitioned s then ''_partitioned'' else '''');
          compression = (if compression_method s = ''zstd'' then ''_zstd'' else '''');
          uncompressed = workload s @ ''_sf'' @ scale_factor s @ ''_'' @ file_format s @ part @ ice;
          stem = workload s @ ''-sf'' @ scale_factor s @ ''-'' @ file_format s
      in s\<lparr>schema_name := uncompressed @ compression,
           location_name := stem @ to_hyphen part @ to_hyphen ice @ to_hyphen compression,
           uncompressed_name := uncompressed,
           iceberg_location_name := stem @ ''-iceberg'',
           part_iceberg_name := stem @ to_hyphen part @ ''-iceberg''\<rparr>)"

definition non_part_location_name :: "schema \<Rightarrow> string" where
  "non_part_location_name s = replace_first (location_name s) ''-partitioned'' ''''"

definition set_session_vars :: "schema \<Rightarrow> schema" where
  "set_session_vars s =
     (let m = (session_variables s)(''query_max_execution_time'' \<mapsto> ''12h'', ''query_max_run_time'' \<mapsto> ''12h'');
          z = compression_method s
      in s\<lparr>session_variables :=
           (if iceberg s \<and> z = ''uncompressed'' then m(''iceberg.compression_codec'' \<mapsto> ''NONE'')
            else if iceberg s \<and> z = ''zstd'' then m(''iceberg.compression_codec'' \<mapsto> ''ZSTD'')
            else if \<not> iceberg s \<and> z = ''uncompressed'' then m(''hive.compression_codec'' \<mapsto> ''NONE'')
            else if \<not> iceberg s \<and> z = ''zstd'' then m(''hive.compression_codec'' \<mapsto> ''ZSTD'')
            else m)\<rparr>)"

definition variant :: "schema \<Rightarrow> bool \<Rightarrow> bool \<Rightarrow> schema" where
  "variant b ice part =
     (let s = b\<lparr>iceberg := ice, schema_partitioned := part, register_tables := [], tables := Map.empty,
                insert_tables := Map.empty\<rparr>
      in set_session_vars (if schema_name s = [] \<or> location_name s = [] then set_names s else s))"

definition default_workload :: "schema \<Rightarrow> schema" where
  "default_workload b =
     (let b1 = (if workload b = [] then b\<lparr>workload := ''tpcds''\<rparr> else b)
      in if workload_definition b1 = [] then b1\<lparr>workload_definition := ''tpc-ds''\<rparr> else b1)"

definition load_schemas :: "'t ddl_host \<Rightarrow> string \<Rightarrow> schema list option" where
  "load_schemas h data = map_option
     (\<lambda>b. map (\<lambda>(i, p). variant (default_workload b) i p)
       [(True, False), (True, True), (False, False), (False, True)]) (unmarshal_schema h data)"

definition get_named_output :: "'t ddl_host \<Rightarrow> string \<Rightarrow> string \<Rightarrow> string option" where
  "get_named_output h data wl = map_option
     (\<lambda>config. let get = (\<lambda>k. case config k of None \<Rightarrow> [] | Some v \<Rightarrow> v);
                   c = get ''compression_method'';
                   suffix = (if c = ''uncompressed'' then '''' else ''-'' @ c)
               in wl @ ''-sf'' @ get ''scale_factor'' @ ''-'' @ get ''file_format'' @ suffix)
     (unmarshal_strings h data)"

section \<open>Writing the scripts\<close>

definition get_template :: "'t ddl_host \<Rightarrow> string \<Rightarrow> string \<Rightarrow> ('t, 't) ddl" where
  "get_template h tname cdir =
     (let tpath = path_join cdir tname
      in (\<lambda>st. case template_cache st tpath of
           Some t \<Rightarrow> (Inr t, st)
         | None \<Rightarrow>
             and_then (or_fatal ''read'' (read_bytes h tpath)) (\<lambda>bytes.
             and_then (or_fatal ''parse'' (parse_template h bytes)) (\<lambda>t.
             (\<lambda>st. (Inr t, st\<lparr>template_cache := (template_cache st)(tpath \<mapsto> t)\<rparr>)))) st))"

definition exec_template :: "'t ddl_host \<Rightarrow> schema \<Rightarrow> 't \<Rightarrow> string \<Rightarrow> string list \<Rightarrow> ('t, unit) ddl" where
  "exec_template h s t fname dirs = for_each (\<lambda>d.
     (let p = path_join d fname
      in and_then (or_fatal ''open'' (if can_open h p then Some () else None)) (\<lambda>_.
         case execute h t s of
           (text, ok) \<Rightarrow> and_then (emit (Wrote p text)) (\<lambda>_. if ok then give_back () else stop_with (Fatal ''execute''))))) dirs"

text \<open>The name of the script of a step: its number, a letter for the sub-steps, what it does, the
  location and the extension.\<close>

definition script_name :: "nat \<Rightarrow> string \<Rightarrow> schema \<Rightarrow> string \<Rightarrow> string" where
  "script_name step what s e = itoa (int (step + 1)) @ what @ location_name s @ e"

definition generate_script ::
  "'t ddl_host \<Rightarrow> string \<Rightarrow> string list \<Rightarrow> schema \<Rightarrow> string \<Rightarrow> string \<Rightarrow> ('t, unit) ddl" where
  "generate_script h cdir dirs s tname fname =
     and_then (get_template h tname cdir) (\<lambda>t. exec_template h s t fname dirs)"

definition generate_create_table :: "'t ddl_host \<Rightarrow> schema \<Rightarrow> string \<Rightarrow> string list \<Rightarrow> nat \<Rightarrow> ('t, unit) ddl" where
  "generate_create_table h s cdir dirs step =
     (let gen = generate_script h cdir dirs s
      in if \<not> iceberg s \<and> schema_partitioned s then
           and_then (gen ''create_table.sql.tmpl'' (script_name step ''a-create-'' s ''.sql'')) (\<lambda>_.
           and_then (gen ''aws_s3_mv.sh.tmpl'' (script_name step ''b-s3-mv-'' s ''.sh'')) (\<lambda>_.
           and_then (gen ''call_analyze.sql.tmpl'' (script_name step ''c-call-analyze-'' s ''.sql'')) (\<lambda>_.
           gen ''aws_s3_cp.sh.tmpl'' (script_name step ''d-s3-cp-'' s ''.sh''))))
         else gen ''create_table.sql.tmpl'' (script_name step ''-create-'' s ''.sql''))"

definition generate_insert_table :: "'t ddl_host \<Rightarrow> schema \<Rightarrow> string \<Rightarrow> string list \<Rightarrow> nat \<Rightarrow> ('t, unit) ddl" where
  "generate_insert_table h s cdir dirs step =
     generate_script h cdir dirs s ''insert_table.sql.tmpl'' (script_name step ''-insert-'' s ''.sql'')"

section \<open>From the definitions to a schema\<close>

text \<open>A definition that has been read: what the loop does with it. \<open>Columns[len-1]\<close> panics if there are
  no columns.\<close>

definition add_table :: "string \<Rightarrow> table \<Rightarrow> schema \<Rightarrow> ddl_stop + schema" where
  "add_table loc decoded s =
     (let t0 = init_is_varchar decoded;
          t = (if is_partitioned t0 (int_scale_factor s) then t0\<lparr>partitioned := True\<rparr> else t0)
      in if is_register_table t s then
           (let s1 = s\<lparr>register_tables := register_tables s @ [\<lparr>registered_name = table_name t, external_location = loc\<rparr>]\<rparr>
            in Inr (if is_insert_table t s1 then s1\<lparr>insert_tables := (insert_tables s1)(table_name t \<mapsto> t)\<rparr> else s1))
         else
           (let t1 = reorder_columns s t
            in if columns t1 = [] then Inl IndexPanic
               else (let t2 = t1\<lparr>last_column := Some (last (columns t1))\<rparr>;
                         s1 = s\<lparr>tables := (tables s)(table_name t2 \<mapsto> t2)\<rparr>
                     in Inr (if is_insert_table t2 s1 then s1\<lparr>insert_tables := (insert_tables s1)(table_name t2 \<mapsto> t2)\<rparr>
                             else s1))))"

fun add_entries :: "'t ddl_host \<Rightarrow> string \<Rightarrow> string \<Rightarrow> (string \<times> bool) list \<Rightarrow> schema \<Rightarrow> ddl_stop + schema" where
  "add_entries h ddir loc [] s = Inr s"
| "add_entries h ddir loc ((name, is_dir) # es) s =
     (if is_dir \<or> \<not> has_suffix name ''.json'' then add_entries h ddir loc es s
      else
        (case read_bytes h (path_join ddir name) of
           None \<Rightarrow> Inl (Fatal ''read'')
         | Some bytes \<Rightarrow>
             (case unmarshal_table h bytes of
                None \<Rightarrow> Inl (Fatal ''unmarshal'')
              | Some t \<Rightarrow> (case add_table loc t s of Inl e \<Rightarrow> Inl e | Inr s1 \<Rightarrow> add_entries h ddir loc es s1))))"

definition generate_schema_from_def ::
  "'t ddl_host \<Rightarrow> schema \<Rightarrow> string \<Rightarrow> string \<Rightarrow> string list \<Rightarrow> string \<Rightarrow> nat \<Rightarrow> ('t, nat) ddl" where
  "generate_schema_from_def h s0 ddir cdir dirs loc step =
     and_then (or_fatal ''list'' (read_dir h ddir)) (\<lambda>es.
     case add_entries h ddir loc es s0 of
       Inl e \<Rightarrow> stop_with e
     | Inr s \<Rightarrow>
         and_then (generate_create_table h s cdir dirs step) (\<lambda>_.
         if should_gen_insert s
         then and_then (generate_insert_table h s cdir dirs (step + 1)) (\<lambda>_. give_back (step + 2))
         else give_back (step + 1)))"

fun generate_all :: "'t ddl_host \<Rightarrow> string \<Rightarrow> string \<Rightarrow> string list \<Rightarrow> schema list \<Rightarrow> nat \<Rightarrow> ('t, unit) ddl" where
  "generate_all h ddir cdir dirs [] step = give_back ()"
| "generate_all h ddir cdir dirs (s # ss) step =
     and_then (generate_schema_from_def h s ddir cdir dirs (non_part_location_name s) step)
       (generate_all h ddir cdir dirs ss)"

text \<open>\<open>cleanOutputDir\<close>: the error is only logged, the files after the one that cannot be removed stay.\<close>

fun remove_files :: "'t ddl_host \<Rightarrow> string \<Rightarrow> (string \<times> bool) list \<Rightarrow> ddl_event list" where
  "remove_files h d [] = []"
| "remove_files h d ((f, is_dir) # es) =
     (if is_dir then remove_files h d es
      else if can_remove h (path_join d f) then Removed (path_join d f) # remove_files h d es
      else [])"

definition clean_output_dir :: "'t ddl_host \<Rightarrow> string \<Rightarrow> ddl_event list" where
  "clean_output_dir h d = (case read_dir h d of None \<Rightarrow> [] | Some es \<Rightarrow> remove_files h d es)"

definition prepare_dir :: "'t ddl_host \<Rightarrow> string \<Rightarrow> ('t, unit) ddl" where
  "prepare_dir h d = (\<lambda>st.
     (let st1 = st\<lparr>events := events st @ clean_output_dir h d\<rparr>
      in if can_make h d then emit (MadeDir d) st1 else stop_with (Fatal ''mkdir'') st1))"

definition run_genddl :: "'t ddl_host \<Rightarrow> string \<Rightarrow> (ddl_stop + unit) \<times> 't ddl_state" where
  "run_genddl h path_arg =
     and_then (or_fatal ''abs'' (abs_of h path_arg)) (\<lambda>path.
     and_then (or_fatal ''read'' (read_bytes h path)) (\<lambda>content.
     case load_schemas h content of
       None \<Rightarrow> give_back ()
     | Some ss \<Rightarrow>
         (let cdir = dir path;
              ddir = path_join (path_join cdir ''definition'') (workload_definition (hd ss))
          in and_then (or_fatal ''named'' (get_named_output h content (workload (hd ss)))) (\<lambda>named.
             (let dirs = [path_join cdir ''out'', path_join (path_join cdir ''generated-examples'') named]
              in and_then (for_each (prepare_dir h) dirs) (\<lambda>_. generate_all h ddir cdir dirs ss 0)))))
     ) \<lparr>events = [], template_cache = Map.empty\<rparr>"

section \<open>The order of the columns\<close>

lemma split_columns:
  "foldl (\<lambda>(p, n) c. if P c then (p @ [c], n) else (p, n @ [c])) (p0, n0) cs
     = (p0 @ filter P cs, n0 @ filter (\<lambda>c. \<not> P c) cs)"
  by (induction cs arbitrary: p0 n0) auto

lemma reorder_columns_filter:
  "columns (reorder_columns s t) =
     (if schema_partitioned s \<and> partitioned t
      then filter (\<lambda>c. \<not> is_partition_col c) (columns t) @ filter is_partition_col (columns t) else columns t)"
proof (cases "columns t = [] \<or> \<not> schema_partitioned s \<or> \<not> partitioned t")
  case True
  then show ?thesis by (auto simp: reorder_columns_def)
next
  case False
  show ?thesis
  proof (cases "filter is_partition_col (columns t) = []")
    case True
    then have "filter (\<lambda>c. \<not> is_partition_col c) (columns t) = columns t"
      by (simp add: filter_empty_conv filter_id_conv)
    with True False show ?thesis by (simp add: reorder_columns_def split_columns)
  qed (use False in \<open>simp add: reorder_columns_def split_columns\<close>)
qed

lemma reorder_columns_other [simp]:
  "table_name (reorder_columns s t) = table_name t"
  "partitioned (reorder_columns s t) = partitioned t"
  by (simp_all add: reorder_columns_def Let_def split: prod.splits)

text \<open>The columns of a table of a partitioned schema are permuted so that the partition keys come
  last; the order among the keys and among the other columns is kept, and no other table is changed.\<close>

theorem reorder_columns_stable:
  "mset (columns (reorder_columns s t)) = mset (columns t)
     \<and> (\<exists>k. list_all (\<lambda>c. \<not> is_partition_col c) (take k (columns (reorder_columns s t)))
          \<and> (schema_partitioned s \<and> partitioned t \<longrightarrow> list_all is_partition_col (drop k (columns (reorder_columns s t)))))
     \<and> filter is_partition_col (columns (reorder_columns s t)) = filter is_partition_col (columns t)
     \<and> filter (\<lambda>c. \<not> is_partition_col c) (columns (reorder_columns s t)) = filter (\<lambda>c. \<not> is_partition_col c) (columns t)
     \<and> (\<not> (schema_partitioned s \<and> partitioned t) \<longrightarrow> reorder_columns s t = t)"
proof (intro conjI)
  let ?n = "filter (\<lambda>c. \<not> is_partition_col c) (columns t)"
  show "\<exists>k. list_all (\<lambda>c. \<not> is_partition_col c) (take k (columns (reorder_columns s t)))
      \<and> (schema_partitioned s \<and> partitioned t \<longrightarrow> list_all is_partition_col (drop k (columns (reorder_columns s t))))"
  proof (cases "schema_partitioned s \<and> partitioned t")
    case True
    then show ?thesis by (intro exI [of _ "length ?n"]) (simp add: reorder_columns_filter list_all_iff)
  qed (auto intro: exI [of _ 0])
  show "\<not> (schema_partitioned s \<and> partitioned t) \<longrightarrow> reorder_columns s t = t"
    by (auto simp: reorder_columns_def)
  have "mset (filter (\<lambda>c. \<not> P c) xs) + mset (filter P xs) = mset xs" for P :: "column \<Rightarrow> bool" and xs
    by (induction xs) auto
  then show "mset (columns (reorder_columns s t)) = mset (columns t)"
    by (simp add: reorder_columns_filter)
qed (simp_all add: reorder_columns_filter)

section \<open>The classification of the tables\<close>

text \<open>The definitions that a directory holds, as far as they can be read and decoded.\<close>

fun definitions :: "'t ddl_host \<Rightarrow> string \<Rightarrow> (string \<times> bool) list \<Rightarrow> table list" where
  "definitions h ddir [] = []"
| "definitions h ddir ((name, is_dir) # es) =
     (if is_dir \<or> \<not> has_suffix name ''.json'' then definitions h ddir es
      else (case Option.bind (read_bytes h (path_join ddir name)) (unmarshal_table h) of
              None \<Rightarrow> definitions h ddir es | Some t \<Rightarrow> t # definitions h ddir es))"

fun add_tables :: "string \<Rightarrow> table list \<Rightarrow> schema \<Rightarrow> ddl_stop + schema" where
  "add_tables loc [] s = Inr s"
| "add_tables loc (t # ts) s = (case add_table loc t s of Inl e \<Rightarrow> Inl e | Inr s1 \<Rightarrow> add_tables loc ts s1)"

lemma add_entries_tables:
  "add_entries h ddir loc es s = Inr s' \<Longrightarrow> add_tables loc (definitions h ddir es) s = Inr s'"
  by (induction es arbitrary: s rule: definitions.induct)
    (auto split: if_splits option.splits sum.splits)

text \<open>Whether a definition is partitioned in a schema.\<close>

definition partitioned_in :: "schema \<Rightarrow> table \<Rightarrow> bool" where
  "partitioned_in s t \<longleftrightarrow> partitioned t \<or> is_partitioned t (int_scale_factor s)"

definition registered_in :: "schema \<Rightarrow> table \<Rightarrow> bool" where
  "registered_in s t \<longleftrightarrow> iceberg s \<and> schema_partitioned s \<and> \<not> partitioned_in s t"

definition flagged :: "schema \<Rightarrow> table \<Rightarrow> table" where
  "flagged s t = (let t0 = init_is_varchar t
     in if is_partitioned t0 (int_scale_factor s) then t0\<lparr>partitioned := True\<rparr> else t0)"

definition listed :: "schema \<Rightarrow> table \<Rightarrow> table" where
  "listed s t = (let t1 = reorder_columns s (flagged s t) in t1\<lparr>last_column := Some (last (columns t1))\<rparr>)"

lemma flagged_simps [simp]:
  "table_name (flagged s t) = table_name t" "partitioned (flagged s t) = partitioned_in s t"
  by (auto simp: flagged_def partitioned_in_def init_is_varchar_def is_partitioned_def Let_def)

lemma listed_simps [simp]:
  "table_name (listed s t) = table_name t" "partitioned (listed s t) = partitioned_in s t"
  by (simp_all add: listed_def Let_def)

lemma add_table_eq:
  "add_table loc t s =
     (if registered_in s t
      then Inr (s\<lparr>register_tables := register_tables s @ [\<lparr>registered_name = table_name t, external_location = loc\<rparr>]\<rparr>)
      else if columns (reorder_columns s (flagged s t)) = [] then Inl IndexPanic
      else Inr (s\<lparr>tables := (tables s)(table_name t \<mapsto> listed s t),
                insert_tables := (if schema_partitioned s \<longrightarrow> partitioned_in s t
                  then (insert_tables s)(table_name t \<mapsto> listed s t) else insert_tables s)\<rparr>))"
proof -
  have "is_register_table (flagged s t) s = registered_in s t"
    by (auto simp: is_register_table_def registered_in_def)
  moreover have "registered_in s t \<Longrightarrow> \<not> is_insert_table (flagged s t) (s\<lparr>register_tables := x\<rparr>)" for x
    by (simp add: is_insert_table_def registered_in_def)
  moreover have "is_insert_table (listed s t) (s\<lparr>tables := x\<rparr>) = (schema_partitioned s \<longrightarrow> partitioned_in s t)" for x
    by (simp add: is_insert_table_def)
  moreover have "add_table loc t s =
     (if is_register_table (flagged s t) s then
           (let s1 = s\<lparr>register_tables := register_tables s @ [\<lparr>registered_name = table_name t, external_location = loc\<rparr>]\<rparr>
            in Inr (if is_insert_table (flagged s t) s1 then s1\<lparr>insert_tables := (insert_tables s1)(table_name t \<mapsto> flagged s t)\<rparr> else s1))
      else if columns (reorder_columns s (flagged s t)) = [] then Inl IndexPanic
      else (let s1 = s\<lparr>tables := (tables s)(table_name t \<mapsto> listed s t)\<rparr>
            in Inr (if is_insert_table (listed s t) s1 then s1\<lparr>insert_tables := (insert_tables s1)(table_name t \<mapsto> listed s t)\<rparr> else s1)))"
    unfolding add_table_def Let_def flagged_def [unfolded Let_def, symmetric]
      listed_def [unfolded Let_def, symmetric] by simp
  ultimately show ?thesis by (simp add: Let_def)
qed

definition same_settings :: "schema \<Rightarrow> schema \<Rightarrow> bool" where
  "same_settings s s' \<longleftrightarrow> iceberg s' = iceberg s \<and> schema_partitioned s' = schema_partitioned s
     \<and> scale_factor s' = scale_factor s \<and> location_name s' = location_name s"

lemma same_settingsD:
  assumes "same_settings s s'"
  shows "partitioned_in s' t = partitioned_in s t" "registered_in s' t = registered_in s t" "listed s' t = listed s t"
proof -
  have i: "int_scale_factor s' = int_scale_factor s" using assms by (simp add: same_settings_def int_scale_factor_def)
  then show "partitioned_in s' t = partitioned_in s t" by (simp add: partitioned_in_def)
  then show "registered_in s' t = registered_in s t" using assms by (simp add: registered_in_def same_settings_def)
  show "listed s' t = listed s t"
    using assms i by (simp add: listed_def flagged_def reorder_columns_def same_settings_def)
qed

lemma add_table_settings: "add_table loc t s = Inr s' \<Longrightarrow> same_settings s s'"
  by (auto simp: add_table_eq same_settings_def split: if_splits)

lemma add_tables_settings: "add_tables loc ts s = Inr s' \<Longrightarrow> same_settings s s'"
proof (induction ts arbitrary: s)
  case (Cons t ts)
  then obtain s1 where "add_table loc t s = Inr s1" "add_tables loc ts s1 = Inr s'"
    by (auto split: sum.splits)
  with Cons.IH add_table_settings show ?case by (metis (no_types) same_settings_def)
qed (simp add: same_settings_def)

text \<open>What the loop makes of a list of definitions with different names.\<close>

lemma add_tables_classify:
  "add_tables loc ts s = Inr s' \<Longrightarrow> distinct (map table_name ts) \<Longrightarrow>
     register_tables s' = register_tables s @ map (\<lambda>t. \<lparr>registered_name = table_name t, external_location = loc\<rparr>)
        (filter (registered_in s) ts)
     \<and> (\<forall>t \<in> set ts. \<not> registered_in s t \<longrightarrow> tables s' (table_name t) = Some (listed s t)
          \<and> columns (reorder_columns s (flagged s t)) \<noteq> []
          \<and> (if schema_partitioned s \<longrightarrow> partitioned_in s t then insert_tables s' (table_name t) = Some (listed s t)
             else insert_tables s' (table_name t) = insert_tables s (table_name t)))
     \<and> (\<forall>n. (\<forall>t \<in> set ts. registered_in s t \<or> table_name t \<noteq> n) \<longrightarrow>
          tables s' n = tables s n \<and> insert_tables s' n = insert_tables s n)"
proof (induction ts arbitrary: s)
  case Nil
  then show ?case by simp
next
  case (Cons t ts)
  then obtain s1 where s1: "add_table loc t s = Inr s1" "add_tables loc ts s1 = Inr s'"
    by (auto split: sum.splits)
  note d = same_settingsD [OF add_table_settings [OF s1(1)]]
  have f: "flagged s1 t' = flagged s t'" "reorder_columns s1 t' = reorder_columns s t'"
    "schema_partitioned s1 = schema_partitioned s" for t'
    using add_table_settings [OF s1(1)]
    by (simp_all add: same_settings_def flagged_def reorder_columns_def int_scale_factor_def)
  have new: "table_name t' \<noteq> table_name t" if "t' \<in> set ts" for t' using Cons.prems(2) that by (metis distinct.simps(2) image_eqI list.set_map list.simps(9))
  have "distinct (map table_name ts)" using Cons.prems(2) by simp
  note ih0 = Cons.IH [OF s1(2) this, unfolded d f]
  have ih: "register_tables s' = register_tables s1 @ map (\<lambda>t. \<lparr>registered_name = table_name t, external_location = loc\<rparr>)
        (filter (registered_in s) ts)"
    "\<And>t'. t' \<in> set ts \<Longrightarrow> \<not> registered_in s t' \<Longrightarrow> tables s' (table_name t') = Some (listed s t')
          \<and> columns (reorder_columns s (flagged s t')) \<noteq> []
          \<and> (if schema_partitioned s \<longrightarrow> partitioned_in s t' then insert_tables s' (table_name t') = Some (listed s t')
             else insert_tables s' (table_name t') = insert_tables s1 (table_name t'))"
    "\<And>n. \<forall>t \<in> set ts. registered_in s t \<or> table_name t \<noteq> n \<Longrightarrow>
          tables s' n = tables s1 n \<and> insert_tables s' n = insert_tables s1 n"
    using ih0 by blast+
  show ?case
  proof (cases "registered_in s t")
    case True
    with s1(1) have "register_tables s1 = register_tables s @ [\<lparr>registered_name = table_name t, external_location = loc\<rparr>]"
      "tables s1 = tables s" "insert_tables s1 = insert_tables s"
      by (auto simp: add_table_eq)
    with True ih show ?thesis by simp
  next
    case False
    with s1(1) have s1': "register_tables s1 = register_tables s" "columns (reorder_columns s (flagged s t)) \<noteq> []"
      "tables s1 = (tables s)(table_name t \<mapsto> listed s t)"
      "insert_tables s1 = (if schema_partitioned s \<longrightarrow> partitioned_in s t
         then (insert_tables s)(table_name t \<mapsto> listed s t) else insert_tables s)"
      by (auto simp: add_table_eq split: if_splits)
    have last: "tables s' (table_name t) = tables s1 (table_name t)" "insert_tables s' (table_name t) = insert_tables s1 (table_name t)"
      using ih(3) [of "table_name t"] new by blast+
    have ins: "insert_tables s1 (table_name t') = insert_tables s (table_name t')" if "t' \<in> set ts" for t'
      using new [OF that] s1'(4) by simp
    show ?thesis
    proof (intro conjI)
      show "register_tables s' = register_tables s @ map (\<lambda>t. \<lparr>registered_name = table_name t, external_location = loc\<rparr>)
          (filter (registered_in s) (t # ts))"
        using ih(1) s1'(1) False by simp
      have one: "tables s' (table_name t') = Some (listed s t') \<and> columns (reorder_columns s (flagged s t')) \<noteq> []
          \<and> (if schema_partitioned s \<longrightarrow> partitioned_in s t' then insert_tables s' (table_name t') = Some (listed s t')
             else insert_tables s' (table_name t') = insert_tables s (table_name t'))"
        if "t' \<in> set ts" "\<not> registered_in s t'" for t'
        using ih(2) [OF that] ins [OF that(1)] by simp
      have "tables s' (table_name t) = Some (listed s t) \<and> columns (reorder_columns s (flagged s t)) \<noteq> []
          \<and> (if schema_partitioned s \<longrightarrow> partitioned_in s t then insert_tables s' (table_name t) = Some (listed s t)
             else insert_tables s' (table_name t) = insert_tables s (table_name t))"
        using last s1' by simp
      with one show "\<forall>t' \<in> set (t # ts). \<not> registered_in s t' \<longrightarrow> tables s' (table_name t') = Some (listed s t')
          \<and> columns (reorder_columns s (flagged s t')) \<noteq> []
          \<and> (if schema_partitioned s \<longrightarrow> partitioned_in s t' then insert_tables s' (table_name t') = Some (listed s t')
             else insert_tables s' (table_name t') = insert_tables s (table_name t'))"
        by (metis set_ConsD)
      show "\<forall>n. (\<forall>t \<in> set (t # ts). registered_in s t \<or> table_name t \<noteq> n) \<longrightarrow>
          tables s' n = tables s n \<and> insert_tables s' n = insert_tables s n"
        using ih(3) s1' False by (auto split: if_splits)
    qed
  qed
qed

text \<open>How the definitions are distributed in a schema, when their names differ: in the partitioned
  Iceberg schema the tables without partitions are only registered, at the given location; every
  other table is created, with its columns in order and the last one noted, and data is inserted
  into it, except into tables without partitions of a partitioned schema.\<close>

theorem classify_tables:
  assumes "add_entries h ddir loc es s = Inr s'" and "distinct (map table_name (definitions h ddir es))"
    and "tables s = Map.empty" and "insert_tables s = Map.empty" and "register_tables s = []"
    and "t \<in> set (definitions h ddir es)"
  shows "register_tables s' = map (\<lambda>t. \<lparr>registered_name = table_name t, external_location = loc\<rparr>)
        (filter (registered_in s) (definitions h ddir es))
     \<and> tables s' (table_name t) = (if registered_in s t then None else Some (listed s t))
     \<and> insert_tables s' (table_name t) =
        (if schema_partitioned s \<longrightarrow> partitioned_in s t then Some (listed s t) else None)
     \<and> (\<not> registered_in s t \<longrightarrow> last_column (listed s t) = Some (last (columns (listed s t)))
          \<and> columns (listed s t) \<noteq> [])"
proof -
  let ?ts = "definitions h ddir es"
  note c = add_tables_classify [OF add_entries_tables [OF assms(1)] assms(2)]
  have lc: "columns (listed s t) = columns (reorder_columns s (flagged s t))"
    "last_column (listed s t) = Some (last (columns (listed s t)))"
    by (simp_all add: listed_def Let_def)
  have r: "register_tables s' = map (\<lambda>t. \<lparr>registered_name = table_name t, external_location = loc\<rparr>)
        (filter (registered_in s) ?ts)"
    using c assms(5) by simp
  show ?thesis
  proof (cases "registered_in s t")
    case True
    have "registered_in s t' \<or> table_name t' \<noteq> table_name t" if "t' \<in> set ?ts" for t'
      using assms(2,6) that True by (metis distinct_map inj_onD)
    then have "tables s' (table_name t) = None" "insert_tables s' (table_name t) = None"
      using c assms(3,4) by auto
    with True r show ?thesis by (simp add: registered_in_def)
  next
    case False
    then have "tables s' (table_name t) = Some (listed s t) \<and> columns (reorder_columns s (flagged s t)) \<noteq> []
      \<and> insert_tables s' (table_name t) = (if schema_partitioned s \<longrightarrow> partitioned_in s t then Some (listed s t) else None)"
      using c assms(4,6) by (auto split: if_splits)
    with False r lc show ?thesis by simp
  qed
qed

section \<open>The scripts that are written\<close>

text \<open>The paths a list of events writes.\<close>

fun written :: "ddl_event list \<Rightarrow> string list" where
  "written [] = []"
| "written (Wrote p c # es) = p # written es"
| "written (_ # es) = written es"

lemma written_append [simp]: "written (xs @ ys) = written xs @ written ys"
  by (induction xs rule: written.induct) auto

lemma and_then_Inr:
  "and_then m f s = (Inr y, s') \<longleftrightarrow> (\<exists>x s1. m s = (Inr x, s1) \<and> f x s1 = (Inr y, s'))"
  by (auto simp: and_then_def split: prod.splits sum.splits)

lemma or_fatal_Inr [simp]: "or_fatal msg x s = (Inr y, s') \<longleftrightarrow> x = Some y \<and> s' = s"
  by (auto simp: or_fatal_def stop_with_def give_back_def split: option.splits)

text \<open>A step that, if it succeeds, writes the given paths.\<close>

definition writes :: "('t, 'a) ddl \<Rightarrow> string list \<Rightarrow> bool" where
  "writes m ps \<longleftrightarrow> (\<forall>s x s'. m s = (Inr x, s') \<longrightarrow> written (events s') = written (events s) @ ps)"

lemma writes_and_then:
  "writes m ps \<Longrightarrow> (\<And>x. writes (f x) qs) \<Longrightarrow> writes (and_then m f) (ps @ qs)"
  unfolding writes_def by (auto simp: and_then_Inr)

lemma writes_pure:
  "writes (give_back x) []" "writes (stop_with e) ps" "writes (or_fatal msg y) []"
  by (auto simp: writes_def give_back_def stop_with_def or_fatal_def split: option.splits)

lemma writes_skip: "writes m [] \<Longrightarrow> (\<And>x. writes (f x) qs) \<Longrightarrow> writes (and_then m f) qs"
  using writes_and_then [of m "[]" f qs] by simp

lemma writes_emit: "writes (emit (Wrote p c)) [p]"
  by (simp add: writes_def emit_def)

lemma writes_for_each: "(\<And>x. writes (f x) (g x)) \<Longrightarrow> writes (for_each f xs) (concat (map g xs))"
  by (induction xs) (auto intro: writes_and_then writes_pure)

lemma writes_template: "writes (get_template h n d) []"
  unfolding writes_def get_template_def Let_def
  by (auto simp: and_then_Inr split: option.splits)

lemma writes_exec: "writes (exec_template h s t f dirs) (map (\<lambda>d. path_join d f) dirs)"
proof -
  have one: "writes (and_then (emit (Wrote p w)) (\<lambda>_. if ok then give_back () else stop_with e)) [p]" for p w ok e
    using writes_and_then [OF writes_emit, of "\<lambda>_. if ok then give_back () else stop_with e" "[]" p w]
    by (cases ok) (simp_all add: writes_pure)
  obtain w ok where ex: "execute h t s = (w, ok)" by (cases "execute h t s")
  have "writes (and_then (or_fatal ''open'' (if can_open h p then Some () else None)) (\<lambda>_.
         case execute h t s of
           (text, ok) \<Rightarrow> and_then (emit (Wrote p text)) (\<lambda>_. if ok then give_back () else stop_with (Fatal ''execute'')))) [p]" for p
    unfolding ex prod.case by (rule writes_skip [OF writes_pure(3) one])
  then have "writes (exec_template h s t f dirs) (concat (map (\<lambda>d. [path_join d f]) dirs))"
    unfolding exec_template_def Let_def by (rule writes_for_each)
  then show ?thesis by simp
qed

definition in_dirs :: "string list \<Rightarrow> string list \<Rightarrow> string list" where
  "in_dirs dirs fs = concat (map (\<lambda>f. map (\<lambda>d. path_join d f) dirs) fs)"

lemma writes_script: "writes (generate_script h cdir dirs s n f) (in_dirs dirs [f])"
  unfolding generate_script_def in_dirs_def
  using writes_and_then [OF writes_template writes_exec, of h n cdir] by simp

text \<open>The scripts of a schema at a step, and the number of steps it takes.\<close>

definition scripts_of :: "nat \<Rightarrow> schema \<Rightarrow> string list" where
  "scripts_of step s =
     (if \<not> iceberg s \<and> schema_partitioned s
      then [script_name step ''a-create-'' s ''.sql'', script_name step ''b-s3-mv-'' s ''.sh'',
            script_name step ''c-call-analyze-'' s ''.sql'', script_name step ''d-s3-cp-'' s ''.sh'']
      else if iceberg s
      then [script_name step ''-create-'' s ''.sql'', script_name (step + 1) ''-insert-'' s ''.sql'']
      else [script_name step ''-create-'' s ''.sql''])"

fun all_scripts :: "nat \<Rightarrow> schema list \<Rightarrow> string list" where
  "all_scripts step [] = []"
| "all_scripts step (s # ss) = scripts_of step s @ all_scripts (step + (if iceberg s then 2 else 1)) ss"

lemma in_dirs_append [simp]: "in_dirs dirs (xs @ ys) = in_dirs dirs xs @ in_dirs dirs ys" "in_dirs dirs [] = []"
  by (simp_all add: in_dirs_def)

lemma writes_create:
  "writes (generate_create_table h s cdir dirs step)
     (in_dirs dirs (if iceberg s then [script_name step ''-create-'' s ''.sql''] else scripts_of step s))"
proof (cases "\<not> iceberg s \<and> schema_partitioned s")
  case True
  have "writes (generate_create_table h s cdir dirs step)
     (in_dirs dirs [script_name step ''a-create-'' s ''.sql''] @ in_dirs dirs [script_name step ''b-s3-mv-'' s ''.sh'']
      @ in_dirs dirs [script_name step ''c-call-analyze-'' s ''.sql''] @ in_dirs dirs [script_name step ''d-s3-cp-'' s ''.sh''])"
    using True unfolding generate_create_table_def Let_def by (auto intro!: writes_and_then writes_script)
  with True show ?thesis by (simp add: scripts_of_def flip: in_dirs_append(1))
next
  case False
  then show ?thesis unfolding generate_create_table_def Let_def using writes_script by (auto simp: scripts_of_def)
qed

lemma add_entries_settings: "add_entries h ddir loc es s = Inr s' \<Longrightarrow> same_settings s s'"
  using add_entries_tables add_tables_settings by blast

lemma scripts_of_same: "same_settings s s' \<Longrightarrow> scripts_of step s' = scripts_of step s"
  by (simp add: same_settings_def scripts_of_def script_name_def)

lemma writes_schema:
  assumes "generate_schema_from_def h s0 ddir cdir dirs loc step st = (Inr n, st')"
  shows "n = step + (if iceberg s0 then 2 else 1)
     \<and> written (events st') = written (events st) @ in_dirs dirs (scripts_of step s0)"
proof -
  obtain es where es: "read_dir h ddir = Some es"
    using assms by (auto simp: generate_schema_from_def_def and_then_Inr)
  obtain s where s: "add_entries h ddir loc es s0 = Inr s"
    using assms es by (cases "add_entries h ddir loc es s0")
      (auto simp: generate_schema_from_def_def and_then_Inr stop_with_def)
  note same = add_entries_settings [OF s]
  have i: "iceberg s = iceberg s0" using same by (simp add: same_settings_def)
  have c: "writes (generate_create_table h s cdir dirs step)
     (in_dirs dirs (if iceberg s then [script_name step ''-create-'' s ''.sql''] else scripts_of step s))"
    by (rule writes_create)
  show ?thesis
  proof (cases "iceberg s")
    case True
    then obtain st1 where "generate_create_table h s cdir dirs step st = (Inr (), st1)"
      "generate_insert_table h s cdir dirs (step + 1) st1 = (Inr (), st')" "n = step + 2"
      using assms es s by (auto simp: generate_schema_from_def_def and_then_Inr should_gen_insert_def give_back_def)
    moreover from this(2) have "written (events st') = written (events st1)
        @ in_dirs dirs [script_name (step + 1) ''-insert-'' s ''.sql'']"
      using writes_script unfolding generate_insert_table_def writes_def by blast
    ultimately have "written (events st') = written (events st) @ in_dirs dirs (scripts_of step s)"
      using c True by (auto simp: writes_def scripts_of_def in_dirs_def)
    with True i \<open>n = step + 2\<close> show ?thesis by (simp add: scripts_of_same [OF same])
  next
    case False
    then have "generate_create_table h s cdir dirs step st = (Inr (), st')" "n = step + 1"
      using assms es s by (auto simp: generate_schema_from_def_def and_then_Inr should_gen_insert_def give_back_def)
    with c False i show ?thesis by (simp add: writes_def scripts_of_same [OF same])
  qed
qed

lemma writes_all: "writes (generate_all h ddir cdir dirs ss step) (in_dirs dirs (all_scripts step ss))"
proof (induction ss arbitrary: step)
  case Nil
  then show ?case by (simp add: writes_pure)
next
  case (Cons s ss)
  show ?case
    unfolding writes_def
  proof (intro allI impI)
    fix st x st'
    assume "generate_all h ddir cdir dirs (s # ss) step st = (Inr x, st')"
    then obtain n st1 where s1: "generate_schema_from_def h s ddir cdir dirs (non_part_location_name s) step st = (Inr n, st1)"
      "generate_all h ddir cdir dirs ss n st1 = (Inr x, st')"
      by (auto simp: and_then_Inr)
    from writes_schema [OF s1(1)] Cons.IH [of n] s1(2)
    show "written (events st') = written (events st) @ in_dirs dirs (all_scripts step (s # ss))"
      by (auto simp: writes_def)
  qed
qed

lemma written_removed: "written (remove_files h d es) = []"
  by (induction es rule: remove_files.induct [of _ h d]) auto

lemma writes_prepare: "writes (prepare_dir h d) []"
  by (auto simp: writes_def prepare_dir_def Let_def emit_def stop_with_def clean_output_dir_def written_removed
      split: option.splits if_splits)

text \<open>The four variants of a configuration.\<close>

definition variants :: "schema \<Rightarrow> schema list" where
  "variants b = map (\<lambda>(i, p). variant b i p) [(True, False), (True, True), (False, False), (False, True)]"

lemma variant_flags [simp]:
  "iceberg (variant b i p) = i" "schema_partitioned (variant b i p) = p"
  "workload (variant b i p) = workload b" "workload_definition (variant b i p) = workload_definition b"
  by (simp_all add: variant_def set_session_vars_def set_names_def Let_def)

text \<open>The names of the scripts, from the locations of the four variants.\<close>

fun script_list :: "string list \<Rightarrow> string list" where
  "script_list [l1, l2, l3, l4] = [''1-create-'' @ l1 @ ''.sql'', ''2-insert-'' @ l1 @ ''.sql'',
     ''3-create-'' @ l2 @ ''.sql'', ''4-insert-'' @ l2 @ ''.sql'', ''5-create-'' @ l3 @ ''.sql'',
     ''6a-create-'' @ l4 @ ''.sql'', ''6b-s3-mv-'' @ l4 @ ''.sh'', ''6c-call-analyze-'' @ l4 @ ''.sql'',
     ''6d-s3-cp-'' @ l4 @ ''.sh'']"
| "script_list _ = []"

lemma all_scripts_variants: "all_scripts 0 (variants b) = script_list (map location_name (variants b))"
proof -
  have n: "itoa 1 = ''1''" "itoa 2 = ''2''" "itoa 3 = ''3''" "itoa 4 = ''4''" "itoa 5 = ''5''" "itoa 6 = ''6''"
    by code_simp+
  show ?thesis by (simp add: variants_def scripts_of_def script_name_def n)
qed

lemma script_list_distinct: "distinct (script_list ls)"
  by (cases ls rule: script_list.cases) simp_all

text \<open>C32: A run that ends without an error writes nine scripts, numbered in the order in which they are to
  be run, into each of the two directories; no two of them have the same name.\<close>

theorem ddl_scripts:
  assumes "run_genddl h arg = (Inr (), st)" and "abs_of h arg = Some path" and "read_bytes h path = Some content"
    and "unmarshal_schema h content = Some b0"
  shows "\<exists>named. get_named_output h content (workload (default_workload b0)) = Some named
     \<and> written (events st) = in_dirs [path_join (dir path) ''out'',
          path_join (path_join (dir path) ''generated-examples'') named]
          (script_list (map location_name (variants (default_workload b0))))
     \<and> distinct (script_list (map location_name (variants (default_workload b0))))"
proof -
  let ?ss = "variants (default_workload b0)"
  have ss: "load_schemas h content = Some ?ss"
    using assms(4) by (simp add: load_schemas_def variants_def)
  obtain named where named: "get_named_output h content (workload (hd ?ss)) = Some named"
    using assms(1-3) ss by (auto simp: run_genddl_def and_then_Inr Let_def)
  let ?dirs = "[path_join (dir path) ''out'', path_join (path_join (dir path) ''generated-examples'') named]"
  let ?gen = "\<lambda>_. generate_all h (path_join (path_join (dir path) ''definition'') (workload_definition (hd ?ss))) (dir path) ?dirs ?ss 0"
  have r: "and_then (for_each (prepare_dir h) ?dirs) ?gen \<lparr>events = [], template_cache = Map.empty\<rparr> = (Inr (), st)"
    using assms(1-3) ss named by (auto simp: run_genddl_def and_then_Inr Let_def)
  have "writes (for_each (prepare_dir h) ?dirs) (concat (map (\<lambda>_. []) ?dirs))"
    by (rule writes_for_each) (rule writes_prepare)
  then have "writes (for_each (prepare_dir h) ?dirs) []" by simp
  from writes_and_then [OF this, of ?gen "in_dirs ?dirs (all_scripts 0 ?ss)"] writes_all r
  have w: "written (events st) = in_dirs ?dirs (all_scripts 0 ?ss)"
    unfolding writes_def by fastforce
  have "workload (hd ?ss) = workload (default_workload b0)" by (simp add: variants_def)
  with named w script_list_distinct show ?thesis by (simp only: all_scripts_variants) blast
qed

section \<open>Where the registered tables are\<close>

lemma index_str_append:
  assumes "pat \<noteq> []" and "hd pat \<notin> set (tl pat)"
  shows "\<not> contains p pat \<Longrightarrow> index_str pat (p @ pat @ r) = Some (length p)"
proof (induction p)
  case Nil
  then show ?case by (subst index_str.simps) (simp add: has_prefix_def)
next
  case (Cons c p)
  have no: "\<not> has_prefix (c # p) pat" "\<not> contains p pat"
    using Cons.prems by (auto simp: contains_def index_str.simps [of pat "c # p"] split: if_splits)
  have "\<not> has_prefix ((c # p) @ pat @ r) pat"
  proof
    assume h: "has_prefix ((c # p) @ pat @ r) pat"
    show False
    proof (cases "length pat \<le> length (c # p)")
      case True
      then have "take (length pat) ((c # p) @ pat @ r) = take (length pat) (c # p)"
        by (simp only: take_append) simp
      with h no(1) show False unfolding has_prefix_def by argo
    next
      case False
      let ?k = "length (c # p)"
      have "take (length pat) ((c # p) @ pat @ r) ! ?k = pat ! ?k" using h by (simp add: has_prefix_def)
      moreover have "take (length pat) ((c # p) @ pat @ r) ! ?k = ((c # p) @ pat @ r) ! ?k"
        using False by (intro nth_take) simp
      moreover have "((c # p) @ pat @ r) ! ?k = hd pat"
        using assms(1) by (simp add: nth_append hd_conv_nth)
      moreover have "pat ! ?k = tl pat ! length p" using assms(1) by (cases pat) simp_all
      moreover have "length p < length (tl pat)" using False by simp
      ultimately show False using assms(2) by (metis nth_mem)
    qed
  qed
  with Cons.IH [OF no(2)] show ?case by (subst index_str.simps) simp
qed

lemma replace_first_at:
  "index_str pat (p @ pat @ r) = Some (length p) \<Longrightarrow> replace_first (p @ pat @ r) pat new = p @ new @ r"
  by (simp add: replace_first_def)

text \<open>The tables without partitions of the partitioned Iceberg schema are registered at the location of
  the Iceberg schema without partitions (and likewise for Hive), when the names are the derived ones
  and the stem of the names does not itself contain \<open>-partitioned\<close>.\<close>

theorem registered_location:
  assumes "schema_name b = [] \<or> location_name b = []"
    and "\<not> contains (workload b @ ''-sf'' @ scale_factor b @ ''-'' @ file_format b) ''-partitioned''"
  shows "non_part_location_name (variant b i True) = location_name (variant b i False)"
proof -
  have t: "to_hyphen ''_partitioned'' = ''-partitioned''" "to_hyphen [] = []"
    by code_simp+
  let ?stem = "workload b @ ''-sf'' @ scale_factor b @ ''-'' @ file_format b"
  let ?r = "to_hyphen (if i then ''_iceberg'' else ''_hive'') @ to_hyphen (if compression_method b = ''zstd'' then ''_zstd'' else [])"
  have on: "location_name (variant b i True) = ?stem @ ''-partitioned'' @ ?r"
    and off: "location_name (variant b i False) = ?stem @ ?r"
    using assms(1) by (auto simp: variant_def set_session_vars_def set_names_def Let_def t)
  have "index_str ''-partitioned'' (?stem @ ''-partitioned'' @ ?r) = Some (length ?stem)"
    by (rule index_str_append [OF _ _ assms(2)]) simp_all
  from replace_first_at [OF this] have "replace_first (?stem @ ''-partitioned'' @ ?r) ''-partitioned'' [] = ?stem @ ?r"
    by (simp only: append_Nil)
  then show ?thesis by (simp only: non_part_location_name_def on off)
qed

section \<open>A small run\<close>

definition demo_base :: schema where
  "demo_base = \<lparr>scale_factor = ''1k'', file_format = ''parquet'', iceberg = False, compression_method = ''zstd'',
     schema_partitioned = False, workload = ''w'', workload_definition = ''d'', schema_name = [], location_name = [],
     uncompressed_name = [], iceberg_location_name = [], part_iceberg_name = [], register_tables = [],
     tables = Map.empty, insert_tables = Map.empty, session_variables = Map.empty\<rparr>"

definition demo_column :: "string \<Rightarrow> bool option \<Rightarrow> column" where
  "demo_column n k = \<lparr>col_name = n, col_type = Some ''VARCHAR(2)'', partition_key = k, bucket_key = None, is_varchar = False\<rparr>"

definition demo_table :: table where
  "demo_table = \<lparr>table_name = ''t'', partitioned = False, partitioned_min_scale = 1000,
     columns = [demo_column ''k'' (Some True), demo_column ''v'' None], last_column = None\<rparr>"

definition demo_ddl :: "unit ddl_host" where
  "demo_ddl = \<lparr>abs_of = Some, read_bytes = Some, read_dir = (\<lambda>_. Some [(''t.json'', False), (''x'', True)]),
     can_remove = (\<lambda>_. True), can_make = (\<lambda>_. True), can_open = (\<lambda>_. True),
     unmarshal_schema = (\<lambda>_. Some demo_base), unmarshal_strings = (\<lambda>_. Some Map.empty),
     unmarshal_table = (\<lambda>_. Some demo_table), parse_template = (\<lambda>_. Some ()), execute = (\<lambda>_ _. ([], True))\<rparr>"

lemma demo_ddl_run: "case run_genddl demo_ddl ''/c/g.json'' of (Inr (), st) \<Rightarrow> True | _ \<Rightarrow> False"
  by code_simp

lemma demo_definitions: "definitions demo_ddl ''d'' [(''t.json'', False), (''x'', True)] = [demo_table]"
  by (simp add: demo_ddl_def has_suffix_def)

lemma demo_registered: "\<not> registered_in (variant demo_base True True) demo_table"
  by code_simp

theorem classify_tables_witness:
  "\<exists>s'. add_entries demo_ddl ''d'' ''l'' [(''t.json'', False), (''x'', True)] (variant demo_base True True) = Inr s'
     \<and> tables s' ''t'' = Some (listed (variant demo_base True True) demo_table)"
proof -
  have "case add_entries demo_ddl ''d'' ''l'' [(''t.json'', False), (''x'', True)] (variant demo_base True True) of
      Inr s' \<Rightarrow> True | _ \<Rightarrow> False"
    by code_simp
  then obtain s' where a: "add_entries demo_ddl ''d'' ''l'' [(''t.json'', False), (''x'', True)] (variant demo_base True True) = Inr s'"
    by (auto split: sum.splits)
  have v: "tables (variant demo_base True True) = Map.empty" "insert_tables (variant demo_base True True) = Map.empty"
    "register_tables (variant demo_base True True) = []"
    by (simp_all add: variant_def set_session_vars_def set_names_def Let_def)
  have "distinct (map table_name (definitions demo_ddl ''d'' [(''t.json'', False), (''x'', True)]))"
    "demo_table \<in> set (definitions demo_ddl ''d'' [(''t.json'', False), (''x'', True)])"
    by (simp_all only: demo_definitions) simp_all
  from classify_tables [OF a this(1) v this(2)] demo_registered a show ?thesis by (simp add: demo_table_def)
qed

theorem ddl_scripts_witness:
  "\<exists>st. run_genddl demo_ddl ''/c/g.json'' = (Inr (), st) \<and> length (written (events st)) = 18"
proof -
  obtain st where r: "run_genddl demo_ddl ''/c/g.json'' = (Inr (), st)"
    using demo_ddl_run by (cases "run_genddl demo_ddl ''/c/g.json''") (auto split: sum.splits)
  have "abs_of demo_ddl ''/c/g.json'' = Some ''/c/g.json''" "read_bytes demo_ddl ''/c/g.json'' = Some ''/c/g.json''"
    "unmarshal_schema demo_ddl ''/c/g.json'' = Some demo_base"
    by (simp_all add: demo_ddl_def)
  from ddl_scripts [OF r this] r show ?thesis by (auto simp: variants_def in_dirs_def)
qed

theorem registered_location_witness:
  "non_part_location_name (variant demo_base True True) = location_name (variant demo_base True False)"
proof -
  have "\<not> contains (workload demo_base @ ''-sf'' @ scale_factor demo_base @ ''-'' @ file_format demo_base) ''-partitioned''"
    by code_simp
  then show ?thesis by (intro registered_location) (simp_all add: demo_base_def)
qed

end
