(* ===== verification/RoundFiles.thy ===== *)
theory RoundFiles
  imports SqlSplit Utils
begin

text \<open>
  The command that shortens the decimals of result files, \<open>cmd/round/main.go\<close>: the split function
  \<open>scanCommaSeparatedField\<close> (the second split function of the program, with the same contract as that
  for SQL), the search for decimals, the rewriting of one file with its temporary output file, and
  the walk over files and directories.
\<close>

section \<open>The fields of a row\<close>

datatype comma_error = UnclosedQuote char | UnexpectedByte char char

text \<open>The characters in the back-quoted literal of the source: the last two are a backslash and the
  letter \<open>n\<close>, not a line break.\<close>

definition comma_special :: "char list" where
  "comma_special = [squote, dquote, CHR '','', backslash, CHR ''n'']"

text \<open>The loop from position \<open>pos\<close> with the open quote: \<open>Inl\<close> is a return from inside, \<open>Inr\<close> leaves it.\<close>

function scan_comma_loop :: "string \<Rightarrow> nat \<Rightarrow> char option \<Rightarrow> (nat \<times> string option) + char option" where
  "scan_comma_loop data pos quot =
     (if length data \<le> pos then Inr quot
      else case quot of
        Some q \<Rightarrow>
          (case index_byte q (drop pos data) of
             Some i \<Rightarrow>
               (let p = pos + i
                in if even (backslashes_before data p) then scan_comma_loop data (p + 1) None
                   else scan_comma_loop data (p + 1) (Some q))
           | None \<Rightarrow> Inr (Some q))
      | None \<Rightarrow>
          (case index_any comma_special (drop pos data) of
             Some i \<Rightarrow>
               (let p = pos + i; c = data ! p
                in if c = dquote \<or> c = squote then scan_comma_loop data (p + 1) (Some c)
                   else if c = CHR '','' \<or> c = newline then Inl (p + 1, non_empty (trim_space (take p data)))
                   else scan_comma_loop data (p + 1) None)
           | None \<Rightarrow> Inr None))"
  by pat_completeness auto
termination
  by (relation "measure (\<lambda>(data, pos, q). length data - pos)") auto

declare scan_comma_loop.simps [simp del]

definition scan_comma_field :: "comma_error split_function" where
  "scan_comma_field data at_end =
     (if at_end \<and> length data = 0 then Inr (0, None)
      else case scan_comma_loop data 0 None of
             Inl r \<Rightarrow> Inr r
           | Inr q \<Rightarrow>
               if at_end then
                 (case q of Some c \<Rightarrow> Inl (UnclosedQuote c)
                  | None \<Rightarrow> Inr (length data, non_empty (trim_space data)))
               else Inr (0, None))"

subsection \<open>The reference: one byte at a time\<close>

text \<open>The open quote, and whether an odd number of backslashes has just been read in it.\<close>

type_synonym quoting = "(char \<times> bool) option"

fun quote_step :: "quoting \<Rightarrow> char \<Rightarrow> quoting" where
  "quote_step None c = (if c = dquote \<or> c = squote then Some (c, False) else None)"
| "quote_step (Some (q, esc)) c =
     (if c = backslash then Some (q, \<not> esc) else if c = q \<and> \<not> esc then None else Some (q, False))"

definition quote_run :: "quoting \<Rightarrow> string \<Rightarrow> quoting" where
  "quote_run l s = foldl quote_step l s"

fun first_comma :: "quoting \<Rightarrow> string \<Rightarrow> nat option" where
  "first_comma l [] = None"
| "first_comma l (c # cs) = (if c = CHR '','' \<and> l = None then Some 0 else map_option Suc (first_comma (quote_step l c) cs))"

definition quoting_at :: "string \<Rightarrow> nat \<Rightarrow> char option \<Rightarrow> quoting" where
  "quoting_at data pos q = map_option (\<lambda>c. (c, odd (backslashes_before data pos))) q"

definition comma_ref :: "string \<Rightarrow> nat \<Rightarrow> char option \<Rightarrow> (nat \<times> string option) + char option" where
  "comma_ref data pos q =
     (case first_comma (quoting_at data pos q) (drop pos data) of
        Some i \<Rightarrow> Inl (pos + i + 1, non_empty (trim_space (take (pos + i) data)))
      | None \<Rightarrow> Inr (map_option fst (quote_run (quoting_at data pos q) (drop pos data))))"

lemma comma_ref_end: "length data \<le> pos \<Longrightarrow> comma_ref data pos q = Inr q"
  by (cases q) (simp_all add: comma_ref_def quote_run_def quoting_at_def)

lemma comma_ref_step:
  assumes "pos < length data" and "\<not> (q = None \<and> data ! pos = CHR '','')"
    and "quote_step (quoting_at data pos q) (data ! pos) = quoting_at data (Suc pos) q'"
  shows "comma_ref data pos q = comma_ref data (Suc pos) q'"
proof -
  have d: "drop pos data = data ! pos # drop (Suc pos) data" by (simp add: Cons_nth_drop_Suc assms(1))
  have n: "quoting_at data pos q = None \<longleftrightarrow> q = None" by (simp add: quoting_at_def)
  show ?thesis
    using assms(2,3) by (cases "first_comma (quoting_at data (Suc pos) q') (drop (Suc pos) data)")
      (auto simp: comma_ref_def d n quote_run_def)
qed

definition neutral :: "char option \<Rightarrow> char \<Rightarrow> bool" where
  "neutral q c = (case q of None \<Rightarrow> c \<noteq> CHR '','' \<and> c \<noteq> dquote \<and> c \<noteq> squote | Some a \<Rightarrow> c \<noteq> a)"

lemma comma_ref_neutral:
  assumes "pos < length data" and "neutral q (data ! pos)"
  shows "comma_ref data pos q = comma_ref data (Suc pos) q"
  using assms by (intro comma_ref_step) (auto simp: neutral_def quoting_at_def backslashes_Suc split: option.splits)

lemma comma_ref_skip:
  "pos + i \<le> length data \<Longrightarrow> (\<And>j. j < i \<Longrightarrow> neutral q (data ! (pos + j))) \<Longrightarrow>
     comma_ref data pos q = comma_ref data (pos + i) q"
proof (induction i)
  case (Suc i)
  then have "comma_ref data pos q = comma_ref data (pos + i) q" by simp
  also have "\<dots> = comma_ref data (Suc (pos + i)) q"
    using Suc.prems by (intro comma_ref_neutral) simp_all
  finally show ?case by simp
qed simp

lemma comma_ref_none:
  assumes "index_where p (drop pos data) = None" and "\<And>c. \<not> p c \<Longrightarrow> neutral q c" and "pos \<le> length data"
  shows "comma_ref data pos q = Inr q"
proof -
  have "neutral q (data ! (pos + j))" if "j < length data - pos" for j
  proof -
    have "drop pos data ! j \<in> set (drop pos data)" using that by (intro nth_mem) simp
    then show ?thesis using assms that by (simp add: index_where_None)
  qed
  then have "comma_ref data pos q = comma_ref data (pos + (length data - pos)) q"
    using assms(3) by (intro comma_ref_skip) simp_all
  then show ?thesis using comma_ref_end assms(3) by simp
qed

lemma comma_ref_jump:
  assumes "index_where p (drop pos data) = Some i" and "\<And>c. \<not> p c \<Longrightarrow> neutral q c"
  shows "comma_ref data pos q = comma_ref data (pos + i) q \<and> pos + i < length data \<and> p (data ! (pos + i))"
proof -
  note j = jump_split [OF assms(1)]
  have "comma_ref data pos q = comma_ref data (pos + i) q"
    using j(1,5) assms(2) by (intro comma_ref_skip) auto
  with j(1,2) show ?thesis by simp
qed

lemma scan_comma_loop_ref:
  "(case q of None \<Rightarrow> True | Some a \<Rightarrow> a = dquote \<or> a = squote) \<Longrightarrow>
     scan_comma_loop data pos q = comma_ref data pos q"
proof (induction data pos q rule: scan_comma_loop.induct)
  case (1 data pos q)
  show ?case
  proof (cases "length data \<le> pos")
    case True
    then show ?thesis by (simp add: comma_ref_end scan_comma_loop.simps [of data pos])
  next
    case lt: False
    show ?thesis
    proof (cases q)
      case (Some a)
      with "1.prems" have a: "a = dquote \<or> a = squote" by simp
      show ?thesis
      proof (cases "index_byte a (drop pos data)")
        case None
        with Some lt show ?thesis
          using comma_ref_none [of "\<lambda>x. x = a" pos data q]
          by (simp add: scan_comma_loop.simps [of data pos] index_byte_def neutral_def)
      next
        case i: (Some i)
        let ?p = "pos + i"
        have j: "comma_ref data pos q = comma_ref data ?p q" "?p < length data" "data ! ?p = a"
          using comma_ref_jump [of "\<lambda>x. x = a" pos data i q] i Some by (auto simp: index_byte_def neutral_def)
        have bs: "backslashes_before data (Suc ?p) = 0" using j(2,3) a by (auto simp: backslashes_Suc)
        show ?thesis
        proof (cases "even (backslashes_before data ?p)")
          case True
          then have "comma_ref data ?p q = comma_ref data (Suc ?p) None"
            using j(2,3) a Some by (intro comma_ref_step) (auto simp: quoting_at_def)
          with True i Some lt j(1) "1.IH" show ?thesis
            by (simp add: scan_comma_loop.simps [of data pos])
        next
          case False
          then have "comma_ref data ?p q = comma_ref data (Suc ?p) q"
            using j(2,3) a Some bs by (intro comma_ref_step) (auto simp: quoting_at_def)
          with False i Some lt j(1) a "1.IH" show ?thesis
            by (simp add: scan_comma_loop.simps [of data pos])
        qed
      qed
    next
      case None
      have neu: "c \<notin> set comma_special \<Longrightarrow> neutral None c" for c
        by (simp add: comma_special_def neutral_def)
      show ?thesis
      proof (cases "index_any comma_special (drop pos data)")
        case none: None
        with None lt neu show ?thesis
          using comma_ref_none [of "\<lambda>x. x \<in> set comma_special" pos data None]
          by (simp add: scan_comma_loop.simps [of data pos] index_any_def)
      next
        case i: (Some i)
        let ?p = "pos + i"
        have j: "comma_ref data pos None = comma_ref data ?p None" "?p < length data" "data ! ?p \<in> set comma_special"
          using comma_ref_jump [of "\<lambda>x. x \<in> set comma_special" pos data i None] i neu by (auto simp: index_any_def)
        consider (quote) "data ! ?p = dquote \<or> data ! ?p = squote" | (comma) "data ! ?p = CHR '',''"
          | (other) "data ! ?p = backslash \<or> data ! ?p = CHR ''n''"
          using j(3) by (auto simp: comma_special_def)
        then show ?thesis
        proof cases
          case quote
          then have "backslashes_before data (Suc ?p) = 0" using j(2) by (auto simp: backslashes_Suc)
          with quote have "comma_ref data ?p None = comma_ref data (Suc ?p) (Some (data ! ?p))"
            using j(2) by (intro comma_ref_step) (auto simp: quoting_at_def)
          with quote i None lt j(1) "1.IH" show ?thesis
            by (simp add: scan_comma_loop.simps [of data pos] Let_def)
        next
          case comma
          then have "comma_ref data ?p None = Inl (?p + 1, non_empty (trim_space (take ?p data)))"
            using Cons_nth_drop_Suc [OF j(2), symmetric] by (simp add: comma_ref_def quoting_at_def)
          with comma i None lt j(1) show ?thesis
            by (simp add: scan_comma_loop.simps [of data pos] Let_def)
        next
          case other
          then have "comma_ref data ?p None = comma_ref data (Suc ?p) None"
            using j(2) by (intro comma_ref_neutral) (auto simp: neutral_def)
          with other i None lt j(1) "1.IH" show ?thesis
            by (auto simp: scan_comma_loop.simps [of data pos] Let_def)
        qed
      qed
    qed
  qed
qed

lemma scan_comma_field_eq:
  "scan_comma_field data at_end =
     (case first_comma None data of
        Some i \<Rightarrow> Inr (Suc i, non_empty (trim_space (take i data)))
      | None \<Rightarrow>
          if at_end then
            (case quote_run None data of Some (c, esc) \<Rightarrow> Inl (UnclosedQuote c)
             | None \<Rightarrow> Inr (length data, non_empty (trim_space data)))
          else Inr (0, None))"
  using scan_comma_loop_ref [of None data 0]
  by (auto simp: scan_comma_field_def comma_ref_def quoting_at_def quote_run_def non_empty_def trim_space_def
      strip_runes.simps [of _ "[]"] space_runes_def split: option.splits)


lemma first_comma_less: "first_comma l s = Some i \<Longrightarrow> i < length s"
  by (induction s arbitrary: l i) (auto split: if_splits)

lemma first_comma_append_Some: "first_comma l s = Some i \<Longrightarrow> first_comma l (s @ t) = Some i"
  by (induction s arbitrary: l i) (auto split: if_splits)

lemma first_comma_append_None:
  "first_comma l s = None \<Longrightarrow> first_comma l (s @ t) = map_option ((+) (length s)) (first_comma (quote_run l s) t)"
proof (induction s arbitrary: l)
  case Nil
  then show ?case by (cases "first_comma l t") (auto simp: quote_run_def)
next
  case (Cons c s)
  then have none: "first_comma (quote_step l c) s = None" and "\<not> (c = CHR '','' \<and> l = None)"
    by (auto split: if_splits)
  then show ?case
    using Cons.IH [OF none] by (cases "first_comma (quote_run l (c # s)) t") (auto simp: quote_run_def)
qed

lemma non_empty_length: "non_empty x = Some t \<Longrightarrow> 0 < length x"
  by (auto simp: non_empty_def split: if_splits)

lemma trim_take_length: "non_empty (trim_space (take i d)) = Some t \<Longrightarrow> d \<noteq> []"
  by (auto dest!: non_empty_length simp: trim_space_def strip_runes.simps [of _ "[]"] space_runes_def)

interpretation comma: split_func scan_comma_field
proof unfold_locales
  show "n \<le> length d" if "scan_comma_field d e = Inr (n, t)" for d e n t
    using that by (auto simp: scan_comma_field_eq first_comma_less Suc_leI split: option.splits if_splits prod.splits)
  show "0 < n" if "scan_comma_field d e = Inr (n, Some tok)" for d e n tok
    using that trim_take_length [of "length d" d]
    by (auto simp: scan_comma_field_eq split: option.splits if_splits prod.splits)
  show "scan_comma_field d False \<noteq> Inl err" for d err
    by (simp add: scan_comma_field_eq split: option.split)
  show "scan_comma_field (d @ x) e = Inr (n, t)" if "scan_comma_field d False = Inr (n, t)" and "0 < n" for d x e n t
  proof -
    from that obtain i where i: "first_comma None d = Some i"
      and "n = Suc i" "t = non_empty (trim_space (take i d))"
      by (auto simp: scan_comma_field_eq split: option.splits)
    with first_comma_append_Some [OF i, of x] first_comma_less [OF i] show ?thesis
      by (simp add: scan_comma_field_eq)
  qed
  show "0 < n" if "d \<noteq> []" "scan_comma_field d True = Inr (n, t)" for d n t
    using that by (auto simp: scan_comma_field_eq split: option.splits prod.splits)
  show "scan_comma_field [] True = Inr (0, None)" by (simp add: scan_comma_field_def)
qed

section \<open>Lines\<close>

text \<open>\<open>bufio.ScanLines\<close>, the split function a new scanner has.\<close>

definition drop_cr :: "string \<Rightarrow> string" where
  "drop_cr s = (if s \<noteq> [] \<and> last s = CHR 0x0D then butlast s else s)"

definition scan_lines :: "unit split_function" where
  "scan_lines data at_end =
     (if at_end \<and> length data = 0 then Inr (0, None)
      else case index_byte newline data of
             Some i \<Rightarrow> Inr (i + 1, Some (drop_cr (take i data)))
           | None \<Rightarrow> if at_end then Inr (length data, Some (drop_cr data)) else Inr (0, None))"

interpretation lines: split_func scan_lines
proof unfold_locales
  show "n \<le> length d" if "scan_lines d e = Inr (n, t)" for d e n t
    using that by (auto simp: scan_lines_def index_byte_def index_where_less Suc_leI split: option.splits if_splits)
  show "0 < n" if "scan_lines d e = Inr (n, Some tok)" for d e n tok
    using that by (auto simp: scan_lines_def split: option.splits if_splits)
  show "scan_lines d False \<noteq> Inl err" for d err
    by (simp add: scan_lines_def split: option.split)
  show "scan_lines (d @ x) e = Inr (n, t)" if "scan_lines d False = Inr (n, t)" and "0 < n" for d x e n t
  proof -
    from that obtain i where i: "index_byte newline d = Some i" and "n = Suc i" "t = Some (drop_cr (take i d))"
      by (auto simp: scan_lines_def split: option.splits)
    then have w: "index_where (\<lambda>x. x = newline) d = Some i" by (simp add: index_byte_def)
    have "i < length d" by (rule index_where_less [OF w])
    with index_where_append_Some [OF w, of x] \<open>n = Suc i\<close> \<open>t = Some (drop_cr (take i d))\<close> show ?thesis
      by (auto simp: scan_lines_def index_byte_def)
  qed
  show "0 < n" if "d \<noteq> []" "scan_lines d True = Inr (n, t)" for d n t
    using that by (auto simp: scan_lines_def split: option.splits)
  show "scan_lines [] True = Inr (0, None)" by (simp add: scan_lines_def)
qed

lemma no_empty_piece_lines: "no_empty_piece scan_lines d"
proof (induction d rule: length_induct)
  case (1 d)
  show ?case
  proof (cases "d = []")
    case False
    then obtain n t where s: "scan_lines d True = Inr (n, Some t)" "0 < n"
      by (cases "index_byte newline d") (auto simp: scan_lines_def)
    with 1 False have "no_empty_piece scan_lines (drop n d)" by simp
    with s False show ?thesis by (subst no_empty_piece.simps) simp
  qed (simp add: no_empty_piece.simps)
qed

text \<open>A scanner as the program makes it: an empty buffer that grows up to \<open>MaxScanTokenSize\<close>. A file
  is read until the buffer is full; a \<open>strings.Reader\<close> gives what fits.\<close>

definition max_scan_token :: nat where
  "max_scan_token = 64 * 1024"

definition scan_text :: "'e split_function \<Rightarrow> string \<Rightarrow> bool \<Rightarrow> (string list \<times> 'e scan_error option) option" where
  "scan_text split input fails =
     scan_all (2 * length input + 2) split (new_scanner input [] fails 0 max_scan_token)"

definition row_fields :: "string \<Rightarrow> (string list \<times> comma_error scan_error option) option" where
  "row_fields row = scan_text scan_comma_field row False"

definition file_lines :: "string \<Rightarrow> bool \<Rightarrow> (string list \<times> unit scan_error option) option" where
  "file_lines content fails = scan_text scan_lines content fails"

lemma scans_return: "\<exists>ts e. row_fields row = Some (ts, e)" "\<exists>ts e. file_lines content fails = Some (ts, e)"
proof -
  have "0 < max_scan_token" by (simp add: max_scan_token_def)
  then show "\<exists>ts e. row_fields row = Some (ts, e)" "\<exists>ts e. file_lines content fails = Some (ts, e)"
    using comma.scan_returns [of "new_scanner row [] False 0 max_scan_token" "2 * length row + 2"]
      lines.scan_returns [of "new_scanner content [] fails 0 max_scan_token" "2 * length content + 2"]
    by (auto simp: row_fields_def file_lines_def scan_text_def new_scanner_ok)
qed

section \<open>Decimals\<close>

text \<open>
  The regular expression \<open>"?(\d+\.\d{p})\d+"?\<close>, its leftmost match and the first group. The run of
  digits before the point is taken whole, and the optional quotes do not change the group.
\<close>

definition decimal_at :: "nat \<Rightarrow> string \<Rightarrow> string option" where
  "decimal_at p s =
     (let ds = takeWhile is_digit s
      in case dropWhile is_digit s of
           c # fr \<Rightarrow>
             if ds \<noteq> [] \<and> c = dot \<and> p < length (takeWhile is_digit fr) then Some (ds @ dot # take p fr) else None
         | [] \<Rightarrow> None)"

fun find_decimal :: "nat \<Rightarrow> string \<Rightarrow> string option" where
  "find_decimal p [] = None"
| "find_decimal p (c # cs) =
     (case decimal_at p (c # cs) of Some m \<Rightarrow> Some m | None \<Rightarrow> find_decimal p cs)"

record round_settings =
  precision :: nat
  extensions :: "string list"
  json :: bool
  in_place :: bool
  recursive :: bool

definition round_cell :: "round_settings \<Rightarrow> string \<Rightarrow> string" where
  "round_cell cfg col =
     (case find_decimal (precision cfg) col of
        None \<Rightarrow> col
      | Some m \<Rightarrow> if json cfg then m else dquote # m @ [dquote])"

section \<open>Rewriting a file\<close>

datatype round_error = StatFailed | ListFailed | OpenFailed | CreateFailed | FieldsFailed nat "comma_error scan_error"
  | ColumnCount nat nat nat | WriteFailed | ReadFailed | FlushFailed | RemoveFailed | RenameFailed

text \<open>Which operations on files work, and how much of a buffered text has reached its file when the
  buffer is not flushed.\<close>

datatype file_op = OpenRead string | OpenNew string | WriteRow string nat | FlushFile string
  | RemoveFile string | RenameFile string string

record round_host =
  works :: "file_op \<Rightarrow> bool"
  reads_fail :: "string \<Rightarrow> bool"
  reached :: "string \<Rightarrow> string"
  stat_is_dir :: "string \<Rightarrow> bool option"
  dir_entries :: "string \<Rightarrow> (string \<times> bool) list option"

record round_state =
  files :: "string \<rightharpoonup> string"
  file_scanned :: nat
  file_written :: nat

text \<open>\<open>strings.Trim(s, "[]")\<close> for rows in JSON.\<close>

definition trim_brackets :: "string \<Rightarrow> string" where
  "trim_brackets s = rev (dropWhile (\<lambda>c. c \<in> set ''[]'') (rev (dropWhile (\<lambda>c. c \<in> set ''[]'') s)))"

definition row_content :: "round_settings \<Rightarrow> string \<Rightarrow> string" where
  "row_content cfg line = (if json cfg then trim_brackets line else line)"

text \<open>The fields of a line; \<open>scans_return\<close> says that the fuel suffices.\<close>

definition fields_of :: "round_settings \<Rightarrow> string \<Rightarrow> string list \<times> comma_error scan_error option" where
  "fields_of cfg line = (case row_fields (row_content cfg line) of Some r \<Rightarrow> r | None \<Rightarrow> ([], None))"

definition render_row :: "round_settings \<Rightarrow> string list \<Rightarrow> string" where
  "render_row cfg cols =
     (if json cfg then ''['' @ join_str '','' cols @ '']'' @ [newline] else join_str '','' cols @ [newline])"

definition decimal_columns :: "round_settings \<Rightarrow> string list \<Rightarrow> nat list" where
  "decimal_columns cfg cols = filter (\<lambda>i. find_decimal (precision cfg) (cols ! i) \<noteq> None) [0..<length cols]"

definition round_columns :: "round_settings \<Rightarrow> nat list \<Rightarrow> string list \<Rightarrow> string list" where
  "round_columns cfg idxs cols = fold (\<lambda>i cs. cs[i := round_cell cfg (cs ! i)]) idxs cols"

text \<open>The rows from line \<open>n\<close> on; the columns of the first row are \<open>ncols\<close> many. The text is what has been
  handed to the buffered writer.\<close>

fun rewrite_rows ::
  "round_settings \<Rightarrow> (nat \<Rightarrow> bool) \<Rightarrow> nat \<Rightarrow> nat list \<Rightarrow> nat \<Rightarrow> string list \<Rightarrow> string \<times> round_error option" where
  "rewrite_rows cfg can_write ncols idxs n [] = ([], None)"
| "rewrite_rows cfg can_write ncols idxs n (line # ls) =
     (case fields_of cfg line of
        (cols, Some e) \<Rightarrow> ([], Some (FieldsFailed n e))
      | (cols, None) \<Rightarrow>
          if length cols \<noteq> ncols then ([], Some (ColumnCount ncols n (length cols)))
          else if can_write n then
            (case rewrite_rows cfg can_write ncols idxs (n + 1) ls of
               (t, e) \<Rightarrow> (render_row cfg (round_columns cfg idxs cols) @ t, e))
          else ([], Some WriteFailed))"

definition is_file_ext_accepted :: "round_settings \<Rightarrow> string \<Rightarrow> bool" where
  "is_file_ext_accepted cfg path \<longleftrightarrow> extensions cfg = [] \<or> (\<exists>e \<in> set (extensions cfg). has_suffix path e)"

definition output_path :: "round_settings \<Rightarrow> string \<Rightarrow> string" where
  "output_path cfg path =
     (if in_place cfg then path @ ''.InProgress''
      else take (length path - length (ext path)) path @ ''.rewrite'' @ ext path)"

text \<open>The deferred function, when an output file has been opened: \<open>txt\<close> is the buffered text.\<close>

definition finish_file ::
  "round_host \<Rightarrow> round_settings \<Rightarrow> string \<Rightarrow> string \<Rightarrow> round_error option \<Rightarrow> round_state \<Rightarrow> round_error option \<times> round_state"
where
  "finish_file h cfg path buffered err st =
     (let out = output_path cfg path;
          flushed = (err = None \<and> works h (FlushFile out));
          err1 = (if err = None \<and> \<not> flushed then Some FlushFailed else err);
          st1 = st\<lparr>files := (files st)(out \<mapsto> if flushed then buffered else reached h buffered)\<rparr>
      in if err1 \<noteq> None then
           (err1, if works h (RemoveFile out) then st1\<lparr>files := (files st1)(out := None)\<rparr> else st1)
         else if \<not> in_place cfg then (None, st1\<lparr>file_written := file_written st1 + 1\<rparr>)
         else if \<not> works h (RemoveFile path) then (Some RemoveFailed, st1)
         else if \<not> works h (RenameFile out path) then (Some RenameFailed, st1\<lparr>files := (files st1)(path := None)\<rparr>)
         else (None, st1\<lparr>files := (files st1)(out := None, path := files st1 out),
                         file_written := file_written st1 + 1\<rparr>))"

definition process_file :: "round_host \<Rightarrow> round_settings \<Rightarrow> string \<Rightarrow> round_state \<Rightarrow> round_error option \<times> round_state" where
  "process_file h cfg path st =
     (if \<not> is_file_ext_accepted cfg path then (None, st)
      else case (if works h (OpenRead path) then files st path else None) of
        None \<Rightarrow> (Some OpenFailed, st)
      | Some content \<Rightarrow>
          (let st1 = st\<lparr>file_scanned := file_scanned st + 1\<rparr>;
               (ls, read_err) = (case file_lines content (reads_fail h path) of Some r \<Rightarrow> r | None \<Rightarrow> ([], None));
               end_err = (case read_err of None \<Rightarrow> None | Some e \<Rightarrow> Some ReadFailed)
           in case ls of
                [] \<Rightarrow> (end_err, st1)
              | line # rest \<Rightarrow>
                  (case fields_of cfg line of
                     (cols, Some e) \<Rightarrow> (Some (FieldsFailed 1 e), st1)
                   | (cols, None) \<Rightarrow>
                       (let idxs = decimal_columns cfg cols; out = output_path cfg path;
                            can_write = (\<lambda>n. works h (WriteRow out n))
                        in if idxs = [] then (None, st1)
                           else if \<not> works h (OpenNew out) then (Some CreateFailed, st1)
                           else (let (buffered, err) = rewrite_rows cfg can_write (length cols) idxs 1 ls
                                 in finish_file h cfg path buffered (if err = None then end_err else err) st1)))))"

section \<open>Files and directories\<close>

text \<open>The walk over a path; the fuel bounds the depth of the directories. The files that a directory
  holds are listed before the first of them is processed.\<close>

fun process_path :: "nat \<Rightarrow> round_host \<Rightarrow> round_settings \<Rightarrow> string \<Rightarrow> round_state \<Rightarrow> (round_error option \<times> round_state) option"
and process_entries ::
  "nat \<Rightarrow> round_host \<Rightarrow> round_settings \<Rightarrow> string \<Rightarrow> (string \<times> bool) list \<Rightarrow> round_state \<Rightarrow> (round_error option \<times> round_state) option"
where
  "process_path 0 h cfg path st = None"
| "process_path (Suc k) h cfg path st =
     (case stat_is_dir h path of
        None \<Rightarrow> Some (Some StatFailed, st)
      | Some False \<Rightarrow> Some (process_file h cfg path st)
      | Some True \<Rightarrow>
          (case dir_entries h path of
             None \<Rightarrow> Some (Some ListFailed, st)
           | Some es \<Rightarrow> process_entries k h cfg path es st))"
| "process_entries k h cfg path [] st = Some (None, st)"
| "process_entries k h cfg path ((name, is_dir) # es) st =
     (if is_dir \<and> \<not> recursive cfg then process_entries k h cfg path es st
      else case (if is_dir then process_path k h cfg (path_join path name) st
                 else Some (process_file h cfg (path_join path name) st)) of
             None \<Rightarrow> None
           | Some (Some e, st1) \<Rightarrow> Some (Some e, st1)
           | Some (None, st1) \<Rightarrow> process_entries k h cfg path es st1)"

text \<open>\<open>Run\<close>: the error of one argument is logged and the next one is processed.\<close>

fun run_round :: "nat \<Rightarrow> round_host \<Rightarrow> round_settings \<Rightarrow> string option \<Rightarrow> string list \<Rightarrow> round_state \<Rightarrow> round_state option" where
  "run_round k h cfg home [] st = Some st"
| "run_round k h cfg home (p # ps) st =
     (case process_path k h cfg (expand_home home p) st of
        None \<Rightarrow> None
      | Some (err, st1) \<Rightarrow> run_round k h cfg home ps st1)"

section \<open>Reading rows back\<close>

definition closed_field :: "string \<Rightarrow> bool" where
  "closed_field x \<longleftrightarrow> x \<noteq> [] \<and> trim_space x = x \<and> first_comma None x = None \<and> quote_run None x = None"

lemma first_comma_closed: "closed_field x \<Longrightarrow> first_comma None (x @ CHR '','' # rest) = Some (length x)"
  by (simp add: closed_field_def first_comma_append_None)

lemma comma_closed:
  assumes "closed_field x"
  shows "scan_comma_field (x @ CHR '','' # rest) e = Inr (Suc (length x), Some x)"
    and "scan_comma_field x True = Inr (length x, Some x)"
  using assms first_comma_closed [OF assms] by (simp_all add: scan_comma_field_eq closed_field_def non_empty_def)

lemma pieces_join:
  "cs \<noteq> [] \<Longrightarrow> list_all closed_field cs \<Longrightarrow>
     split_pieces scan_comma_field (join_str '','' cs) = (cs, None) \<and> no_empty_piece scan_comma_field (join_str '','' cs)"
proof (induction cs)
  case (Cons x cs)
  then have x: "closed_field x" "x \<noteq> []" by (auto simp: closed_field_def)
  show ?case
  proof (cases cs)
    case Nil
    with comma_closed(2) [OF x(1)] x(2) show ?thesis
      by (simp add: split_pieces.simps [of _ x] no_empty_piece.simps [of _ x] no_empty_piece.simps [of _ "[]"] opt_cons_def)
  next
    case c: (Cons y ys)
    then have "join_str '','' (x # cs) = x @ CHR '','' # join_str '','' cs" by simp
    then show ?thesis
      using comma_closed(1) [OF x(1), of "join_str '','' cs" True] Cons.IH Cons.prems c
      by (simp only:) (simp add: split_pieces.simps [of _ "x @ _"] no_empty_piece.simps [of _ "x @ _"] opt_cons_def)
  qed
qed simp

lemma row_fields_join:
  assumes "cs \<noteq> []" and "list_all closed_field cs" and "length (join_str '','' cs) < max_scan_token"
  shows "row_fields (join_str '','' cs) = Some (cs, None)"
proof -
  let ?s = "new_scanner (join_str '','' cs) [] False 0 max_scan_token"
  have "scan_all (2 * length (join_str '','' cs) + 2) scan_comma_field ?s =
      Some (fst (split_pieces scan_comma_field (scan_input ?s)),
        map_option SplitError (snd (split_pieces scan_comma_field (scan_input ?s))))"
    using assms pieces_join [OF assms(1,2)]
    by (intro comma.scan_complete) (simp_all add: new_scanner_ok max_scan_token_def, simp_all add: new_scanner_def)
  then show ?thesis
    using pieces_join [OF assms(1,2)] by (simp add: row_fields_def scan_text_def new_scanner_ok max_scan_token_def)
qed

text \<open>A blank field in the middle of a row is left out.\<close>

lemma row_fields_blank:
  assumes "closed_field x" and "closed_field y" and "length x + length y < 4000"
  shows "row_fields (x @ '',,'' @ y) = Some ([x, y], None)"
proof -
  let ?d = "x @ '',,'' @ y"
  define s0 where "s0 = new_scanner ?d [] False 0 max_scan_token"
  define s1 where "s1 = s0\<lparr>buf_cap := 4096, pending := ?d, unread := []\<rparr>"
  define s2 where "s2 = s1\<lparr>start_at := length x + 1, pending := '','' @ y\<rparr>"
  define s3 where "s3 = s2\<lparr>start_at := length x + 2, pending := y\<rparr>"
  obtain k where fuel: "2 * length ?d + 2 = Suc (Suc (Suc (Suc (Suc k))))"
    by (rule that [of "2 * length x + 2 * length y + 1"]) simp
  have y: "y \<noteq> []" using assms(2) by (simp add: closed_field_def)
  have r0: "read_more s0 = Some s1"
    using assms(3) by (simp add: read_more_def s0_def s1_def new_scanner_def Let_def max_scan_token_def)
  have "\<exists>s4. read_more s3 = Some s4 \<and> pending s4 = y \<and> at_eof s4 \<and> \<not> read_fails s4"
    using assms(3)
    by (auto simp: read_more_def s3_def s2_def s1_def s0_def new_scanner_def Let_def)
  then obtain s4 where s4: "read_more s3 = Some s4" "pending s4 = y" "at_eof s4" "\<not> read_fails s4"
    by blast
  have last: "scan_all (Suc (Suc k)) scan_comma_field s4 = Some ([y], None)"
    using s4 y comma_closed(2) [OF assms(2)] by (simp add: comma.empty_input)
  have blank: "scan_comma_field (CHR '','' # y) e = Inr (1, None)" for e
    by (simp add: scan_comma_field_eq trim_space_def strip_runes.simps [of _ "[]"] space_runes_def non_empty_def)
  have p2: "pending s2 = CHR '','' # y" "\<not> at_eof s2"
    by (simp_all add: s2_def s1_def s0_def new_scanner_def)
  have s3': "s2\<lparr>start_at := start_at s2 + 1, pending := drop 1 (pending s2)\<rparr> = s3"
    by (simp add: s3_def s2_def)
  have n2: "scan_all (Suc (Suc (Suc k))) scan_comma_field s2 = Some ([y], None)"
    using p2 s3' s4(1) last blank by (simp only: scan_all.simps(2) [of "Suc (Suc k)"]) simp
  have first: "scan_comma_field ?d False = Inr (length x + 1, Some x)"
    using comma_closed(1) [OF assms(1), of "CHR '','' # y"] by simp
  have s2': "s1\<lparr>start_at := start_at s1 + (length x + 1), pending := drop (length x + 1) (pending s1)\<rparr> = s2"
    by (simp add: s2_def s1_def s0_def new_scanner_def)
  have p1: "pending s1 = ?d" "\<not> at_eof s1" by (simp_all add: s1_def s0_def new_scanner_def)
  have n1: "scan_all (Suc (Suc (Suc (Suc k)))) scan_comma_field s1 = Some ([x, y], None)"
    using first s2' p1 n2 by (simp only: scan_all.simps(2) [of "Suc (Suc (Suc k))"]) simp
  have "scan_all (Suc (Suc (Suc (Suc (Suc k))))) scan_comma_field s0 = Some ([x, y], None)"
    using r0 n1 by (simp only: scan_all.simps(2) [of "Suc (Suc (Suc (Suc k)))"]) (simp add: s0_def new_scanner_def)
  then show ?thesis unfolding row_fields_def scan_text_def fuel s0_def .
qed

section \<open>What becomes of a cell\<close>

lemma digit_split:
  assumes "list_all is_digit ds" and "no_digit_first r"
  shows "takeWhile is_digit (ds @ r) = ds" "dropWhile is_digit (ds @ r) = r"
  using assms by (auto simp: list_all_iff no_digit_first_def takeWhile_append dropWhile_append split: list.splits)

lemma dot_not_digit [simp]: "\<not> is_digit dot" "no_digit_first (dot # s)"
  by (simp_all add: is_digit_def no_digit_first_def)

lemma find_decimal_skip: "list_all (\<lambda>c. \<not> is_digit c) pre \<Longrightarrow> find_decimal p (pre @ s) = find_decimal p s"
proof (induction pre)
  case (Cons c pre)
  then have "decimal_at p (c # pre @ s) = None" by (simp add: decimal_at_def)
  with Cons show ?case by simp
qed simp

lemma find_decimal_match:
  assumes "list_all is_digit ds" and "ds \<noteq> []" and "list_all is_digit fs" and "p < length fs" and "no_digit_first r"
  shows "find_decimal p (ds @ dot # fs @ r) = Some (ds @ dot # take p fs)"
proof -
  obtain d ds' where ds: "ds = d # ds'" using assms(2) by (cases ds) auto
  have "decimal_at p (ds @ dot # fs @ r) = Some (ds @ dot # take p fs)"
    using digit_split [OF assms(1), of "dot # fs @ r"] digit_split [OF assms(3,5)] assms(2,4)
    by (simp add: decimal_at_def Let_def)
  then show ?thesis by (simp add: ds)
qed

lemma find_decimal_free: "list_all (\<lambda>c. is_digit c \<or> c = dquote) s \<Longrightarrow> find_decimal p s = None"
proof (induction s)
  case (Cons c s)
  have "decimal_at p (c # s) = None"
  proof -
    have "dot \<notin> set (c # s)" using Cons.prems by (auto simp: list_all_iff)
    then have "dropWhile is_digit (c # s) \<noteq> dot # fr" for fr
      by (metis list.set_intros(1) set_dropWhileD)
    then have "dropWhile is_digit (c # s) = a # fr \<Longrightarrow> a \<noteq> dot" for a fr by blast
    then show ?thesis unfolding decimal_at_def Let_def by (auto simp del: dropWhile.simps split: list.split)
  qed
  with Cons show ?case by simp
qed simp

lemma find_decimal_Some:
  "find_decimal p s = Some m \<Longrightarrow>
     \<exists>ds fs. m = ds @ dot # fs \<and> ds \<noteq> [] \<and> list_all is_digit ds \<and> list_all is_digit fs \<and> length fs = p"
proof (induction s)
  case (Cons c s)
  show ?case
  proof (cases "decimal_at p (c # s)")
    case (Some m')
    with Cons.prems have m: "decimal_at p (c # s) = Some m" by simp
    let ?ds = "takeWhile is_digit (c # s)"
    obtain fr where fr: "dropWhile is_digit (c # s) = dot # fr" "?ds \<noteq> []" "p < length (takeWhile is_digit fr)"
      and "m = ?ds @ dot # take p fr"
      using m by (auto simp: decimal_at_def Let_def split: list.splits if_splits)
    moreover have "take p fr = take p (takeWhile is_digit fr)"
      using fr(3) by (metis append_Nil2 less_imp_le take_append takeWhile_dropWhile_id diff_is_0_eq take_0)
    moreover have "list_all is_digit (take p (takeWhile is_digit fr))" "list_all is_digit ?ds"
      by (auto simp: list_all_iff dest: in_set_takeD set_takeWhileD)
    ultimately show ?thesis
      by (intro exI [of _ ?ds] exI [of _ "take p (takeWhile is_digit fr)"]) (simp del: takeWhile.simps)
  qed (use Cons in simp)
qed simp

section \<open>Properties\<close>

text \<open>\<open>scanCommaSeparatedField\<close>, with its jumps, gives what a reader gives that looks at one byte at a
  time: the trimmed text before the first comma outside quotes (a quote is closed by the same quote
  after an even number of backslashes), and at the end an error exactly if a quote is open.\<close>

theorem scan_comma_reference:
  "scan_comma_field data at_end =
     (case first_comma None data of
        Some i \<Rightarrow> Inr (Suc i, non_empty (trim_space (take i data)))
      | None \<Rightarrow>
          if at_end then
            (case quote_run None data of Some (c, esc) \<Rightarrow> Inl (UnclosedQuote c)
             | None \<Rightarrow> Inr (length data, non_empty (trim_space data)))
          else Inr (0, None))"
  by (rule scan_comma_field_eq)

text \<open>Round trip: fields that are trimmed, not blank, with closed quotes and no comma outside them are
  read back from the row that is written for them.\<close>

theorem row_fields_roundtrip:
  assumes "cs \<noteq> []" and "list_all closed_field cs" and "length (join_str '','' cs) < max_scan_token"
  shows "row_fields (join_str '','' cs) = Some (cs, None)"
  using assms by (rule row_fields_join)

theorem row_fields_roundtrip_witness:
  "row_fields (join_str '','' [''1.5'', [dquote, CHR '','', backslash, dquote, dquote], ''x'']) =
     Some ([''1.5'', [dquote, CHR '','', backslash, dquote, dquote], ''x''], None)"
  by (rule row_fields_roundtrip) (simp, code_simp, simp add: max_scan_token_def)

text \<open>A blank field of a row is dropped, so that the rewritten row has fewer fields and the
  others move to the left.\<close>

theorem blank_fields_dropped:
  assumes "closed_field x" and "closed_field y" and "length x + length y < 4000"
  shows "row_fields (x @ '',,'' @ y) = Some ([x, y], None)"
  using assms by (rule row_fields_blank)

theorem blank_fields_dropped_witness: "row_fields (''1.25'' @ '',,'' @ ''b'') = Some ([''1.25'', ''b''], None)"
  by (rule blank_fields_dropped) (code_simp, code_simp, simp)

text \<open>Rounding a cell with a decimal keeps the digits before the point and \<open>p\<close> digits after it, and
  nothing else of the cell: a sign before and an exponent behind are lost. Rounding the result again
  changes nothing.\<close>

theorem round_cell_value:
  assumes "list_all (\<lambda>c. \<not> is_digit c) before" and "list_all is_digit ds" and "ds \<noteq> []"
    and "list_all is_digit fs" and "precision cfg < length fs" and "no_digit_first after"
  shows "round_cell cfg (before @ ds @ dot # fs @ after) =
      (let m = ds @ dot # take (precision cfg) fs in if json cfg then m else dquote # m @ [dquote])
     \<and> round_cell cfg (round_cell cfg (before @ ds @ dot # fs @ after)) = round_cell cfg (before @ ds @ dot # fs @ after)"
proof -
  let ?p = "precision cfg" and ?m = "ds @ dot # take (precision cfg) fs"
  have f: "find_decimal ?p (before @ ds @ dot # fs @ after) = Some ?m"
    using find_decimal_skip [OF assms(1)] find_decimal_match [OF assms(2-6)] by simp
  have fs: "list_all is_digit (take ?p fs)" using assms(4) by (auto simp: list_all_iff dest: in_set_takeD)
  have none: "find_decimal ?p (l @ dot # take ?p fs @ r) = None"
    if "list_all is_digit l" "r = [] \<or> r = [dquote]" for l r
    using that(1)
  proof (induction l)
    case Nil
    have "find_decimal ?p (take ?p fs @ r) = None"
      using fs that(2) by (intro find_decimal_free) (auto simp: list_all_iff)
    then show ?case by (simp add: decimal_at_def)
  next
    case (Cons d l)
    have r: "no_digit_first r" using that(2) by (auto simp: no_digit_first_def is_digit_def)
    have "decimal_at ?p ((d # l) @ dot # take ?p fs @ r) = None"
      using digit_split [OF Cons.prems, of "dot # take ?p fs @ r"] digit_split [OF fs r]
      by (simp add: decimal_at_def Let_def)
    with Cons show ?case by simp
  qed
  have "find_decimal ?p ?m = None" "find_decimal ?p (?m @ [dquote]) = None"
    using none [OF assms(2), of "[]"] none [OF assms(2), of "[dquote]"] by simp_all
  moreover have "find_decimal ?p (dquote # ?m @ [dquote]) = find_decimal ?p (?m @ [dquote])"
    using find_decimal_skip [of "[dquote]" ?p "?m @ [dquote]"] by (simp add: is_digit_def)
  ultimately show ?thesis using f by (simp add: round_cell_def Let_def)
qed

theorem round_cell_value_witness:
  "round_cell \<lparr>precision = 2, extensions = [], json = True, in_place = False, recursive = False\<rparr>
     (''-'' @ ''12'' @ dot # ''3456'' @ ''E7'') = ''12'' @ dot # ''34''"
  using round_cell_value [of "''-''" "''12''" "''3456''" "\<lparr>precision = 2, extensions = [], json = True, in_place = False, recursive = False\<rparr>" "''E7''"]
  by (simp add: is_digit_def no_digit_first_def Let_def)

section \<open>What becomes of a file\<close>

lemma output_path_other: "output_path cfg path \<noteq> path"
proof
  assume "output_path cfg path = path"
  then have "length (output_path cfg path) = length path" by simp
  then show False by (auto simp: output_path_def split: if_splits)
qed

lemma finish_file_safe:
  assumes "finish_file h cfg path buffered err st = (err', st')"
  shows "(\<forall>p. p \<noteq> path \<and> p \<noteq> output_path cfg path \<longrightarrow> files st' p = files st p)
     \<and> (files st' path = files st path \<or> in_place cfg \<and> (err' = None \<and> files st' path = Some buffered \<or> err' = Some RenameFailed))"
  using assms output_path_other [of cfg path]
  by (auto simp: finish_file_def Let_def split: if_splits)

text \<open>C33: Whatever operation fails, only the file itself and its temporary output file are touched, and the
  file keeps its content unless it is rewritten in place and everything has succeeded. The one
  exception is a failure of the last step, the renaming, after the original has been removed.\<close>

theorem process_file_safe:
  assumes "process_file h cfg path st = (err, st')"
  shows "(\<forall>p. p \<noteq> path \<and> p \<noteq> output_path cfg path \<longrightarrow> files st' p = files st p)
     \<and> (files st' path = files st path \<or> in_place cfg \<and> (err = None \<or> err = Some RenameFailed))"
proof -
  have same: ?thesis if "files st' = files st" using that by simp
  show ?thesis
  proof (cases "files st' = files st")
    case False
    then obtain buffered e where "finish_file h cfg path buffered e (st\<lparr>file_scanned := file_scanned st + 1\<rparr>) = (err, st')"
      using assms
      by (auto simp: process_file_def Let_def split: if_splits option.splits prod.splits list.splits)
    from finish_file_safe [OF this] show ?thesis by auto
  qed (rule same)
qed

lemma round_columns_length [simp]: "length (round_columns cfg idxs cols) = length cols"
  unfolding round_columns_def by (induction idxs arbitrary: cols) auto

lemma round_columns_nth:
  "distinct idxs \<Longrightarrow> i < length cols \<Longrightarrow>
     round_columns cfg idxs cols ! i = (if i \<in> set idxs then round_cell cfg (cols ! i) else cols ! i)"
proof (induction idxs arbitrary: cols)
  case (Cons j js)
  have "round_columns cfg (j # js) cols = round_columns cfg js (cols[j := round_cell cfg (cols ! j)])"
    by (simp add: round_columns_def)
  with Cons show ?case by (cases "i = j") (auto simp: nth_list_update)
qed (simp add: round_columns_def)

definition rewritten_row :: "round_settings \<Rightarrow> nat list \<Rightarrow> string \<Rightarrow> string" where
  "rewritten_row cfg idxs line = render_row cfg (round_columns cfg idxs (fst (fields_of cfg line)))"

lemma rewrite_rows_all:
  "\<forall>x \<in> set ls. \<exists>cols. fields_of cfg x = (cols, None) \<and> length cols = n \<Longrightarrow>
     rewrite_rows cfg (\<lambda>_. True) n idxs k ls = (concat (map (rewritten_row cfg idxs) ls), None)"
  by (induction ls arbitrary: k) (auto simp: rewritten_row_def)

text \<open>C34: If nothing fails and all rows have as many fields as the first, the result is the file row by
  row, with the fields rounded in exactly those columns that hold a decimal in the first row.\<close>

theorem process_file_content:
  assumes "\<forall>op. works h op" and "\<not> reads_fail h path" and "is_file_ext_accepted cfg path"
    and "files st path = Some content" and "file_lines content False = Some (l # ls, None)"
    and "\<forall>x \<in> set (l # ls). \<exists>cols. fields_of cfg x = (cols, None) \<and> length cols = n"
    and "decimal_columns cfg (fst (fields_of cfg l)) \<noteq> []"
  shows "\<exists>st'. process_file h cfg path st = (None, st')
     \<and> files st' (if in_place cfg then path else output_path cfg path) =
         Some (concat (map (rewritten_row cfg (decimal_columns cfg (fst (fields_of cfg l)))) (l # ls)))
     \<and> (in_place cfg \<longrightarrow> files st' (output_path cfg path) = None)
     \<and> (\<forall>x i. x \<in> set (l # ls) \<and> i < n \<longrightarrow>
          round_columns cfg (decimal_columns cfg (fst (fields_of cfg l))) (fst (fields_of cfg x)) ! i =
            (let c = fst (fields_of cfg x) ! i
             in if find_decimal (precision cfg) (fst (fields_of cfg l) ! i) \<noteq> None then round_cell cfg c else c))"
proof -
  let ?idxs = "decimal_columns cfg (fst (fields_of cfg l))"
  have w: "works h op" for op using assms(1) by blast
  obtain cols where cols: "fields_of cfg l = (cols, None)" "length cols = n" using assms(6) by auto
  have idxs: "i \<in> set ?idxs \<longleftrightarrow> i < n \<and> find_decimal (precision cfg) (fst (fields_of cfg l) ! i) \<noteq> None" for i
    using cols by (auto simp: decimal_columns_def)
  have "distinct ?idxs" by (simp add: decimal_columns_def)
  then have nth: "\<forall>x i. x \<in> set (l # ls) \<and> i < n \<longrightarrow>
      round_columns cfg ?idxs (fst (fields_of cfg x)) ! i =
        (let c = fst (fields_of cfg x) ! i
         in if find_decimal (precision cfg) (fst (fields_of cfg l) ! i) \<noteq> None then round_cell cfg c else c)"
    using assms(6) idxs by (fastforce simp: round_columns_nth Let_def)
  let ?buf = "concat (map (rewritten_row cfg ?idxs) (l # ls))"
  have rows: "rewrite_rows cfg (\<lambda>_. True) n ?idxs 1 (l # ls) = (?buf, None)"
    using assms(6) by (rule rewrite_rows_all)
  have p: "process_file h cfg path st = finish_file h cfg path ?buf None (st\<lparr>file_scanned := file_scanned st + 1\<rparr>)"
    using assms(2-5,7) rows cols w unfolding process_file_def Let_def by (simp del: rewrite_rows.simps)
  show ?thesis
    unfolding p finish_file_def Let_def using w nth output_path_other [of cfg path] by simp
qed

lemma file_lines_complete:
  assumes "length c < max_scan_token"
  shows "file_lines c False = Some (fst (split_pieces scan_lines c), map_option SplitError (snd (split_pieces scan_lines c)))"
proof -
  let ?s = "new_scanner c [] False 0 max_scan_token"
  have "scan_all (2 * length c + 2) scan_lines ?s =
      Some (fst (split_pieces scan_lines (scan_input ?s)), map_option SplitError (snd (split_pieces scan_lines (scan_input ?s))))"
    using assms no_empty_piece_lines
    by (intro lines.scan_complete) (simp_all add: new_scanner_ok max_scan_token_def, simp_all add: new_scanner_def)
  then show ?thesis by (simp add: file_lines_def scan_text_def new_scanner_ok max_scan_token_def)
qed

definition demo_settings :: round_settings where
  "demo_settings = \<lparr>precision = 1, extensions = [], json = False, in_place = True, recursive = False\<rparr>"

definition demo_round_host :: round_host where
  "demo_round_host = \<lparr>works = (\<lambda>_. True), reads_fail = (\<lambda>_. False), reached = (\<lambda>_. []), stat_is_dir = (\<lambda>_. Some False),
     dir_entries = (\<lambda>_. None)\<rparr>"

definition demo_file :: string where
  "demo_file = ''a,1.25'' @ [newline] @ ''b,3.999'' @ [newline]"

definition demo_round_state :: round_state where
  "demo_round_state = \<lparr>files = [''f.csv'' \<mapsto> demo_file], file_scanned = 0, file_written = 0\<rparr>"

lemma demo_file_lines: "file_lines demo_file False = Some ([''a,1.25'', ''b,3.999''], None)"
proof -
  have "split_pieces scan_lines demo_file = ([''a,1.25'', ''b,3.999''], None)" by code_simp
  then show ?thesis by (subst file_lines_complete) (simp_all add: demo_file_def max_scan_token_def)
qed

lemma demo_fields:
  "fields_of demo_settings ''a,1.25'' = ([''a'', ''1.25''], None)"
  "fields_of demo_settings ''b,3.999'' = ([''b'', ''3.999''], None)"
proof -
  have "list_all closed_field [''a'', ''1.25'']" "list_all closed_field [''b'', ''3.999'']" by code_simp+
  from row_fields_join [OF _ this(1)] row_fields_join [OF _ this(2)]
  show "fields_of demo_settings ''a,1.25'' = ([''a'', ''1.25''], None)"
    "fields_of demo_settings ''b,3.999'' = ([''b'', ''3.999''], None)"
    by (simp_all add: fields_of_def row_content_def demo_settings_def max_scan_token_def)
qed

lemma demo_columns: "decimal_columns demo_settings [''a'', ''1.25''] = [1]"
  by code_simp

theorem process_file_content_witness:
  "\<exists>st'. process_file demo_round_host demo_settings ''f.csv'' demo_round_state = (None, st')
     \<and> files st' ''f.csv'' = Some (concat (map (rewritten_row demo_settings [1]) [''a,1.25'', ''b,3.999'']))"
proof -
  have h: "\<forall>op. works demo_round_host op" "\<not> reads_fail demo_round_host ''f.csv''"
    "is_file_ext_accepted demo_settings ''f.csv''" "files demo_round_state ''f.csv'' = Some demo_file"
    by (simp_all add: demo_round_host_def is_file_ext_accepted_def demo_settings_def demo_round_state_def)
  have f: "\<forall>x \<in> set [''a,1.25'', ''b,3.999'']. \<exists>cols. fields_of demo_settings x = (cols, None) \<and> length cols = 2"
    by (simp add: demo_fields)
  have d: "decimal_columns demo_settings (fst (fields_of demo_settings ''a,1.25'')) \<noteq> []"
    by (simp add: demo_fields demo_columns)
  from process_file_content [OF h demo_file_lines f d] show ?thesis
    by (auto simp: demo_fields demo_columns demo_settings_def [THEN arg_cong, of in_place])
qed

theorem process_file_safe_witness:
  "files (snd (process_file demo_round_host demo_settings ''g.csv'' demo_round_state)) ''f.csv'' = Some demo_file"
proof -
  obtain err st' where r: "process_file demo_round_host demo_settings ''g.csv'' demo_round_state = (err, st')"
    by fastforce
  have "output_path demo_settings ''g.csv'' \<noteq> ''f.csv''" by (simp add: output_path_def demo_settings_def)
  with process_file_safe [OF r] r show ?thesis by (auto simp: demo_round_state_def)
qed

end
