(* ===== verification/Rows.thy ===== *)
theory Rows
  imports GoBase "HOL-Library.AList" "HOL-Library.Multiset"
begin

text \<open>
  Storing Go structures in SQL tables: \<open>utils/row.go\<close> (rows and their cartesian product) and
  \<open>utils/orm.go\<close> (the rows that a structure contributes to every table, and their insertion in one
  transaction).

  A Go value is modelled as what reflection shows of it. A map from table names to rows is an
  association list without duplicate keys; Go iterates over maps in any order, so every function that
  iterates over one takes the list in the order of the iteration, and the results are proved not to
  depend on it.
\<close>

section \<open>Rows\<close>

record 'a row =
  column_names :: "string list"
  row_values :: "'a list"

text \<open>\<open>ColumnCount\<close>; \<open>None\<close> is its panic.\<close>

definition column_count :: "'a row \<Rightarrow> nat option" where
  "column_count r = (if length (column_names r) \<noteq> length (row_values r) then None else Some (length (column_names r)))"

definition add_column :: "string \<Rightarrow> 'a \<Rightarrow> 'a row \<Rightarrow> 'a row" where
  "add_column n v r = \<lparr>column_names = column_names r @ [n], row_values = row_values r @ [v]\<rparr>"

text \<open>\<open>NewRowWithColumnCapacity\<close>: the capacity is not visible.\<close>

definition new_row :: "'a row" where
  "new_row = \<lparr>column_names = [], row_values = []\<rparr>"

text \<open>\<open>copy(dst, src)\<close> overwrites the first cells of \<open>dst\<close>, as many as both have.\<close>

definition copy_slice :: "'b list \<Rightarrow> 'b list \<Rightarrow> 'b list" where
  "copy_slice dst src = take (length dst) src @ drop (length src) dst"

text \<open>\<open>copy(dst[i:], src)\<close>.\<close>

definition copy_slice_at :: "nat \<Rightarrow> 'b list \<Rightarrow> 'b list \<Rightarrow> 'b list" where
  "copy_slice_at i dst src = take i dst @ copy_slice (drop i dst) src"

text \<open>\<open>MergeColumns\<close>. The new slices hold zero values, given as \<open>z\<close>, before they are overwritten.\<close>

definition merge_columns :: "'a \<Rightarrow> 'a row \<Rightarrow> 'a row \<Rightarrow> 'a row option" where
  "merge_columns z a b =
     (case (column_count a, column_count b) of
        (Some la, Some lb) \<Rightarrow>
          if la + lb = 0 then Some new_row
          else
            (let names = copy_slice (replicate (la + lb) []) (column_names a);
                 vals = copy_slice (replicate (la + lb) z) (row_values a)
             in Some \<lparr>column_names = copy_slice_at la names (column_names b),
                      row_values = copy_slice_at la vals (row_values b)\<rparr>)
      | _ \<Rightarrow> None)"

text \<open>\<open>MultiplyRows\<close>: the inner loop, then the outer one. The accumulator is \<open>multipliedRows\<close>.\<close>

fun pair_with :: "'a \<Rightarrow> 'a row \<Rightarrow> 'a row list \<Rightarrow> 'a row list \<Rightarrow> 'a row list option" where
  "pair_with z x [] acc = Some acc"
| "pair_with z x (y # ys) acc =
     (case merge_columns z x y of None \<Rightarrow> None | Some r \<Rightarrow> pair_with z x ys (acc @ [r]))"

fun multiply_from :: "'a \<Rightarrow> 'a row list \<Rightarrow> 'a row list \<Rightarrow> 'a row list \<Rightarrow> 'a row list option" where
  "multiply_from z [] ys acc = Some acc"
| "multiply_from z (x # xs) ys acc =
     (case pair_with z x ys acc of None \<Rightarrow> None | Some acc' \<Rightarrow> multiply_from z xs ys acc')"

definition multiply_rows :: "'a \<Rightarrow> 'a row list \<Rightarrow> 'a row list \<Rightarrow> 'a row list option" where
  "multiply_rows z a b = multiply_from z a b []"

section \<open>Values\<close>

text \<open>
  What reflection shows of a value. \<open>Nothing\<close> is a nil pointer or interface (kind \<open>Invalid\<close> once
  dereferenced), \<open>Pointer\<close> a pointer or interface that holds a value, \<open>Struct\<close> a structure with the
  tags and the values of its fields, \<open>Sequence\<close> a slice or an array. \<open>RawJson\<close> is a
  \<open>json.RawMessage\<close>, a slice of bytes. \<open>Duration\<close> is the \<open>Duration\<close> type of the Presto client's
  package \<open>queryjson\<close>: its number of milliseconds and the value underneath, whose kind is the
  library's. Everything else is \<open>Basic\<close>. The parameter \<open>'v\<close> is what \<open>Interface()\<close> returns. Values
  are trees: a structure that contains itself through a pointer makes the code recurse forever.
\<close>

type_synonym tags = "(string \<times> string) list"

datatype 'v val = Nothing | Basic 'v | RawJson string | Duration int "'v val"
  | Struct 'v "(tags \<times> 'v val) list" | Sequence 'v "'v val list" | Pointer "'v val"

text \<open>What is stored in a cell.\<close>

datatype 'v cell = Text string | Millis int | Value 'v | NilCell

text \<open>\<open>DerefValue\<close>.\<close>

fun deref :: "'v val \<Rightarrow> 'v val" where
  "deref (Pointer v) = deref v"
| "deref v = v"

fun is_struct :: "'v val \<Rightarrow> bool" where
  "is_struct (Struct a fs) = True"
| "is_struct (Duration d v) = is_struct v"
| "is_struct v = False"

text \<open>\<open>Tag.Get\<close>: the empty string if the tag is missing.\<close>

definition tag_get :: "tags \<Rightarrow> string \<Rightarrow> string" where
  "tag_get ts k = (case map_of ts k of None \<Rightarrow> [] | Some c \<Rightarrow> c)"

text \<open>\<open>json.Compact\<close>: white space outside strings is dropped; the text is kept if it is not JSON,
  which \<open>valid\<close> decides. The state tells whether we are in a string and after a backslash.\<close>

definition json_space :: "char \<Rightarrow> bool" where
  "json_space c \<longleftrightarrow> c \<in> {CHR '' '', CHR 0x09, CHR 0x0A, CHR 0x0D}"

fun compact_json :: "bool \<Rightarrow> bool \<Rightarrow> string \<Rightarrow> string" where
  "compact_json instr esc [] = []"
| "compact_json instr esc (c # cs) =
     (if instr then c # compact_json (esc \<or> c \<noteq> CHR 0x22) (\<not> esc \<and> c = CHR 0x5C) cs
      else if json_space c then compact_json False False cs
      else c # compact_json (c = CHR 0x22) False cs)"

definition field_value :: "(string \<Rightarrow> bool) \<Rightarrow> 'v val \<Rightarrow> 'v cell" where
  "field_value valid v =
     (case v of
        RawJson s \<Rightarrow> Text (if valid s then compact_json False False s else s)
      | Duration ms _ \<Rightarrow> Millis ms
      | Basic a \<Rightarrow> Value a
      | Struct a _ \<Rightarrow> Value a
      | Sequence a _ \<Rightarrow> Value a
      | _ \<Rightarrow> NilCell)"

section \<open>The rows of a structure\<close>

datatype orm_error = TooLarge string nat | InvalidState | NotAStruct | Db string

type_synonym 'v table_rows = "(string \<times> 'v cell row list) list"

definition rows_in :: "'v table_rows \<Rightarrow> string \<Rightarrow> 'v cell row list" where
  "rows_in m t = (case map_of m t of None \<Rightarrow> [] | Some rs \<Rightarrow> rs)"

definition max_cartesian_product_size :: nat where
  "max_cartesian_product_size = 100000"

text \<open>A table that has no rows starts with an empty one.\<close>

definition seeded :: "'v cell row list \<Rightarrow> 'v cell row list" where
  "seeded rs = (if rs = [] then [new_row] else rs)"

text \<open>\<open>MergeRowsMap\<close>: the second argument in the order of the iteration.\<close>

fun merge_rows_map :: "'v table_rows \<Rightarrow> 'v table_rows \<Rightarrow> orm_error + 'v table_rows" where
  "merge_rows_map a [] = Inr a"
| "merge_rows_map a ((t, rows2) # b) =
     (let rows1 = seeded (rows_in a t); product = length rows1 * length rows2
      in if product > max_cartesian_product_size then Inl (TooLarge t product)
         else case multiply_rows NilCell rows1 rows2 of
                None \<Rightarrow> Inl InvalidState
              | Some rs \<Rightarrow> merge_rows_map (AList.update t rs a) b)"

text \<open>The loop over the table names for one field.\<close>

fun add_columns :: "tags \<Rightarrow> 'v cell \<Rightarrow> string list \<Rightarrow> 'v table_rows \<Rightarrow> 'v table_rows" where
  "add_columns tg c [] m = m"
| "add_columns tg c (t # ts) m =
     add_columns tg c ts
       (if tag_get tg t = [] then m
        else AList.update t (map (add_column (tag_get tg t) c) (seeded (rows_in m t))) m)"

text \<open>The rows of the elements of a slice, table by table.\<close>

fun append_rows :: "'v table_rows \<Rightarrow> 'v table_rows \<Rightarrow> 'v table_rows" where
  "append_rows m [] = m"
| "append_rows m ((t, rs) # b) = append_rows (AList.update t (rows_in m t @ rs) m) b"

text \<open>
  \<open>collectRowsForEachTable\<close>; the scheduler's choice of the iteration order over the maps is \<open>\<pi>\<close>.
  \<open>child_rows\<close> gives the rows of the nested structure or slice in a field.
\<close>

fun collect_rows :: "('v table_rows \<Rightarrow> 'v table_rows) \<Rightarrow> (string \<Rightarrow> bool) \<Rightarrow> string list \<Rightarrow> 'v val \<Rightarrow> orm_error + 'v table_rows"
and collect_fields :: "('v table_rows \<Rightarrow> 'v table_rows) \<Rightarrow> (string \<Rightarrow> bool) \<Rightarrow> string list \<Rightarrow> (tags \<times> 'v val) list \<Rightarrow> 'v table_rows \<Rightarrow> orm_error + 'v table_rows"
and child_rows :: "('v table_rows \<Rightarrow> 'v table_rows) \<Rightarrow> (string \<Rightarrow> bool) \<Rightarrow> string list \<Rightarrow> 'v val \<Rightarrow> orm_error + 'v table_rows"
and collect_elements :: "('v table_rows \<Rightarrow> 'v table_rows) \<Rightarrow> (string \<Rightarrow> bool) \<Rightarrow> string list \<Rightarrow> 'v val list \<Rightarrow> 'v table_rows \<Rightarrow> orm_error + 'v table_rows" where
  "collect_rows \<pi> valid ts (Pointer v) = collect_rows \<pi> valid ts v"
| "collect_rows \<pi> valid ts (Duration d v) = collect_rows \<pi> valid ts v"
| "collect_rows \<pi> valid ts (Struct a fs) = collect_fields \<pi> valid ts fs []"
| "collect_rows \<pi> valid ts v = Inr []"
| "collect_fields \<pi> valid ts [] m = Inr m"
| "collect_fields \<pi> valid ts ((tg, v) # fs) m =
     (if deref v = Nothing then collect_fields \<pi> valid ts fs m
      else case child_rows \<pi> valid ts v of
             Inl e \<Rightarrow> Inl e
           | Inr k \<Rightarrow>
               (case merge_rows_map (add_columns tg (field_value valid (deref v)) ts m) (\<pi> k) of
                  Inl e \<Rightarrow> Inl e
                | Inr m' \<Rightarrow> collect_fields \<pi> valid ts fs m'))"
| "child_rows \<pi> valid ts (Pointer v) = child_rows \<pi> valid ts v"
| "child_rows \<pi> valid ts (Duration d v) = child_rows \<pi> valid ts v"
| "child_rows \<pi> valid ts (Struct a fs) = collect_fields \<pi> valid ts fs []"
| "child_rows \<pi> valid ts (Sequence a vs) =
     (if vs = [] \<or> \<not> is_struct (deref (hd vs)) then Inr [] else collect_elements \<pi> valid ts vs [])"
| "child_rows \<pi> valid ts v = Inr []"
| "collect_elements \<pi> valid ts [] m = Inr m"
| "collect_elements \<pi> valid ts (v # vs) m =
     (case collect_rows \<pi> valid ts v of
        Inl e \<Rightarrow> Inl e
      | Inr k \<Rightarrow> collect_elements \<pi> valid ts vs (append_rows m (\<pi> k)))"

section \<open>Inserting an object\<close>

text \<open>
  The database is a parameter. \<open>exec_stmt\<close> runs a statement inside the transaction; \<open>commit_tx\<close> gets
  the committed state and the state of the transaction. The documented behaviour of \<open>Rollback\<close> is
  that the committed state stays.
\<close>

record ('v, 'd) database =
  begin_tx :: "'d \<Rightarrow> string option"
  exec_stmt :: "string \<Rightarrow> 'v cell list \<Rightarrow> 'd \<Rightarrow> string option \<times> 'd"
  commit_tx :: "'d \<Rightarrow> 'd \<Rightarrow> string option \<times> 'd"

definition placeholders :: "nat \<Rightarrow> string" where
  "placeholders n = (let p = concat (replicate n ''?,'') in take (length p - 1) p)"

definition insert_statement :: "string \<Rightarrow> string list \<Rightarrow> string" where
  "insert_statement t names =
     ''INSERT INTO '' @ t @ '' ('' @ join_str '','' names @ '') VALUES ('' @ placeholders (length names) @ '')''"

fun insert_rows :: "('v, 'd) database \<Rightarrow> string \<Rightarrow> 'v cell row list \<Rightarrow> 'd \<Rightarrow> orm_error option \<times> 'd" where
  "insert_rows db t [] d = (None, d)"
| "insert_rows db t (r # rs) d =
     (case column_count r of
        None \<Rightarrow> (Some InvalidState, d)
      | Some n \<Rightarrow>
          if n = 0 then insert_rows db t rs d
          else (case exec_stmt db (insert_statement t (column_names r)) (row_values r) d of
                  (Some e, d') \<Rightarrow> (Some (Db e), d')
                | (None, d') \<Rightarrow> insert_rows db t rs d'))"

text \<open>A table with nothing but one row of at most one column is skipped.\<close>

definition skipped :: "'v cell row list \<Rightarrow> bool option" where
  "skipped rs =
     (if rs = [] then Some True
      else if length rs = 1 then map_option (\<lambda>n. n \<le> 1) (column_count (hd rs)) else Some False)"

fun insert_tables :: "('v, 'd) database \<Rightarrow> 'v table_rows \<Rightarrow> 'd \<Rightarrow> orm_error option \<times> 'd" where
  "insert_tables db [] d = (None, d)"
| "insert_tables db ((t, rs) # m) d =
     (case skipped rs of
        None \<Rightarrow> (Some InvalidState, d)
      | Some True \<Rightarrow> insert_tables db m d
      | Some False \<Rightarrow>
          (case insert_rows db t rs d of
             (Some e, d') \<Rightarrow> (Some e, d')
           | (None, d') \<Rightarrow> insert_tables db m d'))"

text \<open>
  \<open>SqlInsertObject\<close>: the error that is returned and the committed state afterwards. A panic runs the
  deferred function as well, which finds no error and commits.
\<close>

definition sql_insert_object ::
  "('v, 'd) database \<Rightarrow> ('v table_rows \<Rightarrow> 'v table_rows) \<Rightarrow> (string \<Rightarrow> bool) \<Rightarrow> string list \<Rightarrow> 'v val \<Rightarrow> 'd \<Rightarrow> orm_error option \<times> 'd" where
  "sql_insert_object db \<pi> valid ts v d =
     (case begin_tx db d of
        Some e \<Rightarrow> (Some (Db e), d)
      | None \<Rightarrow>
          (let (res, tx) =
             (if \<not> is_struct (deref v) then (Some NotAStruct, d)
              else case collect_rows \<pi> valid ts v of
                     Inl e \<Rightarrow> (Some e, d)
                   | Inr m \<Rightarrow> insert_tables db (\<pi> m) d)
           in case res of
                None \<Rightarrow> (case commit_tx db d tx of (e, d') \<Rightarrow> (map_option Db e, d'))
              | Some InvalidState \<Rightarrow> (Some InvalidState, snd (commit_tx db d tx))
              | Some e \<Rightarrow> (Some e, d)))"

section \<open>Rows and their product\<close>

definition wf_row :: "'a row \<Rightarrow> bool" where
  "wf_row r \<longleftrightarrow> length (column_names r) = length (row_values r)"

text \<open>A row as the list of its cells.\<close>

definition pairs :: "'a row \<Rightarrow> (string \<times> 'a) list" where
  "pairs r = zip (column_names r) (row_values r)"

definition beside :: "'a row \<Rightarrow> 'a row \<Rightarrow> 'a row" where
  "beside a b = \<lparr>column_names = column_names a @ column_names b, row_values = row_values a @ row_values b\<rparr>"

lemma wf_new_row [simp]: "wf_row new_row" "pairs new_row = []"
  by (simp_all add: wf_row_def new_row_def pairs_def)

lemma wf_add_column [simp]: "wf_row (add_column n c r) \<longleftrightarrow> wf_row r"
  by (simp add: wf_row_def add_column_def)

lemma pairs_add_column [simp]: "wf_row r \<Longrightarrow> pairs (add_column n c r) = pairs r @ [(n, c)]"
  by (simp add: wf_row_def pairs_def add_column_def)

lemma wf_beside [simp]: "wf_row a \<Longrightarrow> wf_row b \<Longrightarrow> wf_row (beside a b)"
  by (simp add: wf_row_def beside_def)

lemma pairs_beside [simp]: "wf_row a \<Longrightarrow> pairs (beside a b) = pairs a @ pairs b"
  by (simp add: wf_row_def pairs_def beside_def)

lemma copy_two: "length xs = m \<Longrightarrow> length ys = n \<Longrightarrow>
    copy_slice_at m (copy_slice (replicate (m + n) z) xs) ys = xs @ ys"
  by (simp add: copy_slice_at_def copy_slice_def)

lemma merge_columns_wf: "wf_row a \<Longrightarrow> wf_row b \<Longrightarrow> merge_columns z a b = Some (beside a b)"
  by (auto simp: merge_columns_def column_count_def wf_row_def beside_def new_row_def copy_two Let_def)

lemma pair_with_wf: "wf_row x \<Longrightarrow> list_all wf_row ys \<Longrightarrow> pair_with z x ys acc = Some (acc @ map (beside x) ys)"
  by (induction ys arbitrary: acc) (simp_all add: merge_columns_wf)

lemma multiply_from_wf: "list_all wf_row xs \<Longrightarrow> list_all wf_row ys \<Longrightarrow>
    multiply_from z xs ys acc = Some (acc @ concat (map (\<lambda>x. map (beside x) ys) xs))"
  by (induction xs arbitrary: acc) (simp_all add: pair_with_wf)

lemma multiply_rows_wf: "list_all wf_row xs \<Longrightarrow> list_all wf_row ys \<Longrightarrow>
    multiply_rows z xs ys = Some (concat (map (\<lambda>x. map (beside x) ys) xs))"
  by (simp add: multiply_rows_def multiply_from_wf)

section \<open>What a structure contributes to a table\<close>

text \<open>
  The specification, for one table: a field contributes its column, if it is tagged for the table, and
  the rows of what is nested in it, if there are any; a structure gives the cartesian product of the
  contributions of its fields, a sequence the rows of its elements one after the other.
\<close>

fun spec_rows :: "(string \<Rightarrow> bool) \<Rightarrow> string \<Rightarrow> 'v val \<Rightarrow> (string \<times> 'v cell) list list"
and spec_factors :: "(string \<Rightarrow> bool) \<Rightarrow> string \<Rightarrow> (tags \<times> 'v val) list \<Rightarrow> (string \<times> 'v cell) list list list"
and spec_nested :: "(string \<Rightarrow> bool) \<Rightarrow> string \<Rightarrow> 'v val \<Rightarrow> (string \<times> 'v cell) list list"
and spec_elements :: "(string \<Rightarrow> bool) \<Rightarrow> string \<Rightarrow> 'v val list \<Rightarrow> (string \<times> 'v cell) list list" where
  "spec_rows valid t (Pointer v) = spec_rows valid t v"
| "spec_rows valid t (Duration d v) = spec_rows valid t v"
| "spec_rows valid t (Struct a fs) =
     (let F = spec_factors valid t fs in if F = [] then [] else map concat (product_lists F))"
| "spec_rows valid t v = []"
| "spec_factors valid t [] = []"
| "spec_factors valid t ((tg, v) # fs) =
     (if deref v = Nothing then []
      else (if tag_get tg t = [] then [] else [[[(tag_get tg t, field_value valid (deref v))]]])
         @ (let k = spec_nested valid t v in if k = [] then [] else [k]))
     @ spec_factors valid t fs"
| "spec_nested valid t (Pointer v) = spec_nested valid t v"
| "spec_nested valid t (Duration d v) = spec_nested valid t v"
| "spec_nested valid t (Struct a fs) =
     (let F = spec_factors valid t fs in if F = [] then [] else map concat (product_lists F))"
| "spec_nested valid t (Sequence a vs) =
     (if vs = [] \<or> \<not> is_struct (deref (hd vs)) then [] else spec_elements valid t vs)"
| "spec_nested valid t v = []"
| "spec_elements valid t [] = []"
| "spec_elements valid t (v # vs) = spec_rows valid t v @ spec_elements valid t vs"

definition times :: "'b list list \<Rightarrow> 'b list list \<Rightarrow> 'b list list" where
  "times rs ks = (if ks = [] then rs else concat (map (\<lambda>x. map ((@) x) ks) (if rs = [] then [[]] else rs)))"

lemma times_Nil [simp]: "times rs [] = rs"
  by (simp add: times_def)

lemma times_nonempty: "rs \<noteq> [] \<Longrightarrow> times rs ks \<noteq> []"
  by (cases rs; cases ks) (simp_all add: times_def)

lemma length_times: "length (times rs ks) = (if ks = [] then length rs else max 1 (length rs) * length ks)"
proof -
  have "length (concat (map (\<lambda>x. map ((@) x) ks) qs)) = length qs * length ks" for qs :: "'a list list"
    by (induction qs) simp_all
  note len = this
  show ?thesis
  proof (cases "ks = [] \<or> rs = []")
    case True
    then show ?thesis by (auto simp: times_def)
  next
    case False
    then have "max 1 (length rs) = length rs" by (cases rs) simp_all
    with False len [of rs] show ?thesis by (simp only: times_def de_Morgan_disj if_False)
  qed
qed

lemma times_grows: "length rs \<le> length (times rs ks)" "length ks \<le> length (times rs ks)"
proof -
  have "a \<le> max 1 a * b" "b \<le> max 1 a * b" if "b \<noteq> 0" for a b :: nat
    using that mult_le_mono [of a "max 1 a" 1 b] mult_le_mono [of 1 "max 1 a" b b] by simp_all
  then show "length rs \<le> length (times rs ks)" "length ks \<le> length (times rs ks)"
    by (simp_all only: length_times length_0_conv split: if_split) simp_all
qed

lemma foldl_times_grows: "length rs \<le> length (foldl times rs F)"
  by (induction F arbitrary: rs) (auto intro: order_trans [OF times_grows(1)])

lemma foldl_times_product: "[] \<notin> set F \<Longrightarrow> rs \<noteq> [] \<Longrightarrow>
    foldl times rs F = concat (map (\<lambda>x. map (\<lambda>ys. x @ concat ys) (product_lists F)) rs)"
proof (induction F arbitrary: rs)
  case Nil
  then show ?case by (induction rs) auto
next
  case (Cons k F)
  have "times rs k = concat (map (\<lambda>x. map ((@) x) k) rs)"
    using Cons.prems by (auto simp: times_def)
  moreover have "foldl times (times rs k) F = concat (map (\<lambda>x. map (\<lambda>ys. x @ concat ys) (product_lists F)) (times rs k))"
    using Cons.IH [of "times rs k"] Cons.prems times_nonempty [of rs k] by auto
  moreover have "concat (map (\<lambda>x. map (\<lambda>ys. x @ concat ys) P) (concat (map (\<lambda>x. map ((@) x) k) qs)))
      = concat (map (\<lambda>x. concat (map (\<lambda>y. map (\<lambda>ys. x @ y @ concat ys) P) k)) qs)" for P and qs :: "'a list list"
    by (induction qs) (simp_all add: comp_def)
  moreover have "map (\<lambda>ys. x @ concat ys) (product_lists (k # F))
      = concat (map (\<lambda>y. map (\<lambda>ys. x @ y @ concat ys) (product_lists F)) k)" for x
    by (simp add: map_concat comp_def)
  ultimately show ?case
    by simp
qed

lemma foldl_times: "[] \<notin> set F \<Longrightarrow> F \<noteq> [] \<Longrightarrow> foldl times [] F = map concat (product_lists F)"
proof (cases F)
  case (Cons k G)
  assume free: "[] \<notin> set F"
  with Cons have "times [] k = times [[]] k"
    by (auto simp: times_def)
  with foldl_times_product [OF free, of "[[]]"] Cons show ?thesis
    by simp
qed simp

lemma spec_factors_nonempty: "[] \<notin> set (spec_factors valid t fs)"
  by (induction fs rule: list.induct) (auto simp: Let_def split: if_splits)

lemma spec_struct: "(let F = spec_factors valid t fs in if F = [] then [] else map concat (product_lists F))
    = foldl times [] (spec_factors valid t fs)"
  by (simp add: Let_def foldl_times [OF spec_factors_nonempty])

section \<open>The code computes the specification\<close>

definition good_table :: "string list \<Rightarrow> string \<times> 'v cell row list \<Rightarrow> bool" where
  "good_table ts p \<longleftrightarrow> fst p \<in> set ts \<and> snd p \<noteq> [] \<and> list_all wf_row (snd p)"

text \<open>The invariant of the maps: one entry per table, of the tables asked for, none empty, and every
  row has as many names as values.\<close>

definition good_map :: "string list \<Rightarrow> 'v table_rows \<Rightarrow> bool" where
  "good_map ts m \<longleftrightarrow> distinct (map fst m) \<and> list_all (good_table ts) m"

text \<open>The rows of a table in a map, as lists of cells.\<close>

definition cells_in :: "'v table_rows \<Rightarrow> string \<Rightarrow> (string \<times> 'v cell) list list" where
  "cells_in m t = map pairs (rows_in m t)"

lemma good_map_Nil [simp]: "good_map ts []"
  by (simp add: good_map_def)

lemma cells_in_Nil [simp]: "cells_in [] t = []"
  by (simp add: cells_in_def rows_in_def)

lemma good_rows: "good_map ts m \<Longrightarrow> list_all wf_row (rows_in m t)"
  by (auto simp: good_map_def rows_in_def list_all_iff good_table_def split: option.split dest: map_of_SomeD)

lemma seeded_wf: "list_all wf_row rs \<Longrightarrow> list_all wf_row (seeded rs)"
  by (simp add: seeded_def)

lemma pairs_seeded: "map pairs (seeded rs) = (if rs = [] then [[]] else map pairs rs)"
  by (simp add: seeded_def)

lemma good_update: "good_map ts m \<Longrightarrow> t \<in> set ts \<Longrightarrow> rs \<noteq> [] \<Longrightarrow> list_all wf_row rs \<Longrightarrow> good_map ts (AList.update t rs m)"
  by (induction m) (auto simp: good_map_def good_table_def dom_update distinct_update)

lemma rows_in_update [simp]: "rows_in (AList.update t rs m) u = (if u = t then rs else rows_in m u)"
  by (simp add: rows_in_def update_conv)

lemma add_columns_good:
  "good_map ts m \<Longrightarrow> set us \<subseteq> set ts \<Longrightarrow> good_map ts (add_columns tg c us m)"
proof (induction us arbitrary: m)
  case (Cons u us)
  have "good_map ts (AList.update u (map (add_column (tag_get tg u) c) (seeded (rows_in m u))) m)"
    using Cons.prems by (intro good_update) (simp_all add: seeded_def list_all_iff good_rows [unfolded list_all_iff])
  with Cons show ?case by simp
qed simp

lemma add_columns_cells:
  assumes "good_map ts m" and "distinct us" and "set us \<subseteq> set ts"
  shows "cells_in (add_columns tg c us m) t =
    (if t \<in> set us \<and> tag_get tg t \<noteq> [] then times (cells_in m t) [[(tag_get tg t, c)]] else cells_in m t)"
  using assms
proof (induction us arbitrary: m)
  case (Cons u us)
  let ?m = "AList.update u (map (add_column (tag_get tg u) c) (seeded (rows_in m u))) m"
  have good: "good_map ts ?m"
    using Cons.prems by (intro good_update) (simp_all add: seeded_def list_all_iff good_rows [unfolded list_all_iff])
  have "list_all wf_row (rows_in m u)"
    using Cons.prems by (simp add: good_rows)
  then have "map pairs (map (add_column (tag_get tg u) c) (seeded (rows_in m u)))
      = times (cells_in m u) [[(tag_get tg u, c)]]"
    by (auto simp: times_def cells_in_def seeded_def list_all_iff comp_def concat_map_singleton)
  then have here: "cells_in ?m t = (if t = u then times (cells_in m u) [[(tag_get tg u, c)]] else cells_in m t)"
    by (simp add: cells_in_def)
  show ?case
    using Cons.IH [OF good] Cons.IH [OF Cons.prems(1)] Cons.prems here by (auto simp: cells_in_def)
qed simp

lemma pairs_product:
  "list_all wf_row xs \<Longrightarrow> list_all wf_row ys \<Longrightarrow>
    map pairs (concat (map (\<lambda>x. map (beside x) ys) xs)) = concat (map (\<lambda>x. map ((@) x) (map pairs ys)) (map pairs xs))"
  by (induction xs) (simp_all add: comp_def)

lemma product_wf: "list_all wf_row xs \<Longrightarrow> list_all wf_row ys \<Longrightarrow> list_all wf_row (concat (map (\<lambda>x. map (beside x) ys) xs))"
  by (auto simp: list_all_iff)

lemma field_grows:
  "length ks \<le> length (foldl times (times rs ks) F)" "length (times rs ks) \<le> length (foldl times (times rs ks) F)"
  using times_grows(2) [of ks rs] foldl_times_grows [of "times rs ks" F] by simp_all

text \<open>What merging answers: an error only for a table that grows too large.\<close>

definition merged_ok :: "string list \<Rightarrow> orm_error + 'v table_rows \<Rightarrow> (string \<Rightarrow> (string \<times> 'v cell) list list) \<Rightarrow> bool" where
  "merged_ok ts r f =
     (case r of
        Inl e \<Rightarrow> (\<exists>t \<in> set ts. \<exists>n. e = TooLarge t n \<and> n > max_cartesian_product_size \<and> n \<le> length (f t))
      | Inr m \<Rightarrow> good_map ts m \<and> (\<forall>t \<in> set ts. cells_in m t = f t))"

lemma merged_ok_error:
  "merged_ok ts (Inl e) f \<Longrightarrow> (\<And>t. t \<in> set ts \<Longrightarrow> length (f t) \<le> length (g t)) \<Longrightarrow> merged_ok ts (Inl e) g"
  by (fastforce simp: merged_ok_def)

lemma merge_rows_map_ok:
  "good_map ts a \<Longrightarrow> good_map ts b \<Longrightarrow> merged_ok ts (merge_rows_map a b) (\<lambda>t. times (cells_in a t) (cells_in b t))"
proof (induction a b rule: merge_rows_map.induct)
  case (1 a)
  then show ?case by (simp add: merged_ok_def)
next
  case (2 a t rows2 b)
  let ?rows1 = "seeded (rows_in a t)"
  let ?prod = "concat (map (\<lambda>x. map (beside x) rows2) ?rows1)"
  have wf: "list_all wf_row ?rows1" "list_all wf_row rows2" and t: "t \<in> set ts" and ne: "rows2 \<noteq> []"
    and b: "good_map ts b" and fresh: "t \<notin> fst ` set b"
    using 2(2,3) by (auto simp: seeded_wf good_rows good_map_def good_table_def)
  have a': "good_map ts (AList.update t ?prod a)"
    using 2(2) t ne wf by (intro good_update product_wf) (auto simp: seeded_def)
  have cells: "map pairs ?prod = times (cells_in a t) (map pairs rows2)"
    using pairs_product [OF wf] ne by (simp add: times_def cells_in_def pairs_seeded)
  have none: "cells_in b t = []"
    using fresh by (simp add: cells_in_def rows_in_def map_of_eq_None_iff [THEN iffD2])
  have upd: "cells_in (AList.update t ?prod a) u = (if u = t then times (cells_in a t) (map pairs rows2) else cells_in a u)" for u
    using cells by (simp add: cells_in_def)
  have cons: "cells_in ((t, rows2) # b) u = (if u = t then map pairs rows2 else cells_in b u)" for u
    by (simp add: cells_in_def rows_in_def)
  show ?case
  proof (cases "length ?rows1 * length rows2 > max_cartesian_product_size")
    case True
    have "length (times (cells_in a t) (cells_in ((t, rows2) # b) t)) = length ?rows1 * length rows2"
      unfolding cons using ne by (cases "rows_in a t") (simp_all add: length_times seeded_def cells_in_def)
    with True t show ?thesis by (simp add: merged_ok_def Let_def)
  next
    case False
    then have "merge_rows_map a ((t, rows2) # b) = merge_rows_map (AList.update t ?prod a) b"
      by (simp add: Let_def multiply_rows_wf [OF wf])
    moreover have "merged_ok ts (merge_rows_map (AList.update t ?prod a) b)
        (\<lambda>u. times (cells_in (AList.update t ?prod a) u) (cells_in b u))"
      using 2(1) [OF refl refl False multiply_rows_wf [OF wf] a' b] .
    moreover have "(\<lambda>u. times (cells_in (AList.update t ?prod a) u) (cells_in b u))
        = (\<lambda>u. times (cells_in a u) (cells_in ((t, rows2) # b) u))"
      unfolding upd cons using none by auto
    ultimately show ?thesis by simp
  qed
qed

lemma append_rows_ok:
  "good_map ts m \<Longrightarrow> good_map ts b \<Longrightarrow>
    good_map ts (append_rows m b) \<and> cells_in (append_rows m b) t = cells_in m t @ cells_in b t"
proof (induction m b rule: append_rows.induct)
  case (2 m u rs b)
  have u: "u \<in> set ts" "rs \<noteq> []" "list_all wf_row rs" and b: "good_map ts b" and fresh: "u \<notin> fst ` set b"
    using "2.prems" by (auto simp: good_map_def good_table_def)
  have good: "good_map ts (AList.update u (rows_in m u @ rs) m)"
    using "2.prems" u by (intro good_update) (simp_all add: good_rows)
  have "cells_in b u = []"
    using fresh by (simp add: cells_in_def rows_in_def map_of_eq_None_iff [THEN iffD2])
  moreover have "cells_in ((u, rs) # b) t = (if t = u then map pairs rs else cells_in b t)"
    by (simp add: cells_in_def rows_in_def)
  moreover have "cells_in (AList.update u (rows_in m u @ rs) m) t
      = (if t = u then cells_in m u @ map pairs rs else cells_in m t)"
    by (simp add: cells_in_def)
  ultimately show ?case
    using "2.IH" [OF good b] by simp
qed simp

text \<open>An iteration order: a permutation of the entries.\<close>

definition reorders :: "('v table_rows \<Rightarrow> 'v table_rows) \<Rightarrow> bool" where
  "reorders \<pi> \<longleftrightarrow> (\<forall>m. mset (\<pi> m) = mset m)"

lemma reorder_good: "reorders \<pi> \<Longrightarrow> good_map ts m \<Longrightarrow> good_map ts (\<pi> m)"
proof -
  assume "reorders \<pi>" and good: "good_map ts m"
  then have same: "mset (\<pi> m) = mset m" by (simp add: reorders_def)
  then have "mset (map fst (\<pi> m)) = mset (map fst m)" by simp
  with same good show ?thesis
    unfolding good_map_def list_all_iff
    by (metis mset_eq_imp_distinct_iff mset_eq_setD)
qed

lemma reorder_cells: "reorders \<pi> \<Longrightarrow> good_map ts m \<Longrightarrow> cells_in (\<pi> m) t = cells_in m t"
proof -
  assume "reorders \<pi>" and good: "good_map ts m"
  then have same: "mset (\<pi> m) = mset m" and "good_map ts (\<pi> m)"
    by (simp_all add: reorders_def reorder_good)
  then have "map_of (\<pi> m) = map_of m"
    using good by (intro map_of_inject_set [THEN iffD2]) (simp_all add: good_map_def mset_eq_setD [OF same])
  then show ?thesis by (simp add: cells_in_def rows_in_def)
qed

lemma merge_reordered:
  "reorders \<pi> \<Longrightarrow> good_map ts a \<Longrightarrow> good_map ts k \<Longrightarrow>
    merged_ok ts (merge_rows_map a (\<pi> k)) (\<lambda>t. times (cells_in a t) (cells_in k t))"
  using merge_rows_map_ok [OF _ reorder_good, of ts a \<pi> k] by (simp add: reorder_cells)

lemma field_times:
  assumes "good_map ts m" and "distinct ts" and "t \<in> set ts"
  shows "times (cells_in (add_columns tg c ts m) t) K =
    foldl times (cells_in m t)
      ((if tag_get tg t = [] then [] else [[[(tag_get tg t, c)]]]) @ (if K = [] then [] else [K]))"
  using assms by (simp add: add_columns_cells [OF assms(1,2) subset_refl])

lemma collected_ok:
  fixes v :: "'v val" and fs :: "(tags \<times> 'v val) list" and u :: "'v val" and vs :: "'v val list"
  shows "reorders \<pi> \<Longrightarrow> distinct ts \<Longrightarrow> merged_ok ts (collect_rows \<pi> valid ts v) (\<lambda>t. spec_rows valid t v)"
    and "reorders \<pi> \<Longrightarrow> distinct ts \<Longrightarrow> good_map ts m \<Longrightarrow>
      merged_ok ts (collect_fields \<pi> valid ts fs m) (\<lambda>t. foldl times (cells_in m t) (spec_factors valid t fs))"
    and "reorders \<pi> \<Longrightarrow> distinct ts \<Longrightarrow> merged_ok ts (child_rows \<pi> valid ts u) (\<lambda>t. spec_nested valid t u)"
    and "reorders \<pi> \<Longrightarrow> distinct ts \<Longrightarrow> good_map ts m \<Longrightarrow>
      merged_ok ts (collect_elements \<pi> valid ts vs m) (\<lambda>t. cells_in m t @ spec_elements valid t vs)"
proof (induction \<pi> valid ts v and \<pi> valid ts fs m and \<pi> valid ts u and \<pi> valid ts vs m
    rule: collect_rows_collect_fields_child_rows_collect_elements.induct)
  case (3 \<pi> valid ts a fs)
  show ?case
    unfolding collect_rows.simps spec_rows.simps spec_struct
    using "3.IH" [OF "3.prems" good_map_Nil] by simp
next
  case (6 \<pi> valid ts tg v fs m)
  let ?m = "add_columns tg (field_value valid (deref v)) ts m"
  show ?case
  proof (cases "deref v = Nothing")
    case True
    then show ?thesis using "6.IH"(1) [OF True "6.prems"] by simp
  next
    case False
    let ?g = "\<lambda>t. foldl times (times (cells_in ?m t) (spec_nested valid t v)) (spec_factors valid t fs)"
    have step: "foldl times (cells_in m t) (spec_factors valid t ((tg, v) # fs)) = ?g t" if "t \<in> set ts" for t
      using False field_times [OF "6.prems"(3,2) that] by (simp add: Let_def)
    have kids: "merged_ok ts (child_rows \<pi> valid ts v) (\<lambda>t. spec_nested valid t v)"
      using "6.IH"(2) [OF False "6.prems"(1,2)] .
    show ?thesis
    proof (cases "child_rows \<pi> valid ts v")
      case (Inl e)
      have "merged_ok ts (Inl e) (\<lambda>t. foldl times (cells_in m t) (spec_factors valid t ((tg, v) # fs)))"
        using kids unfolding Inl by (rule merged_ok_error) (simp only: step field_grows)
      with False Inl show ?thesis by simp
    next
      case (Inr k)
      have k: "good_map ts k" "\<And>t. t \<in> set ts \<Longrightarrow> cells_in k t = spec_nested valid t v"
        using kids Inr by (auto simp: merged_ok_def)
      have good: "good_map ts ?m"
        using add_columns_good [OF "6.prems"(3) subset_refl] .
      have merged: "merged_ok ts (merge_rows_map ?m (\<pi> k)) (\<lambda>t. times (cells_in ?m t) (cells_in k t))"
        using merge_reordered [OF "6.prems"(1) good k(1)] .
      show ?thesis
      proof (cases "merge_rows_map ?m (\<pi> k)")
        case (Inl e)
        have "merged_ok ts (Inl e) (\<lambda>t. foldl times (cells_in m t) (spec_factors valid t ((tg, v) # fs)))"
          using merged unfolding Inl by (rule merged_ok_error) (simp only: step k(2) field_grows)
        with False Inr Inl show ?thesis by simp
      next
        case m': (Inr m')
        have good': "good_map ts m'" and cells': "\<And>t. t \<in> set ts \<Longrightarrow> cells_in m' t = times (cells_in ?m t) (cells_in k t)"
          using merged m' by (auto simp: merged_ok_def)
        have "merged_ok ts (collect_fields \<pi> valid ts fs m') (\<lambda>t. foldl times (cells_in m' t) (spec_factors valid t fs))"
          using "6.IH"(3) [OF False Inr m' "6.prems"(1,2) good'] .
        moreover have "merged_ok ts r (\<lambda>t. foldl times (cells_in m' t) (spec_factors valid t fs))
            = merged_ok ts r (\<lambda>t. foldl times (cells_in m t) (spec_factors valid t ((tg, v) # fs)))" for r
          by (simp add: merged_ok_def cells' k(2) step del: spec_factors.simps cong: sum.case_cong)
        ultimately show ?thesis
          using False Inr m' by simp
      qed
    qed
  qed
next
  case (9 \<pi> valid ts a fs)
  show ?case
    unfolding child_rows.simps spec_nested.simps spec_struct
    using "9.IH" [OF "9.prems" good_map_Nil] by simp
next
  case (13 \<pi> valid ts v vs m)
  have one: "merged_ok ts (collect_rows \<pi> valid ts v) (\<lambda>t. spec_rows valid t v)"
    using "13.IH"(1) [OF "13.prems"(1,2)] .
  show ?case
  proof (cases "collect_rows \<pi> valid ts v")
    case (Inl e)
    have "merged_ok ts (Inl e) (\<lambda>t. cells_in m t @ spec_elements valid t (v # vs))"
      using one unfolding Inl by (rule merged_ok_error) simp
    with Inl show ?thesis by simp
  next
    case (Inr k)
    then have k: "good_map ts k" "\<And>t. t \<in> set ts \<Longrightarrow> cells_in k t = spec_rows valid t v"
      using one by (auto simp: merged_ok_def)
    have good: "good_map ts (append_rows m (\<pi> k))"
      and cells: "\<And>t. cells_in (append_rows m (\<pi> k)) t = cells_in m t @ cells_in k t"
      using append_rows_ok [OF "13.prems"(3) reorder_good [OF "13.prems"(1) k(1)]]
      by (simp_all add: reorder_cells [OF "13.prems"(1) k(1)])
    have "merged_ok ts r (\<lambda>t. cells_in (append_rows m (\<pi> k)) t @ spec_elements valid t vs)
        = merged_ok ts r (\<lambda>t. cells_in m t @ spec_elements valid t (v # vs))" for r
      by (simp add: merged_ok_def cells k(2) cong: sum.case_cong)
    with "13.IH"(2) [OF Inr "13.prems"(1,2) good] Inr show ?thesis by simp
  qed
next
  case (10 \<pi> valid ts a vs)
  then show ?case by (cases "vs = [] \<or> \<not> is_struct (deref (hd vs))") (auto simp: merged_ok_def)
qed (simp_all add: merged_ok_def)

section \<open>The limit\<close>

definition small :: "'v table_rows \<Rightarrow> bool" where
  "small m \<longleftrightarrow> (\<forall>t. length (cells_in m t) \<le> max_cartesian_product_size)"

lemma merge_small: "good_map ts a \<Longrightarrow> good_map ts b \<Longrightarrow> small a \<Longrightarrow> merge_rows_map a b = Inr m \<Longrightarrow> small m"
proof (induction a b arbitrary: m rule: merge_rows_map.induct)
  case (2 a t rows2 b)
  let ?rows1 = "seeded (rows_in a t)"
  let ?prod = "concat (map (\<lambda>x. map (beside x) rows2) ?rows1)"
  have wf: "list_all wf_row ?rows1" "list_all wf_row rows2" and t: "t \<in> set ts" and ne: "rows2 \<noteq> []"
    and b: "good_map ts b"
    using "2.prems"(1,2) by (auto simp: seeded_wf good_rows good_map_def good_table_def)
  have a': "good_map ts (AList.update t ?prod a)"
    using "2.prems"(1) t ne wf by (intro good_update product_wf) (auto simp: seeded_def)
  have fits: "\<not> length ?rows1 * length rows2 > max_cartesian_product_size"
    and rest: "merge_rows_map (AList.update t ?prod a) b = Inr m"
    using "2.prems"(4) by (simp_all add: Let_def multiply_rows_wf [OF wf] split: if_splits)
  have "length ?prod = length ?rows1 * length rows2"
    by (simp add: length_concat comp_def sum_list_triv)
  then have "small (AList.update t ?prod a)"
    using fits "2.prems"(3) by (simp add: small_def cells_in_def)
  from "2.IH" [OF refl refl fits multiply_rows_wf [OF wf] a' b this rest] show ?case .
qed simp

lemma add_columns_small: "good_map ts m \<Longrightarrow> distinct ts \<Longrightarrow> small m \<Longrightarrow> small (add_columns tg c ts m)"
  by (simp add: small_def add_columns_cells length_times max_cartesian_product_size_def)

lemma fields_small:
  "reorders \<pi> \<Longrightarrow> distinct ts \<Longrightarrow> good_map ts m \<Longrightarrow> small m \<Longrightarrow> collect_fields \<pi> valid ts fs m = Inr m' \<Longrightarrow> small m'"
proof (induction fs arbitrary: m)
  case (Cons f fs)
  obtain tg v where f: "f = (tg, v)" by (cases f)
  let ?m = "add_columns tg (field_value valid (deref v)) ts m"
  show ?case
  proof (cases "deref v = Nothing")
    case True
    with Cons f show ?thesis by simp
  next
    case False
    with Cons.prems(5) f obtain k m1 where k: "child_rows \<pi> valid ts v = Inr k"
      and m1: "merge_rows_map ?m (\<pi> k) = Inr m1" and rest: "collect_fields \<pi> valid ts fs m1 = Inr m'"
      by (auto split: sum.splits)
    have good: "good_map ts ?m"
      using add_columns_good [OF Cons.prems(3) subset_refl] .
    have kids: "good_map ts (\<pi> k)"
      using collected_ok(3) [OF Cons.prems(1,2), of valid v] k reorder_good [OF Cons.prems(1)]
      by (simp add: merged_ok_def)
    have "good_map ts m1"
      using merge_rows_map_ok [OF good kids] m1 by (simp add: merged_ok_def)
    moreover have "small m1"
      using merge_small [OF good kids _ m1] add_columns_small [OF Cons.prems(3,2,4)] by simp
    ultimately show ?thesis
      using Cons.IH [OF Cons.prems(1,2) _ _ rest] by simp
  qed
qed simp

lemma rows_small: "reorders \<pi> \<Longrightarrow> distinct ts \<Longrightarrow> collect_rows \<pi> valid ts v = Inr m \<Longrightarrow> small m"
proof (induction v)
  case (Struct a fs)
  then show ?case using fields_small [OF Struct.prems(1,2) good_map_Nil] by (simp add: small_def)
qed (auto simp: small_def)

text \<open>C36: The rows collected for every table are those of the specification, in the same order and
  independent of the other tables and of the order in which maps are iterated: a cartesian product
  over the fields of a structure, a concatenation over the elements of a slice. Every row has as many
  names as values, so \<open>ColumnCount\<close> never panics. The collection fails only for a table with more
  than 100,000 rows, and it fails whenever there is one.\<close>

theorem collect_rows_spec:
  assumes "reorders \<pi>" and "distinct ts"
  shows "case collect_rows \<pi> valid ts v of
      Inl e \<Rightarrow> (\<exists>t \<in> set ts. \<exists>n. e = TooLarge t n \<and> 100000 < n \<and> n \<le> length (spec_rows valid t v))
    | Inr m \<Rightarrow> distinct (map fst m) \<and> fst ` set m \<subseteq> set ts
        \<and> (\<forall>t \<in> set ts. list_all wf_row (rows_in m t) \<and> map pairs (rows_in m t) = spec_rows valid t v
             \<and> length (spec_rows valid t v) \<le> 100000)"
proof (cases "collect_rows \<pi> valid ts v")
  case (Inl e)
  then show ?thesis
    using collected_ok(1) [OF assms, of valid v] by (simp add: merged_ok_def max_cartesian_product_size_def)
next
  case (Inr m)
  have good: "good_map ts m" and cells: "\<And>t. t \<in> set ts \<Longrightarrow> cells_in m t = spec_rows valid t v"
    using collected_ok(1) [OF assms, of valid v] Inr by (simp_all add: merged_ok_def)
  have len: "length (spec_rows valid t v) \<le> 100000" if "t \<in> set ts" for t
    using rows_small [OF assms Inr] that
    by (simp add: small_def max_cartesian_product_size_def flip: cells)
  show ?thesis
    using Inr good cells len good_rows [OF good]
    by (auto simp: good_map_def good_table_def list_all_iff cells_in_def)
qed

section \<open>One transaction\<close>

text \<open>The statements that an object needs, and their execution one after the other.\<close>

definition row_statements :: "string \<Rightarrow> 'v cell row list \<Rightarrow> (string \<times> 'v cell list) list" where
  "row_statements t rs =
     map (\<lambda>r. (insert_statement t (column_names r), row_values r)) (filter (\<lambda>r. column_names r \<noteq> []) rs)"

fun statements :: "'v table_rows \<Rightarrow> (string \<times> 'v cell list) list" where
  "statements [] = []"
| "statements ((t, rs) # m) =
     (if length rs = 1 \<and> length (column_names (hd rs)) \<le> 1 then [] else row_statements t rs) @ statements m"

fun exec_all :: "('v, 'd) database \<Rightarrow> (string \<times> 'v cell list) list \<Rightarrow> 'd \<Rightarrow> string option \<times> 'd" where
  "exec_all db [] d = (None, d)"
| "exec_all db ((q, vs) # sts) d =
     (case exec_stmt db q vs d of (Some e, d') \<Rightarrow> (Some e, d') | (None, d') \<Rightarrow> exec_all db sts d')"

lemma exec_all_append:
  "exec_all db (xs @ ys) d = (case exec_all db xs d of (Some e, d') \<Rightarrow> (Some e, d') | (None, d') \<Rightarrow> exec_all db ys d')"
  by (induction xs arbitrary: d) (auto split: prod.split option.split)

lemma insert_rows_exec:
  "list_all wf_row rs \<Longrightarrow> insert_rows db t rs d = apfst (map_option Db) (exec_all db (row_statements t rs) d)"
  by (induction rs arbitrary: d)
    (auto simp: row_statements_def column_count_def wf_row_def split: prod.split option.split)

lemma skipped_wf: "list_all wf_row rs \<Longrightarrow> rs \<noteq> [] \<Longrightarrow>
    skipped rs = Some (length rs = 1 \<and> length (column_names (hd rs)) \<le> 1)"
  by (cases rs) (simp_all add: skipped_def column_count_def wf_row_def)

lemma insert_tables_exec:
  "list_all (good_table ts) m \<Longrightarrow> insert_tables db m d = apfst (map_option Db) (exec_all db (statements m) d)"
proof (induction m arbitrary: d)
  case (Cons p m)
  obtain t rs where p: "p = (t, rs)" by (cases p)
  with Cons.prems have wf: "list_all wf_row rs" "rs \<noteq> []" by (simp_all add: good_table_def)
  show ?case
    using Cons.IH Cons.prems
    by (auto simp: p skipped_wf [OF wf] insert_rows_exec [OF wf(1)] exec_all_append split: prod.split option.split)
qed simp

text \<open>C37: An object is stored completely or not at all. \<open>SqlInsertObject\<close> either returns an error and
  leaves the committed state as it was, or it has executed every statement of the object, all without
  an error, in one transaction that it then commits, and returns what the commit returns. It never
  panics.\<close>

theorem sql_insert_object_atomic:
  assumes "reorders \<pi>" and "distinct ts" and "sql_insert_object db \<pi> valid ts v d = (r, d')"
  shows "(r \<noteq> None \<and> r \<noteq> Some InvalidState \<and> d' = d)
    \<or> (\<exists>m tx e. collect_rows \<pi> valid ts v = Inr m \<and> exec_all db (statements (\<pi> m)) d = (None, tx)
         \<and> commit_tx db d tx = (e, d') \<and> r = map_option Db e)"
proof (cases "begin_tx db d = None \<and> is_struct (deref v)")
  case False
  with assms(3) show ?thesis
    by (auto simp: sql_insert_object_def split: option.splits)
next
  case True
  show ?thesis
  proof (cases "collect_rows \<pi> valid ts v")
    case (Inl e)
    then obtain t n where "e = TooLarge t n"
      using collected_ok(1) [OF assms(1,2), of valid v] by (auto simp: merged_ok_def)
    with True Inl assms(3) show ?thesis by (auto simp: sql_insert_object_def)
  next
    case (Inr m)
    have "good_map ts (\<pi> m)"
      using collected_ok(1) [OF assms(1,2), of valid v] Inr reorder_good [OF assms(1)] by (simp add: merged_ok_def)
    then have "insert_tables db (\<pi> m) d = apfst (map_option Db) (exec_all db (statements (\<pi> m)) d)"
      by (intro insert_tables_exec [of ts]) (simp add: good_map_def)
    with True Inr assms(3) show ?thesis
      by (cases "exec_all db (statements (\<pi> m)) d"; cases "fst (exec_all db (statements (\<pi> m)) d)")
        (auto simp: sql_insert_object_def split: prod.splits)
  qed
qed

section \<open>Examples\<close>

text \<open>An order with two items, one of which is nil, and a table that counts executions.\<close>

definition demo_item :: "nat \<Rightarrow> nat val" where
  "demo_item n = Pointer (Struct 0 [([(''items'', ''item'')], Basic n)])"

definition demo_order :: "nat val" where
  "demo_order = Struct 0
     [([(''items'', ''id''), (''orders'', ''id'')], Basic 7),
      ([(''orders'', ''note'')], RawJson ''{ }''),
      ([], Sequence 0 [demo_item 1, Pointer Nothing, demo_item 2])]"

definition demo_db :: "(nat, (string \<times> nat cell list) list) database" where
  "demo_db = \<lparr>begin_tx = \<lambda>_. None, exec_stmt = \<lambda>q vs d. (None, d @ [(q, vs)]), commit_tx = \<lambda>_ tx. (None, tx)\<rparr>"

lemma reorders_id: "reorders id"
  by (simp add: reorders_def)

lemma demo_rows:
  "collect_rows id (\<lambda>_. True) [''orders'', ''items''] demo_order =
     Inr [(''orders'', [\<lparr>column_names = [''id'', ''note''], row_values = [Value 7, Text ''{}'']\<rparr>]),
          (''items'', [\<lparr>column_names = [''id'', ''item''], row_values = [Value 7, Value 1]\<rparr>,
                       \<lparr>column_names = [''id'', ''item''], row_values = [Value 7, Value 2]\<rparr>])]"
  by (simp add: demo_order_def demo_item_def field_value_def json_space_def tag_get_def rows_in_def seeded_def
    multiply_rows_def merge_columns_wf wf_row_def beside_def add_column_def new_row_def max_cartesian_product_size_def)

theorem collect_rows_spec_witness:
  "spec_rows (\<lambda>_. True) ''items'' demo_order = [[(''id'', Value 7), (''item'', Value 1)], [(''id'', Value 7), (''item'', Value 2)]]"
  using collect_rows_spec [OF reorders_id, of "[''orders'', ''items'']" "\<lambda>_. True" demo_order]
  by (simp add: demo_rows rows_in_def pairs_def)

lemma demo_insert:
  "sql_insert_object demo_db id (\<lambda>_. True) [''orders'', ''items''] demo_order [] =
     (None, [(''INSERT INTO orders (id,note) VALUES (?,?)'', [Value 7, Text ''{}'']),
             (''INSERT INTO items (id,item) VALUES (?,?)'', [Value 7, Value 1]),
             (''INSERT INTO items (id,item) VALUES (?,?)'', [Value 7, Value 2])])"
proof -
  have "is_struct (deref demo_order)"
    by (simp add: demo_order_def)
  then show ?thesis
    by (simp add: sql_insert_object_def demo_rows demo_db_def skipped_def column_count_def insert_statement_def
      placeholders_def)
qed

theorem sql_insert_object_atomic_witness:
  "\<exists>m tx. collect_rows id (\<lambda>_. True) [''orders'', ''items''] demo_order = Inr m
     \<and> exec_all demo_db (statements m) [] = (None, tx) \<and> length tx = 3"
  using sql_insert_object_atomic [OF reorders_id _ demo_insert] by (auto simp: demo_db_def)

end
