(* ===== verification/RunCmd.thy ===== *)
theory RunCmd
  imports StageGraph StageMain
begin

text \<open>
  The command \<open>run\<close>, \<open>cmd/run/main.go\<close>: the stages named on the command line, files or directories
  of files, are read and merged into the main stage, the run gets its name, the graph is parsed, and
  the recorders are registered.
\<close>

section \<open>Stage paths\<close>

text \<open>\<open>list_stages\<close> is \<open>os.ReadDir\<close>: the names in a directory, sorted, and whether each is a directory
  itself.\<close>

datatype path_error = NoSuchPath string | NotListed string | NotAStageFile string | NotRead graph_error

definition stage_file_ext :: string where
  "stage_file_ext = ''.json''"

text \<open>\<open>processStagePath\<close>; a link with the name of a stage file may lead to a directory again, so the
  recursion has fuel.\<close>

fun process_stage_path :: "nat \<Rightarrow> 'c host \<Rightarrow> (string \<Rightarrow> (string \<times> bool) list option) \<Rightarrow> string \<Rightarrow> (path_error + 'c stage) option"
and process_stage_entries :: "nat \<Rightarrow> 'c host \<Rightarrow> (string \<Rightarrow> (string \<times> bool) list option) \<Rightarrow> string \<Rightarrow> (string \<times> bool) list \<Rightarrow> 'c stage \<Rightarrow> (path_error + 'c stage) option" where
  "process_stage_path 0 h ls path = None"
| "process_stage_path (Suc k) h ls path =
     (case stat_dir h path of
        None \<Rightarrow> Some (Inl (NoSuchPath path))
      | Some True \<Rightarrow>
          (case ls path of
             None \<Rightarrow> Some (Inl (NotListed path))
           | Some es \<Rightarrow> process_stage_entries k h ls path es empty_stage)
      | Some False \<Rightarrow>
          if \<not> has_suffix path stage_file_ext then Some (Inl (NotAStageFile path))
          else (case read_stage_from_file h path of
                  Inl e \<Rightarrow> Some (Inl (NotRead e))
                | Inr s \<Rightarrow> Some (Inr s)))"
| "process_stage_entries k h ls path [] st = Some (Inr st)"
| "process_stage_entries k h ls path ((name, is_dir) # es) st =
     (if is_dir \<or> \<not> has_suffix name stage_file_ext then process_stage_entries k h ls path es st
      else (case process_stage_path k h ls (path_join path name) of
              None \<Rightarrow> None
            | Some (Inl e) \<Rightarrow> Some (Inl e)
            | Some (Inr s) \<Rightarrow> process_stage_entries k h ls path es (merge_with st s)))"

section \<open>The name of the run\<close>

text \<open>One step of the builder of the default name.\<close>

definition add_to_name :: "string \<Rightarrow> string \<Rightarrow> string" where
  "add_to_name b sid = (if 0 < length b then b @ ''_'' else b) @ sid"

definition run_name :: "string \<Rightarrow> string \<Rightarrow> string list \<Rightarrow> string" where
  "run_name name time ids =
     (if name = [] then foldl add_to_name [] ids @ ''_'' @ time else replace_all name ''%t'' time)"

section \<open>The command\<close>

record run_flags =
  flag_name :: string
  flag_comment :: string
  flag_seed :: int
  flag_skip :: int
  flag_output :: string
  influx_cfg :: string
  mysql_cfg :: string
  pulumi_cfg :: string

text \<open>The loop over the arguments: the main stage and the ids of the stages.\<close>

fun merge_args :: "nat \<Rightarrow> 'c host \<Rightarrow> (string \<Rightarrow> (string \<times> bool) list option) \<Rightarrow> string list \<Rightarrow> 'c stage \<Rightarrow> string list \<Rightarrow> (path_error + 'c stage \<times> string list) option" where
  "merge_args k h ls [] m ids = Some (Inr (m, ids))"
| "merge_args k h ls (p # ps) m ids =
     (case process_stage_path k h ls p of
        None \<Rightarrow> None
      | Some (Inl e) \<Rightarrow> Some (Inl e)
      | Some (Inr s) \<Rightarrow> merge_args k h ls ps (merge_with m s) (ids @ [stage_id s]))"

text \<open>
  The recorders that \<open>Run\<close> registers: the constructors may give nil. \<open>connect\<close> opens the database of a
  configuration file, \<open>influx\<close> and \<open>pulumi\<close> tell whether these configurations can be used;
  \<open>supported\<close> whether the program was built with InfluxDB.
\<close>

definition run_recorders ::
  "'w rec_host \<Rightarrow> bool \<Rightarrow> (string \<Rightarrow> bool) \<Rightarrow> (string \<Rightarrow> bool) \<Rightarrow> (string \<Rightarrow> bool) \<Rightarrow> run_flags \<Rightarrow> 'w rec_env
    \<Rightarrow> recorder list \<times> 'w rec_env" where
  "run_recorders rh supported influx connect pulumi f e =
     (let rs1 = register_recorder (Some (FileRecorder [])) [];
          inf = (if influx_cfg f = [] then None
                 else if \<not> supported then Some NotSupportedRecorder
                 else if influx (influx_cfg f) then Some (InfluxRecorder \<lparr>influx_failed = 0, influx_mismatch = 0\<rparr>) else None);
          rs2 = register_recorder inf rs1;
          (my, e1) = new_mysql_recorder rh (mysql_cfg f \<noteq> [] \<and> connect (mysql_cfg f)) e;
          rs3 = register_recorder (map_option MySqlRecorder my) rs2;
          (pu, e2) = (if pulumi_cfg f = [] \<or> my = None \<or> \<not> pulumi (pulumi_cfg f) then (None, e1)
                      else (case run_sql rh CreateClusters e1 of
                              (SqlError er, e') \<Rightarrow> (None, e')
                            | (SqlDone _ _, e') \<Rightarrow> (Some PulumiRecorder, e')))
      in (register_recorder pu rs3, e2))"

text \<open>
  \<open>Run\<close> up to the start of the main stage. \<open>host_of\<close> is \<open>url.Parse\<close>, \<open>home\<close> the home directory, \<open>time\<close>
  the current time and its text. The answer is the exit code of a failure, or what is run: the description of the run, \<open>RandSkip\<close> and the
  graph.
\<close>

definition run_command ::
  "nat \<Rightarrow> nat \<Rightarrow> nat \<Rightarrow> 'c host \<Rightarrow> (string \<Rightarrow> (string \<times> bool) list option) \<Rightarrow> (string \<Rightarrow> string option) \<Rightarrow> string option
    \<Rightarrow> int \<times> string \<Rightarrow> presto_flags \<Rightarrow> run_flags \<Rightarrow> string list \<Rightarrow> (int + run_info \<times> int \<times> string \<times> 'c stages) option" where
  "run_command k j l h ls host_of home time pf f args =
     (case host_of (server_url pf) of
        None \<Rightarrow> Some (Inl 1)
      | Some fqdn \<Rightarrow>
          (case merge_args k h ls args empty_stage [] of
             None \<Rightarrow> None
           | Some (Inl e) \<Rightarrow> Some (Inl 1)
           | Some (Inr (m, ids)) \<Rightarrow>
               (case parse_stage_graph j l h m of
                  None \<Rightarrow> None
                | Some (Inl e) \<Rightarrow> Some (Inl 1)
                | Some (Inr (sid, st)) \<Rightarrow>
                    Some (Inr
                      (\<lparr>info_name = run_name (flag_name f) (snd time) ids, info_comment = flag_comment f, info_fqdn = fqdn,
                        info_seed = flag_seed f, info_seed_used = False, info_start = fst time, info_finish = zero_time,
                        info_path = expand_home home (flag_output f), info_stage = sid\<rparr>, flag_skip f, sid, st)))))"

section \<open>Which files make up the main stage\<close>

text \<open>The stage files that an argument names: itself, or the files of a directory.\<close>

definition is_stage_entry :: "string \<times> bool \<Rightarrow> bool" where
  "is_stage_entry e \<longleftrightarrow> \<not> snd e \<and> has_suffix (fst e) stage_file_ext"

text \<open>A directory without links to directories among its stage files.\<close>

definition plain_entries :: "'c host \<Rightarrow> string \<Rightarrow> (string \<times> bool) list \<Rightarrow> bool" where
  "plain_entries h path es \<longleftrightarrow> (\<forall>e \<in> set es. is_stage_entry e \<longrightarrow> stat_dir h (path_join path (fst e)) = Some False)"

text \<open>Reading a list of stage files, up to the first that cannot be read.\<close>

fun read_stages :: "'c host \<Rightarrow> string list \<Rightarrow> path_error + 'c stage list" where
  "read_stages h [] = Inr []"
| "read_stages h (p # ps) =
     (if \<not> has_suffix p stage_file_ext then Inl (NotAStageFile p)
      else case read_stage_from_file h p of
             Inl e \<Rightarrow> Inl (NotRead e)
           | Inr s \<Rightarrow> (case read_stages h ps of Inl e \<Rightarrow> Inl e | Inr ss \<Rightarrow> Inr (s # ss)))"

lemma entries_merged:
  "plain_entries h path es \<Longrightarrow>
    process_stage_entries (Suc k) h ls path es st =
      (case read_stages h (map (\<lambda>e. path_join path (fst e)) (filter is_stage_entry es)) of
         Inl e \<Rightarrow> Some (Inl e)
       | Inr ss \<Rightarrow> Some (Inr (merge_all st ss)))"
proof (induction es arbitrary: st)
  case (Cons e es)
  obtain name d where e: "e = (name, d)" by (cases e)
  have plain: "plain_entries h path es"
    using Cons.prems by (simp add: plain_entries_def)
  show ?case
  proof (cases "is_stage_entry e")
    case False
    then show ?thesis using Cons.IH [OF plain] by (auto simp: e is_stage_entry_def)
  next
    case True
    then have "stat_dir h (path_join path name) = Some False"
      using Cons.prems by (simp add: plain_entries_def e)
    with True Cons.IH [OF plain] show ?thesis
      by (auto simp: e is_stage_entry_def merge_all_def split: sum.split)
  qed
qed (simp add: merge_all_def)

section \<open>A directory and its files\<close>

text \<open>Equal but for the two maps, in which a null in a later stage removes an entry.\<close>

definition same_but_maps :: "'c stage \<Rightarrow> 'c stage \<Rightarrow> bool" where
  "same_but_maps a b \<longleftrightarrow>
     a\<lparr>SessionParams := None, ExpectedRowCounts := None\<rparr> = b\<lparr>SessionParams := None, ExpectedRowCounts := None\<rparr>"

lemma same_but_maps_trans: "same_but_maps a b \<Longrightarrow> same_but_maps b c \<Longrightarrow> same_but_maps a c"
  by (simp add: same_but_maps_def)

lemma override_assoc: "override_with a (override_with b c) = override_with (override_with a b) c"
  by (cases c) simp_all

lemma merge_with_cong: "same_but_maps a b \<Longrightarrow> same_but_maps (merge_with a s) (merge_with b s)"
  by (cases a; cases b; cases s) (simp add: same_but_maps_def merge_with_def)

lemma merge_with_assoc: "same_but_maps (merge_with m (merge_with a b)) (merge_with (merge_with m a) b)"
  by (simp add: same_but_maps_def merge_with_def override_assoc)

lemma merge_with_empty: "same_but_maps (merge_with m (merge_with empty_stage a)) (merge_with m a)"
  by (simp add: same_but_maps_def merge_with_def empty_stage_def override_with_def split: option.split)

lemma merge_directory: "ss \<noteq> [] \<Longrightarrow> same_but_maps (merge_with m (merge_all empty_stage ss)) (merge_all m ss)"
proof (induction ss rule: rev_induct)
  case (snoc s ss)
  show ?case
  proof (cases "ss = []")
    case True
    then show ?thesis using merge_with_empty [of m s] by (simp add: merge_all_def)
  next
    case False
    have "same_but_maps (merge_with m (merge_with (merge_all empty_stage ss) s)) (merge_with (merge_with m (merge_all empty_stage ss)) s)"
      by (rule merge_with_assoc)
    moreover have "same_but_maps (merge_with (merge_with m (merge_all empty_stage ss)) s) (merge_with (merge_all m ss) s)"
      by (rule merge_with_cong [OF snoc.IH [OF False]])
    ultimately show ?thesis
      by (auto simp: merge_all_def intro: same_but_maps_trans)
  qed
qed simp

text \<open>What a main stage \<open>r\<close> is to be when the stages \<open>ss\<close> are merged into \<open>m\<close>: lists are joined in order,
  a setting has the last value that is set, and id, directory and \<open>start_on_new_client\<close> are those of the last stage.\<close>

definition fields_of_all :: "'c stage \<Rightarrow> 'c stage list \<Rightarrow> 'c stage \<Rightarrow> bool" where
  "fields_of_all m ss r \<longleftrightarrow>
     Queries r = Queries m @ concat (map Queries ss)
     \<and> QueryFiles r = QueryFiles m @ concat (map QueryFiles ss)
     \<and> NextStagePaths r = NextStagePaths m @ concat (map NextStagePaths ss)
     \<and> PreStageShellScripts r = PreStageShellScripts m @ concat (map PreStageShellScripts ss)
     \<and> PreQueryShellScripts r = PreQueryShellScripts m @ concat (map PreQueryShellScripts ss)
     \<and> PostQueryShellScripts r = PostQueryShellScripts m @ concat (map PostQueryShellScripts ss)
     \<and> PostStageShellScripts r = PostStageShellScripts m @ concat (map PostStageShellScripts ss)
     \<and> PreQueryCycleShellScripts r = PreQueryCycleShellScripts m @ concat (map PreQueryCycleShellScripts ss)
     \<and> PostQueryCycleShellScripts r = PostQueryCycleShellScripts m @ concat (map PostQueryCycleShellScripts ss)
     \<and> Catalog r = last_set (Catalog m # map Catalog ss)
     \<and> Schema r = last_set (Schema m # map Schema ss)
     \<and> TimeZone r = last_set (TimeZone m # map TimeZone ss)
     \<and> RandomExecution r = last_set (RandomExecution m # map RandomExecution ss)
     \<and> RandomlyExecuteUntil r = last_set (RandomlyExecuteUntil m # map RandomlyExecuteUntil ss)
     \<and> NoRandomDuplicates r = last_set (NoRandomDuplicates m # map NoRandomDuplicates ss)
     \<and> ColdRuns r = last_set (ColdRuns m # map ColdRuns ss)
     \<and> WarmRuns r = last_set (WarmRuns m # map WarmRuns ss)
     \<and> AbortOnError r = last_set (AbortOnError m # map AbortOnError ss)
     \<and> SaveOutput r = last_set (SaveOutput m # map SaveOutput ss)
     \<and> SaveColumnMetadata r = last_set (SaveColumnMetadata m # map SaveColumnMetadata ss)
     \<and> SaveJson r = last_set (SaveJson m # map SaveJson ss)
     \<and> StreamCount r = last_set (StreamCount m # map StreamCount ss)
     \<and> stage_id r = stage_id (last ss)
     \<and> StartOnNewClient r = StartOnNewClient (last ss)
     \<and> BaseDir r = BaseDir (last ss)"

lemma merge_all_last:
  assumes "\<And>s t. f (merge_with s t) = f t" and "ss \<noteq> []"
  shows "f (merge_all m ss) = f (last ss)"
  using assms(2) unfolding merge_all_def by (cases ss rule: rev_cases) (simp_all add: assms(1))

lemma fields_of_merge_all: "ss \<noteq> [] \<Longrightarrow> fields_of_all m ss (merge_all m ss)"
  unfolding fields_of_all_def
  by (intro conjI; (rule merge_all_list merge_all_override | erule merge_all_last [rotated]); simp add: merge_with_def)

lemma fields_of_all_cong: "same_but_maps a b \<Longrightarrow> fields_of_all m ss b \<Longrightarrow> fields_of_all m ss a"
  by (cases a; cases b) (simp add: same_but_maps_def fields_of_all_def)

text \<open>The two maps, key by key. A key that the files of the directory do not set to null has the same value;
  otherwise the value can be one that an earlier argument set and that the null would have removed.\<close>

definition session_at :: "'c stage \<Rightarrow> string \<Rightarrow> param option" where
  "session_at s k = map_of (entries (SessionParams s)) k"

definition rows_at :: "'c stage \<Rightarrow> string \<Rightarrow> int list option option" where
  "rows_at s k = map_of (entries (ExpectedRowCounts s)) k"

definition maps_ok :: "'c stage \<Rightarrow> bool" where
  "maps_ok s \<longleftrightarrow> distinct (map fst (entries (SessionParams s))) \<and> distinct (map fst (entries (ExpectedRowCounts s)))"

lemma via_directory:
  fixes v :: "'a \<Rightarrow> 'v option" and is_nil :: "'v \<Rightarrow> bool"
  defines "value \<equiv> \<lambda>old. foldl (\<lambda>acc x. merged_value is_nil acc (v x)) old"
  shows "(merged_value is_nil old (value None xs) = value old xs
      \<or> value old xs = None \<and> merged_value is_nil old (value None xs) = old)
    \<and> ((\<forall>x \<in> set xs. \<forall>w. v x = Some w \<longrightarrow> \<not> is_nil w) \<longrightarrow> merged_value is_nil old (value None xs) = value old xs)"
  unfolding value_def
  by (induction xs rule: rev_induct) (auto simp: merged_value_def split: option.splits if_splits)

lemma distinct_merge_fold:
  "distinct (map fst m) \<Longrightarrow> distinct (map fst (fold (merge_entry is_nil) kvs m))"
  by (induction kvs arbitrary: m) (simp_all add: merge_entry_def distinct_update distinct_delete)

lemma maps_ok_merge: "maps_ok s \<Longrightarrow> maps_ok (merge_with s t)"
  by (simp add: maps_ok_def merge_with_def merge_entries_def entries_def distinct_merge_fold split: option.splits)

lemma maps_ok_all: "maps_ok s \<Longrightarrow> maps_ok (merge_all s ss)"
  unfolding merge_all_def by (induction ss arbitrary: s) (simp_all add: maps_ok_merge)

lemma merge_with_at:
  assumes "maps_ok t"
  shows "session_at (merge_with s t) k = merged_value (\<lambda>v. v = PNull) (session_at s k) (session_at t k)"
    and "rows_at (merge_with s t) k = merged_value (\<lambda>v. v = None) (rows_at s k) (rows_at t k)"
  using assms by (simp_all add: session_at_def rows_at_def maps_ok_def merge_with_def map_of_merge_entries)

lemma merge_all_at:
  assumes "\<forall>t \<in> set ss. maps_ok t"
  shows "session_at (merge_all s ss) k = foldl (\<lambda>acc t. merged_value (\<lambda>v. v = PNull) acc (session_at t k)) (session_at s k) ss"
    and "rows_at (merge_all s ss) k = foldl (\<lambda>acc t. merged_value (\<lambda>v. v = None) acc (rows_at t k)) (rows_at s k) ss"
  using assms unfolding merge_all_def by (induction ss arbitrary: s) (simp_all add: merge_with_at)

text \<open>How the value of a key of the stage \<open>a\<close>, merged from a directory, relates to that of \<open>b\<close>, merged
  from the same stages one by one.\<close>

definition map_as_named :: "('v \<Rightarrow> bool) \<Rightarrow> ('c stage \<Rightarrow> 'v option) \<Rightarrow> 'c stage \<Rightarrow> 'c stage list \<Rightarrow> 'c stage \<Rightarrow> 'c stage \<Rightarrow> bool" where
  "map_as_named is_nil v m ss a b \<longleftrightarrow>
     v b = foldl (\<lambda>acc t. merged_value is_nil acc (v t)) (v m) ss
     \<and> (v a = v b \<or> v b = None \<and> v a = v m)
     \<and> ((\<forall>t \<in> set ss. \<forall>w. v t = Some w \<longrightarrow> \<not> is_nil w) \<longrightarrow> v a = v b \<and> v a = last_set (v m # map v ss))"

lemma no_nil_last:
  "\<forall>t \<in> set ss. \<forall>w. v t = Some w \<longrightarrow> \<not> is_nil w \<Longrightarrow>
    foldl (\<lambda>acc t. merged_value is_nil acc (v t)) old ss = last_set (old # map v ss)"
proof (induction ss arbitrary: old)
  case (Cons t ss)
  have "merged_value is_nil old (v t) = override_with old (v t)"
    using Cons.prems by (cases "v t") (simp_all add: merged_value_def)
  then show ?case
    using Cons.IH [of "override_with old (v t)"] Cons.prems unfolding list.map last_set_override [symmetric] by simp
qed simp

lemma map_as_named_fold:
  assumes "v b = foldl (\<lambda>acc t. merged_value is_nil acc (v t)) (v m) ss"
    and "v a = merged_value is_nil (v m) (foldl (\<lambda>acc t. merged_value is_nil acc (v t)) None ss)"
  shows "map_as_named is_nil v m ss a b"
  unfolding map_as_named_def assms
  using via_directory [of is_nil "v m" v ss] no_nil_last [of ss v is_nil "v m"] by metis

lemma map_as_named_last:
  "map_as_named is_nil v m ss a b \<Longrightarrow> \<forall>t \<in> set ss. \<forall>w. v t = Some w \<longrightarrow> \<not> is_nil w \<Longrightarrow> v a = last_set (v m # map v ss)"
  unfolding map_as_named_def by blast

lemma merge_directory_maps:
  fixes m :: "'a stage"
  assumes "\<forall>t \<in> set ss. maps_ok t"
  shows "map_as_named (\<lambda>v. v = PNull) (\<lambda>t. session_at t k) m ss (merge_with m (merge_all empty_stage ss)) (merge_all m ss)"
    and "map_as_named (\<lambda>v. v = None) (\<lambda>t. rows_at t k) m ss (merge_with m (merge_all empty_stage ss)) (merge_all m ss)"
proof -
  have empty: "maps_ok (empty_stage :: 'a stage)" "session_at (empty_stage :: 'a stage) k = None" "rows_at (empty_stage :: 'a stage) k = None"
    by (simp_all add: maps_ok_def session_at_def rows_at_def entries_def empty_stage_def)
  note at = merge_with_at [OF maps_ok_all [OF empty(1)]] merge_all_at [OF assms] empty(2,3)
  show "map_as_named (\<lambda>v. v = PNull) (\<lambda>t. session_at t k) m ss (merge_with m (merge_all empty_stage ss)) (merge_all m ss)"
    by (rule map_as_named_fold) (simp_all only: at)
  show "map_as_named (\<lambda>v. v = None) (\<lambda>t. rows_at t k) m ss (merge_with m (merge_all empty_stage ss)) (merge_all m ss)"
    by (rule map_as_named_fold) (simp_all only: at)
qed

text \<open>C38: A directory on the command line stands for its stage files in the order of their names: the
  main stage has the same fields as if they had been named one by one, with lists joined and settings overridden in
  this order. For every session parameter and every entry of the expected row counts that no file sets to null, the
  value is that of the last file that has the key, or else the one before. For a key that a file sets to null the value
  may differ in one way only: named one by one, the files remove the key, and the directory leaves the value
  of the arguments before it. An unreadable file is the same error.\<close>

theorem directory_as_files:
  assumes "stat_dir h path = Some True" and "ls path = Some es" and "plain_entries h path es"
  defines "files \<equiv> map (\<lambda>e. path_join path (fst e)) (filter is_stage_entry es)"
  shows "case read_stages h files of
      Inl e \<Rightarrow> process_stage_path (Suc (Suc k)) h ls path = Some (Inl e)
    | Inr ss \<Rightarrow> \<exists>s. process_stage_path (Suc (Suc k)) h ls path = Some (Inr s)
        \<and> (ss \<noteq> [] \<longrightarrow> fields_of_all m ss (merge_with m s) \<and> same_but_maps (merge_with m s) (merge_all m ss))
        \<and> ((\<forall>t \<in> set ss. maps_ok t) \<longrightarrow>
            (\<forall>x. map_as_named (\<lambda>v. v = PNull) (\<lambda>t. session_at t x) m ss (merge_with m s) (merge_all m ss))
          \<and> (\<forall>x. map_as_named (\<lambda>v. v = None) (\<lambda>t. rows_at t x) m ss (merge_with m s) (merge_all m ss)))"
proof -
  have "process_stage_path (Suc (Suc k)) h ls path = process_stage_entries (Suc k) h ls path es empty_stage"
    using assms(1,2) by (simp only: process_stage_path.simps option.case bool.case)
  also have "\<dots> = (case read_stages h files of Inl e \<Rightarrow> Some (Inl e) | Inr ss \<Rightarrow> Some (Inr (merge_all empty_stage ss)))"
    unfolding files_def by (rule entries_merged [OF assms(3)])
  finally have p: "process_stage_path (Suc (Suc k)) h ls path
      = (case read_stages h files of Inl e \<Rightarrow> Some (Inl e) | Inr ss \<Rightarrow> Some (Inr (merge_all empty_stage ss)))" .
  show ?thesis
  proof (cases "read_stages h files")
    case (Inl e)
    with p show ?thesis by (simp only: sum.case)
  next
    case (Inr ss)
    have fields: "fields_of_all m ss (merge_with m (merge_all empty_stage ss))
        \<and> same_but_maps (merge_with m (merge_all empty_stage ss)) (merge_all m ss)" if "ss \<noteq> []"
      using fields_of_all_cong [OF merge_directory [OF that] fields_of_merge_all [OF that]] merge_directory [OF that] by blast
    show ?thesis
      unfolding p Inr sum.case
      by (rule exI [of _ "merge_all empty_stage ss"], rule conjI [OF refl], rule conjI, rule impI, erule fields,
        rule impI, rule conjI; rule allI; erule merge_directory_maps)
  qed
qed

text \<open>The difference: merged into an empty stage first, a null has nothing to remove, and what an
  earlier argument set stays.\<close>

lemma directory_null_is_lost:
  assumes "s = empty_stage\<lparr>SessionParams := Some [(''x'', PNull)]\<rparr>"
    and "m = empty_stage\<lparr>SessionParams := Some [(''x'', PVal ''1'')]\<rparr>"
  shows "SessionParams (merge_with m (merge_all empty_stage [s])) = Some [(''x'', PVal ''1'')]"
    and "SessionParams (merge_all m [s]) = Some []"
  by (simp_all add: assms merge_all_def merge_with_def merge_entries_def merge_entry_def entries_def empty_stage_def)

text \<open>A directory without stage files is an empty stage: merging it in takes away the id and the
  directory of the stages before it.\<close>

lemma empty_directory_resets:
  assumes "stat_dir h path = Some True" and "ls path = Some es" and "filter is_stage_entry es = []" and "plain_entries h path es"
  shows "\<exists>s. process_stage_path (Suc (Suc k)) h ls path = Some (Inr s)
    \<and> stage_id (merge_with m s) = [] \<and> BaseDir (merge_with m s) = []"
  using assms entries_merged [OF assms(4), of k ls empty_stage]
  by (simp add: merge_all_def merge_with_def empty_stage_def del: process_stage_entries.simps)

section \<open>Example\<close>

definition demo_entries :: "(string \<times> bool) list" where
  "demo_entries = [(''a.json'', False), (''d.json'', False), (''notes.txt'', False), (''sub'', True)]"

definition demo_dir :: "string \<Rightarrow> (string \<times> bool) list option" where
  "demo_dir p = (if p = ''/w'' then Some demo_entries else None)"

definition dir_host :: "unit host" where
  "dir_host = demo_host\<lparr>stat_dir := (stat_dir demo_host)(''/w'' := Some True)\<rparr>"

text \<open>The file \<open>a.json\<close> also has a session parameter and expected row counts.\<close>

definition maps_host :: "unit host" where
  "maps_host = dir_host\<lparr>decode := (\<lambda>bytes s. map_option (\<lambda>t. if bytes = ''/w/a.json''
     then t\<lparr>SessionParams := Some [(''x'', PVal ''1'')], ExpectedRowCounts := Some [(''s'', Some [3])]\<rparr> else t) (decode dir_host bytes s))\<rparr>"

theorem directory_as_files_witness:
  "\<exists>s. process_stage_path (Suc (Suc 0)) maps_host demo_dir ''/w'' = Some (Inr s)
    \<and> NextStagePaths (merge_with empty_stage s) = [''b.json'', ''c.json'']
    \<and> session_at (merge_with empty_stage s) ''x'' = Some (PVal ''1'') \<and> rows_at (merge_with empty_stage s) ''s'' = Some (Some [3])"
proof -
  let ?ss = "[empty_stage\<lparr>stage_id := ''a'', BaseDir := ''/w'', NextStagePaths := [''b.json'', ''c.json''],
        SessionParams := Some [(''x'', PVal ''1'')], ExpectedRowCounts := Some [(''s'', Some [3])]\<rparr>,
      empty_stage\<lparr>stage_id := ''d'', BaseDir := ''/w''\<rparr>] :: unit stage list"
  have plain: "plain_entries maps_host ''/w'' demo_entries"
    by code_simp
  have files: "read_stages maps_host (map (\<lambda>e. path_join ''/w'' (fst e)) (filter is_stage_entry demo_entries)) = Inr ?ss"
    by code_simp
  have dir: "stat_dir maps_host ''/w'' = Some True" by (simp add: maps_host_def dir_host_def)
  have listed: "demo_dir ''/w'' = Some demo_entries" by (simp add: demo_dir_def)
  have ok: "\<forall>t \<in> set ?ss. maps_ok t" "?ss \<noteq> []"
    by (simp_all add: maps_ok_def entries_def empty_stage_def)
  obtain s where s: "process_stage_path (Suc (Suc 0)) maps_host demo_dir ''/w'' = Some (Inr s)"
    and f: "?ss \<noteq> [] \<longrightarrow> fields_of_all empty_stage ?ss (merge_with empty_stage s)
        \<and> same_but_maps (merge_with empty_stage s) (merge_all empty_stage ?ss)"
    and n: "(\<forall>t \<in> set ?ss. maps_ok t) \<longrightarrow>
        (\<forall>x. map_as_named (\<lambda>v. v = PNull) (\<lambda>t. session_at t x) empty_stage ?ss (merge_with empty_stage s) (merge_all empty_stage ?ss))
      \<and> (\<forall>x. map_as_named (\<lambda>v. v = None) (\<lambda>t. rows_at t x) empty_stage ?ss (merge_with empty_stage s) (merge_all empty_stage ?ss))"
    using directory_as_files [where k = 0 and m = empty_stage and ls = demo_dir, OF dir listed plain]
    unfolding files sum.case by (elim exE conjE) (rule that)
  from f ok(2) have "NextStagePaths (merge_with empty_stage s) = [''b.json'', ''c.json'']"
    by (simp add: fields_of_all_def empty_stage_def)
  moreover have "session_at (merge_with empty_stage s) ''x'' = Some (PVal ''1'')"
    using map_as_named_last [OF mp [OF n ok(1), THEN conjunct1, THEN spec, of "''x''"]]
    by (simp add: session_at_def entries_def empty_stage_def)
  moreover have "rows_at (merge_with empty_stage s) ''s'' = Some (Some [3])"
    using map_as_named_last [OF mp [OF n ok(1), THEN conjunct2, THEN spec, of "''s''"]]
    by (simp add: rows_at_def entries_def empty_stage_def)
  ultimately show ?thesis using s by blast
qed

end
