(* ===== verification/CmpDirs.thy ===== *)
theory CmpDirs
  imports Utils
begin

text \<open>
  The command \<open>cmp\<close>, \<open>cmd/cmp/main.go\<close>: the result files of two directories are paired by an id that a
  regular expression extracts from their names, and \<open>diff\<close> compares each pair.
\<close>

section \<open>The files of a directory by id\<close>

text \<open>\<open>rx\<close> is \<open>FindStringSubmatch\<close> of the compiled expression: empty without a match, otherwise the
  match and its groups. \<open>match[1]\<close> panics when the expression has no group.\<close>

datatype file_id = NoId | NoGroup | FileId string

definition file_id :: "(string \<Rightarrow> string list) \<Rightarrow> string \<Rightarrow> file_id" where
  "file_id rx name = (case rx name of [] \<Rightarrow> NoId | [_] \<Rightarrow> NoGroup | _ # g # _ \<Rightarrow> FileId g)"

text \<open>The ends of the program other than a return: a fatal error, whose exit code is 1, and a panic.\<close>

datatype cmp_stop = CmpFatal | CmpPanic

fun add_file_ids :: "(string \<Rightarrow> string list) \<Rightarrow> string \<Rightarrow> (string \<times> bool) list \<Rightarrow> (string \<rightharpoonup> string) \<Rightarrow> cmp_stop + (string \<rightharpoonup> string)" where
  "add_file_ids rx path [] m = Inr m"
| "add_file_ids rx path ((name, is_dir) # es) m =
     (if is_dir then add_file_ids rx path es m
      else (case file_id rx name of
              NoId \<Rightarrow> add_file_ids rx path es m
            | NoGroup \<Rightarrow> Inl CmpPanic
            | FileId i \<Rightarrow> add_file_ids rx path es (m(i \<mapsto> path_join path name))))"

text \<open>\<open>buildFileIdMap\<close>; the caller stops with a fatal error when the directory cannot be read.\<close>

definition build_file_id_map :: "(string \<Rightarrow> string list) \<Rightarrow> (string \<Rightarrow> (string \<times> bool) list option) \<Rightarrow> string \<Rightarrow> cmp_stop + (string \<rightharpoonup> string)" where
  "build_file_id_map rx ls path =
     (case ls path of None \<Rightarrow> Inl CmpFatal | Some es \<Rightarrow> add_file_ids rx path es Map.empty)"

section \<open>Comparison\<close>

text \<open>\<open>run_diff\<close> is the command \<open>diff -u\<close>: its exit code (\<open>-1\<close> when it could not be run) and its output.
  \<open>generateDiff\<close>: \<open>None\<close> is an error.\<close>

definition generate_diff :: "(string \<Rightarrow> string \<Rightarrow> int \<times> string) \<Rightarrow> string \<Rightarrow> string \<Rightarrow> string option" where
  "generate_diff run_diff a b = (let (code, output) = run_diff a b in if code = 0 \<or> code = 1 then Some output else None)"

record cmp_host =
  list_files :: "string \<Rightarrow> (string \<times> bool) list option"
  diff_files :: "string \<Rightarrow> string \<Rightarrow> int \<times> string"
  can_write :: "string \<Rightarrow> bool"

record cmp_state =
  file_ids :: "string \<rightharpoonup> string"
  matched :: nat
  compared :: nat
  diff_written :: nat
  error_files :: nat
  diff_out :: "(string \<times> string) list"

text \<open>The body of the loop over the probe side, for an entry that has an id.\<close>

definition compare_entry :: "cmp_host \<Rightarrow> string \<Rightarrow> string \<Rightarrow> string \<Rightarrow> string \<Rightarrow> cmp_state \<Rightarrow> cmp_state" where
  "compare_entry h out path name i s =
     (case file_ids s i of
        None \<Rightarrow> s
      | Some build \<Rightarrow>
          (let s1 = s\<lparr>matched := matched s + 1\<rparr> in
           case generate_diff (diff_files h) build (path_join path name) of
             None \<Rightarrow> s1\<lparr>error_files := error_files s1 + 1\<rparr>
           | Some diffs \<Rightarrow>
               (let s2 = s1\<lparr>compared := compared s1 + 1\<rparr>; file = path_join out (i @ ''.diff'') in
                if 0 < length diffs \<and> \<not> can_write h file then s2
                else (let s3 = (if 0 < length diffs
                                then s2\<lparr>diff_written := diff_written s2 + 1, diff_out := diff_out s2 @ [(file, diffs)]\<rparr> else s2)
                      in s3\<lparr>file_ids := (file_ids s3)(i := None)\<rparr>))))"

fun compare_entries :: "cmp_host \<Rightarrow> (string \<Rightarrow> string list) \<Rightarrow> string \<Rightarrow> string \<Rightarrow> (string \<times> bool) list \<Rightarrow> cmp_state \<Rightarrow> cmp_stop + cmp_state" where
  "compare_entries h rx out path [] s = Inr s"
| "compare_entries h rx out path ((name, is_dir) # es) s =
     (if is_dir then compare_entries h rx out path es s
      else (case file_id rx name of
              NoId \<Rightarrow> compare_entries h rx out path es s
            | NoGroup \<Rightarrow> Inl CmpPanic
            | FileId i \<Rightarrow> compare_entries h rx out path es (compare_entry h out path name i s)))"

text \<open>\<open>compareRun\<close>, with the final state for the exit code. \<open>rx\<close> is \<open>None\<close> when the expression does not
  compile, \<open>out_dir\<close> tells what \<open>stat\<close> says of the output directory and whether it can be made.\<close>

definition compare_run ::
  "cmp_host \<Rightarrow> (string \<Rightarrow> string list) option \<Rightarrow> string option \<Rightarrow> path_status \<times> bool \<Rightarrow> string \<Rightarrow> string \<Rightarrow> string
    \<Rightarrow> cmp_stop + int \<times> cmp_state" where
  "compare_run h rx home out_dir out build probe =
     (case rx of
        None \<Rightarrow> Inl CmpFatal
      | Some f \<Rightarrow>
          (case build_file_id_map f (list_files h) (expand_home home build) of
             Inl e \<Rightarrow> Inl e
           | Inr m \<Rightarrow>
               if \<not> prepare_output_directory (fst out_dir) (snd out_dir) then Inl CmpFatal
               else (case list_files h (expand_home home probe) of
                       None \<Rightarrow> Inl CmpFatal
                     | Some es \<Rightarrow>
                         (case compare_entries h f (expand_home home out) (expand_home home probe) es
                                 \<lparr>file_ids = m, matched = 0, compared = 0, diff_written = 0, error_files = 0, diff_out = []\<rparr> of
                            Inl e \<Rightarrow> Inl e
                          | Inr s \<Rightarrow> Inr (if 0 < error_files s \<or> 0 < diff_written s then 1 else 0, s)))))"

section \<open>What is compared\<close>

text \<open>The files of a listing that have an id, in order.\<close>

definition with_ids :: "(string \<Rightarrow> string list) \<Rightarrow> (string \<times> bool) list \<Rightarrow> (string \<times> string) list" where
  "with_ids rx es =
     concat (map (\<lambda>(name, d). if d then [] else case file_id rx name of FileId i \<Rightarrow> [(i, name)] | _ \<Rightarrow> []) es)"

definition has_groups :: "(string \<Rightarrow> string list) \<Rightarrow> (string \<times> bool) list \<Rightarrow> bool" where
  "has_groups rx es \<longleftrightarrow> (\<forall>(name, d) \<in> set es. \<not> d \<longrightarrow> file_id rx name \<noteq> NoGroup)"

lemma with_ids_simps [simp]:
  "with_ids rx [] = []"
  "with_ids rx ((name, d) # es) =
     (if d then [] else case file_id rx name of FileId i \<Rightarrow> [(i, name)] | _ \<Rightarrow> []) @ with_ids rx es"
  by (simp_all add: with_ids_def)

lemma has_groups_simps [simp]:
  "has_groups rx []"
  "has_groups rx ((name, d) # es) \<longleftrightarrow> (\<not> d \<longrightarrow> file_id rx name \<noteq> NoGroup) \<and> has_groups rx es"
  by (auto simp: has_groups_def)

text \<open>The later of two build files with the same id is taken.\<close>

lemma add_file_ids_map:
  "has_groups rx es \<Longrightarrow>
    add_file_ids rx path es m = Inr (m ++ map_of (rev (map (\<lambda>(i, name). (i, path_join path name)) (with_ids rx es))))"
  by (induction rx path es m rule: add_file_ids.induct) (auto simp: map_add_assoc split: file_id.split)

lemma add_file_ids_no_group: "\<not> has_groups rx es \<Longrightarrow> add_file_ids rx path es m = Inl CmpPanic"
  by (induction rx path es m rule: add_file_ids.induct) (auto split: file_id.split)

lemma compare_entries_fold:
  "has_groups rx es \<Longrightarrow>
    compare_entries h rx out path es s = Inr (fold (\<lambda>(i, name). compare_entry h out path name i) (with_ids rx es) s)"
  by (induction h rx out path es s rule: compare_entries.induct) (auto split: file_id.split)

text \<open>What became of a pair: the paths, and the differences.\<close>

definition pair_diff :: "cmp_host \<Rightarrow> (string \<rightharpoonup> string) \<Rightarrow> string \<Rightarrow> string \<times> string \<Rightarrow> string option option" where
  "pair_diff h m path e =
     (case m (fst e) of None \<Rightarrow> None | Some build \<Rightarrow> Some (generate_diff (diff_files h) build (path_join path (snd e))))"

definition diff_file :: "cmp_host \<Rightarrow> (string \<rightharpoonup> string) \<Rightarrow> string \<Rightarrow> string \<Rightarrow> string \<times> string \<Rightarrow> (string \<times> string) list" where
  "diff_file h m out path e =
     (case pair_diff h m path e of
        Some (Some d) \<Rightarrow> if d \<noteq> [] \<and> can_write h (path_join out (fst e @ ''.diff'')) then [(path_join out (fst e @ ''.diff''), d)] else []
      | _ \<Rightarrow> [])"

lemma compare_entry_counts:
  "matched (compare_entry h out path name i s) = matched s + (if pair_diff h (file_ids s) path (i, name) \<noteq> None then 1 else 0)"
  "error_files (compare_entry h out path name i s) = error_files s + (if pair_diff h (file_ids s) path (i, name) = Some None then 1 else 0)"
  "compared (compare_entry h out path name i s)
     = compared s + (if pair_diff h (file_ids s) path (i, name) \<notin> {None, Some None} then 1 else 0)"
  "diff_out (compare_entry h out path name i s) = diff_out s @ diff_file h (file_ids s) out path (i, name)"
  "diff_written (compare_entry h out path name i s) = diff_written s + length (diff_file h (file_ids s) out path (i, name))"
  by (auto simp: compare_entry_def pair_diff_def diff_file_def Let_def split: option.splits)

lemma compare_entry_other: "j \<noteq> i \<Longrightarrow> file_ids (compare_entry h out path name i s) j = file_ids s j"
  by (auto simp: compare_entry_def Let_def split: option.splits)

lemma pair_diff_cong: "m (fst e) = m' (fst e) \<Longrightarrow> pair_diff h m path e = pair_diff h m' path e"
  by (simp add: pair_diff_def)

text \<open>With distinct ids on the probe side the counters count the pairs.\<close>

lemma compare_fold:
  assumes "distinct (map fst es)" and "\<forall>e \<in> set es. file_ids s (fst e) = m (fst e)"
  shows "let s' = fold (\<lambda>(i, name). compare_entry h out path name i) es s in
    matched s' = matched s + count_of (\<lambda>e. pair_diff h m path e \<noteq> None) es
    \<and> error_files s' = error_files s + count_of (\<lambda>e. pair_diff h m path e = Some None) es
    \<and> compared s' = compared s + count_of (\<lambda>e. pair_diff h m path e \<notin> {None, Some None}) es
    \<and> diff_out s' = diff_out s @ concat (map (diff_file h m out path) es)
    \<and> diff_written s' = diff_written s + length (concat (map (diff_file h m out path) es))"
  using assms
proof (induction es arbitrary: s)
  case (Cons e es)
  obtain i name where e: "e = (i, name)" by (cases e)
  let ?s = "compare_entry h out path name i s"
  have "file_ids ?s (fst e') = m (fst e')" if "e' \<in> set es" for e'
  proof -
    have "fst e' \<noteq> i" using that Cons.prems(1) by (auto simp: e)
    then show ?thesis using that Cons.prems(2) by (simp add: compare_entry_other)
  qed
  then have "\<forall>e \<in> set es. file_ids ?s (fst e) = m (fst e)" by blast
  with Cons.IH [of ?s] Cons.prems(1)
  have ih: "let s' = fold (\<lambda>(i, name). compare_entry h out path name i) es ?s in
    matched s' = matched ?s + count_of (\<lambda>e. pair_diff h m path e \<noteq> None) es
    \<and> error_files s' = error_files ?s + count_of (\<lambda>e. pair_diff h m path e = Some None) es
    \<and> compared s' = compared ?s + count_of (\<lambda>e. pair_diff h m path e \<notin> {None, Some None}) es
    \<and> diff_out s' = diff_out ?s @ concat (map (diff_file h m out path) es)
    \<and> diff_written s' = diff_written ?s + length (concat (map (diff_file h m out path) es))" by simp
  have p: "pair_diff h (file_ids s) path (i, name) = pair_diff h m path (i, name)"
    using Cons.prems(2) by (intro pair_diff_cong) (auto simp: e)
  then have d: "diff_file h (file_ids s) out path (i, name) = diff_file h m out path (i, name)"
    by (simp add: diff_file_def)
  show ?case
    using ih unfolding Let_def compare_entry_counts p d e by simp
qed simp

text \<open>The pairs by the listings of both sides.\<close>

definition build_map :: "(string \<Rightarrow> string list) \<Rightarrow> string \<Rightarrow> (string \<times> bool) list \<Rightarrow> string \<rightharpoonup> string" where
  "build_map rx path es = map_of (rev (map (\<lambda>(i, name). (i, path_join path name)) (with_ids rx es)))"

lemma compare_run_eq:
  fixes out :: string
  assumes "list_files h (expand_home home build) = Some bs" and "list_files h (expand_home home probe) = Some ps"
    and "has_groups rx bs" and "has_groups rx ps" and "prepare_output_directory (fst out_dir) (snd out_dir)"
  defines "s' \<equiv> fold (\<lambda>(i, name). compare_entry h (expand_home home out) (expand_home home probe) name i) (with_ids rx ps)
      \<lparr>file_ids = build_map rx (expand_home home build) bs, matched = 0, compared = 0, diff_written = 0, error_files = 0, diff_out = []\<rparr>"
  shows "compare_run h (Some rx) home out_dir out build probe = Inr (if 0 < error_files s' \<or> 0 < diff_written s' then 1 else 0, s')"
  using assms(1-5)
  by (simp add: compare_run_def build_file_id_map_def add_file_ids_map compare_entries_fold s'_def build_map_def)

text \<open>C39: The exit code of a comparison: the pairs are the files of the two directories with the same
  id. A difference file is written for every pair that differs, and the exit code is 0 exactly if no
  comparison failed and no difference was written; when the output directory can be written, that is
  if \<open>diff\<close> finds no difference in any pair.\<close>

theorem compare_run_result:
  assumes "list_files h (expand_home home build) = Some bs" and "list_files h (expand_home home probe) = Some ps"
    and "has_groups rx bs" and "has_groups rx ps" and "prepare_output_directory (fst out_dir) (snd out_dir)"
    and "distinct (map fst (with_ids rx ps))"
  defines "m \<equiv> build_map rx (expand_home home build) bs"
  shows "\<exists>code s. compare_run h (Some rx) home out_dir out build probe = Inr (code, s)
    \<and> diff_out s = concat (map (diff_file h m (expand_home home out) (expand_home home probe)) (with_ids rx ps))
    \<and> matched s = count_of (\<lambda>e. m (fst e) \<noteq> None) (with_ids rx ps)
    \<and> matched s = compared s + error_files s
    \<and> code = (if error_files s = 0 \<and> diff_out s = [] then 0 else 1)
    \<and> ((\<forall>f. can_write h f) \<longrightarrow>
        (code = 0 \<longleftrightarrow> (\<forall>e \<in> set (with_ids rx ps). pair_diff h m (expand_home home probe) e \<in> {None, Some (Some [])})))"
proof -
  let ?p = "expand_home home probe"
  let ?init = "\<lparr>file_ids = m, matched = 0, compared = 0, diff_written = 0, error_files = 0, diff_out = []\<rparr>"
  let ?s = "fold (\<lambda>(i, name). compare_entry h (expand_home home out) ?p name i) (with_ids rx ps) ?init"
  have run: "compare_run h (Some rx) home out_dir out build probe = Inr (if 0 < error_files ?s \<or> 0 < diff_written ?s then 1 else 0, ?s)"
    unfolding m_def by (rule compare_run_eq [OF assms(1-5)])
  have counts: "matched ?s = count_of (\<lambda>e. pair_diff h m ?p e \<noteq> None) (with_ids rx ps)"
    "error_files ?s = count_of (\<lambda>e. pair_diff h m ?p e = Some None) (with_ids rx ps)"
    "compared ?s = count_of (\<lambda>e. pair_diff h m ?p e \<notin> {None, Some None}) (with_ids rx ps)"
    "diff_out ?s = concat (map (diff_file h m (expand_home home out) ?p) (with_ids rx ps))"
    using compare_fold [OF assms(6), of ?init m h "expand_home home out" ?p] by (simp_all add: Let_def)
  have written: "diff_written ?s = length (diff_out ?s)"
    unfolding counts(4) using compare_fold [OF assms(6), of ?init m h "expand_home home out" ?p] by (simp add: Let_def)
  have some: "pair_diff h m ?p e \<noteq> None \<longleftrightarrow> m (fst e) \<noteq> None" for e
    by (auto simp: pair_diff_def split: option.split)
  have sum: "count_of (\<lambda>e. f e \<noteq> None) es = count_of (\<lambda>e. f e \<notin> {None, Some None}) es + count_of (\<lambda>e. f e = Some None) es"
    for f :: "string \<times> string \<Rightarrow> string option option" and es by (induction es) auto
  have files: "diff_out ?s = [] \<longleftrightarrow> (\<forall>e \<in> set (with_ids rx ps). \<forall>d. pair_diff h m ?p e = Some (Some d) \<longrightarrow> d = [])"
    if "\<forall>f. can_write h f"
    using that unfolding counts by (auto simp: diff_file_def split: option.splits if_splits)
  have none: "error_files ?s = 0 \<longleftrightarrow> (\<forall>e \<in> set (with_ids rx ps). pair_diff h m ?p e \<noteq> Some None)"
    unfolding counts(2) by (simp add: count_of_0)
  have same: "(\<forall>e \<in> A. f e \<noteq> Some None) \<and> (\<forall>e \<in> A. \<forall>d. f e = Some (Some d) \<longrightarrow> d = []) \<longleftrightarrow> (\<forall>e \<in> A. f e \<in> {None, Some (Some [])})"
    for A and f :: "string \<times> string \<Rightarrow> string option option" by (auto, metis option.exhaust)
  have total: "matched ?s = compared ?s + error_files ?s" unfolding counts(1-3) by (rule sum)
  have found: "matched ?s = count_of (\<lambda>e. m (fst e) \<noteq> None) (with_ids rx ps)" unfolding counts(1) some ..
  have code: "(0 < error_files ?s \<or> 0 < diff_written ?s) = (\<not> (error_files ?s = 0 \<and> diff_out ?s = []))"
    unfolding written by simp
  have equal: "error_files ?s = 0 \<and> diff_out ?s = [] \<longleftrightarrow> (\<forall>e \<in> set (with_ids rx ps). pair_diff h m ?p e \<in> {None, Some (Some [])})"
    if "\<forall>f. can_write h f"
    unfolding files [OF that] none by (rule same)
  show ?thesis
    by (rule exI, rule exI [of _ ?s], rule conjI [OF run], rule conjI [OF counts(4)], rule conjI [OF found], rule conjI [OF total])
      (use equal in \<open>simp only: code, simp\<close>)
qed

text \<open>A difference that cannot be written is only logged: the exit code says that the directories are
  the same.\<close>

lemma unwritten_diff_unnoticed:
  assumes "list_files h (expand_home home build) = Some bs" and "list_files h (expand_home home probe) = Some ps"
    and "has_groups rx bs" and "has_groups rx ps" and "prepare_output_directory (fst out_dir) (snd out_dir)"
    and "\<forall>f. \<not> can_write h f" and "\<forall>a b. fst (diff_files h a b) \<in> {0, 1}"
  shows "\<exists>s. compare_run h (Some rx) home out_dir out build probe = Inr (0, s)"
proof -
  have ok: "generate_diff (diff_files h) a b \<noteq> None" for a b
    using assms(7) [rule_format, of a b] by (auto simp: generate_diff_def split_def)
  have "error_files (fold (\<lambda>(i, name). compare_entry h (expand_home home out) p name i) es s) = error_files s
      \<and> diff_written (fold (\<lambda>(i, name). compare_entry h (expand_home home out) p name i) es s) = diff_written s" for p es s
    using assms(6) ok
    by (induction es arbitrary: s) (auto simp: compare_entry_counts diff_file_def pair_diff_def split: option.splits)
  then show ?thesis using compare_run_eq [OF assms(1-5)] by simp
qed

section \<open>Example\<close>

text \<open>The expression \<open>(.*)\.csv\<close>; two files differ, one is the same, one is missing on the probe side.\<close>

definition demo_rx :: "string \<Rightarrow> string list" where
  "demo_rx name = (if has_suffix name ''.csv'' then [name, trim_suffix name ''.csv''] else [])"

definition demo_cmp :: cmp_host where
  "demo_cmp = \<lparr>list_files = (\<lambda>p. if p = ''b'' then Some [(''q1.csv'', False), (''q2.csv'', False), (''q3.csv'', False)]
        else if p = ''p'' then Some [(''log'', False), (''q1.csv'', False), (''q2.csv'', False), (''sub.csv'', True)] else None),
     diff_files = (\<lambda>a b. if b = ''p/q1.csv'' then (1, ''-1 +2'') else (0, [])), can_write = (\<lambda>_. True)\<rparr>"

theorem compare_run_result_witness:
  "\<exists>s. compare_run demo_cmp (Some demo_rx) None (IsDirectory, False) ''o'' ''b'' ''p'' = Inr (1, s)
    \<and> diff_out s = [(''o/q1.diff'', ''-1 +2'')] \<and> matched s = 2"
proof -
  have b: "list_files demo_cmp (expand_home None ''b'') = Some [(''q1.csv'', False), (''q2.csv'', False), (''q3.csv'', False)]"
    and p: "list_files demo_cmp (expand_home None ''p'') = Some [(''log'', False), (''q1.csv'', False), (''q2.csv'', False), (''sub.csv'', True)]"
    by code_simp+
  have g: "has_groups demo_rx [(''q1.csv'', False), (''q2.csv'', False), (''q3.csv'', False)]"
    "has_groups demo_rx [(''log'', False), (''q1.csv'', False), (''q2.csv'', False), (''sub.csv'', True)]"
    by code_simp+
  have o: "prepare_output_directory (fst (IsDirectory, False)) (snd (IsDirectory, False))"
    by (simp add: prepare_output_directory_def)
  have d: "distinct (map fst (with_ids demo_rx [(''log'', False), (''q1.csv'', False), (''q2.csv'', False), (''sub.csv'', True)]))"
    by code_simp
  have out: "concat (map (diff_file demo_cmp
      (build_map demo_rx (expand_home None ''b'') [(''q1.csv'', False), (''q2.csv'', False), (''q3.csv'', False)])
      (expand_home None ''o'') (expand_home None ''p''))
      (with_ids demo_rx [(''log'', False), (''q1.csv'', False), (''q2.csv'', False), (''sub.csv'', True)])) = [(''o/q1.diff'', ''-1 +2'')]"
    and n: "count_of (\<lambda>e. build_map demo_rx (expand_home None ''b'') [(''q1.csv'', False), (''q2.csv'', False), (''q3.csv'', False)] (fst e) \<noteq> None)
      (with_ids demo_rx [(''log'', False), (''q1.csv'', False), (''q2.csv'', False), (''sub.csv'', True)]) = 2"
    by code_simp+
  obtain code s where "compare_run demo_cmp (Some demo_rx) None (IsDirectory, False) ''o'' ''b'' ''p'' = Inr (code, s)"
    "diff_out s = [(''o/q1.diff'', ''-1 +2'')]" "matched s = 2" "code = (if error_files s = 0 \<and> diff_out s = [] then 0 else 1)"
    using compare_run_result [OF b p g o d, of "''o''"] unfolding out n by blast
  then show ?thesis by simp
qed

end
