(* ===== verification/TaskPool.thy ===== *)
theory TaskPool
  imports GoBase "HOL-Library.Multiset"
begin

text \<open>
  The pool of goroutines that \<open>loadjson\<close>, \<open>save\<close> and \<open>replay\<close> share. A scheduler starts the tasks
  in order: for each it sends into the buffered channel \<open>parallelismGuard\<close>, adds one to the wait group
  \<open>runningTasks\<close> and starts a goroutine. When a goroutine has done its work it first receives from
  the channel, and then takes one from the wait group. After the last task the scheduler waits for
  the group and closes a channel, on which the main goroutine waits.

  The work of a task is a list of atomic effects on what the tasks share. The locale \<open>task_pool\<close> is the
  contract of the effects: seen through an abstraction their order does not matter. It is interpreted
  in the theories of the three commands.
\<close>

section \<open>Steps\<close>

record ('t, 'e, 's) pool =
  unscheduled :: "'t list"
  started :: "'t list"
  working :: "'e list list"
  leaving :: nat
  guard :: nat
  wait_group :: nat
  closed :: bool
  shared :: 's

definition pool_start :: "'s \<Rightarrow> 't list \<Rightarrow> ('t, 'e, 's) pool" where
  "pool_start s ts = \<lparr>unscheduled = ts, started = [], working = [], leaving = 0, guard = 0, wait_group = 0, closed = False, shared = s\<rparr>"

text \<open>\<open>stop\<close> is the scheduler seeing the cancelled context, \<open>work\<close> an effect of a goroutine, \<open>release\<close>
  the receive from the channel at its end.\<close>

inductive pool_step :: "nat \<Rightarrow> ('t \<Rightarrow> 'e list) \<Rightarrow> ('e \<Rightarrow> 's \<Rightarrow> 's) \<Rightarrow> ('t, 'e, 's) pool \<Rightarrow> ('t, 'e, 's) pool \<Rightarrow> bool"
  for cap :: nat and body :: "'t \<Rightarrow> 'e list" and eff :: "'e \<Rightarrow> 's \<Rightarrow> 's" where
  spawn: "\<lbrakk>unscheduled p = t # ts; guard p < cap\<rbrakk> \<Longrightarrow>
    pool_step cap body eff p
      (p\<lparr>unscheduled := ts, started := started p @ [t], working := working p @ [body t], guard := guard p + 1, wait_group := wait_group p + 1\<rparr>)"
| stop: "unscheduled p \<noteq> [] \<Longrightarrow> pool_step cap body eff p (p\<lparr>unscheduled := []\<rparr>)"
| work: "\<lbrakk>i < length (working p); working p ! i = e # es\<rbrakk> \<Longrightarrow>
    pool_step cap body eff p (p\<lparr>working := (working p)[i := es], shared := eff e (shared p)\<rparr>)"
| release: "\<lbrakk>i < length (working p); working p ! i = []\<rbrakk> \<Longrightarrow>
    pool_step cap body eff p
      (p\<lparr>working := take i (working p) @ drop (Suc i) (working p), leaving := leaving p + 1, guard := guard p - 1\<rparr>)"
| leave: "0 < leaving p \<Longrightarrow> pool_step cap body eff p (p\<lparr>leaving := leaving p - 1, wait_group := wait_group p - 1\<rparr>)"
| finish: "\<lbrakk>unscheduled p = []; wait_group p = 0; \<not> closed p\<rbrakk> \<Longrightarrow> pool_step cap body eff p (p\<lparr>closed := True\<rparr>)"

inductive_cases pool_stepE: "pool_step cap body eff p q"

abbreviation pool_steps :: "nat \<Rightarrow> ('t \<Rightarrow> 'e list) \<Rightarrow> ('e \<Rightarrow> 's \<Rightarrow> 's) \<Rightarrow> ('t, 'e, 's) pool \<Rightarrow> ('t, 'e, 's) pool \<Rightarrow> bool" where
  "pool_steps cap body eff \<equiv> (pool_step cap body eff)\<^sup>*\<^sup>*"

text \<open>The same steps as a function of an action, with which runs are executed.\<close>

datatype pool_act = Spawn | Stop | Work nat | Release nat | Leave | Finish

fun pool_do :: "nat \<Rightarrow> ('t \<Rightarrow> 'e list) \<Rightarrow> ('e \<Rightarrow> 's \<Rightarrow> 's) \<Rightarrow> pool_act \<Rightarrow> ('t, 'e, 's) pool \<Rightarrow> ('t, 'e, 's) pool option" where
  "pool_do cap body eff Spawn p =
     (case unscheduled p of
        [] \<Rightarrow> None
      | t # ts \<Rightarrow>
          if guard p < cap
          then Some (p\<lparr>unscheduled := ts, started := started p @ [t], working := working p @ [body t], guard := guard p + 1, wait_group := wait_group p + 1\<rparr>)
          else None)"
| "pool_do cap body eff Stop p = (if unscheduled p \<noteq> [] then Some (p\<lparr>unscheduled := []\<rparr>) else None)"
| "pool_do cap body eff (Work i) p =
     (if i < length (working p)
      then (case working p ! i of [] \<Rightarrow> None | e # es \<Rightarrow> Some (p\<lparr>working := (working p)[i := es], shared := eff e (shared p)\<rparr>))
      else None)"
| "pool_do cap body eff (Release i) p =
     (if i < length (working p) \<and> working p ! i = []
      then Some (p\<lparr>working := take i (working p) @ drop (Suc i) (working p), leaving := leaving p + 1, guard := guard p - 1\<rparr>)
      else None)"
| "pool_do cap body eff Leave p = (if 0 < leaving p then Some (p\<lparr>leaving := leaving p - 1, wait_group := wait_group p - 1\<rparr>) else None)"
| "pool_do cap body eff Finish p =
     (if unscheduled p = [] \<and> wait_group p = 0 \<and> \<not> closed p then Some (p\<lparr>closed := True\<rparr>) else None)"

lemma pool_step_iff: "pool_step cap body eff p q \<longleftrightarrow> (\<exists>a. pool_do cap body eff a p = Some q)"
proof
  show "\<exists>a. pool_do cap body eff a p = Some q" if "pool_step cap body eff p q"
    using that
  proof cases
    case spawn
    then show ?thesis by (intro exI [of _ Spawn]) simp
  next
    case stop
    then show ?thesis by (intro exI [of _ Stop]) simp
  next
    case (work i e es)
    then show ?thesis by (intro exI [of _ "Work i"]) simp
  next
    case (release i)
    then show ?thesis by (intro exI [of _ "Release i"]) simp
  next
    case leave
    then show ?thesis by (intro exI [of _ Leave]) simp
  next
    case finish
    then show ?thesis by (intro exI [of _ Finish]) simp
  qed
next
  assume "\<exists>a. pool_do cap body eff a p = Some q"
  then obtain a where "pool_do cap body eff a p = Some q" ..
  then show "pool_step cap body eff p q"
    by (cases a) (auto split: list.splits if_splits intro: pool_step.intros pool_step.intros [simplified])
qed

fun pool_run :: "nat \<Rightarrow> ('t \<Rightarrow> 'e list) \<Rightarrow> ('e \<Rightarrow> 's \<Rightarrow> 's) \<Rightarrow> pool_act list \<Rightarrow> ('t, 'e, 's) pool \<Rightarrow> ('t, 'e, 's) pool option" where
  "pool_run cap body eff [] p = Some p"
| "pool_run cap body eff (a # as) p =
     (case pool_do cap body eff a p of None \<Rightarrow> None | Some q \<Rightarrow> pool_run cap body eff as q)"

lemma pool_run_steps: "pool_run cap body eff as p = Some q \<Longrightarrow> pool_steps cap body eff p q"
proof (induction as arbitrary: p)
  case (Cons a as)
  then obtain r where r: "pool_do cap body eff a p = Some r" and "pool_run cap body eff as r = Some q"
    by (auto split: option.splits)
  then have "pool_steps cap body eff r q" by (intro Cons.IH)
  with pool_step_iff [THEN iffD2, OF exI, OF r] show ?case by (rule converse_rtranclp_into_rtranclp)
qed simp

section \<open>Bounds\<close>

text \<open>The channel holds one value for every goroutine at work, the wait group counts the goroutines.\<close>

definition pool_ok :: "nat \<Rightarrow> 't list \<Rightarrow> ('t, 'e, 's) pool \<Rightarrow> bool" where
  "pool_ok cap ts p \<longleftrightarrow>
     guard p = length (working p) \<and> guard p \<le> cap \<and> wait_group p = length (working p) + leaving p
     \<and> (\<exists>rest. ts = started p @ rest \<and> (unscheduled p = rest \<or> unscheduled p = []))
     \<and> (closed p \<longrightarrow> unscheduled p = [] \<and> wait_group p = 0)"

lemma pool_ok_start: "pool_ok cap ts (pool_start s ts)"
  by (simp add: pool_ok_def pool_start_def)

lemma pool_ok_step: "pool_step cap body eff p q \<Longrightarrow> pool_ok cap ts p \<Longrightarrow> pool_ok cap ts q"
  by (induction rule: pool_step.induct) (auto simp: pool_ok_def)

lemma pool_ok_steps: "pool_steps cap body eff p q \<Longrightarrow> pool_ok cap ts p \<Longrightarrow> pool_ok cap ts q"
  by (induction rule: rtranclp_induct) (auto intro: pool_ok_step)

lemma pool_bound: "pool_steps cap body eff (pool_start s ts) p \<Longrightarrow> length (working p) \<le> cap \<and> prefix (started p) ts"
  using pool_ok_steps [OF _ pool_ok_start, of cap body eff s ts p] by (auto simp: pool_ok_def)

section \<open>Termination\<close>

text \<open>The number of steps that are left.\<close>

definition pool_left :: "('t \<Rightarrow> 'e list) \<Rightarrow> ('t, 'e, 's) pool \<Rightarrow> nat" where
  "pool_left body p =
     sum_list (map (\<lambda>t. length (body t) + 3) (unscheduled p)) + sum_list (map (\<lambda>es. length es + 2) (working p))
     + leaving p + (if closed p then 0 else 1)"

lemma sum_list_drop_nth:
  fixes f :: "'a \<Rightarrow> nat"
  assumes "i < length xs"
  shows "sum_list (map f (take i xs @ drop (Suc i) xs)) + f (xs ! i) = sum_list (map f xs)"
  using arg_cong [OF id_take_nth_drop [OF assms], of "\<lambda>l. sum_list (map f l)"] by simp

lemma sum_list_set:
  fixes f :: "'a \<Rightarrow> nat"
  assumes "i < length xs"
  shows "sum_list (map f (xs[i := x])) + f (xs ! i) = sum_list (map f xs) + f x"
  using assms sum_list_drop_nth [OF assms, of f] by (simp add: upd_conv_take_nth_drop)

lemma pool_left_step: "pool_step cap body eff p q \<Longrightarrow> pool_left body q < pool_left body p"
proof (induction rule: pool_step.induct)
  case (stop p)
  then show ?case by (cases "unscheduled p") (simp_all add: pool_left_def)
next
  case (work i p e es)
  then show ?case using sum_list_set [OF work(1), of "\<lambda>es. length es + 2" es] by (simp add: pool_left_def)
next
  case (release i p)
  then show ?case using sum_list_drop_nth [OF release(1), of "\<lambda>es. length es + 2"] by (simp add: pool_left_def)
qed (simp_all add: pool_left_def)

lemma pool_terminates: "wfP (\<lambda>q p. pool_step cap body eff p q)"
proof (rule wfp_if_convertible_to_nat)
  show "pool_left body q < pool_left body p" if "pool_step cap body eff p q" for p q
    using that by (rule pool_left_step)
qed

lemma pool_no_infinite_run: "\<nexists>g. g 0 = p \<and> (\<forall>k. pool_step cap body eff (g k) (g (Suc k)))"
  using pool_terminates [of cap body eff] by (auto simp: wfp_def wf_iff_no_infinite_down_chain)

text \<open>A pool of capacity 0 never starts a task.\<close>

lemma no_capacity: "pool_steps 0 body eff (pool_start s ts) p \<Longrightarrow> started p = [] \<and> shared p = s \<and> working p = []"
proof (induction rule: rtranclp_induct)
  case (step p q)
  from step(2,3) show ?case by (induction rule: pool_step.induct) auto
qed (simp add: pool_start_def)

lemma pool_progress:
  assumes "0 < cap" and "pool_steps cap body eff (pool_start s ts) p" and "\<not> closed p"
  shows "\<exists>q. pool_step cap body eff p q"
proof -
  have ok: "pool_ok cap ts p" using pool_ok_steps [OF assms(2) pool_ok_start] .
  show ?thesis
  proof (cases "working p")
    case (Cons es w)
    then show ?thesis
      using pool_step.work [of 0 p] pool_step.release [of 0 p] by (cases es) force+
  next
    case Nil
    show ?thesis
    proof (cases "0 < leaving p")
      case False
      then show ?thesis
        using ok Nil assms(1,3) pool_step.spawn [of p] pool_step.finish [of p]
        by (cases "unscheduled p") (auto simp: pool_ok_def, blast+)
    qed (blast intro: pool_step.leave)
  qed
qed

section \<open>The result does not depend on the interleaving\<close>

text \<open>The effects that are still to come, in some order.\<close>

definition effects_left :: "('t, 'e, 's) pool \<Rightarrow> 'e list" where
  "effects_left p = concat (working p)"

locale task_pool =
  fixes eff :: "'e \<Rightarrow> 's \<Rightarrow> 's" and view :: "'s \<Rightarrow> 'v" and veff :: "'e \<Rightarrow> 'v \<Rightarrow> 'v"
  assumes view_eff: "view (eff e s) = veff e (view s)"
    and veff_commute: "veff e (veff e' v) = veff e' (veff e v)"
begin

lemma fold_veff_eff: "fold veff es (veff e v) = veff e (fold veff es v)"
proof (induction es arbitrary: v)
  case (Cons a es)
  then show ?case by (simp add: veff_commute [of a e])
qed simp

lemma fold_veff_append: "fold veff (xs @ ys) v = fold veff (ys @ xs) v"
  by (induction xs arbitrary: v) (simp_all add: fold_veff_eff)

lemma fold_veff_mset: "mset xs = mset ys \<Longrightarrow> fold veff xs v = fold veff ys v"
proof (induction xs arbitrary: ys v)
  case (Cons x xs)
  then obtain as bs where ys: "ys = as @ x # bs"
    by (metis list.set_intros(1) mset_eq_setD split_list)
  have eq: "fold veff xs (veff x v) = fold veff (as @ bs) (veff x v)"
    using Cons.IH [of "as @ bs" "veff x v"] Cons.prems ys by simp
  show ?case
    using eq by (simp add: ys fold_veff_eff)
qed simp

lemma veff_invariant:
  assumes "pool_steps cap body eff (pool_start s ts) p"
  shows "fold veff (effects_left p) (view (shared p)) = fold veff (concat (map body (started p))) (view s)"
  using assms
proof (induction rule: rtranclp_induct)
  case base
  then show ?case by (simp add: pool_start_def effects_left_def)
next
  case (step p q)
  from step.hyps(2) step.IH show ?case
  proof (induction rule: pool_step.induct)
    case (spawn p t ts)
    then show ?case by (simp add: effects_left_def fold_veff_eff)
  next
    case (work i p e es)
    have split: "working p = take i (working p) @ (e # es) # drop (Suc i) (working p)"
      using work(1) work(2) by (metis id_take_nth_drop)
    have "mset (effects_left p) = add_mset e (mset (effects_left (p\<lparr>working := (working p)[i := es], shared := eff e (shared p)\<rparr>)))"
      unfolding effects_left_def using work(1) by (subst split) (simp add: upd_conv_take_nth_drop)
    then have "fold veff (effects_left p) (view (shared p))
        = fold veff (e # effects_left (p\<lparr>working := (working p)[i := es], shared := eff e (shared p)\<rparr>)) (view (shared p))"
      by (intro fold_veff_mset) simp
    with work(3) show ?case by (simp add: view_eff)
  next
    case (release i p)
    have "concat (take i (working p) @ drop (Suc i) (working p)) = concat (working p)"
      using release(1) release(2) by (subst (3) id_take_nth_drop [OF release(1)]) simp
    with release(3) show ?case by (simp add: effects_left_def)
  qed (simp_all add: effects_left_def)
qed

text \<open>When the main goroutine goes on, what is shared looks as if the tasks that were started had been done
  one after the other.\<close>

lemma closed_result:
  assumes "pool_steps cap body eff (pool_start s ts) p" and "closed p"
  shows "view (shared p) = fold veff (concat (map body (started p))) (view s)"
proof -
  have "effects_left p = []"
    using pool_ok_steps [OF assms(1) pool_ok_start] assms(2) by (auto simp: pool_ok_def effects_left_def)
  then show ?thesis using veff_invariant [OF assms(1)] by simp
qed

end

section \<open>What only one task writes\<close>

text \<open>A part of what is shared that the effects in \<open>touch\<close> change, and only they. If at most one of the tasks
  has such effects, they come in the order of that task, whatever the others do.\<close>

fun one_toucher :: "('e \<Rightarrow> bool) \<Rightarrow> 'e list list \<Rightarrow> bool" where
  "one_toucher touch [] = True"
| "one_toucher touch (es # ess) = (one_toucher touch ess \<and> (filter touch es = [] \<or> filter touch (concat ess) = []))"

lemma one_toucher_append:
  "one_toucher touch (xs @ ys) \<longleftrightarrow>
     one_toucher touch xs \<and> one_toucher touch ys \<and> (filter touch (concat xs) = [] \<or> filter touch (concat ys) = [])"
  by (induction xs) auto

lemma one_writer_invariant:
  assumes "pool_steps cap body eff (pool_start s ts) p" and "one_toucher touch (map body (started p))"
    and still: "\<And>e x. \<not> touch e \<Longrightarrow> part (eff e x) = part x" and move: "\<And>e x. touch e \<Longrightarrow> part (eff e x) = f e (part x)"
  shows "one_toucher touch (working p)
    \<and> (filter touch (concat (map body (started p))) = [] \<longrightarrow> filter touch (concat (working p)) = [])
    \<and> fold f (filter touch (concat (working p))) (part (shared p)) = fold f (filter touch (concat (map body (started p)))) (part s)"
  using assms(1,2)
proof (induction rule: rtranclp_induct)
  case base
  then show ?case by (simp add: pool_start_def)
next
  case (step p q)
  have "one_toucher touch (map body (started p))"
    using step.hyps(2) step.prems by (cases rule: pool_step.cases) (simp_all add: one_toucher_append)
  note ih = step.IH [OF this]
  from step.hyps(2) show ?case
  proof (cases rule: pool_step.cases)
    case (spawn t ts)
    then show ?thesis using ih step.prems by (auto simp: one_toucher_append)
  next
    case (work i e es)
    have w: "working p = take i (working p) @ (e # es) # drop (Suc i) (working p)"
      using work(2,3) by (metis id_take_nth_drop)
    have o: "filter touch (e # es) = [] \<or> filter touch (concat (take i (working p) @ drop (Suc i) (working p))) = []"
      using ih by (subst (asm) w) (auto simp: one_toucher_append)
    have cq: "filter touch (concat ((working p)[i := es]))
        = filter touch (concat (take i (working p))) @ filter touch es @ filter touch (concat (drop (Suc i) (working p)))"
      using work(2) by (simp add: upd_conv_take_nth_drop)
    have cp: "filter touch (concat (working p))
        = filter touch (concat (take i (working p))) @ filter touch (e # es) @ filter touch (concat (drop (Suc i) (working p)))"
      by (subst w) simp
    have "fold f (filter touch (concat ((working p)[i := es]))) (part (eff e (shared p)))
        = fold f (filter touch (concat (working p))) (part (shared p))"
      using o unfolding cq cp by (cases "touch e") (auto simp: still move)
    moreover have "one_toucher touch ((working p)[i := es])"
      unfolding upd_conv_take_nth_drop [OF work(2)] using ih
      by (subst (asm) w) (auto simp: one_toucher_append split: if_splits)
    moreover have "filter touch (concat ((working p)[i := es])) = []" if "filter touch (concat (working p)) = []"
      using that unfolding cq cp by (auto split: if_splits)
    ultimately show ?thesis using ih work(1) by simp
  next
    case (release i)
    have "concat (take i (working p) @ drop (Suc i) (working p)) = concat (working p)"
      using release(2,3) by (subst (3) id_take_nth_drop [OF release(2)]) simp
    moreover have "one_toucher touch (take i (working p) @ drop (Suc i) (working p))"
      using ih by (subst (asm) id_take_nth_drop [OF release(2)]) (auto simp: one_toucher_append)
    ultimately show ?thesis using ih release by simp
  qed (use ih in simp_all)
qed

lemma one_writer_result:
  assumes "pool_steps cap body eff (pool_start s ts) p" and "closed p" and "one_toucher touch (map body (started p))"
    and "\<And>e x. \<not> touch e \<Longrightarrow> part (eff e x) = part x" and "\<And>e x. touch e \<Longrightarrow> part (eff e x) = f e (part x)"
  shows "part (shared p) = fold f (filter touch (concat (map body (started p)))) (part s)"
proof -
  have "working p = []"
    using pool_ok_steps [OF assms(1) pool_ok_start] assms(2) by (auto simp: pool_ok_def)
  then show ?thesis using one_writer_invariant [where touch = touch and part = part and f = f, OF assms(1,3)] assms(4,5) by simp
qed

section \<open>One task at a time\<close>

text \<open>The interleaving in which every task ends before the next is started.\<close>

lemma work_off:
  "working p = [es] \<Longrightarrow> pool_steps cap body eff p (p\<lparr>working := [[]], shared := fold eff es (shared p)\<rparr>)"
proof (induction es arbitrary: p)
  case (Cons e es)
  have "pool_step cap body eff p (p\<lparr>working := [es], shared := eff e (shared p)\<rparr>)"
    using pool_step.work [of 0 p e es] Cons.prems by simp
  moreover have "pool_steps cap body eff (p\<lparr>working := [es], shared := eff e (shared p)\<rparr>)
      (p\<lparr>working := [[]], shared := fold eff (e # es) (shared p)\<rparr>)"
    using Cons.IH [of "p\<lparr>working := [es], shared := eff e (shared p)\<rparr>"] by simp
  ultimately show ?case by (rule converse_rtranclp_into_rtranclp)
next
  case Nil
  then have "p\<lparr>working := [[]], shared := fold eff [] (shared p)\<rparr> = p" by (cases p) simp
  then show ?case by simp
qed

lemma one_task:
  assumes "0 < cap" and "unscheduled p = t # ts" and "working p = []" and "guard p = 0" and "leaving p = 0" and "wait_group p = 0"
  shows "pool_steps cap body eff p (p\<lparr>unscheduled := ts, started := started p @ [t], shared := fold eff (body t) (shared p)\<rparr>)"
proof -
  let ?p1 = "p\<lparr>unscheduled := ts, started := started p @ [t], working := [body t], guard := 1, wait_group := 1\<rparr>"
  let ?p2 = "?p1\<lparr>working := [[]], shared := fold eff (body t) (shared p)\<rparr>"
  let ?p3 = "?p2\<lparr>working := [], leaving := 1, guard := 0\<rparr>"
  have s1: "pool_step cap body eff p ?p1"
    using pool_step.spawn [of p t ts cap body eff] assms by simp
  have s2: "pool_steps cap body eff ?p1 ?p2"
    using work_off [of ?p1 "body t" cap body eff] by simp
  have s3: "pool_step cap body eff ?p2 ?p3"
    using pool_step.release [of 0 ?p2 cap body eff] assms by simp
  have s4: "pool_step cap body eff ?p3 (?p3\<lparr>leaving := 0, wait_group := 0\<rparr>)"
    using pool_step.leave [of ?p3 cap body eff] by simp
  have "?p3\<lparr>leaving := 0, wait_group := 0\<rparr> = p\<lparr>unscheduled := ts, started := started p @ [t], shared := fold eff (body t) (shared p)\<rparr>"
    using assms by (cases p) simp
  then show ?thesis
    using rtranclp.rtrancl_into_rtrancl [OF rtranclp.rtrancl_into_rtrancl [OF converse_rtranclp_into_rtranclp [where r = "pool_step cap body eff", OF s1 s2] s3] s4]
    by (simp only:)
qed

lemma sequential_run:
  assumes "0 < cap"
  shows "pool_steps cap body eff (pool_start s ts)
    ((pool_start s ts)\<lparr>unscheduled := [], started := ts, shared := fold eff (concat (map body ts)) s, closed := True\<rparr>)"
proof -
  have run: "pool_steps cap body eff p (p\<lparr>unscheduled := [], started := started p @ ts, shared := fold eff (concat (map body ts)) (shared p)\<rparr>)"
    if "unscheduled p = ts" "working p = []" "guard p = 0" "leaving p = 0" "wait_group p = 0" for p ts
    using that
  proof (induction ts arbitrary: p)
    case (Cons t ts)
    let ?q = "p\<lparr>unscheduled := ts, started := started p @ [t], shared := fold eff (body t) (shared p)\<rparr>"
    have "pool_steps cap body eff p ?q"
      using one_task [OF assms Cons.prems] .
    moreover have "pool_steps cap body eff ?q
        (p\<lparr>unscheduled := [], started := started p @ t # ts, shared := fold eff (concat (map body (t # ts))) (shared p)\<rparr>)"
      using Cons.IH [of ?q] Cons.prems by simp
    ultimately show ?case by (rule rtranclp_trans)
  next
    case Nil
    then have "p\<lparr>unscheduled := [], started := started p @ [], shared := fold eff (concat (map body [])) (shared p)\<rparr> = p"
      by (cases p) simp
    then show ?case by simp
  qed
  let ?q = "(pool_start s ts)\<lparr>unscheduled := [], started := ts, shared := fold eff (concat (map body ts)) s\<rparr>"
  have "pool_steps cap body eff (pool_start s ts) ?q"
    using run [of "pool_start s ts" ts] by (simp add: pool_start_def)
  moreover have "pool_step cap body eff ?q (?q\<lparr>closed := True\<rparr>)"
    by (rule pool_step.finish) (simp_all add: pool_start_def)
  ultimately show ?thesis by simp
qed

end
