(* ===== verification/Replay.thy ===== *)
theory Replay
  imports TaskPool Utils GoNumbers
begin

text \<open>
  The command \<open>replay\<close>, \<open>cmd/replay/frame.go\<close> and \<open>cmd/replay/main.go\<close>: queries that were recorded in
  a CSV file are sent again, with the same pauses between them, by a pool of goroutines.
\<close>

section \<open>Frames\<close>

record query_frame =
  frame_id :: string
  create_time :: int
  wall_millis :: int
  output_rows :: int
  written_rows :: int
  frame_catalog :: string
  frame_schema :: string
  session_properties :: string
  frame_query :: string

datatype frame_error = TooFewFields nat | BadTime string | BadNumber string

text \<open>\<open>NewQueryFrame\<close>. \<open>parse_time\<close> is \<open>time.Parse\<close> with the layout \<open>CreateTimeFormat\<close>; what the
  abbreviation of a time zone means to it depends on the time zone of the machine.\<close>

definition new_query_frame :: "(string \<Rightarrow> int option) \<Rightarrow> string list \<Rightarrow> frame_error + query_frame" where
  "new_query_frame parse_time cols =
     (if length cols < 9 then Inl (TooFewFields (length cols))
      else case parse_time (cols ! 1) of
             None \<Rightarrow> Inl (BadTime (cols ! 1))
           | Some t \<Rightarrow>
         (case atoi (cols ! 2) of
             None \<Rightarrow> Inl (BadNumber (cols ! 2))
           | Some wall \<Rightarrow>
         (case atoi (cols ! 3) of
             None \<Rightarrow> Inl (BadNumber (cols ! 3))
           | Some rows \<Rightarrow>
         (case atoi (cols ! 4) of
             None \<Rightarrow> Inl (BadNumber (cols ! 4))
           | Some written \<Rightarrow>
               Inr \<lparr>frame_id = cols ! 0, create_time = t, wall_millis = wall, output_rows = rows, written_rows = written,
                    frame_catalog = cols ! 5, frame_schema = cols ! 6, session_properties = cols ! 7,
                    frame_query = replace_all (cols ! 8) ''<<>>'' [CHR 0x0A]\<rparr>))))"

text \<open>\<open>ParseSessionParams\<close>: a map that is printed as \<open>{k1=v1, k2=v2}\<close>.\<close>

fun add_props :: "string list \<Rightarrow> (string \<rightharpoonup> string) \<Rightarrow> string \<rightharpoonup> string" where
  "add_props [] m = m"
| "add_props (prop # props) m =
     (case cut_str ''='' prop of
        (k, Some v) \<Rightarrow> add_props props (m(k \<mapsto> v))
      | (_, None) \<Rightarrow> add_props props m)"

definition parse_session_params :: "string \<Rightarrow> string \<rightharpoonup> string" where
  "parse_session_params s =
     (if length s \<le> 2 \<or> s ! 0 \<noteq> CHR 0x7B \<or> s ! (length s - 1) \<noteq> CHR 0x7D then Map.empty
      else add_props (split_str '', '' (take (length s - 2) (drop 1 s))) Map.empty)"

section \<open>Reading the file\<close>

text \<open>The CSV reader gives a record, an error or the end of the file; nine cols are demanded of a record.\<close>

datatype csv_answer = EndOfFile | BadLine | Record "string list"

text \<open>The loop of \<open>Run\<close> with \<open>k\<close> units of fuel, from the \<open>n\<close>-th call of \<open>Read\<close> on (the header is call 0);
  \<open>cancelled n\<close> tells whether the context is cancelled after it.\<close>

fun read_frames :: "nat \<Rightarrow> (string \<Rightarrow> int option) \<Rightarrow> (nat \<Rightarrow> csv_answer) \<Rightarrow> (nat \<Rightarrow> bool) \<Rightarrow> nat \<Rightarrow> query_frame list option" where
  "read_frames 0 parse_time rd cancelled n = None"
| "read_frames (Suc k) parse_time rd cancelled n =
     (if cancelled n \<or> rd n = EndOfFile then Some []
      else case rd n of
             Record cols \<Rightarrow>
               (case new_query_frame parse_time cols of
                  Inl e \<Rightarrow> read_frames k parse_time rd cancelled (Suc n)
                | Inr f \<Rightarrow> map_option ((#) f) (read_frames k parse_time rd cancelled (Suc n)))
           | _ \<Rightarrow> read_frames k parse_time rd cancelled (Suc n))"

section \<open>The scheduler\<close>

text \<open>A request: what is sent, after which pause.\<close>

record replay_request =
  req_pause :: int
  req_text :: string
  req_catalog :: string
  req_schema :: string
  req_session :: string
  req_source :: string

definition frame_request :: "int \<Rightarrow> query_frame \<Rightarrow> string \<Rightarrow> replay_request" where
  "frame_request pause f header =
     \<lparr>req_pause = pause, req_text = frame_query f, req_catalog = frame_catalog f, req_schema = frame_schema f,
      req_session = header, req_source = frame_id f\<rparr>"

text \<open>The loop of \<open>QueryFrameScheduler\<close>. \<open>header\<close> is \<open>GenerateSessionParamsHeaderValue\<close> of the client,
  \<open>cancelled f\<close> tells whether the context is cancelled after the pause for frame \<open>f\<close>.\<close>

fun schedule_loop ::
  "((string \<rightharpoonup> string) \<Rightarrow> string) \<Rightarrow> (query_frame \<Rightarrow> bool) \<Rightarrow> int \<Rightarrow> (string \<rightharpoonup> string) \<Rightarrow> query_frame list \<Rightarrow> replay_request list" where
  "schedule_loop header cancelled fired cache [] = []"
| "schedule_loop header cancelled fired cache (f # fs) =
     (let (pause, fired') = (if fired < create_time f then (time_sub (create_time f) fired, create_time f) else (0, fired)) in
      if cancelled f then []
      else (let (h, cache') =
              (case cache (session_properties f) of
                 Some h \<Rightarrow> (h, cache)
               | None \<Rightarrow> (let h = header (parse_session_params (session_properties f)) in (h, cache(session_properties f \<mapsto> h))))
            in frame_request pause f h # schedule_loop header cancelled fired' cache' fs))"

definition query_frame_scheduler ::
  "((string \<rightharpoonup> string) \<Rightarrow> string) \<Rightarrow> (query_frame \<Rightarrow> bool) \<Rightarrow> query_frame list \<Rightarrow> replay_request list" where
  "query_frame_scheduler header cancelled fs =
     (case fs of
        [] \<Rightarrow> []
      | f # fs \<Rightarrow>
          (let h = header (parse_session_params (session_properties f)) in
           frame_request 0 f h # schedule_loop header cancelled (create_time f) [session_properties f \<mapsto> h] fs))"

text \<open>\<open>RunQueryFrame\<close> calls \<open>client.Query\<close> once and then drains the answer. What the call and the draining give is
  the parameter \<open>ask\<close>: \<open>None\<close> is an error of \<open>Query\<close> (the context may be cancelled, so that no request reaches a
  server), and \<open>Some (pages, ok)\<close> are the numbers of rows of the pages that \<open>Drain\<close> handed over, and whether it
  came to the end. Only the log tells the three outcomes apart.\<close>

datatype replay_event =
    QueryCall replay_request
  | QueryRefused string
  | FetchFailed string
  | QueryDone string nat

definition run_query_frame :: "(replay_request \<Rightarrow> (nat list \<times> bool) option) \<Rightarrow> replay_request \<Rightarrow> replay_event list" where
  "run_query_frame ask r =
     QueryCall r #
       (case ask r of
          None \<Rightarrow> [QueryRefused (req_source r)]
        | Some (pages, False) \<Rightarrow> [FetchFailed (req_source r)]
        | Some (pages, True) \<Rightarrow> [QueryDone (req_source r) (fold (\<lambda>rows n. n + rows) pages 0)])"

definition log_event :: "replay_event \<Rightarrow> replay_event list \<Rightarrow> replay_event list" where
  "log_event e es = es @ [e]"

fun called_with :: "replay_event \<Rightarrow> replay_request option" where
  "called_with (QueryCall r) = Some r"
| "called_with _ = None"

definition query_calls :: "replay_event list \<Rightarrow> replay_request multiset" where
  "query_calls es = mset (List.map_filter called_with es)"

definition outcome_line :: "(replay_request \<Rightarrow> (nat list \<times> bool) option) \<Rightarrow> replay_request \<Rightarrow> replay_event" where
  "outcome_line ask r =
     (case ask r of
        None \<Rightarrow> QueryRefused (req_source r)
      | Some (pages, ok) \<Rightarrow> if ok then QueryDone (req_source r) (sum_list pages) else FetchFailed (req_source r))"

interpretation replay: task_pool log_event mset add_mset
  by unfold_locales (simp_all add: log_event_def add_mset_commute)

section \<open>The end of the file\<close>

text \<open>An error that does not go away, as for a directory, is read forever.\<close>

lemma read_error_loops:
  "\<forall>i \<ge> n. rd i = BadLine \<and> \<not> cancelled i \<Longrightarrow> read_frames k parse_time rd cancelled n = None"
  by (induction k arbitrary: n) simp_all

text \<open>A file that ends is read.\<close>

definition frame_of :: "(string \<Rightarrow> int option) \<Rightarrow> csv_answer \<Rightarrow> query_frame list" where
  "frame_of parse_time a =
     (case a of Record cols \<Rightarrow> (case new_query_frame parse_time cols of Inl e \<Rightarrow> [] | Inr f \<Rightarrow> [f]) | _ \<Rightarrow> [])"

lemma read_frames_end:
  assumes "rd (n + m) = EndOfFile" and "\<forall>i < m. rd (n + i) \<noteq> EndOfFile \<and> \<not> cancelled (n + i)" and "m < k"
  shows "read_frames k parse_time rd cancelled n = Some (concat (map (\<lambda>i. frame_of parse_time (rd (n + i))) [0 ..< m]))"
  using assms
proof (induction m arbitrary: n k)
  case 0
  then show ?case by (cases k) simp_all
next
  case (Suc m)
  then obtain j where k: "k = Suc j" "m < j" by (cases k) auto
  have "\<forall>i < m. rd (Suc n + i) \<noteq> EndOfFile \<and> \<not> cancelled (Suc n + i)"
    using Suc.prems(2) by (metis Suc_mono add_Suc_shift)
  then have rest: "read_frames j parse_time rd cancelled (Suc n) = Some (concat (map (\<lambda>i. frame_of parse_time (rd (Suc n + i))) [0 ..< m]))"
    using Suc.prems(1) k(2) by (intro Suc.IH) simp_all
  have split: "[0 ..< Suc m] = 0 # map Suc [0 ..< m]" by (metis map_Suc_upt upt_conv_Cons zero_less_Suc)
  have now: "rd n \<noteq> EndOfFile" "\<not> cancelled n" using Suc.prems(2) by (auto dest: spec [of _ 0])
  show ?case
    unfolding split k using now rest by (cases "rd n") (auto simp: frame_of_def comp_def split: sum.split)
qed

section \<open>Session properties\<close>

definition print_props :: "(string \<times> string) list \<Rightarrow> string" where
  "print_props kvs = [CHR 0x7B] @ join_str '', '' (map (\<lambda>(k, v). k @ ''='' @ v) kvs) @ [CHR 0x7D]"

text \<open>What can be printed and read back: no separator inside an entry, no equality sign in a key.\<close>

definition plain_prop :: "string \<times> string \<Rightarrow> bool" where
  "plain_prop kv \<longleftrightarrow> CHR ''='' \<notin> set (fst kv) \<and> \<not> contains (fst kv @ ''='' @ snd kv) '', ''"

lemma not_contains: "\<not> contains s p \<longleftrightarrow> (\<forall>i \<le> length s. \<not> has_prefix (drop i s) p)"
  by (simp add: contains_def index_str_None)

lemma index_separator:
  assumes "\<not> contains x '', ''"
  shows "index_str '', '' (x @ '', '' @ r) = Some (length x)"
proof (rule index_str_SomeI)
  show "\<forall>j < length x. \<not> has_prefix (drop j (x @ '', '' @ r)) '', ''"
  proof (intro allI impI notI)
    fix j assume j: "j < length x" and p: "has_prefix (drop j (x @ '', '' @ r)) '', ''"
    obtain c cs where d: "drop j x = c # cs" using j by (metis Cons_nth_drop_Suc)
    with p j have "has_prefix (drop j x) '', ''" by (cases cs) (auto simp: has_prefix_def)
    then show False using assms j by (simp add: not_contains)
  qed
qed (simp_all add: has_prefix_def)

lemma index_equals: "CHR ''='' \<notin> set k \<Longrightarrow> index_str ''='' (k @ ''='' @ v) = Some (length k)"
proof (rule index_str_SomeI)
  assume k: "CHR ''='' \<notin> set k"
  show "\<forall>j < length k. \<not> has_prefix (drop j (k @ ''='' @ v)) ''=''"
  proof (intro allI impI notI)
    fix j assume j: "j < length k" and p: "has_prefix (drop j (k @ ''='' @ v)) ''=''"
    obtain c cs where d: "drop j k = c # cs" using j by (metis Cons_nth_drop_Suc)
    then have "c \<in> set k" by (metis in_set_dropD list.set_intros(1))
    moreover have "c = CHR ''=''" using p j d by (simp add: has_prefix_def)
    ultimately show False using k by simp
  qed
qed (simp_all add: has_prefix_def)

lemma split_join:
  "xs \<noteq> [] \<Longrightarrow> \<forall>x \<in> set xs. \<not> contains x '', '' \<Longrightarrow> split_str '', '' (join_str '', '' xs) = xs"
proof (induction "'', ''" xs rule: join_str.induct)
  case (2 x)
  then show ?case by (subst split_str.simps) (simp add: contains_def)
next
  case (3 x y xs)
  have "index_str '', '' (x @ '', '' @ join_str '', '' (y # xs)) = Some (length x)"
    using 3 by (intro index_separator) simp
  with 3 show ?case by (subst split_str.simps) simp
qed simp

lemma add_props_plain:
  "\<forall>kv \<in> set kvs. CHR ''='' \<notin> set (fst kv) \<Longrightarrow>
    add_props (map (\<lambda>(k, v). k @ ''='' @ v) kvs) m = m ++ map_of (rev kvs)"
proof (induction kvs arbitrary: m)
  case (Cons kv kvs)
  obtain k v where kv: "kv = (k, v)" by (cases kv)
  have "cut_str ''='' (k @ ''='' @ v) = (k, Some v)"
    using Cons.prems index_equals [of k v] by (simp add: cut_str_def kv)
  with Cons show ?case by (simp add: kv)
qed simp

lemma join_entries_nonempty: "kvs \<noteq> [] \<Longrightarrow> join_str sep (map (\<lambda>(k, v). k @ ''='' @ v) kvs) \<noteq> []"
  by (cases kvs; cases "tl kvs") (auto split: prod.split)

text \<open>Session parameters are read from the recorded text as they were: printing a map and parsing it
  gives the map, provided that no key holds an equality sign and no entry a comma and a blank.\<close>

theorem session_params_roundtrip:
  assumes "\<forall>kv \<in> set kvs. plain_prop kv" and "distinct (map fst kvs)"
  shows "parse_session_params (print_props kvs) = map_of kvs"
proof (cases "kvs = []")
  case True
  then show ?thesis by (simp add: parse_session_params_def print_props_def)
next
  case False
  let ?b = "join_str '', '' (map (\<lambda>(k, v). k @ ''='' @ v) kvs)"
  have long: "\<not> length (print_props kvs) \<le> 2"
    using join_entries_nonempty [OF False, of "'', ''"] by (simp add: print_props_def not_le)
  have "split_str '', '' ?b = map (\<lambda>(k, v). k @ ''='' @ v) kvs"
    using assms(1) False by (intro split_join) (auto simp: plain_prop_def)
  moreover have "map_of (rev kvs) = map_of kvs"
    using assms(2) by (simp add: map_of_inject_set rev_map [symmetric])
  moreover have "\<forall>kv \<in> set kvs. CHR ''='' \<notin> set (fst kv)"
    using assms(1) by (simp add: plain_prop_def)
  ultimately show ?thesis
    using long add_props_plain [of kvs Map.empty]
    by (simp add: parse_session_params_def print_props_def nth_append)
qed

theorem session_params_roundtrip_witness:
  "parse_session_params (print_props [(''a'', ''1''), (''b.c'', ''X,Y=Z''), (''d'', '''')])
    = map_of [(''a'', ''1''), (''b.c'', ''X,Y=Z''), (''d'', '''')]"
  by (rule session_params_roundtrip) code_simp+

text \<open>A value with a comma and a blank is cut, and its rest is dropped or taken for another parameter.\<close>

lemma separator_in_value:
  "parse_session_params (print_props [(''a'', ''x, b=y'')]) = [''a'' \<mapsto> ''x'', ''b'' \<mapsto> ''y'']"
proof -
  have "split_str '', '' ''a=x, b=y'' = [''a=x'', ''b=y'']" by code_simp
  then show ?thesis
    by (simp add: parse_session_params_def print_props_def cut_str_def index_str.simps has_prefix_def)
qed

section \<open>The schedule\<close>

text \<open>The header of a frame as if there were no cache.\<close>

definition frame_header :: "((string \<rightharpoonup> string) \<Rightarrow> string) \<Rightarrow> query_frame \<Rightarrow> string" where
  "frame_header header f = header (parse_session_params (session_properties f))"

definition cache_ok :: "((string \<rightharpoonup> string) \<Rightarrow> string) \<Rightarrow> (string \<rightharpoonup> string) \<Rightarrow> bool" where
  "cache_ok header cache \<longleftrightarrow> (\<forall>p h. cache p = Some h \<longrightarrow> h = header (parse_session_params p))"

definition going_on :: "(query_frame \<Rightarrow> bool) \<Rightarrow> query_frame list \<Rightarrow> query_frame list" where
  "going_on cancelled fs = takeWhile (\<lambda>f. \<not> cancelled f) fs"

lemma schedule_loop_step:
  assumes "cache_ok header cache" and "\<not> cancelled f"
    and "lo \<le> fired" and "create_time f < lo + 2 ^ 63"
  obtains cache' where "cache_ok header cache'"
    "schedule_loop header cancelled fired cache (f # fs)
       = frame_request (max (create_time f) fired - fired) f (frame_header header f)
         # schedule_loop header cancelled (max (create_time f) fired) cache' fs"
proof -
  let ?c = "case cache (session_properties f) of Some h \<Rightarrow> cache | None \<Rightarrow> cache(session_properties f \<mapsto> frame_header header f)"
  have "cache_ok header ?c"
    using assms(1) by (auto simp: cache_ok_def frame_header_def split: option.split)
  moreover have "(if fired < create_time f then (time_sub (create_time f) fired, create_time f) else (0, fired))
      = (max (create_time f) fired - fired, max (create_time f) fired)"
    using assms(3,4) by (simp add: time_sub_def)
  then have "schedule_loop header cancelled fired cache (f # fs)
       = frame_request (max (create_time f) fired - fired) f (frame_header header f)
         # schedule_loop header cancelled (max (create_time f) fired) ?c fs"
    using assms(1,2)
    by (cases "cache (session_properties f)") (simp_all only: schedule_loop.simps Let_def prod.case if_False option.case frame_header_def cache_ok_def)
  ultimately show ?thesis by (rule that)
qed

lemma schedule_loop_nth:
  assumes "cache_ok header cache" and "lo \<le> fired" and "\<forall>f \<in> set fs. create_time f < lo + 2 ^ 63"
  shows "length (schedule_loop header cancelled fired cache fs) = length (going_on cancelled fs)
    \<and> (\<forall>i < length (going_on cancelled fs).
         (\<exists>p. schedule_loop header cancelled fired cache fs ! i = frame_request p (fs ! i) (frame_header header (fs ! i)))
         \<and> fired + sum_list (map req_pause (take (Suc i) (schedule_loop header cancelled fired cache fs)))
             = fold max (map create_time (take (Suc i) fs)) fired)"
  using assms
proof (induction fs arbitrary: fired cache)
  case (Cons f fs)
  show ?case
  proof (cases "cancelled f")
    case False
    obtain cache' where ok: "cache_ok header cache'"
      and eq: "schedule_loop header cancelled fired cache (f # fs)
        = frame_request (max (create_time f) fired - fired) f (frame_header header f)
          # schedule_loop header cancelled (max (create_time f) fired) cache' fs"
      using schedule_loop_step [of header cache cancelled f lo fired fs] False Cons.prems by auto
    have ih: "length (schedule_loop header cancelled (max (create_time f) fired) cache' fs) = length (going_on cancelled fs)
      \<and> (\<forall>i < length (going_on cancelled fs).
         (\<exists>p. schedule_loop header cancelled (max (create_time f) fired) cache' fs ! i = frame_request p (fs ! i) (frame_header header (fs ! i)))
         \<and> max (create_time f) fired + sum_list (map req_pause (take (Suc i) (schedule_loop header cancelled (max (create_time f) fired) cache' fs)))
             = fold max (map create_time (take (Suc i) fs)) (max (create_time f) fired))"
      using Cons.prems by (intro Cons.IH [OF ok]) auto
    show ?thesis
      unfolding eq using ih False
      by (auto simp: going_on_def nth_Cons frame_request_def split: nat.split)
  qed (simp add: going_on_def Let_def)
qed (simp add: going_on_def)

text \<open>C23: The pauses of a replay: every frame is sent with the headers of its own session properties, and
  the time between the first and the \<open>i\<close>-th request is the time between the creation of the first
  recorded query and of the latest of the first \<open>i\<close>; for a file in the order of creation, as the
  recorded times are apart. An interruption cuts the schedule off.\<close>

theorem replay_schedule:
  fixes header :: "(string \<rightharpoonup> string) \<Rightarrow> string" and cancelled :: "query_frame \<Rightarrow> bool"
  assumes "\<forall>f \<in> set fs. create_time f < create_time (hd fs) + 2 ^ 63" and "fs \<noteq> []"
  defines "rs \<equiv> query_frame_scheduler header cancelled fs"
  shows "length rs = Suc (length (going_on cancelled (tl fs)))
    \<and> (\<forall>i < length rs.
         (\<exists>p. rs ! i = frame_request p (fs ! i) (frame_header header (fs ! i)))
         \<and> sum_list (map req_pause (take (Suc i) rs)) = Max (create_time ` set (take (Suc i) fs)) - create_time (hd fs))"
proof -
  obtain f fs' where fs: "fs = f # fs'" using assms(2) by (cases fs) auto
  let ?l = "schedule_loop header cancelled (create_time f) [session_properties f \<mapsto> frame_header header f] fs'"
  have rs: "rs = frame_request 0 f (frame_header header f) # ?l"
    by (simp add: rs_def query_frame_scheduler_def fs frame_header_def Let_def)
  have "cache_ok header [session_properties f \<mapsto> frame_header header f]"
    by (auto simp: cache_ok_def frame_header_def split: if_splits)
  then have l: "length ?l = length (going_on cancelled fs')
    \<and> (\<forall>i < length (going_on cancelled fs').
         (\<exists>p. ?l ! i = frame_request p (fs' ! i) (frame_header header (fs' ! i)))
         \<and> create_time f + sum_list (map req_pause (take (Suc i) ?l)) = fold max (map create_time (take (Suc i) fs')) (create_time f))"
    using assms(1) by (intro schedule_loop_nth [where lo = "create_time f"]) (auto simp: fs)
  have max: "Max (create_time ` set (take (Suc i) fs)) = fold max (map create_time (take i fs')) (create_time f)" for i
    using Max.set_eq_fold [of "create_time f" "map create_time (take i fs')"] by (simp add: fs)
  have "(\<exists>p. rs ! i = frame_request p (fs ! i) (frame_header header (fs ! i)))
      \<and> sum_list (map req_pause (take (Suc i) rs)) = Max (create_time ` set (take (Suc i) fs)) - create_time (hd fs)"
    if "i < length rs" for i
  proof (cases i)
    case 0
    then show ?thesis unfolding max by (simp add: rs fs frame_request_def)
  next
    case (Suc j)
    then have "j < length (going_on cancelled fs')" using that l by (simp add: rs)
    with l have "(\<exists>p. ?l ! j = frame_request p (fs' ! j) (frame_header header (fs' ! j)))"
      "create_time f + sum_list (map req_pause (take (Suc j) ?l)) = fold max (map create_time (take (Suc j) fs')) (create_time f)"
      by blast+
    then show ?thesis unfolding max by (simp add: rs fs Suc frame_request_def)
  qed
  moreover have "length rs = Suc (length (going_on cancelled (tl fs)))" using l by (simp add: rs fs)
  ultimately show ?thesis by blast
qed

lemma fold_rows: "fold (\<lambda>rows n. n + rows) pages k = k + sum_list (pages :: nat list)"
  by (induction pages arbitrary: k) simp_all

lemma run_query_frame_events: "run_query_frame ask r = [QueryCall r, outcome_line ask r]"
  by (auto simp: run_query_frame_def outcome_line_def fold_rows split: option.split bool.split)

lemma all_events:
  "mset (concat (map (run_query_frame ask) rs)) = image_mset QueryCall (mset rs) + image_mset (outcome_line ask) (mset rs)"
  by (induction rs) (simp_all add: run_query_frame_events)

lemma query_calls_mset: "query_calls es = {# the (called_with e). e \<in># filter_mset (\<lambda>e. called_with e \<noteq> None) (mset es) #}"
  unfolding query_calls_def by (simp add: List.map_filter_def comp_def flip: mset_filter mset_map)

lemma no_call_in_outcome: "called_with (outcome_line ask r) = None"
  by (simp add: outcome_line_def split: option.split)

lemma all_query_calls:
  assumes "mset es = image_mset QueryCall M + image_mset (outcome_line ask) M"
  shows "query_calls es = M"
proof -
  have "filter_mset (\<lambda>e. called_with e \<noteq> None) (image_mset QueryCall M) = image_mset QueryCall M"
    by (induction M) simp_all
  moreover have "filter_mset (\<lambda>e. called_with e \<noteq> None) (image_mset (outcome_line ask) M) = {#}"
    by (induction M) (simp_all add: no_call_in_outcome)
  ultimately show ?thesis
    unfolding query_calls_mset assms by (simp add: multiset.map_comp comp_def)
qed

text \<open>C24: Whatever the order in which the goroutines run, at most \<open>Parallelism\<close> of them are at work, and
  when the replay ends \<open>Query\<close> has been called with exactly the requests that were started, a prefix of the
  schedule, once for each, and each has one line in the log that tells how it ended: refused, not fetched to the end, or
  done with all rows of its pages counted. Without capacity nothing is ever sent.\<close>

theorem replay_sends:
  assumes "pool_steps cap (run_query_frame ask) log_event (pool_start [] (query_frame_scheduler header cancelled fs)) p"
  shows "length (working p) \<le> cap \<and> prefix (started p) (query_frame_scheduler header cancelled fs)
    \<and> (closed p \<longrightarrow> query_calls (shared p) = mset (started p)
        \<and> mset (shared p) = image_mset QueryCall (mset (started p)) + image_mset (outcome_line ask) (mset (started p)))
    \<and> (cap = 0 \<longrightarrow> shared p = [])"
proof -
  have fold: "fold add_mset rs M = mset rs + M" for rs :: "replay_event list" and M
    by (induction rs arbitrary: M) simp_all
  have "mset (shared p) = image_mset QueryCall (mset (started p)) + image_mset (outcome_line ask) (mset (started p))" if "closed p"
    using replay.closed_result [OF assms that] by (simp add: all_events fold)
  moreover have "shared p = []" if "cap = 0"
    using assms no_capacity unfolding that by fastforce
  ultimately show ?thesis using pool_bound [OF assms] all_query_calls by blast
qed

section \<open>Example\<close>

definition demo_frame :: "string \<Rightarrow> int \<Rightarrow> string \<Rightarrow> query_frame" where
  "demo_frame i t props = \<lparr>frame_id = i, create_time = t, wall_millis = 0, output_rows = 0, written_rows = 0,
     frame_catalog = ''c'', frame_schema = ''s'', session_properties = props, frame_query = ''SELECT 1''\<rparr>"

definition demo_frames :: "query_frame list" where
  "demo_frames = [demo_frame ''q1'' 100 ''{}'', demo_frame ''q2'' 130 ''{a=b}'', demo_frame ''q3'' 120 ''{a=b}'', demo_frame ''q4'' 150 ''{}'']"

definition demo_header :: "(string \<rightharpoonup> string) \<Rightarrow> string" where
  "demo_header m = (case m ''a'' of None \<Rightarrow> '''' | Some v \<Rightarrow> ''a='' @ v)"

theorem replay_schedule_witness:
  "sum_list (map req_pause (query_frame_scheduler demo_header (\<lambda>_. False) demo_frames)) = 50
    \<and> length (query_frame_scheduler demo_header (\<lambda>_. False) demo_frames) = 4"
proof -
  have a: "\<forall>f \<in> set demo_frames. create_time f < create_time (hd demo_frames) + 2 ^ 63" and b: "demo_frames \<noteq> []"
    by (simp_all add: demo_frames_def demo_frame_def)
  note r = replay_schedule [OF a b, of demo_header "\<lambda>_. False"]
  have n: "length (query_frame_scheduler demo_header (\<lambda>_. False) demo_frames) = 4"
    using r by (simp add: going_on_def demo_frames_def)
  have "Max (create_time ` set (take (Suc 3) demo_frames)) = 150" "create_time (hd demo_frames) = 100"
    by (simp_all add: demo_frames_def demo_frame_def)
  with r n show ?thesis by (auto dest!: spec [of _ 3])
qed

text \<open>The second query is refused; the others bring two pages.\<close>

definition demo_ask :: "replay_request \<Rightarrow> (nat list \<times> bool) option" where
  "demo_ask r = (if req_source r = ''q2'' then None else Some ([2, 3], True))"

theorem replay_sends_witness:
  "\<exists>p. pool_steps 2 (run_query_frame demo_ask) log_event (pool_start [] (query_frame_scheduler demo_header (\<lambda>_. False) demo_frames)) p
    \<and> closed p \<and> query_calls (shared p) = mset (query_frame_scheduler demo_header (\<lambda>_. False) demo_frames)
    \<and> QueryRefused ''q2'' \<in># mset (shared p) \<and> QueryDone ''q4'' 5 \<in># mset (shared p)"
proof -
  let ?ts = "query_frame_scheduler demo_header (\<lambda>_. False) demo_frames"
  let ?q = "(pool_start [] ?ts)\<lparr>unscheduled := [], started := ?ts,
      shared := fold log_event (concat (map (run_query_frame demo_ask) ?ts)) [], closed := True\<rparr>"
  obtain q where run: "pool_steps 2 (run_query_frame demo_ask) log_event (pool_start [] ?ts) q" and q: "closed q" "started q = ?ts"
    by (rule that [of ?q]) (rule sequential_run, simp_all)
  have lines: "QueryRefused ''q2'' \<in> set (map (outcome_line demo_ask) ?ts)" "QueryDone ''q4'' 5 \<in> set (map (outcome_line demo_ask) ?ts)"
    by code_simp+
  have "query_calls (shared q) = mset ?ts"
    and es: "mset (shared q) = image_mset QueryCall (mset ?ts) + image_mset (outcome_line demo_ask) (mset ?ts)"
    using replay_sends [OF run] q by simp_all
  moreover have "QueryRefused ''q2'' \<in># mset (shared q)" "QueryDone ''q4'' 5 \<in># mset (shared q)"
    using lines unfolding es by simp_all
  ultimately show ?thesis using run q(1) by blast
qed

end
