(* ===== verification/LoadJson.thy ===== *)
theory LoadJson
  imports TaskPool Recorders Utils
begin

text \<open>
  The command \<open>loadjson\<close>, \<open>cmd/loadjson/main.go\<close>: files with the JSON of queries are read by a pool of
  goroutines, inserted into a database and recorded as if they were the queries of a run. The
  goroutines share the times of the run, the results, and the recorders. \<open>cmd/loadjson/synced_time.go\<close>
  makes an access to a time atomic.
\<close>

section \<open>Query files\<close>

text \<open>The parts of \<open>queryjson.QueryInfo\<close> that the command reads. The error code is a pointer, and so is
  the name in it.\<close>

record load_stats =
  created_at :: "int option"
  ended_at :: "int option"
  output_positions :: nat

record load_info =
  li_id :: string
  li_text :: string
  li_self :: string
  li_stats :: "load_stats option"
  li_error :: "string option option"

datatype load_recorder = ToFile | ToInflux | ToMySql | ToNothing

record load_config =
  load_name :: string
  load_record :: bool
  load_output :: string
  load_extract :: bool
  load_mysql :: bool
  load_recorders :: "load_recorder list"

text \<open>\<open>prepare_info\<close> is \<open>PrepareForInsert\<close> of the library, with the assembled plan; \<open>insert_info\<close> tells
  whether \<open>SqlInsertObject\<close> succeeds. \<open>create_plan\<close> tells whether \<open>os.Create\<close> succeeds, and \<open>plan_bytes\<close> how many
  bytes of a text \<open>WriteString\<close> writes to a file before an error.\<close>

record load_host =
  read_json :: "string \<Rightarrow> string option"
  parse_json :: "string \<Rightarrow> load_info option"
  prepare_info :: "load_info \<Rightarrow> (load_info \<times> string) option"
  create_plan :: "string \<Rightarrow> bool"
  plan_bytes :: "string \<Rightarrow> string \<Rightarrow> nat"
  insert_info :: "load_info \<Rightarrow> bool"

text \<open>What the goroutines share; \<open>plan_files\<close> are the contents of the files. A statement to update the run takes the counters that were read before it.\<close>

record load_state =
  run_start :: int
  run_end :: int
  load_results :: "query_result list"
  plan_files :: "string \<rightharpoonup> string"
  inserted_infos :: "load_info list"
  summary_buf :: string
  my_counts :: mysql_recorder
  influx_counts :: influx_recorder
  my_rows :: "query_result list"
  influx_points :: "query_result list"
  totals_read :: "string \<Rightarrow> nat \<times> nat"
  my_totals :: "nat \<times> nat"
  crashed :: bool

datatype load_effect =
    SyncStart int | SyncEnd int | CreatePlan string | WritePlan string string | InsertInfo load_info
  | CsvText string
  | CountMySql query_result | InsertRow query_result | ReadTotals string | UpdateTotals string
  | CountInflux query_result | SendPoint query_result
  | SendResult query_result | Crash

text \<open>\<open>os.Create\<close> empties a file that exists. The text is written from the start of the file: what another
  goroutine has written behind its end since then stays.\<close>

fun apply_load :: "load_effect \<Rightarrow> load_state \<Rightarrow> load_state" where
  "apply_load (SyncStart t) s = (if t < run_start s then s\<lparr>run_start := t\<rparr> else s)"
| "apply_load (SyncEnd t) s = (if run_end s < t then s\<lparr>run_end := t\<rparr> else s)"
| "apply_load (CreatePlan path) s = s\<lparr>plan_files := (plan_files s)(path \<mapsto> [])\<rparr>"
| "apply_load (WritePlan path text) s =
     s\<lparr>plan_files := (plan_files s)(path := map_option (\<lambda>old. text @ drop (length text) old) (plan_files s path))\<rparr>"
| "apply_load (InsertInfo i) s = s\<lparr>inserted_infos := inserted_infos s @ [i]\<rparr>"
| "apply_load (CsvText t) s = s\<lparr>summary_buf := summary_buf s @ t\<rparr>"
| "apply_load (CountMySql q) s = s\<lparr>my_counts := mysql_count q (my_counts s)\<rparr>"
| "apply_load (InsertRow q) s = s\<lparr>my_rows := my_rows s @ [q]\<rparr>"
| "apply_load (ReadTotals path) s =
     s\<lparr>totals_read := (totals_read s)(path := (my_failed (my_counts s), my_mismatch (my_counts s)))\<rparr>"
| "apply_load (UpdateTotals path) s = s\<lparr>my_totals := totals_read s path\<rparr>"
| "apply_load (CountInflux q) s = s\<lparr>influx_counts := influx_count q (influx_counts s)\<rparr>"
| "apply_load (SendPoint q) s = s\<lparr>influx_points := influx_points s @ [q]\<rparr>"
| "apply_load (SendResult q) s = s\<lparr>load_results := load_results s @ [q]\<rparr>"
| "apply_load Crash s = s\<lparr>crashed := True\<rparr>"

section \<open>One file\<close>

text \<open>The result that stands for a query, and \<open>None\<close> for the panic on an error code without a name.\<close>

definition load_result :: "load_config \<Rightarrow> string \<Rightarrow> load_info \<Rightarrow> load_stats \<Rightarrow> int \<Rightarrow> query_result option" where
  "load_result cfg path i st t =
     (case li_error i of
        Some None \<Rightarrow> None
      | e \<Rightarrow>
          Some \<lparr>StageId = ''load_json'',
            Query = \<lparr>Text = li_text i, File = Some (base path), Index = 0, BatchSize = 0, ColdRun = True, SequenceNo = 0, ExpectedRowCount = -1\<rparr>,
            QueryId = (if load_record cfg then load_name cfg @ ''_'' @ li_id i else li_id i), InfoUrl = li_self i,
            QueryError = (case e of Some (Some name) \<Rightarrow> Some (Plain name) | _ \<Rightarrow> None),
            RowCount = output_positions st, StartTime = t, EndTime = ended_at st,
            Duration = map_option (\<lambda>u. time_sub u t) (ended_at st)\<rparr>)"

text \<open>The calls of the \<open>csv.Writer\<close> on its buffer for one record: it is not locked.\<close>

fun csv_pieces :: "string list \<Rightarrow> string list" where
  "csv_pieces [] = [[newline]]"
| "csv_pieces [f] = [csv_field f, [newline]]"
| "csv_pieces (f # fs) = csv_field f # '','' # csv_pieces fs"

definition record_effects :: "'w rec_host \<Rightarrow> string \<Rightarrow> query_result \<Rightarrow> load_recorder \<Rightarrow> load_effect list" where
  "record_effects rh path q r =
     (case r of
        ToFile \<Rightarrow> map CsvText (csv_pieces (csv_row rh q))
      | ToMySql \<Rightarrow> [CountMySql q, InsertRow q, ReadTotals path, UpdateTotals path]
      | ToInflux \<Rightarrow> [CountInflux q, SendPoint q]
      | ToNothing \<Rightarrow> [])"

definition plan_file :: "load_config \<Rightarrow> string \<Rightarrow> string" where
  "plan_file cfg path = path_join (load_output cfg) (take (length (base path) - length (ext (base path))) (base path) @ ''.plan.json'')"

text \<open>\<open>processFile\<close> from the point where the file has been found valid, and from the point where it has
  been prepared.\<close>

definition store_info :: "'w rec_host \<Rightarrow> load_host \<Rightarrow> load_config \<Rightarrow> string \<Rightarrow> load_info \<Rightarrow> string \<Rightarrow> query_result \<Rightarrow> load_effect list" where
  "store_info rh h cfg path i plan q =
     (if load_extract cfg \<and> create_plan h (plan_file cfg path) 
      then [CreatePlan (plan_file cfg path), WritePlan (plan_file cfg path) (take (plan_bytes h (plan_file cfg path) plan) plan)] else [])
     @ (if load_mysql cfg \<and> \<not> insert_info h i then []
        else (if load_mysql cfg then [InsertInfo i] else [])
          @ concat (map (record_effects rh path q) (load_recorders cfg))
          @ [SendResult q])"

definition process_info :: "'w rec_host \<Rightarrow> load_host \<Rightarrow> load_config \<Rightarrow> string \<Rightarrow> load_info \<Rightarrow> query_result \<Rightarrow> load_effect list" where
  "process_info rh h cfg path i q =
     [SyncStart (StartTime q)]
     @ (case EndTime q of None \<Rightarrow> [] | Some t \<Rightarrow> [SyncEnd t])
     @ (case (if load_mysql cfg \<or> load_extract cfg then prepare_info h i else Some (i, [])) of
          None \<Rightarrow> []
        | Some (i', plan) \<Rightarrow> store_info rh h cfg path i' plan q)"

text \<open>What is demanded of a file: an id, statistics and a creation time.\<close>

definition valid_info :: "load_host \<Rightarrow> string \<Rightarrow> (load_info \<times> load_stats \<times> int) option" where
  "valid_info h path =
     (case read_json h path of
        None \<Rightarrow> None
      | Some bytes \<Rightarrow>
          (case parse_json h bytes of
             None \<Rightarrow> None
           | Some i \<Rightarrow>
               (if li_id i = [] then None
                else case li_stats i of
                       None \<Rightarrow> None
                     | Some st \<Rightarrow> (case created_at st of None \<Rightarrow> None | Some t \<Rightarrow> Some (i, st, t)))))"

definition process_json_file :: "'w rec_host \<Rightarrow> load_host \<Rightarrow> load_config \<Rightarrow> string \<Rightarrow> load_effect list" where
  "process_json_file rh h cfg path =
     (case valid_info h path of
        None \<Rightarrow> []
      | Some (i, st, t) \<Rightarrow>
          (let i' = (if load_record cfg then i\<lparr>li_id := load_name cfg @ ''_'' @ li_id i\<rparr> else i) in
           case load_result cfg path i st t of
             None \<Rightarrow> [Crash]
           | Some q \<Rightarrow> process_info rh h cfg path i' q))"

section \<open>The files\<close>

text \<open>\<open>processPath\<close>: what \<open>stat\<close> says of a path, and the entries of a directory.\<close>

definition process_load_path ::
  "string option \<Rightarrow> (string \<Rightarrow> bool option) \<Rightarrow> (string \<Rightarrow> (string \<times> bool) list option) \<Rightarrow> string \<Rightarrow> string list" where
  "process_load_path home is_dir ls arg =
     (let path = expand_home home arg in
      case is_dir path of
        None \<Rightarrow> []
      | Some False \<Rightarrow> [path]
      | Some True \<Rightarrow>
          (case ls path of
             None \<Rightarrow> []
           | Some es \<Rightarrow> map (\<lambda>e. path_join path (fst e)) (filter (\<lambda>e. \<not> snd e) es)))"

definition load_files ::
  "string option \<Rightarrow> (string \<Rightarrow> bool option) \<Rightarrow> (string \<Rightarrow> (string \<times> bool) list option) \<Rightarrow> string list \<Rightarrow> string list" where
  "load_files home is_dir ls args = concat (map (process_load_path home is_dir ls) args)"

text \<open>The state at the start, at time \<open>t0\<close> and with the files \<open>fs\<close>: the end of the run starts at the epoch.\<close>

definition load_start :: "int \<Rightarrow> (string \<rightharpoonup> string) \<Rightarrow> load_state" where
  "load_start t0 fs =
     \<lparr>run_start = t0, run_end = 0, load_results = [], plan_files = fs, inserted_infos = [], summary_buf = csv_record csv_header,
      my_counts = \<lparr>run_id = -1, my_failed = 0, my_mismatch = 0\<rparr>, influx_counts = \<lparr>influx_failed = 0, influx_mismatch = 0\<rparr>,
      my_rows = [], influx_points = [], totals_read = (\<lambda>_. (0, 0)), my_totals = (0, 0), crashed = False\<rparr>"

text \<open>The end of \<open>Run\<close>: the run gets the times of its queries, then the recorders get the run.\<close>

definition finish_load :: "run_info \<Rightarrow> load_state \<Rightarrow> run_info" where
  "finish_load i s = i\<lparr>info_start := run_start s, info_finish := run_end s\<rparr>"

section \<open>The effects commute\<close>

text \<open>What is left when the order of the results, rows and points is forgotten, and the buffer of the
  summary, the totals in the database and the plan files: these depend on the order.\<close>

record load_view =
  v_start :: int
  v_end :: int
  v_results :: "query_result multiset"
  v_infos :: "load_info multiset"
  v_my :: mysql_recorder
  v_influx :: influx_recorder
  v_rows :: "query_result multiset"
  v_points :: "query_result multiset"
  v_crashed :: bool

definition view_of :: "load_state \<Rightarrow> load_view" where
  "view_of s = \<lparr>v_start = run_start s, v_end = run_end s, v_results = mset (load_results s),
     v_infos = mset (inserted_infos s), v_my = my_counts s, v_influx = influx_counts s, v_rows = mset (my_rows s),
     v_points = mset (influx_points s), v_crashed = crashed s\<rparr>"

fun view_effect :: "load_effect \<Rightarrow> load_view \<Rightarrow> load_view" where
  "view_effect (SyncStart t) v = v\<lparr>v_start := min t (v_start v)\<rparr>"
| "view_effect (SyncEnd t) v = v\<lparr>v_end := max t (v_end v)\<rparr>"
| "view_effect (InsertInfo i) v = v\<lparr>v_infos := add_mset i (v_infos v)\<rparr>"
| "view_effect (CountMySql q) v = v\<lparr>v_my := mysql_count q (v_my v)\<rparr>"
| "view_effect (InsertRow q) v = v\<lparr>v_rows := add_mset q (v_rows v)\<rparr>"
| "view_effect (CountInflux q) v = v\<lparr>v_influx := influx_count q (v_influx v)\<rparr>"
| "view_effect (SendPoint q) v = v\<lparr>v_points := add_mset q (v_points v)\<rparr>"
| "view_effect (SendResult q) v = v\<lparr>v_results := add_mset q (v_results v)\<rparr>"
| "view_effect Crash v = v\<lparr>v_crashed := True\<rparr>"
| "view_effect _ v = v"

lemma count_commute:
  "mysql_count q (mysql_count r m) = mysql_count r (mysql_count q m)"
  "influx_count q (influx_count r c) = influx_count r (influx_count q c)"
  by (simp_all add: mysql_count_def influx_count_def Let_def)

lemma view_load: "view_of (apply_load e s) = view_effect e (view_of s)"
  by (cases e) (simp_all add: view_of_def)

lemma view_commute: "view_effect e (view_effect f v) = view_effect f (view_effect e v)"
  by (cases e; cases f) (simp_all add: count_commute add_mset_commute min.left_commute max.left_commute)

interpretation load: task_pool apply_load view_of view_effect
  by unfold_locales (rule view_load, rule view_commute)

section \<open>What the effects of a file add up to\<close>

definition picks :: "('e \<Rightarrow> 'a option) \<Rightarrow> 'e list \<Rightarrow> 'a list" where
  "picks f es = concat (map (\<lambda>e. case f e of None \<Rightarrow> [] | Some x \<Rightarrow> [x]) es)"

lemma picks_simps [simp]:
  "picks f [] = []"
  "picks f (e # es) = (case f e of None \<Rightarrow> [] | Some x \<Rightarrow> [x]) @ picks f es"
  "picks f (es @ fs) = picks f es @ picks f fs"
  by (simp_all add: picks_def)

lemma picks_concat: "picks f (concat ess) = concat (map (picks f) ess)"
  by (induction ess) simp_all

fun sync_start :: "load_effect \<Rightarrow> int option" where
  "sync_start (SyncStart t) = Some t"
| "sync_start _ = None"

fun sync_end :: "load_effect \<Rightarrow> int option" where
  "sync_end (SyncEnd t) = Some t"
| "sync_end _ = None"

fun sent_result :: "load_effect \<Rightarrow> query_result option" where
  "sent_result (SendResult q) = Some q"
| "sent_result _ = None"

fun counted :: "load_effect \<Rightarrow> query_result option" where
  "counted (CountMySql q) = Some q"
| "counted _ = None"

fun inserted_row :: "load_effect \<Rightarrow> query_result option" where
  "inserted_row (InsertRow q) = Some q"
| "inserted_row _ = None"

lemmas pick_funs = sync_start.simps sync_end.simps sent_result.simps counted.simps inserted_row.simps

lemma fold_view:
  "v_start (fold view_effect es v) = fold min (picks sync_start es) (v_start v)"
  "v_end (fold view_effect es v) = fold max (picks sync_end es) (v_end v)"
  "v_results (fold view_effect es v) = mset (picks sent_result es) + v_results v"
  "v_my (fold view_effect es v) = fold mysql_count (picks counted es) (v_my v)"
  "v_rows (fold view_effect es v) = mset (picks inserted_row es) + v_rows v"
  "v_crashed (fold view_effect es v) \<longleftrightarrow> v_crashed v \<or> Crash \<in> set es"
proof -
  have step: "v_start (view_effect e v) = (case sync_start e of None \<Rightarrow> v_start v | Some t \<Rightarrow> min t (v_start v))"
    "v_end (view_effect e v) = (case sync_end e of None \<Rightarrow> v_end v | Some t \<Rightarrow> max t (v_end v))"
    "v_results (view_effect e v) = (case sent_result e of None \<Rightarrow> v_results v | Some q \<Rightarrow> add_mset q (v_results v))"
    "v_my (view_effect e v) = (case counted e of None \<Rightarrow> v_my v | Some q \<Rightarrow> mysql_count q (v_my v))"
    "v_rows (view_effect e v) = (case inserted_row e of None \<Rightarrow> v_rows v | Some q \<Rightarrow> add_mset q (v_rows v))"
    "v_crashed (view_effect e v) \<longleftrightarrow> v_crashed v \<or> e = Crash" for e v
    by (cases e; simp)+
  show "v_start (fold view_effect es v) = fold min (picks sync_start es) (v_start v)"
    by (induction es arbitrary: v) (simp_all add: step split: option.split)
  show "v_end (fold view_effect es v) = fold max (picks sync_end es) (v_end v)"
    by (induction es arbitrary: v) (simp_all add: step split: option.split)
  show "v_results (fold view_effect es v) = mset (picks sent_result es) + v_results v"
    by (induction es arbitrary: v) (simp_all add: step split: option.split)
  show "v_my (fold view_effect es v) = fold mysql_count (picks counted es) (v_my v)"
    by (induction es arbitrary: v) (simp_all add: step split: option.split)
  show "v_rows (fold view_effect es v) = mset (picks inserted_row es) + v_rows v"
    by (induction es arbitrary: v) (simp_all add: step split: option.split)
  show "v_crashed (fold view_effect es v) \<longleftrightarrow> v_crashed v \<or> Crash \<in> set es"
    by (induction es arbitrary: v) (auto simp: step)
qed

text \<open>The result of a valid file, and of one that is stored.\<close>

definition accepted :: "load_host \<Rightarrow> load_config \<Rightarrow> string \<Rightarrow> query_result list" where
  "accepted h cfg path =
     (case valid_info h path of None \<Rightarrow> []
      | Some (i, st, t) \<Rightarrow> (case load_result cfg path i st t of None \<Rightarrow> [] | Some q \<Rightarrow> [q]))"

definition info_stored :: "load_host \<Rightarrow> load_config \<Rightarrow> load_info \<Rightarrow> bool" where
  "info_stored h cfg i \<longleftrightarrow>
     (load_mysql cfg \<or> load_extract cfg \<longrightarrow> prepare_info h i \<noteq> None)
     \<and> (load_mysql cfg \<longrightarrow> insert_info h (fst (the (prepare_info h i))))"

definition is_stored :: "load_host \<Rightarrow> load_config \<Rightarrow> string \<Rightarrow> bool" where
  "is_stored h cfg path \<longleftrightarrow>
     (case valid_info h path of None \<Rightarrow> False
      | Some (i, st, t) \<Rightarrow> info_stored h cfg (if load_record cfg then i\<lparr>li_id := load_name cfg @ ''_'' @ li_id i\<rparr> else i))"

definition stored :: "load_host \<Rightarrow> load_config \<Rightarrow> string \<Rightarrow> query_result list" where
  "stored h cfg path = (if is_stored h cfg path then accepted h cfg path else [])"

lemma picks_csv: "picks f (map CsvText ts) = []" if "\<And>t. f (CsvText t) = None" for f :: "load_effect \<Rightarrow> 'a option"
  by (induction ts) (simp_all add: that)

lemma picks_recorders:
  "picks sync_start (concat (map (record_effects rh path q) rs)) = []"
  "picks sync_end (concat (map (record_effects rh path q) rs)) = []"
  "picks sent_result (concat (map (record_effects rh path q) rs)) = []"
  "picks counted (concat (map (record_effects rh path q) rs)) = replicate (count_list rs ToMySql) q"
  "picks inserted_row (concat (map (record_effects rh path q) rs)) = replicate (count_list rs ToMySql) q"
  by (induction rs) (auto simp: record_effects_def picks_csv split: load_recorder.split)

lemma replicate_one: "concat (replicate n [q]) = replicate n q" for q :: query_result
  by (induction n) simp_all

lemma store_picks:
  "picks sync_start (store_info rh h cfg path i plan q) = []"
  "picks sync_end (store_info rh h cfg path i plan q) = []"
  "picks sent_result (store_info rh h cfg path i plan q) = (if load_mysql cfg \<and> \<not> insert_info h i then [] else [q])"
  "picks counted (store_info rh h cfg path i plan q)
     = (if load_mysql cfg \<and> \<not> insert_info h i then [] else replicate (count_list (load_recorders cfg) ToMySql) q)"
  "picks inserted_row (store_info rh h cfg path i plan q)
     = (if load_mysql cfg \<and> \<not> insert_info h i then [] else replicate (count_list (load_recorders cfg) ToMySql) q)"
  by (simp_all add: store_info_def picks_recorders)

lemma info_picks:
  "picks sync_start (process_info rh h cfg path i q) = [StartTime q]"
  "picks sync_end (process_info rh h cfg path i q) = (case EndTime q of None \<Rightarrow> [] | Some t \<Rightarrow> [t])"
  "picks sent_result (process_info rh h cfg path i q) = (if info_stored h cfg i then [q] else [])"
  "picks counted (process_info rh h cfg path i q)
     = (if info_stored h cfg i then replicate (count_list (load_recorders cfg) ToMySql) q else [])"
  "picks inserted_row (process_info rh h cfg path i q)
     = (if info_stored h cfg i then replicate (count_list (load_recorders cfg) ToMySql) q else [])"
  by (cases "EndTime q"; cases "prepare_info h i"; auto simp: process_info_def info_stored_def store_picks)+

lemma file_effects:
  "picks sync_start (process_json_file rh h cfg path) = map StartTime (accepted h cfg path)"
  "picks sync_end (process_json_file rh h cfg path) = picks EndTime (accepted h cfg path)"
  "picks sent_result (process_json_file rh h cfg path) = stored h cfg path"
  "picks counted (process_json_file rh h cfg path) = concat (replicate (count_list (load_recorders cfg) ToMySql) (stored h cfg path))"
  "picks inserted_row (process_json_file rh h cfg path) = concat (replicate (count_list (load_recorders cfg) ToMySql) (stored h cfg path))"
proof -
  have "picks sync_start (process_json_file rh h cfg path) = map StartTime (accepted h cfg path)
    \<and> picks sync_end (process_json_file rh h cfg path) = picks EndTime (accepted h cfg path)
    \<and> picks sent_result (process_json_file rh h cfg path) = stored h cfg path
    \<and> picks counted (process_json_file rh h cfg path) = concat (replicate (count_list (load_recorders cfg) ToMySql) (stored h cfg path))
    \<and> picks inserted_row (process_json_file rh h cfg path) = concat (replicate (count_list (load_recorders cfg) ToMySql) (stored h cfg path))"
  proof (cases "valid_info h path")
    case None
    then show ?thesis by (simp add: process_json_file_def accepted_def stored_def is_stored_def)
  next
    case (Some v)
    obtain i st t where v: "v = (i, st, t)" by (cases v)
    show ?thesis
      by (cases "load_result cfg path i st t")
        (simp_all add: process_json_file_def accepted_def stored_def is_stored_def Some v Let_def info_picks replicate_one)
  qed
  then show
    "picks sync_start (process_json_file rh h cfg path) = map StartTime (accepted h cfg path)"
    "picks sync_end (process_json_file rh h cfg path) = picks EndTime (accepted h cfg path)"
    "picks sent_result (process_json_file rh h cfg path) = stored h cfg path"
    "picks counted (process_json_file rh h cfg path) = concat (replicate (count_list (load_recorders cfg) ToMySql) (stored h cfg path))"
    "picks inserted_row (process_json_file rh h cfg path) = concat (replicate (count_list (load_recorders cfg) ToMySql) (stored h cfg path))"
    by blast+
qed

lemma my_failed_fold: "my_failed (fold mysql_count qs m) = my_failed m + count_of (\<lambda>q. QueryError q \<noteq> None) qs"
  by (induction qs arbitrary: m) (simp_all add: mysql_count_def Let_def)

section \<open>Panics and plan files\<close>

text \<open>A valid query whose error code has no name makes the command panic.\<close>

definition load_panics :: "load_host \<Rightarrow> string \<Rightarrow> bool" where
  "load_panics h path \<longleftrightarrow> (case valid_info h path of None \<Rightarrow> False | Some (i, st, t) \<Rightarrow> li_error i = Some None)"

lemma load_result_None: "load_result cfg path i st t = None \<longleftrightarrow> li_error i = Some None"
  by (simp add: load_result_def split: option.split)

lemma no_crash: "Crash \<notin> set (process_info rh h cfg path i q)"
  by (auto simp: process_info_def store_info_def record_effects_def split: option.splits load_recorder.splits if_splits)

lemma crash_effects: "Crash \<in> set (process_json_file rh h cfg path) \<longleftrightarrow> load_panics h path"
proof (cases "valid_info h path")
  case None
  then show ?thesis by (simp add: process_json_file_def load_panics_def)
next
  case (Some v)
  obtain i st t where v: "v = (i, st, t)" by (cases v)
  show ?thesis
    using load_result_None [of cfg path i st t]
    by (cases "load_result cfg path i st t") (simp_all add: process_json_file_def load_panics_def Some v Let_def no_crash)
qed

text \<open>The text that is to be in the plan file of a path, and \<open>None\<close> if the file is not written: the file was not
  valid, could not be prepared, or the plan file could not be created.\<close>

definition plan_text :: "load_host \<Rightarrow> load_config \<Rightarrow> string \<Rightarrow> string option" where
  "plan_text h cfg path =
     (case valid_info h path of None \<Rightarrow> None
      | Some (i, st, t) \<Rightarrow>
          if li_error i = Some None \<or> \<not> load_extract cfg \<or> \<not> create_plan h (plan_file cfg path) then None
          else map_option (\<lambda>(i', plan). take (plan_bytes h (plan_file cfg path) plan) plan)
                 (prepare_info h (if load_record cfg then i\<lparr>li_id := load_name cfg @ ''_'' @ li_id i\<rparr> else i)))"

fun plan_effect :: "string \<Rightarrow> load_effect \<Rightarrow> bool" where
  "plan_effect x (CreatePlan path) = (path = x)"
| "plan_effect x (WritePlan path text) = (path = x)"
| "plan_effect x _ = False"

fun plan_change :: "load_effect \<Rightarrow> string option \<Rightarrow> string option" where
  "plan_change (CreatePlan path) c = Some []"
| "plan_change (WritePlan path text) c = map_option (\<lambda>old. text @ drop (length text) old) c"
| "plan_change _ c = c"

lemma plan_still: "\<not> plan_effect x e \<Longrightarrow> plan_files (apply_load e s) x = plan_files s x"
  by (cases e) auto

lemma plan_move: "plan_effect x e \<Longrightarrow> plan_files (apply_load e s) x = plan_change e (plan_files s x)"
  by (cases e) auto

lemma plan_recorders: "filter (plan_effect x) (concat (map (record_effects rh path q) rs)) = []"
  by (induction rs) (auto simp: record_effects_def filter_empty_conv split: load_recorder.split)

lemma plan_store:
  "filter (plan_effect x) (store_info rh h cfg path i plan q) =
     (if load_extract cfg \<and> create_plan h (plan_file cfg path) \<and> plan_file cfg path = x
      then [CreatePlan x, WritePlan x (take (plan_bytes h (plan_file cfg path) plan) plan)] else [])"
  by (auto simp: store_info_def plan_recorders)

lemma plan_info:
  "filter (plan_effect x) (process_info rh h cfg path i q) =
     (case if \<not> load_extract cfg \<or> \<not> create_plan h (plan_file cfg path) then None
        else map_option (\<lambda>(i', plan). take (plan_bytes h (plan_file cfg path) plan) plan) (prepare_info h i) of
        None \<Rightarrow> []
      | Some text \<Rightarrow> if plan_file cfg path = x then [CreatePlan x, WritePlan x text] else [])"
proof -
  have ends: "filter (plan_effect x) (case EndTime q of None \<Rightarrow> [] | Some t \<Rightarrow> [SyncEnd t]) = []"
    by (cases "EndTime q") simp_all
  show ?thesis
  proof (cases "load_extract cfg")
    case True
    then show ?thesis
      by (cases "prepare_info h i") (auto simp: process_info_def ends plan_store)
  next
    case False
    then show ?thesis
      by (simp add: process_info_def ends plan_store split: option.split)
  qed
qed

lemma plan_effects:
  "filter (plan_effect x) (process_json_file rh h cfg path) =
     (case plan_text h cfg path of
        None \<Rightarrow> []
      | Some text \<Rightarrow> if plan_file cfg path = x then [CreatePlan x, WritePlan x text] else [])"
proof (cases "valid_info h path")
  case None
  then show ?thesis by (simp add: process_json_file_def plan_text_def)
next
  case (Some v)
  obtain i st t where v: "v = (i, st, t)" by (cases v)
  show ?thesis
  proof (cases "load_result cfg path i st t")
    case None
    then show ?thesis
      using load_result_None [of cfg path i st t] by (simp add: process_json_file_def plan_text_def Some v Let_def)
  next
    case (Some q)
    let ?i = "if load_record cfg then i\<lparr>li_id := load_name cfg @ ''_'' @ li_id i\<rparr> else i"
    have none: "li_error i \<noteq> Some None" using load_result_None [of cfg path i st t] Some by auto
    have p: "process_json_file rh h cfg path = process_info rh h cfg path ?i q"
      unfolding process_json_file_def \<open>valid_info h path = Some v\<close> v option.case prod.case Let_def Some ..
    have t: "plan_text h cfg path = (if \<not> load_extract cfg \<or> \<not> create_plan h (plan_file cfg path) then None
        else map_option (\<lambda>(i', plan). take (plan_bytes h (plan_file cfg path) plan) plan) (prepare_info h ?i))"
      unfolding plan_text_def \<open>valid_info h path = Some v\<close> v option.case prod.case using none by simp
    show ?thesis unfolding p t by (rule plan_info)
  qed
qed

lemma plan_one_toucher:
  assumes "length (filter (\<lambda>q. plan_file cfg q = x) ts) \<le> 1"
  shows "one_toucher (plan_effect x) (map (process_json_file rh h cfg) ts)"
proof -
  have none: "filter (plan_effect x) (concat (map (process_json_file rh h cfg) ts)) = []"
    if "filter (\<lambda>q. plan_file cfg q = x) ts = []" for ts
    using that by (induction ts) (auto simp: plan_effects split: if_splits option.splits)
  show ?thesis
    using assms by (induction ts) (auto simp: plan_effects none split: if_splits option.splits)
qed

lemma plan_all:
  "filter (plan_effect x) (concat (map (process_json_file rh h cfg) ts))
    = filter (plan_effect x) (concat (map (process_json_file rh h cfg) (filter (\<lambda>q. plan_file cfg q = x) ts)))"
  by (induction ts) (auto simp: plan_effects split: option.split)

lemma plan_result:
  assumes "pool_steps cap (process_json_file rh h cfg) apply_load (pool_start (load_start t0 fs) paths) p" and "closed p"
    and "filter (\<lambda>q. plan_file cfg q = x) (started p) = qs" and "length qs \<le> 1"
  shows "plan_files (shared p) x = (case qs of [] \<Rightarrow> fs x | q # _ \<Rightarrow> (case plan_text h cfg q of None \<Rightarrow> fs x | Some text \<Rightarrow> Some text))"
proof -
  have o: "one_toucher (plan_effect x) (map (process_json_file rh h cfg) (started p))"
    using assms(3,4) by (intro plan_one_toucher) simp
  have few: "filter (plan_effect x) (concat (map (process_json_file rh h cfg) (started p)))
      = filter (plan_effect x) (concat (map (process_json_file rh h cfg) qs))"
    using plan_all [of x rh h cfg "started p"] unfolding assms(3) .
  have all: "plan_files (shared p) x
      = fold plan_change (filter (plan_effect x) (concat (map (process_json_file rh h cfg) qs))) (plan_files (load_start t0 fs) x)"
    using one_writer_result [where touch = "plan_effect x" and part = "\<lambda>s. plan_files s x" and f = plan_change,
        OF assms(1,2) o plan_still plan_move]
    unfolding few .
  from assms(4) consider "qs = []" | q where "qs = [q]" by (cases qs) auto
  then show ?thesis
  proof cases
    case 1
    with all show ?thesis by (simp add: load_start_def)
  next
    case (2 q)
    have "q \<in> set (filter (\<lambda>q. plan_file cfg q = x) (started p))" unfolding assms(3) 2 by simp
    then have x: "plan_file cfg q = x" by simp
    show ?thesis
      unfolding all unfolding 2 by (cases "plan_text h cfg q") (simp_all add: plan_effects x load_start_def)
  qed
qed

section \<open>The loaded run\<close>

text \<open>C22: Loading ends, and its result does not depend on the order in which the goroutines run. There is no infinite
  run, and if the parallelism is positive and nothing can make a step, the command has read all files it was given or
  was interrupted. Then the run begins at the earliest creation of a valid query, and not after the start of the
  program; it ends at the latest end of one; the results are those of the stored files, each once; with a MySQL
  recorder their rows are inserted, and its counter of failures is their number. The plan file of an input is in
  the output directory and has its name with another ending. If only one input with this plan file was read, the file has
  the plan of this input, if it was to be written and could be created, and is otherwise as it was before; a
  file that is no plan file of an input is as it was before. A panic happens exactly for a query with an error code
  without a name.\<close>

theorem load_json_result:
  assumes "pool_steps cap (process_json_file rh h cfg) apply_load (pool_start (load_start t0 fs) paths) p"
  defines "s \<equiv> shared p" and "qs \<equiv> concat (map (stored h cfg) (started p))" and "valid \<equiv> concat (map (accepted h cfg) (started p))"
  shows "(\<nexists>g. g 0 = p \<and> (\<forall>k. pool_step cap (process_json_file rh h cfg) apply_load (g k) (g (Suc k))))
    \<and> (0 < cap \<and> (\<nexists>p'. pool_step cap (process_json_file rh h cfg) apply_load p p') \<longrightarrow> closed p)
    \<and> (\<forall>q. plan_file cfg q = path_join (load_output cfg) (file_name_without_path_and_ext q @ ''.plan.json''))
    \<and> (closed p \<longrightarrow>
        prefix (started p) paths
      \<and> run_start s = fold min (map StartTime valid) t0
      \<and> run_end s = fold max (picks EndTime valid) 0
      \<and> mset (load_results s) = mset qs
      \<and> (count_list (load_recorders cfg) ToMySql = 1 \<longrightarrow>
           mset (my_rows s) = mset qs \<and> my_failed (my_counts s) = count_of (\<lambda>q. QueryError q \<noteq> None) qs)
      \<and> (\<forall>x. x \<notin> plan_file cfg ` set (started p) \<longrightarrow> plan_files s x = fs x)
      \<and> (\<forall>x path. filter (\<lambda>q. plan_file cfg q = x) (started p) = [path] \<longrightarrow>
           plan_files s x = (case plan_text h cfg path of None \<Rightarrow> fs x | Some text \<Rightarrow> Some text))
      \<and> (crashed s \<longleftrightarrow> (\<exists>path \<in> set (started p). load_panics h path)))"
proof (intro conjI impI)
  show "\<nexists>g. g 0 = p \<and> (\<forall>k. pool_step cap (process_json_file rh h cfg) apply_load (g k) (g (Suc k)))"
    by (rule pool_no_infinite_run)
  show "closed p" if "0 < cap \<and> (\<nexists>p'. pool_step cap (process_json_file rh h cfg) apply_load p p')"
    using pool_progress [OF _ assms(1)] that by blast
  show "\<forall>q. plan_file cfg q = path_join (load_output cfg) (file_name_without_path_and_ext q @ ''.plan.json'')"
    by (simp add: plan_file_def file_name_without_path_and_ext_def Let_def)
  assume closed: "closed p"
  let ?es = "concat (map (process_json_file rh h cfg) (started p))"
  note view = load.closed_result [OF assms(1) closed]
  have fields: "run_start s = v_start (view_of s)" "run_end s = v_end (view_of s)" "mset (load_results s) = v_results (view_of s)"
    "my_counts s = v_my (view_of s)" "mset (my_rows s) = v_rows (view_of s)" "crashed s = v_crashed (view_of s)"
    by (simp_all add: view_of_def)
  have start: "v_start (view_of (load_start t0 fs)) = t0" "v_end (view_of (load_start t0 fs)) = 0"
    "v_results (view_of (load_start t0 fs)) = {#}" "v_rows (view_of (load_start t0 fs)) = {#}"
    "my_failed (v_my (view_of (load_start t0 fs))) = 0" "v_crashed (view_of (load_start t0 fs)) = False"
    by (simp_all add: view_of_def load_start_def)
  have es: "picks sync_start ?es = map StartTime valid" "picks sync_end ?es = picks EndTime valid" "picks sent_result ?es = qs"
    by (simp_all add: picks_concat file_effects comp_def valid_def qs_def map_concat)
  have my: "picks counted ?es = qs" "picks inserted_row ?es = qs" if "count_list (load_recorders cfg) ToMySql = 1"
    using that by (simp_all add: picks_concat file_effects comp_def qs_def)
  show "prefix (started p) paths" using pool_bound [OF assms(1)] by blast
  show "run_start s = fold min (map StartTime valid) t0" and "run_end s = fold max (picks EndTime valid) 0"
    and "mset (load_results s) = mset qs"
    unfolding fields view [folded s_def] fold_view start es by simp_all
  show "crashed s \<longleftrightarrow> (\<exists>path \<in> set (started p). load_panics h path)"
    unfolding fields view [folded s_def] fold_view start by (simp add: crash_effects)
  show "mset (my_rows s) = mset qs" "my_failed (my_counts s) = count_of (\<lambda>q. QueryError q \<noteq> None) qs"
    if "count_list (load_recorders cfg) ToMySql = 1"
    unfolding fields view [folded s_def] fold_view start my [OF that] my_failed_fold by simp_all
  show "\<forall>x. x \<notin> plan_file cfg ` set (started p) \<longrightarrow> plan_files s x = fs x"
  proof (intro allI impI)
    fix x assume "x \<notin> plan_file cfg ` set (started p)"
    then have "filter (\<lambda>q. plan_file cfg q = x) (started p) = []" by (auto simp: filter_empty_conv)
    from plan_result [OF assms(1) closed this] show "plan_files s x = fs x" by (simp add: s_def)
  qed
  show "\<forall>x path. filter (\<lambda>q. plan_file cfg q = x) (started p) = [path] \<longrightarrow>
      plan_files s x = (case plan_text h cfg path of None \<Rightarrow> fs x | Some text \<Rightarrow> Some text)"
    using plan_result [OF assms(1) closed] by (simp add: s_def)
qed

section \<open>What is not safe\<close>

lemma csv_pieces_record: "concat (csv_pieces fs) = csv_record fs"
  by (induction fs rule: csv_pieces.induct) (simp_all add: csv_record_def)

text \<open>The writer of the summary is shared without a lock: the records of two goroutines can be mixed.\<close>

lemma summary_mixed:
  "\<exists>p. pool_steps 2 (\<lambda>r. map CsvText (csv_pieces r)) apply_load (pool_start s [[''a'', ''b''], [''c'', ''d'']]) p
    \<and> closed p \<and> summary_buf (shared p) = summary_buf s @ ''ac,,bd'' @ [newline, newline]"
proof -
  let ?acts = "[Spawn, Spawn, Work 0, Work 1, Work 0, Work 1, Work 0, Work 1, Work 0, Work 1, Release 0, Release 0, Leave, Leave, Finish]"
  have plain: "csv_field ''a'' = ''a''" "csv_field ''b'' = ''b''" "csv_field ''c'' = ''c''" "csv_field ''d'' = ''d''"
    by code_simp+
  obtain p where p: "pool_run 2 (\<lambda>r. map CsvText (csv_pieces r)) apply_load ?acts (pool_start s [[''a'', ''b''], [''c'', ''d'']]) = Some p"
    and "closed p \<and> summary_buf (shared p) = summary_buf s @ ''ac,,bd'' @ [newline, newline]"
    by (simp add: pool_start_def plain)
  then show ?thesis using pool_run_steps [OF p] by blast
qed

text \<open>The counters of the MySQL recorder are atomic, but the statement takes values that were read
  before: the totals in the database can be those of an earlier state.\<close>

lemma stale_totals:
  assumes "QueryError q \<noteq> None" and "my_failed (my_counts s) = 0"
  shows "\<exists>p. pool_steps 2 (\<lambda>path. [CountMySql q, InsertRow q, ReadTotals path, UpdateTotals path]) apply_load (pool_start s [''a'', ''b'']) p
    \<and> closed p \<and> my_failed (my_counts (shared p)) = 2 \<and> fst (my_totals (shared p)) = 1"
proof -
  let ?acts = "[Spawn, Spawn, Work 0, Work 0, Work 0, Work 1, Work 1, Work 1, Work 1, Work 0, Release 0, Release 0, Leave, Leave, Finish]"
  obtain p where p: "pool_run 2 (\<lambda>path. [CountMySql q, InsertRow q, ReadTotals path, UpdateTotals path]) apply_load ?acts
      (pool_start s [''a'', ''b'']) = Some p"
    and "closed p \<and> my_failed (my_counts (shared p)) = 2 \<and> fst (my_totals (shared p)) = 1"
    using assms by (simp add: pool_start_def mysql_count_def Let_def)
  then show ?thesis using pool_run_steps [OF p] by blast
qed

text \<open>Two inputs with the same file name in different directories have the same plan file: one plan overwrites
  the other, or, if both files are created before the texts are written, the end of the longer one stays behind
  the shorter one.\<close>

lemma plans_mixed:
  "\<exists>p. pool_steps 2 (\<lambda>text. [CreatePlan f, WritePlan f text]) apply_load (pool_start (load_start t0 fs) [''[1,2]'', ''{}'']) p
    \<and> closed p \<and> plan_files (shared p) f = Some ''{},2]''"
proof -
  let ?acts = "[Spawn, Spawn, Work 0, Work 1, Work 0, Work 1, Release 0, Release 0, Leave, Leave, Finish]"
  obtain p where p: "pool_run 2 (\<lambda>text. [CreatePlan f, WritePlan f text]) apply_load ?acts
      (pool_start (load_start t0 fs) [''[1,2]'', ''{}'']) = Some p"
    and "closed p \<and> plan_files (shared p) f = Some ''{},2]''"
    by (simp add: pool_start_def load_start_def)
  then show ?thesis using pool_run_steps [OF p] by blast
qed

text \<open>A run without the end of any query ends in 1970: its duration is negative.\<close>

lemma no_end_negative:
  "run_start s = t \<Longrightarrow> run_end s = 0 \<Longrightarrow> 0 < t \<Longrightarrow> info_finish (finish_load i s) < info_start (finish_load i s)"
  by (simp add: finish_load_def)

section \<open>Example\<close>

definition demo_info :: "string \<Rightarrow> int \<Rightarrow> int option \<Rightarrow> string option option \<Rightarrow> load_info" where
  "demo_info i t e er = \<lparr>li_id = i, li_text = ''SELECT 1'', li_self = ''u'',
     li_stats = Some \<lparr>created_at = Some t, ended_at = e, output_positions = 1\<rparr>, li_error = er\<rparr>"

definition demo_load :: load_host where
  "demo_load = \<lparr>read_json = (\<lambda>p. if p = ''d/bad'' then None else Some p),
     parse_json = (\<lambda>b. if b = ''d/a'' then Some (demo_info ''q1'' 50 (Some 70) None)
        else if b = ''d/b'' then Some (demo_info ''q2'' 40 None (Some (Some ''FAILED''))) else None),
     prepare_info = (\<lambda>i. Some (i, ''plan '' @ li_id i)), create_plan = (\<lambda>_. True), plan_bytes = (\<lambda>_ text. length text), insert_info = (\<lambda>_. True)\<rparr>"

definition demo_load_config :: load_config where
  "demo_load_config = \<lparr>load_name = ''r'', load_record = True, load_output = ''o'', load_extract = True, load_mysql = True,
     load_recorders = [ToFile, ToMySql]\<rparr>"

definition demo_formats :: "unit rec_host" where
  "demo_formats =
     \<lparr>exec_sql = \<lambda>_ w. (SqlDone (None, 5) (None, 1), w), write_point = \<lambda>_ _ w. (None, w), write_file = \<lambda>_ _ w. (None, w),
      list_stacks = \<lambda>w. (None, w), export_stack = \<lambda>_ w. (None, w), now = \<lambda>w. (0, w), format_time = itoa, format_seconds = itoa\<rparr>"

theorem load_json_result_witness:
  "\<exists>p. pool_steps 2 (process_json_file demo_formats demo_load demo_load_config) apply_load (pool_start (load_start 100 Map.empty) [''d/a'', ''d/bad'', ''d/b'']) p
    \<and> closed p \<and> run_start (shared p) = 40 \<and> run_end (shared p) = 70 \<and> length (load_results (shared p)) = 2
    \<and> my_failed (my_counts (shared p)) = 1 \<and> plan_files (shared p) ''o/a.plan.json'' = Some ''plan r_q1'' \<and> \<not> crashed (shared p)"
proof -
  let ?body = "process_json_file demo_formats demo_load demo_load_config"
  let ?ts = "[''d/a'', ''d/bad'', ''d/b'']"
  obtain p where run: "pool_steps 2 ?body apply_load (pool_start (load_start 100 Map.empty) ?ts) p" and closed: "closed p" and all: "started p = ?ts"
    using sequential_run [of 2 ?body apply_load "load_start 100 Map.empty" ?ts] by force
  have qs: "map StartTime (concat (map (stored demo_load demo_load_config) ?ts)) = [50, 40]"
    "count_of (\<lambda>q. QueryError q \<noteq> None) (concat (map (stored demo_load demo_load_config) ?ts)) = 1"
    and valid: "map StartTime (concat (map (accepted demo_load demo_load_config) ?ts)) = [50, 40]"
    "picks EndTime (concat (map (accepted demo_load demo_load_config) ?ts)) = [70]"
    and mysql: "count_list (load_recorders demo_load_config) ToMySql = 1"
    and plan: "filter (\<lambda>q. plan_file demo_load_config q = ''o/a.plan.json'') ?ts = [''d/a'']"
    "plan_text demo_load demo_load_config ''d/a'' = Some ''plan r_q1''"
    and safe: "filter (load_panics demo_load) ?ts = []"
    by (code_simp)+
  note result = load_json_result [OF run]
  have r: "run_start (shared p) = fold min (map StartTime (concat (map (accepted demo_load demo_load_config) ?ts))) 100
      \<and> run_end (shared p) = fold max (picks EndTime (concat (map (accepted demo_load demo_load_config) ?ts))) 0
      \<and> mset (load_results (shared p)) = mset (concat (map (stored demo_load demo_load_config) ?ts))
      \<and> my_failed (my_counts (shared p)) = count_of (\<lambda>q. QueryError q \<noteq> None) (concat (map (stored demo_load demo_load_config) ?ts))"
    using result closed mysql unfolding all by blast
  have "plan_files (shared p) ''o/a.plan.json'' = (case plan_text demo_load demo_load_config ''d/a'' of None \<Rightarrow> None | Some text \<Rightarrow> Some text)"
    using result closed plan(1) unfolding all by blast
  then have f: "plan_files (shared p) ''o/a.plan.json'' = Some ''plan r_q1''" unfolding plan(2) option.case .
  have "crashed (shared p) \<longleftrightarrow> (\<exists>path \<in> set ?ts. load_panics demo_load path)"
    using result closed unfolding all by blast
  then have c: "\<not> crashed (shared p)" using safe unfolding filter_empty_conv by blast
  have "length (load_results (shared p)) = length (concat (map (stored demo_load demo_load_config) ?ts))"
    using r by (metis size_mset)
  also have "\<dots> = 2"
    using arg_cong [OF qs(1), of length] by (simp only: length_map) simp
  finally have "length (load_results (shared p)) = 2" .
  moreover have "run_start (shared p) = 40" "run_end (shared p) = 70" "my_failed (my_counts (shared p)) = 1"
    using r unfolding valid qs(2) by simp_all
  ultimately show ?thesis using run closed f c by blast
qed

end
