(* ===== verification/Unmarshal.thy ===== *)
theory Unmarshal
  imports GoBase
begin

text \<open>
  \<open>prestoapi/unmarshaller.go\<close>: the rows of a query result, arrays of JSON values, are written into Go
  values by reflection: columns into the fields of structures that are tagged with their names.
  Pointers that are nil are allocated, and a value that cannot be converted leaves its target alone.
\<close>

section \<open>Values\<close>

text \<open>What \<open>json.Unmarshal\<close> makes of a text when the target is \<open>any\<close>; \<open>'f\<close> are the 64-bit floating-point
  numbers.\<close>

datatype 'f json = JNull | JBool bool | JNum 'f | JStr string | JList "'f json list" | JObj "(string \<times> 'f json) list"

text \<open>The Go values that are written into, all of them settable. A pointer carries the zero value of
  what it points to; a structure its fields with their \<open>presto\<close> tags, empty for a field without one;
  a slice the zero value of its elements. The elements between the length and the capacity are taken to be zero: a slice
  that was shortened before, whose old elements \<open>SetLen\<close> would show again, is outside the model.\<close>

datatype 'f gval =
    GStr string | GInt int | GFloat 'f | GBool bool | GRaw string
  | GPtr "'f gval" "'f gval option"
  | GStruct "(string \<times> 'f gval) list"
  | GSlice "'f gval" "'f gval list"
  | GArray "'f gval" "'f gval list"

text \<open>What is needed of floating-point numbers, \<open>fmt.Sprint\<close> and the JSON parser.\<close>

record 'f host_values =
  trunc_float :: "'f \<Rightarrow> int"
  sprint :: "'f json \<Rightarrow> string"
  parse_value :: "string \<Rightarrow> 'f json option"

section \<open>Scalars\<close>

text \<open>\<open>Convert\<close> where \<open>CanConvert\<close> holds, and the fallback for strings.\<close>

fun convert_into :: "'f host_values \<Rightarrow> 'f json \<Rightarrow> 'f gval \<Rightarrow> 'f gval" where
  "convert_into h (JNum f) (GInt n) = GInt (trunc_float h f)"
| "convert_into h (JNum f) (GFloat g) = GFloat f"
| "convert_into h (JBool b) (GBool c) = GBool b"
| "convert_into h (JStr s) (GStr t) = GStr s"
| "convert_into h (JStr s) (GRaw t) = GRaw s"
| "convert_into h d (GStr t) = GStr (sprint h d)"
| "convert_into h d v = v"

fun unmarshal_scalar :: "'f host_values \<Rightarrow> 'f json \<Rightarrow> 'f gval \<Rightarrow> 'f gval" where
  "unmarshal_scalar h JNull v = v"
| "unmarshal_scalar h d (GPtr z None) = GPtr z (Some (unmarshal_scalar h d z))"
| "unmarshal_scalar h d (GPtr z (Some w)) = GPtr z (Some (unmarshal_scalar h d w))"
| "unmarshal_scalar h d v = convert_into h d v"

section \<open>Rows\<close>

text \<open>\<open>buildColumnMap\<close>: the index of a tag, the last one for a tag that is repeated; an element type that is
  a pointer to a structure counts as the structure. The cache only spares the work.\<close>

fun index_of_tag :: "nat \<Rightarrow> (string \<times> 'f gval) list \<Rightarrow> (string \<rightharpoonup> nat) \<Rightarrow> string \<rightharpoonup> nat" where
  "index_of_tag i [] m = m"
| "index_of_tag i ((tag, v) # fs) m = index_of_tag (Suc i) fs (if tag \<noteq> [] then m(tag \<mapsto> i) else m)"

fun struct_column_map :: "'f gval \<Rightarrow> string \<rightharpoonup> nat" where
  "struct_column_map (GStruct fs) = index_of_tag 0 fs Map.empty"
| "struct_column_map v = Map.empty"

definition build_column_map :: "'f gval \<Rightarrow> string \<rightharpoonup> nat" where
  "build_column_map v = struct_column_map (case v of GPtr z _ \<Rightarrow> z | w \<Rightarrow> w)"

text \<open>\<open>columnFieldIndexes\<close>, with \<open>None\<close> for \<open>-1\<close>.\<close>

definition column_field_indexes :: "(string \<rightharpoonup> nat) \<Rightarrow> string list \<Rightarrow> nat option list" where
  "column_field_indexes m columns = map m columns"

datatype um_error = BadJson | NotAPointer | NilPointer | NotATable

datatype um_outcome = UmOk | UmError um_error | UmPanic

text \<open>The loop of \<open>unmarshalRow\<close> from column \<open>j\<close> on. An index past the columns panics, and so does
  \<open>Field\<close> of what is not a structure.\<close>

fun set_fields :: "'f host_values \<Rightarrow> nat option list \<Rightarrow> nat \<Rightarrow> 'f json list \<Rightarrow> 'f gval \<Rightarrow> um_outcome \<times> 'f gval" where
  "set_fields h idx j [] v = (UmOk, v)"
| "set_fields h idx j (x # xs) v =
     (if x = JNull then set_fields h idx (Suc j) xs v
      else if length idx \<le> j then (UmPanic, v)
      else case idx ! j of
             None \<Rightarrow> set_fields h idx (Suc j) xs v
           | Some k \<Rightarrow>
               (case v of
                  GStruct fs \<Rightarrow>
                    set_fields h idx (Suc j) xs (GStruct (fs[k := (fst (fs ! k), unmarshal_scalar h x (snd (fs ! k)))]))
                | _ \<Rightarrow> (UmPanic, v)))"

text \<open>\<open>unmarshalRow\<close>: a row is converted as a whole into a string or a raw message. An array of JSON values
  replaces the prepared one, whatever its length, and null leaves no values.\<close>

definition unmarshal_row :: "'f host_values \<Rightarrow> nat option list \<Rightarrow> string \<Rightarrow> 'f gval \<Rightarrow> um_outcome \<times> 'f gval" where
  "unmarshal_row h idx raw v =
     (case v of
        GStr _ \<Rightarrow> (UmOk, GStr raw)
      | GRaw _ \<Rightarrow> (UmOk, GRaw raw)
      | _ \<Rightarrow>
          (case parse_value h raw of
             Some (JList xs) \<Rightarrow> set_fields h idx 0 xs v
           | Some JNull \<Rightarrow> (UmOk, v)
           | _ \<Rightarrow> (UmError BadJson, v)))"

text \<open>The loops over the rows, into a slice that grows and into an array.\<close>

fun fill_slice :: "'f host_values \<Rightarrow> nat option list \<Rightarrow> 'f gval \<Rightarrow> nat \<Rightarrow> string list \<Rightarrow> 'f gval list \<Rightarrow> um_outcome \<times> 'f gval list" where
  "fill_slice h idx z i [] vs = (UmOk, vs)"
| "fill_slice h idx z i (raw # raws) vs =
     (let vs1 = (if length vs \<le> i then vs @ replicate (Suc i - length vs) z else vs) in
      case unmarshal_row h idx raw (vs1 ! i) of
        (UmOk, v) \<Rightarrow> fill_slice h idx z (Suc i) raws (vs1[i := v])
      | (e, v) \<Rightarrow> (e, vs1[i := v]))"

fun fill_array :: "'f host_values \<Rightarrow> nat option list \<Rightarrow> nat \<Rightarrow> string list \<Rightarrow> 'f gval list \<Rightarrow> um_outcome \<times> 'f gval list" where
  "fill_array h idx i [] vs = (UmOk, vs)"
| "fill_array h idx i (raw # raws) vs =
     (if length vs \<le> i then (UmOk, vs)
      else (case unmarshal_row h idx raw (vs ! i) of
              (UmOk, v) \<Rightarrow> fill_array h idx (Suc i) raws (vs[i := v])
            | (e, v) \<Rightarrow> (e, vs[i := v])))"

text \<open>\<open>UnmarshalQueryData\<close>. A nil pointer inside an interface is not addressable.\<close>

definition unmarshal_query_data :: "'f host_values \<Rightarrow> string list \<Rightarrow> string list \<Rightarrow> 'f gval \<Rightarrow> um_outcome \<times> 'f gval" where
  "unmarshal_query_data h data columns v =
     (if data = [] then (UmOk, v)
      else case v of
        GPtr z None \<Rightarrow> (UmError NilPointer, v)
      | GPtr z (Some w) \<Rightarrow>
          (let idx = (\<lambda>t. column_field_indexes (build_column_map t) columns);
               back = (\<lambda>(e, w'). (e, GPtr z (Some w'))) in
           case w of
             GSlice (GRaw r) vs \<Rightarrow> (UmOk, GPtr z (Some (GSlice (GRaw r) (map GRaw data))))
           | GArray (GRaw r) vs \<Rightarrow> (UmPanic, v)
           | GSlice t vs \<Rightarrow> (case fill_slice h (idx t) t 0 data vs of (e, vs') \<Rightarrow> back (e, GSlice t vs'))
           | GArray t vs \<Rightarrow> (case fill_array h (idx t) 0 data vs of (e, vs') \<Rightarrow> back (e, GArray t vs'))
           | GStruct fs \<Rightarrow> back (unmarshal_row h (idx w) (hd data) w)
           | _ \<Rightarrow>
               (if 1 < length data then (UmError NotATable, v)
                else (case parse_value h (hd data) of
                        Some (JList []) \<Rightarrow> (UmOk, v)
                      | Some (JList (x # xs)) \<Rightarrow> (UmOk, unmarshal_scalar h x v)
                      | Some JNull \<Rightarrow> (UmOk, v)
                      | _ \<Rightarrow> (UmError BadJson, v))))
      | _ \<Rightarrow> (UmError NotAPointer, v))"

text \<open>\<open>QueryAndUnmarshal\<close>: \<open>answer\<close> is what the query brings, an error or the batches of rows and the columns.\<close>

datatype 'e query_answer = QueryFailed 'e | QueryRows "string list list" "string list"

datatype 'e um_failure = QueryFailure 'e | UmFailure um_error

definition query_and_unmarshal :: "'f host_values \<Rightarrow> 'e query_answer \<Rightarrow> 'f gval \<Rightarrow> ('e um_failure option \<times> 'f gval) option" where
  "query_and_unmarshal h answer v =
     (case answer of
        QueryFailed e \<Rightarrow> Some (Some (QueryFailure e), v)
      | QueryRows batches columns \<Rightarrow>
          (case unmarshal_query_data h (concat batches) columns v of
             (UmOk, w) \<Rightarrow> Some (None, w)
           | (UmError e, w) \<Rightarrow> Some (Some (UmFailure e), w)
           | (UmPanic, w) \<Rightarrow> None))"

section \<open>Fields and columns\<close>

text \<open>What a row holds for a tag: null without such a column.\<close>

definition cell :: "string list \<Rightarrow> 'f json list \<Rightarrow> string \<Rightarrow> 'f json" where
  "cell columns xs tag = (case map_of (zip columns xs) tag of None \<Rightarrow> JNull | Some x \<Rightarrow> x)"

definition set_struct :: "'f host_values \<Rightarrow> string list \<Rightarrow> 'f json list \<Rightarrow> (string \<times> 'f gval) list \<Rightarrow> (string \<times> 'f gval) list" where
  "set_struct h columns xs fs = map (\<lambda>(tag, v). (tag, if tag = [] then v else unmarshal_scalar h (cell columns xs tag) v)) fs"


definition tag_index :: "(string \<times> 'f gval) list \<Rightarrow> (string \<rightharpoonup> nat) \<Rightarrow> bool" where
  "tag_index fs m \<longleftrightarrow> (\<forall>tag k. m tag = Some k \<longleftrightarrow> tag \<noteq> [] \<and> k < length fs \<and> fst (fs ! k) = tag)"

definition distinct_tags :: "(string \<times> 'f gval) list \<Rightarrow> bool" where
  "distinct_tags fs \<longleftrightarrow> distinct (filter (\<lambda>t. t \<noteq> []) (map fst fs))"

lemma index_of_tag_Some:
  "distinct_tags fs \<Longrightarrow> index_of_tag i fs m tag = Some k \<longleftrightarrow>
     (if tag \<noteq> [] \<and> tag \<in> fst ` set fs then i \<le> k \<and> k < i + length fs \<and> fst (fs ! (k - i)) = tag else m tag = Some k)"
proof (induction fs arbitrary: i m)
  case (Cons f fs)
  obtain t v where f: "f = (t, v)" by (cases f)
  have d: "distinct_tags fs" and t: "t \<noteq> [] \<Longrightarrow> t \<notin> fst ` set fs"
    using Cons.prems by (auto simp: distinct_tags_def f split: if_splits)
  have ih: "index_of_tag (Suc i) fs (if t \<noteq> [] then m(t \<mapsto> i) else m) tag = Some k \<longleftrightarrow>
     (if tag \<noteq> [] \<and> tag \<in> fst ` set fs then Suc i \<le> k \<and> k < Suc i + length fs \<and> fst (fs ! (k - Suc i)) = tag
      else (if t \<noteq> [] then m(t \<mapsto> i) else m) tag = Some k)"
    by (rule Cons.IH [OF d])
  have nth: "k - i = Suc (k - Suc i)" if "Suc i \<le> k" using that by simp
  show ?case
  proof (cases "tag \<noteq> [] \<and> tag \<in> fst ` set fs")
    case True
    then have "t \<noteq> tag" using t by blast
    with True ih nth show ?thesis
      by (cases "k = i") (auto simp: f)
  next
    case False
    show ?thesis
    proof (cases "tag = t \<and> tag \<noteq> []")
      case True
      have "fst (fs ! (k - Suc i)) \<noteq> t" if "Suc i \<le> k" "k < Suc i + length fs"
        using t True that by (metis True add.commute imageI less_diff_conv2 nth_mem)
      then have "i \<le> k \<and> k < i + length (f # fs) \<and> fst ((f # fs) ! (k - i)) = t \<longleftrightarrow> k = i"
        using nth by (cases "k = i") (auto simp: f)
      moreover have "tag \<notin> fst ` set fs" using False True by blast
      ultimately show ?thesis using True ih by (auto simp: f)
    next
      case other: False
      then show ?thesis using False ih by (auto simp: f)
    qed
  qed
qed simp

lemma tag_index_struct: "distinct_tags fs \<Longrightarrow> tag_index fs (struct_column_map (GStruct fs))"
  by (auto simp: tag_index_def index_of_tag_Some split: if_splits)

lemma set_struct_none: "set_struct h columns [] fs = fs"
  by (induction fs) (auto simp: set_struct_def cell_def)

lemma cell_Cons: "cell (c # cs) (x # xs) tag = (if tag = c then x else cell cs xs tag)"
  by (simp add: cell_def)

lemma cell_absent: "tag \<notin> set cs \<Longrightarrow> cell cs xs tag = JNull"
  by (auto simp: cell_def dest: map_of_SomeD set_zip_leftD split: option.split)

lemma scalar_null: "unmarshal_scalar h JNull v = v"
  by simp

lemma set_struct_Cons:
  assumes "c \<notin> set cs" and "tag_index fs m"
  shows "set_struct h (c # cs) (x # xs) fs =
    set_struct h cs xs (case m c of None \<Rightarrow> fs | Some k \<Rightarrow> fs[k := (fst (fs ! k), unmarshal_scalar h x (snd (fs ! k)))])"
    (is "?l = set_struct h cs xs ?fs")
proof (rule nth_equalityI)
  show "length ?l = length (set_struct h cs xs ?fs)"
    by (simp add: set_struct_def split: option.split)
  fix i assume i: "i < length ?l"
  obtain tag v where f: "fs ! i = (tag, v)" by (cases "fs ! i")
  show "?l ! i = set_struct h cs xs ?fs ! i"
  proof (cases "m c = Some i")
    case True
    then have "tag = c" "tag \<noteq> []" using assms(2) by (auto simp: tag_index_def f)
    then show ?thesis
      using i True by (simp add: set_struct_def f cell_Cons cell_absent [OF assms(1)])
  next
    case False
    then have "tag = [] \<or> tag \<noteq> c" using assms(2) i by (auto simp: tag_index_def f set_struct_def)
    then show ?thesis
      using i False by (auto simp: set_struct_def f cell_Cons nth_list_update split: option.split)
  qed
qed

lemma tag_index_update:
  "tag_index fs m \<Longrightarrow> tag_index (fs[k := (fst (fs ! k), w)]) m"
  by (cases "k < length fs") (auto simp: tag_index_def nth_list_update)

lemma set_fields_struct:
  assumes "tag_index fs m" and "j + length xs \<le> length columns" and "distinct columns"
  shows "set_fields h (column_field_indexes m columns) j xs (GStruct fs) = (UmOk, GStruct (set_struct h (drop j columns) xs fs))"
  using assms
proof (induction xs arbitrary: j fs)
  case Nil
  then show ?case by (simp add: set_struct_none)
next
  case (Cons x xs)
  let ?c = "columns ! j"
  let ?fs = "case m ?c of None \<Rightarrow> fs | Some k \<Rightarrow> fs[k := (fst (fs ! k), unmarshal_scalar h x (snd (fs ! k)))]"
  have j: "j < length columns" using Cons.prems(2) by simp
  then have drop: "drop j columns = ?c # drop (Suc j) columns" by (simp add: Cons_nth_drop_Suc)
  have c: "?c \<notin> set (drop (Suc j) columns)"
    using Cons.prems(3) drop by (metis distinct.simps(2) distinct_drop)
  have "tag_index ?fs m"
    using Cons.prems(1) by (auto simp: tag_index_update split: option.split)
  then have ih: "set_fields h (column_field_indexes m columns) (Suc j) xs (GStruct ?fs) = (UmOk, GStruct (set_struct h (drop (Suc j) columns) xs ?fs))"
    using Cons.prems by (intro Cons.IH) simp_all
  have null: "?fs = fs" if "x = JNull"
    using that Cons.prems(1) by (auto simp: tag_index_def split: option.split) (metis list_update_id prod.collapse)
  have "set_fields h (column_field_indexes m columns) j (x # xs) (GStruct fs)
      = set_fields h (column_field_indexes m columns) (Suc j) xs (GStruct ?fs)"
    using j null by (auto simp: column_field_indexes_def split: option.split)
  then show ?case
    unfolding ih drop set_struct_Cons [OF c Cons.prems(1)] .
qed

lemma unmarshal_row_struct:
  assumes "distinct_tags fs" and "parse_value h raw = Some (JList xs)" and "length xs \<le> length columns" and "distinct columns"
    and "map fst fs = map fst zs"
  shows "unmarshal_row h (column_field_indexes (struct_column_map (GStruct zs)) columns) raw (GStruct fs)
    = (UmOk, GStruct (set_struct h columns xs fs))"
proof -
  have len: "length fs = length zs" using assms(5) by (metis length_map)
  have tags: "fst (fs ! k) = fst (zs ! k)" if "k < length zs" for k
    using assms(5) that len by (metis nth_map)
  have "distinct_tags zs" using assms(1,5) by (simp add: distinct_tags_def)
  then have "tag_index fs (struct_column_map (GStruct zs))"
    using tag_index_struct [of zs] by (auto simp: tag_index_def len tags simp del: struct_column_map.simps)
  from set_fields_struct [OF this, of 0 xs columns h] show ?thesis
    using assms(2-4) by (simp add: unmarshal_row_def del: struct_column_map.simps)
qed

section \<open>Tables\<close>

text \<open>The rows of a table, and the structures that are there or are made.\<close>

definition table_rows_parsed :: "'f host_values \<Rightarrow> string list \<Rightarrow> string list \<Rightarrow> 'f json list list \<Rightarrow> bool" where
  "table_rows_parsed h columns raws rows \<longleftrightarrow>
     map (parse_value h) raws = map (\<lambda>xs. Some (JList xs)) rows \<and> (\<forall>xs \<in> set rows. length xs \<le> length columns)"

definition same_tags :: "(string \<times> 'f gval) list \<Rightarrow> (string \<times> 'f gval) list \<Rightarrow> bool" where
  "same_tags fs zs \<longleftrightarrow> map fst fs = map fst zs"

definition old_struct :: "(string \<times> 'f gval) list list \<Rightarrow> (string \<times> 'f gval) list \<Rightarrow> nat \<Rightarrow> (string \<times> 'f gval) list" where
  "old_struct fss zs k = (if k < length fss then fss ! k else zs)"

lemma set_struct_tags: "map fst (set_struct h columns xs fs) = map fst fs"
  by (induction fs) (auto simp: set_struct_def)

lemma fill_slice_structs:
  assumes "table_rows_parsed h columns raws rows" and "distinct columns" and "distinct_tags zs"
    and "\<forall>fs \<in> set fss. same_tags fs zs" and "i \<le> length fss"
  shows "\<exists>gss. fill_slice h (column_field_indexes (struct_column_map (GStruct zs)) columns) (GStruct zs) i raws (map GStruct fss)
        = (UmOk, map GStruct gss)
      \<and> length gss = max (length fss) (i + length raws)
      \<and> (\<forall>k < length gss. gss ! k = (if i \<le> k \<and> k < i + length raws then set_struct h columns (rows ! (k - i)) (old_struct fss zs k)
                                   else fss ! k))"
  using assms(1,4,5)
proof (induction raws arbitrary: i rows fss)
  case Nil
  then show ?case by (intro exI [of _ fss]) auto
next
  case (Cons raw raws)
  obtain xs rs where rows: "rows = xs # rs" and parse: "parse_value h raw = Some (JList xs)" and len: "length xs \<le> length columns"
    and rest: "table_rows_parsed h columns raws rs"
    using Cons.prems(1) by (cases rows) (auto simp: table_rows_parsed_def)
  let ?idx = "column_field_indexes (struct_column_map (GStruct zs)) columns"
  let ?fss = "if length fss \<le> i then fss @ [zs] else fss"
  let ?new = "set_struct h columns xs (old_struct fss zs i)"
  have i: "i < length ?fss" using Cons.prems(3) by simp
  have grown: "(if length (map GStruct fss) \<le> i then map GStruct fss @ replicate (Suc i - length (map GStruct fss)) (GStruct zs)
      else map GStruct fss) = map GStruct ?fss"
    using Cons.prems(3) by (simp add: Suc_diff_le)
  have old: "?fss ! i = old_struct fss zs i"
    using Cons.prems(3) by (auto simp: old_struct_def nth_append)
  have tags: "same_tags (old_struct fss zs i) zs"
    using Cons.prems(2) by (auto simp: old_struct_def same_tags_def)
  then have "distinct_tags (old_struct fss zs i)"
    using assms(3) by (simp add: same_tags_def distinct_tags_def)
  then have row: "unmarshal_row h ?idx raw (map GStruct ?fss ! i) = (UmOk, GStruct ?new)"
    using unmarshal_row_struct [OF _ parse len assms(2)] tags i old by (simp add: same_tags_def del: struct_column_map.simps)
  have new_tags: "\<forall>fs \<in> set (?fss[i := ?new]). same_tags fs zs"
  proof
    fix fs assume "fs \<in> set (?fss[i := ?new])"
    then have "fs = ?new \<or> fs \<in> insert zs (set fss)"
      using set_update_subset_insert [of ?fss i ?new] by (auto split: if_splits)
    then show "same_tags fs zs"
      using Cons.prems(2) tags by (auto simp: same_tags_def set_struct_tags)
  qed
  have step: "fill_slice h ?idx (GStruct zs) i (raw # raws) (map GStruct fss)
      = fill_slice h ?idx (GStruct zs) (Suc i) raws (map GStruct (?fss[i := ?new]))"
    unfolding fill_slice.simps Let_def grown row by (simp add: map_update del: struct_column_map.simps)
  have "Suc i \<le> length (?fss[i := ?new])" using i by (simp only: length_list_update Suc_le_eq)
  from Cons.IH [OF rest new_tags this]
  obtain gss where g: "fill_slice h ?idx (GStruct zs) (Suc i) raws (map GStruct (?fss[i := ?new])) = (UmOk, map GStruct gss)"
    and lg: "length gss = max (length (?fss[i := ?new])) (Suc i + length raws)"
    and nth: "\<forall>k < length gss. gss ! k = (if Suc i \<le> k \<and> k < Suc i + length raws
        then set_struct h columns (rs ! (k - Suc i)) (old_struct (?fss[i := ?new]) zs k) else (?fss[i := ?new]) ! k)"
    by (elim exE conjE)
  have later: "old_struct (?fss[i := ?new]) zs k = old_struct fss zs k" if "Suc i \<le> k" for k
    using that Cons.prems(3) by (auto simp: old_struct_def nth_append)
  have "gss ! k = (if i \<le> k \<and> k < i + length (raw # raws) then set_struct h columns (rows ! (k - i)) (old_struct fss zs k) else fss ! k)"
    if k: "k < length gss" for k
  proof (cases "k = i")
    case True
    then show ?thesis using nth k i by (simp add: rows)
  next
    case False
    then show ?thesis
      using nth k later [of k] lg Cons.prems(3) by (auto simp: rows nth_append nth_Cons' Suc_diff_Suc split: if_splits)
  qed
  moreover have "length gss = max (length fss) (i + length (raw # raws))" using lg Cons.prems(3) by auto
  ultimately show ?case using step g by metis
qed

text \<open>C20: A query result is written into a slice of structures: row \<open>i\<close> goes into element \<open>i\<close>, each column
  into the field with its name; fields without a column, null values, and elements beyond the rows stay
  as they were, so that the results of several queries can be laid over one another. No result whose
  rows are not longer than its columns makes the code panic.\<close>

theorem unmarshal_table:
  assumes "table_rows_parsed h columns raws rows" and "raws \<noteq> []" and "distinct columns" and "distinct_tags zs"
    and "\<forall>fs \<in> set fss. same_tags fs zs"
  shows "\<exists>gss. unmarshal_query_data h raws columns (GPtr p (Some (GSlice (GStruct zs) (map GStruct fss))))
        = (UmOk, GPtr p (Some (GSlice (GStruct zs) (map GStruct gss))))
      \<and> length gss = max (length fss) (length raws)
      \<and> (\<forall>k < length gss. gss ! k = (if k < length raws then set_struct h columns (rows ! k) (old_struct fss zs k) else fss ! k))"
proof -
  from fill_slice_structs [OF assms(1,3,4,5), of 0]
  obtain gss where "fill_slice h (column_field_indexes (struct_column_map (GStruct zs)) columns) (GStruct zs) 0 raws (map GStruct fss)
        = (UmOk, map GStruct gss)"
      and "length gss = max (length fss) (length raws)"
      and "\<forall>k < length gss. gss ! k = (if k < length raws then set_struct h columns (rows ! k) (old_struct fss zs k) else fss ! k)"
    by auto
  then show ?thesis
    using assms(2) by (intro exI [of _ gss]) (simp add: unmarshal_query_data_def build_column_map_def Let_def del: struct_column_map.simps)
qed

section \<open>Types\<close>

text \<open>The Go type of a value. What a pointer or a slice carries besides its zero value has the same type.\<close>

datatype go_type = TStr | TInt | TFloat | TBool | TRaw | TPtr go_type | TStruct "(string \<times> go_type) list"
  | TSlice go_type | TArray go_type nat

fun type_of :: "'f gval \<Rightarrow> go_type" where
  "type_of (GStr s) = TStr"
| "type_of (GInt n) = TInt"
| "type_of (GFloat f) = TFloat"
| "type_of (GBool b) = TBool"
| "type_of (GRaw s) = TRaw"
| "type_of (GPtr z w) = TPtr (type_of z)"
| "type_of (GStruct fs) = TStruct (map (\<lambda>(tag, v). (tag, type_of v)) fs)"
| "type_of (GSlice z vs) = TSlice (type_of z)"
| "type_of (GArray z vs) = TArray (type_of z) (length vs)"

fun well_typed :: "'f gval \<Rightarrow> bool" where
  "well_typed (GPtr z w) \<longleftrightarrow> well_typed z \<and> (case w of None \<Rightarrow> True | Some v \<Rightarrow> well_typed v \<and> type_of v = type_of z)"
| "well_typed (GStruct fs) \<longleftrightarrow> (\<forall>(tag, v) \<in> set fs. well_typed v)"
| "well_typed (GSlice z vs) \<longleftrightarrow> well_typed z \<and> (\<forall>v \<in> set vs. well_typed v \<and> type_of v = type_of z)"
| "well_typed (GArray z vs) \<longleftrightarrow> well_typed z \<and> (\<forall>v \<in> set vs. well_typed v \<and> type_of v = type_of z)"
| "well_typed v \<longleftrightarrow> True"

text \<open>The values of a type that are well-typed are what the unmarshaller keeps to.\<close>

definition has_type :: "'f gval \<Rightarrow> go_type \<Rightarrow> bool" where
  "has_type v t \<longleftrightarrow> well_typed v \<and> type_of v = t"

lemma convert_into_type: "has_type v t \<Longrightarrow> has_type (convert_into h d v) t"
  by (cases v; cases d) (auto simp: has_type_def)

lemma unmarshal_scalar_pointer:
  "d \<noteq> JNull \<Longrightarrow> unmarshal_scalar h d (GPtr z w) = GPtr z (Some (unmarshal_scalar h d (case w of None \<Rightarrow> z | Some v \<Rightarrow> v)))"
  by (cases d; cases w) simp_all

lemma unmarshal_scalar_other:
  "d \<noteq> JNull \<Longrightarrow> \<forall>z w. v \<noteq> GPtr z w \<Longrightarrow> unmarshal_scalar h d v = convert_into h d v"
  by (cases d; cases v) simp_all

lemma unmarshal_scalar_type: "has_type v t \<Longrightarrow> has_type (unmarshal_scalar h d v) t"
proof (induction v arbitrary: t)
  case (GPtr z w)
  show ?case
  proof (cases "d = JNull")
    case False
    define u where "u = (case w of None \<Rightarrow> z | Some v \<Rightarrow> v)"
    have "has_type u (type_of z)" using GPtr.prems by (auto simp: u_def has_type_def split: option.split)
    then have "has_type (unmarshal_scalar h d u) (type_of z)"
      using GPtr.IH by (cases w) (auto simp: u_def)
    then show ?thesis
      using GPtr.prems unmarshal_scalar_pointer [OF False, of h z w] by (simp add: u_def has_type_def)
  qed (use GPtr.prems in simp)
qed (cases "d = JNull"; simp add: unmarshal_scalar_other convert_into_type)+

lemma set_field_type:
  assumes "has_type (GStruct fs) t" and "\<And>s. has_type (snd (fs ! k)) s \<Longrightarrow> has_type v s"
  shows "has_type (GStruct (fs[k := (fst (fs ! k), v)])) t"
proof (cases "k < length fs")
  case True
  then have "fs ! k \<in> set fs" by simp
  then have "has_type (snd (fs ! k)) (type_of (snd (fs ! k)))"
    using assms(1) by (auto simp: has_type_def split_beta)
  from assms(2) [OF this] have v: "well_typed v" "type_of v = type_of (snd (fs ! k))" by (simp_all add: has_type_def)
  have "map (\<lambda>(tag, v). (tag, type_of v)) (fs[k := (fst (fs ! k), v)]) = map (\<lambda>(tag, v). (tag, type_of v)) fs"
    using True v(2) by (intro nth_equalityI) (auto simp: nth_list_update split_beta)
  moreover have "\<forall>(tag, v) \<in> set (fs[k := (fst (fs ! k), v)]). well_typed v"
    using assms(1) v(1) set_update_subset_insert [of fs k "(fst (fs ! k), v)"] by (fastforce simp: has_type_def)
  ultimately show ?thesis using assms(1) by (simp add: has_type_def)
next
  case False
  then have "fs[k := (fst (fs ! k), v)] = fs" by (intro list_update_beyond) simp
  then show ?thesis using assms(1) by (simp only:)
qed

lemma set_fields_type: "has_type v t \<Longrightarrow> has_type (snd (set_fields h idx j xs v)) t"
proof (induction h idx j xs v rule: set_fields.induct)
  case (2 h idx j x xs v)
  then show ?case
    by (auto simp: set_field_type unmarshal_scalar_type split: option.split gval.split)
qed simp

lemma unmarshal_row_type: "has_type v t \<Longrightarrow> has_type (snd (unmarshal_row h idx raw v)) t"
  using set_fields_type [of v t h idx 0]
  by (auto simp: unmarshal_row_def split: gval.split option.split json.split) (auto simp: has_type_def)

text \<open>The elements of slices and arrays.\<close>

definition have_type :: "'f gval list \<Rightarrow> go_type \<Rightarrow> bool" where
  "have_type vs t \<longleftrightarrow> (\<forall>v \<in> set vs. has_type v t)"

lemma have_type_update: "have_type vs t \<Longrightarrow> has_type v t \<Longrightarrow> have_type (vs[i := v]) t"
  unfolding have_type_def using set_update_subset_insert [of vs i v] by blast

lemma have_type_nth: "have_type vs t \<Longrightarrow> i < length vs \<Longrightarrow> has_type (vs ! i) t"
  by (simp add: have_type_def)

lemma fill_slice_type:
  "have_type vs t \<Longrightarrow> has_type z t \<Longrightarrow> have_type (snd (fill_slice h idx z i raws vs)) t"
proof (induction h idx z i raws vs rule: fill_slice.induct)
  case (2 h idx z i raw raws vs)
  define vs1 where "vs1 = (if length vs \<le> i then vs @ replicate (Suc i - length vs) z else vs)"
  have vs1: "have_type vs1 t" "i < length vs1"
    using 2(2,3) by (auto simp: vs1_def have_type_def)
  obtain e v where row: "unmarshal_row h idx raw (vs1 ! i) = (e, v)" by fastforce
  then have "has_type v t" using unmarshal_row_type [OF have_type_nth [OF vs1], of h idx raw] by simp
  then have "have_type (vs1[i := v]) t" by (rule have_type_update [OF vs1(1)])
  then show ?case
    using 2(1) [OF vs1_def row [symmetric]] 2(3) row by (cases e) (simp_all add: vs1_def [symmetric] Let_def)
qed simp

lemma fill_array_type:
  "have_type vs t \<Longrightarrow> have_type (snd (fill_array h idx i raws vs)) t \<and> length (snd (fill_array h idx i raws vs)) = length vs"
proof (induction h idx i raws vs rule: fill_array.induct)
  case (2 h idx i raw raws vs)
  show ?case
  proof (cases "length vs \<le> i")
    case False
    obtain e v where row: "unmarshal_row h idx raw (vs ! i) = (e, v)" by fastforce
    then have "has_type v t" using unmarshal_row_type [OF have_type_nth [OF 2(2)], of i h idx raw] False by simp
    then have "have_type (vs[i := v]) t" by (rule have_type_update [OF 2(2)])
    then show ?thesis
      using 2(1) [OF False row [symmetric]] row False by (cases e) simp_all
  qed (use 2(2) in simp)
qed simp

text \<open>The unmarshaller keeps Go types: whatever rows and columns a query brings, and whether it ends well,
  with an error or with a panic half-way, the target is a well-typed value of the type that it had.\<close>

lemma unmarshal_keeps_type:
  assumes "well_typed v"
  shows "well_typed (snd (unmarshal_query_data h raws columns v)) \<and> type_of (snd (unmarshal_query_data h raws columns v)) = type_of v"
proof (cases "\<exists>z w. v = GPtr z (Some w) \<and> raws \<noteq> []")
  case False
  then show ?thesis
    using assms by (auto simp: unmarshal_query_data_def split: gval.split option.split)
next
  case True
  then obtain z w where v: "v = GPtr z (Some w)" and raws: "raws \<noteq> []" by blast
  have w: "has_type w (type_of z)" and z: "well_typed z" using assms by (auto simp: v has_type_def)
  have done_if: ?thesis if "unmarshal_query_data h raws columns v = (e, GPtr z (Some w'))" "has_type w' (type_of z)" for e w'
    using that z by (simp add: v has_type_def)
  have scalar: ?thesis if "unmarshal_query_data h raws columns v =
      (if 1 < length raws then (UmError NotATable, v)
       else (case parse_value h (hd raws) of
               Some (JList []) \<Rightarrow> (UmOk, v)
             | Some (JList (x # xs)) \<Rightarrow> (UmOk, unmarshal_scalar h x v)
             | Some JNull \<Rightarrow> (UmOk, v)
             | _ \<Rightarrow> (UmError BadJson, v)))"
    using that assms unmarshal_scalar_type [of v "type_of v" h]
    by (auto simp: has_type_def split: option.split json.split list.split)
  show ?thesis
  proof (cases w)
    case (GStruct fs)
    obtain e w' where row: "unmarshal_row h (column_field_indexes (build_column_map w) columns) (hd raws) w = (e, w')" by fastforce
    with unmarshal_row_type [OF w, of h "column_field_indexes (build_column_map w) columns" "hd raws"]
    show ?thesis by (intro done_if [of e w']) (use raws in \<open>simp_all add: unmarshal_query_data_def v GStruct Let_def\<close>)
  next
    case (GSlice t vs)
    have vs: "have_type vs (type_of t)" and t: "has_type t (type_of t)" and zt: "type_of z = TSlice (type_of t)"
      using w by (auto simp: GSlice has_type_def have_type_def)
    show ?thesis
    proof (cases "\<exists>r. t = GRaw r")
      case True
      then show ?thesis
        by (elim exE) (intro done_if [of UmOk "GSlice t (map GRaw raws)"],
          use raws zt in \<open>auto simp: unmarshal_query_data_def v GSlice Let_def has_type_def\<close>)
    next
      case False
      obtain e vs' where f: "fill_slice h (column_field_indexes (build_column_map t) columns) t 0 raws vs = (e, vs')" by fastforce
      with fill_slice_type [OF vs t, of h "column_field_indexes (build_column_map t) columns" 0 raws]
      have "have_type vs' (type_of t)" by simp
      then show ?thesis
        by (intro done_if [of e "GSlice t vs'"])
          (use raws zt t f False in \<open>cases t; simp add: unmarshal_query_data_def v GSlice Let_def has_type_def have_type_def\<close>)+
    qed
  next
    case (GArray t vs)
    have vs: "have_type vs (type_of t)" and t: "has_type t (type_of t)" and zt: "type_of z = TArray (type_of t) (length vs)"
      using w by (auto simp: GArray has_type_def have_type_def)
    show ?thesis
    proof (cases "\<exists>r. t = GRaw r")
      case True
      then show ?thesis
        using raws assms by (auto simp: unmarshal_query_data_def v GArray Let_def)
    next
      case False
      obtain e vs' where f: "fill_array h (column_field_indexes (build_column_map t) columns) 0 raws vs = (e, vs')" by fastforce
      with fill_array_type [OF vs, of h "column_field_indexes (build_column_map t) columns" 0 raws]
      have "have_type vs' (type_of t)" "length vs' = length vs" by simp_all
      then show ?thesis
        by (intro done_if [of e "GArray t vs'"])
          (use raws zt t f False in \<open>cases t; simp add: unmarshal_query_data_def v GArray Let_def has_type_def have_type_def\<close>)+
    qed
  qed ((rule scalar, unfold v, hypsubst, simp add: unmarshal_query_data_def raws Let_def)[1])+
qed

section \<open>Panics\<close>

text \<open>A row with more values than there are columns.\<close>

lemma long_row_panics:
  "length idx \<le> j \<Longrightarrow> x \<noteq> JNull \<Longrightarrow> fst (set_fields h idx j (x # xs) v) = UmPanic"
  by simp

text \<open>A slice of pointers to structures: the columns are found, but a pointer has no fields.\<close>

lemma pointer_elements_panic:
  assumes "parse_value h raw = Some (JList [JNum f])"
  shows "fst (unmarshal_query_data h [raw] [''a''] (GPtr z (Some (GSlice (GPtr (GStruct [(''a'', GInt 0)]) None) [])))) = UmPanic"
  using assms
  by (simp add: unmarshal_query_data_def build_column_map_def column_field_indexes_def unmarshal_row_def Let_def)

section \<open>Example\<close>

definition demo_values :: "int host_values" where
  "demo_values = \<lparr>trunc_float = id, sprint = (\<lambda>_. ''?''),
     parse_value = (\<lambda>s. if s = ''r1'' then Some (JList [JStr ''x'', JNum 7]) else if s = ''r2'' then Some (JList [JNull, JNum 8]) else None)\<rparr>"

theorem unmarshal_table_witness:
  "\<exists>gss. unmarshal_query_data demo_values [''r1'', ''r2''] [''name'', ''size'']
      (GPtr (GInt 0) (Some (GSlice (GStruct [(''name'', GStr []), (''size'', GPtr (GFloat 0) None)]) (map GStruct []))))
    = (UmOk, GPtr (GInt 0) (Some (GSlice (GStruct [(''name'', GStr []), (''size'', GPtr (GFloat 0) None)]) (map GStruct gss))))
    \<and> gss = [[(''name'', GStr ''x''), (''size'', GPtr (GFloat 0) (Some (GFloat 7)))],
             [(''name'', GStr []), (''size'', GPtr (GFloat 0) (Some (GFloat 8)))]]"
proof -
  let ?rows = "[[JStr ''x'', JNum 7], [JNull, JNum (8 :: int)]]"
  let ?zs = "[(''name'', GStr []), (''size'', GPtr (GFloat (0 :: int)) None)]"
  have a: "table_rows_parsed demo_values [''name'', ''size''] [''r1'', ''r2''] ?rows"
    by (simp add: table_rows_parsed_def demo_values_def)
  have b: "distinct_tags ?zs" by (simp add: distinct_tags_def)
  obtain gss where r: "unmarshal_query_data demo_values [''r1'', ''r2''] [''name'', ''size''] (GPtr (GInt 0) (Some (GSlice (GStruct ?zs) (map GStruct []))))
      = (UmOk, GPtr (GInt 0) (Some (GSlice (GStruct ?zs) (map GStruct gss))))"
    and l: "length gss = 2"
    and n: "\<forall>k < length gss. gss ! k = set_struct demo_values [''name'', ''size''] (?rows ! k) (old_struct [] ?zs k)"
    using unmarshal_table [OF a _ _ b, of "[]" "GInt 0"] by auto
  have "gss = map (\<lambda>k. set_struct demo_values [''name'', ''size''] (?rows ! k) ?zs) [0 ..< 2]"
    using l n by (intro nth_equalityI) (simp_all add: old_struct_def)
  also have "\<dots> = [[(''name'', GStr ''x''), (''size'', GPtr (GFloat 0) (Some (GFloat 7)))],
             [(''name'', GStr []), (''size'', GPtr (GFloat 0) (Some (GFloat 8)))]]"
    by (simp add: set_struct_def cell_def upt_rec)
  finally show ?thesis using r by blast
qed

end
