(* ===== verification/SaveTable.thy ===== *)
theory SaveTable
  imports Unmarshal TaskPool Utils
begin

text \<open>
  The command \<open>save\<close>, \<open>cmd/save/main.go\<close> and \<open>cmd/save/table_summary.go\<close>: for every table its DDL,
  the statistics of its columns and its row count are queried and saved in a file; what the server does
  not know is computed with more queries. The tables are worked on by a pool of goroutines.
\<close>

section \<open>Identifiers\<close>

text \<open>\<open>sqlIdent\<close>.\<close>

definition sql_ident :: "string \<Rightarrow> string" where
  "sql_ident name = [CHR 0x22] @ replace_all name [CHR 0x22] [CHR 0x22, CHR 0x22] @ [CHR 0x22]"

definition full_table_name :: "string \<Rightarrow> string \<Rightarrow> string \<Rightarrow> string" where
  "full_table_name c s t = sql_ident c @ ''.'' @ sql_ident s @ ''.'' @ sql_ident t"

section \<open>Column statistics\<close>

text \<open>\<open>prestoapi.ColumnStats\<close>, a structure with tagged fields; \<open>zero\<close> is the number zero.\<close>

definition zero_stats :: "'f \<Rightarrow> (string \<times> 'f gval) list" where
  "zero_stats zero =
     [(''column_name'', GStr []), (''data_size'', GPtr (GFloat zero) None), (''distinct_values_count'', GPtr (GFloat zero) None),
      (''nulls_fraction'', GPtr (GFloat zero) None), (''row_count'', GPtr (GFloat zero) None), (''low_value'', GPtr (GStr []) None),
      (''high_value'', GPtr (GStr []) None), (''max_data_size'', GPtr (GFloat zero) None), (''true_values_count'', GPtr (GFloat zero) None),
      (''non_null_values_count'', GPtr (GFloat zero) None), (''Type'', GPtr (GStr []) None), (''Extra'', GPtr (GStr []) None),
      (''Precision'', GPtr (GFloat zero) None), (''Scale'', GPtr (GFloat zero) None), (''Length'', GPtr (GFloat zero) None)]"

type_synonym 'f stats = "(string \<times> 'f gval) list"

text \<open>Reading a field: a string, and what a pointer points to.\<close>

definition str_field :: "'f stats \<Rightarrow> string \<Rightarrow> string" where
  "str_field fs tag = (case map_of fs tag of Some (GStr s) \<Rightarrow> s | _ \<Rightarrow> [])"

definition str_ptr :: "'f stats \<Rightarrow> string \<Rightarrow> string option" where
  "str_ptr fs tag = (case map_of fs tag of Some (GPtr _ (Some (GStr s))) \<Rightarrow> Some s | _ \<Rightarrow> None)"

definition num_ptr :: "'f stats \<Rightarrow> string \<Rightarrow> 'f option" where
  "num_ptr fs tag = (case map_of fs tag of Some (GPtr _ (Some (GFloat f))) \<Rightarrow> Some f | _ \<Rightarrow> None)"

definition set_num :: "'f \<Rightarrow> string \<Rightarrow> 'f \<Rightarrow> 'f stats \<Rightarrow> 'f stats" where
  "set_num zero tag f fs = map (\<lambda>(t, v). (t, if t = tag then GPtr (GFloat zero) (Some (GFloat f)) else v)) fs"

definition is_numeric_type :: "string \<Rightarrow> bool" where
  "is_numeric_type t \<longleftrightarrow> t \<in> {''tinyint'', ''smallint'', ''integer'', ''bigint'', ''real'', ''double'', ''decimal''}"

definition is_sizable :: "string \<Rightarrow> bool" where
  "is_sizable t \<longleftrightarrow> t \<in> {''char'', ''varchar'', ''varbinary'', ''array'', ''map'', ''row''}"

text \<open>The name of a type without its parameters.\<close>

definition raw_type :: "string \<Rightarrow> string" where
  "raw_type t = (case index_byte (CHR 0x28) t of None \<Rightarrow> t | Some i \<Rightarrow> take i t)"

text \<open>The items of the \<open>SELECT\<close> for a column: what is not known yet and makes sense for its type.\<close>

definition call_as :: "string \<Rightarrow> string \<Rightarrow> string \<Rightarrow> string" where
  "call_as f col name = f @ ''('' @ col @ '') AS '' @ name"

definition statistics_for :: "string \<Rightarrow> string \<Rightarrow> 'f stats \<Rightarrow> string list" where
  "statistics_for pre t fs =
     (let col = sql_ident (str_field fs ''column_name'');
          size = (\<lambda>f. [CHR 0x22] @ pre @ f @ [CHR 0x22])
      in (if num_ptr fs ''nulls_fraction'' = None then [call_as ''count'' col ''non_null_values_count''] else [])
         @ (if t = ''boolean'' then [call_as ''count_if'' col ''true_values_count'']
            else if is_sizable t then
              [call_as (size ''max_data_size_for_stats'') col ''max_data_size'']
              @ (if num_ptr fs ''data_size'' = None then [call_as (size ''sum_data_size_for_stats'') col ''data_size''] else [])
              @ (if num_ptr fs ''distinct_values_count'' = None \<and> (t = ''varchar'' \<or> t = ''char'')
                 then [call_as ''approx_distinct'' col ''distinct_values_count''] else [])
            else if is_numeric_type t \<or> t = ''date'' \<or> t = ''timestamp'' then
              (if str_ptr fs ''low_value'' = None then [call_as ''min'' col ''low_value''] else [])
              @ (if str_ptr fs ''high_value'' = None then [call_as ''max'' col ''high_value''] else [])
              @ (if num_ptr fs ''distinct_values_count'' = None then [call_as ''approx_distinct'' col ''distinct_values_count''] else [])
            else []))"

section \<open>Errors\<close>

datatype save_error = ConnectionRefused | PrestoError string | OtherError

text \<open>
  What the queries change is the world: the server, and \<open>internalFunctionPrefix\<close>, a variable of the
  program that all goroutines share, so that a query of one may find it changed by another.
\<close>

record ('w, 'f) save_host =
  values_of :: "'f host_values"
  ask_server :: "string \<Rightarrow> 'w \<Rightarrow> save_error query_answer \<times> 'w"
  get_prefix :: "'w \<Rightarrow> string"
  use_internal :: "'w \<Rightarrow> 'w"
  zero_float :: 'f
  nulls_of :: "'f \<Rightarrow> int \<Rightarrow> 'f"

definition internal_prefix :: string where
  "internal_prefix = ''$internal$''"

text \<open>\<open>handleQueryError\<close>: whether to retry, a fatal error, and the world after it.\<close>

definition handle_query_error ::
  "('w, 'f) save_host \<Rightarrow> save_error um_failure option \<Rightarrow> bool \<Rightarrow> 'w \<Rightarrow> (bool \<times> save_error um_failure option) \<times> 'w" where
  "handle_query_error h err abort w =
     (case err of
        None \<Rightarrow> ((False, None), w)
      | Some e \<Rightarrow>
          if abort \<or> e = QueryFailure ConnectionRefused then ((False, Some e), w)
          else (case e of
                  QueryFailure (PrestoError m) \<Rightarrow>
                    if has_suffix m ''does not exist'' then ((False, Some e), w)
                    else if get_prefix h w = [] \<and> has_suffix m ''data_size_for_stats not registered''
                    then ((True, None), use_internal h w)
                    else ((False, None), w)
                | _ \<Rightarrow> ((False, None), w)))"

section \<open>The summary of a table\<close>

record 'f table_summary =
  ts_name :: string
  ts_catalog :: string
  ts_schema :: string
  ts_ddl :: string
  ts_columns :: "'f stats list"
  ts_rows :: "int option"

text \<open>The outcome of code that may panic or, in the model, run out of fuel.\<close>

datatype 'a save_run = Saved 'a | SavePanic | SaveUnfinished

text \<open>The three kinds of target that \<open>QueryAndUnmarshal\<close> is called with: a pointer to a string, to the slice
  of columns, and to the pointer to the row count.\<close>

definition ask_into :: "('w, 'f) save_host \<Rightarrow> string \<Rightarrow> 'f gval \<Rightarrow> 'w \<Rightarrow> (save_error um_failure option \<times> 'f gval) option \<times> 'w" where
  "ask_into h q v w = (case ask_server h q w of (a, w') \<Rightarrow> (query_and_unmarshal (values_of h) a v, w'))"

definition string_target :: "string \<Rightarrow> 'f gval" where
  "string_target s = GPtr (GStr []) (Some (GStr s))"

definition columns_target :: "'f \<Rightarrow> 'f stats list \<Rightarrow> 'f gval" where
  "columns_target zero cs = GPtr (GStr []) (Some (GSlice (GStruct (zero_stats zero)) (map GStruct cs)))"

definition count_target :: "int option \<Rightarrow> 'f gval" where
  "count_target n = GPtr (GPtr (GInt 0) None) (Some (GPtr (GInt 0) (map_option GInt n)))"

definition column_target :: "'f stats \<Rightarrow> 'f gval" where
  "column_target fs = GPtr (GStr []) (Some (GStruct fs))"

fun string_of_target :: "'f gval \<Rightarrow> string" where
  "string_of_target (GPtr z (Some (GStr s))) = s"
| "string_of_target _ = []"

fun struct_fields :: "'f gval \<Rightarrow> 'f stats" where
  "struct_fields (GStruct fs) = fs"
| "struct_fields _ = []"

fun columns_of_target :: "'f gval \<Rightarrow> 'f stats list" where
  "columns_of_target (GPtr z (Some (GSlice t vs))) = map struct_fields vs"
| "columns_of_target _ = []"

fun count_of_target :: "'f gval \<Rightarrow> int option" where
  "count_of_target (GPtr z (Some (GPtr y (Some (GInt n))))) = Some n"
| "count_of_target _ = None"

fun column_of_target :: "'f gval \<Rightarrow> 'f stats" where
  "column_of_target (GPtr z (Some v)) = struct_fields v"
| "column_of_target _ = []"

text \<open>A query whose errors are fatal: \<open>handleQueryError\<close> with \<open>abortOnError\<close>.\<close>

definition query_or_abort ::
  "('w, 'f) save_host \<Rightarrow> string \<Rightarrow> 'f gval \<Rightarrow> 'w \<Rightarrow> ('f gval \<Rightarrow> 'w \<Rightarrow> 'r save_run) \<Rightarrow> ('f gval \<Rightarrow> 'w \<Rightarrow> 'r save_run) \<Rightarrow> 'r save_run" where
  "query_or_abort h q v w abort go =
     (case ask_into h q v w of
        (None, w1) \<Rightarrow> SavePanic
      | (Some (err, v1), w1) \<Rightarrow>
          (case handle_query_error h err True w1 of
             ((_, Some fatal), w2) \<Rightarrow> abort v1 w2
           | ((_, None), w2) \<Rightarrow> go v1 w2))"

text \<open>The row count in the summary row, searched from the end.\<close>

definition summary_row_count :: "('w, 'f) save_host \<Rightarrow> 'f stats list \<Rightarrow> int option" where
  "summary_row_count h cs =
     (case find (\<lambda>fs. str_field fs ''column_name'' = [] \<and> num_ptr fs ''row_count'' \<noteq> None) (rev cs) of
        None \<Rightarrow> None
      | Some fs \<Rightarrow> map_option (trunc_float (values_of h)) (num_ptr fs ''row_count''))"

text \<open>The loop over the columns, with fuel; a retry does not advance.\<close>

fun analyze_columns ::
  "nat \<Rightarrow> ('w, 'f) save_host \<Rightarrow> string \<Rightarrow> int \<Rightarrow> nat \<Rightarrow> 'f stats list \<Rightarrow> 'w \<Rightarrow> ('f stats list \<times> 'w) save_run" where
  "analyze_columns 0 h table n i cs w = SaveUnfinished"
| "analyze_columns (Suc k) h table n i cs w =
     (if length cs \<le> i then Saved (cs, w)
      else case str_ptr (cs ! i) ''Type'' of
        None \<Rightarrow> analyze_columns k h table n (Suc i) cs w
      | Some dt \<Rightarrow>
          (let items = statistics_for (get_prefix h w) (raw_type dt) (cs ! i) in
           if items = [] then analyze_columns k h table n (Suc i) cs w
           else (case ask_into h (''SELECT '' @ join_str '', '' items @ '' FROM '' @ table) (column_target (cs ! i)) w of
                   (None, w1) \<Rightarrow> SavePanic
                 | (Some (err, v), w1) \<Rightarrow>
                     (let fs = column_of_target v in
                      case handle_query_error h err False w1 of
                        ((_, Some fatal), w2) \<Rightarrow> Saved (cs[i := fs], w2)
                      | ((retry, None), w2) \<Rightarrow>
                          (let fs' = (case num_ptr fs ''non_null_values_count'' of
                                        Some c \<Rightarrow> if err = None \<and> num_ptr fs ''nulls_fraction'' = None
                                                  then set_num (zero_float h) ''nulls_fraction'' (nulls_of h c n) fs else fs
                                      | None \<Rightarrow> fs)
                           in analyze_columns k h table n (if retry then i else Suc i) (cs[i := fs']) w2)))))"

text \<open>\<open>QueryTableSummary\<close>.\<close>

definition query_table_summary ::
  "nat \<Rightarrow> ('w, 'f) save_host \<Rightarrow> bool \<Rightarrow> 'f table_summary \<Rightarrow> 'w \<Rightarrow> ('f table_summary \<times> 'w) save_run" where
  "query_table_summary k h analyze s w =
     (let table = full_table_name (ts_catalog s) (ts_schema s) (ts_name s);
          stop = (\<lambda>s w. Saved (s, w)) in
      query_or_abort h (''SHOW CREATE TABLE '' @ table) (string_target (ts_ddl s)) w
        (\<lambda>v w. stop (s\<lparr>ts_ddl := string_of_target v\<rparr>) w)
        (\<lambda>v w. let s = s\<lparr>ts_ddl := string_of_target v\<rparr> in
      query_or_abort h (''SHOW STATS FOR '' @ table) (columns_target (zero_float h) (ts_columns s)) w
        (\<lambda>v w. stop (s\<lparr>ts_columns := columns_of_target v\<rparr>) w)
        (\<lambda>v w. let s = s\<lparr>ts_columns := columns_of_target v\<rparr> in
      query_or_abort h (''DESCRIBE '' @ table) (columns_target (zero_float h) (ts_columns s)) w
        (\<lambda>v w. stop (s\<lparr>ts_columns := columns_of_target v\<rparr>) w)
        (\<lambda>v w. let s = s\<lparr>ts_columns := columns_of_target v\<rparr>;
                    s = (case summary_row_count h (ts_columns s) of None \<Rightarrow> s | Some n \<Rightarrow> s\<lparr>ts_rows := Some n\<rparr>);
                    rest = (\<lambda>s w. case ts_rows s of
                        None \<Rightarrow> stop s w
                      | Some n \<Rightarrow>
                          if n = 0 \<or> \<not> analyze then stop s w
                          else (case analyze_columns k h table n 0 (ts_columns s) w of
                                  Saved (cs, w') \<Rightarrow> Saved (s\<lparr>ts_columns := cs\<rparr>, w')
                                | SavePanic \<Rightarrow> SavePanic
                                | SaveUnfinished \<Rightarrow> SaveUnfinished)) in
      if ts_rows s = None then
        query_or_abort h (''SELECT COUNT(*) FROM '' @ table) (count_target (ts_rows s)) w
          (\<lambda>v w. stop (s\<lparr>ts_rows := count_of_target v\<rparr>) w)
          (\<lambda>v w. rest (s\<lparr>ts_rows := count_of_target v\<rparr>) w)
      else rest s w))))"

section \<open>Identifiers are safe\<close>

lemma replace_quote: "replace_from [CHR 0x22] [CHR 0x22, CHR 0x22] 0 s = concat (map (\<lambda>c. if c = CHR 0x22 then [CHR 0x22, CHR 0x22] else [c]) s)"
  by (induction s) (simp_all add: has_prefix_def)

text \<open>A reader of a quoted identifier, after the opening quote: the name and what follows the closing one.\<close>

fun read_quoted :: "string \<Rightarrow> (string \<times> string) option" where
  "read_quoted [] = None"
| "read_quoted (c # cs) =
     (if c = CHR 0x22 then
        (case cs of
           d # ds \<Rightarrow> if d = CHR 0x22 then map_option (\<lambda>(n, r). (CHR 0x22 # n, r)) (read_quoted ds) else Some ([], cs)
         | [] \<Rightarrow> Some ([], []))
      else map_option (\<lambda>(n, r). (c # n, r)) (read_quoted cs))"

lemma read_sql_ident:
  assumes "r = [] \<or> hd r \<noteq> CHR 0x22"
  shows "read_quoted (tl (sql_ident n @ r)) = Some (n, r)"
proof -
  have "read_quoted (concat (map (\<lambda>c. if c = CHR 0x22 then [CHR 0x22, CHR 0x22] else [c]) n) @ CHR 0x22 # r) = Some (n, r)"
    using assms by (induction n) (auto split: list.split)
  then show ?thesis by (simp add: sql_ident_def replace_all_def replace_quote)
qed

lemma sql_ident_cancel:
  assumes "r = [] \<or> hd r \<noteq> CHR 0x22" and "r' = [] \<or> hd r' \<noteq> CHR 0x22" and "sql_ident n @ r = sql_ident n' @ r'"
  shows "n = n' \<and> r = r'"
proof -
  have "Some (n, r) = read_quoted (tl (sql_ident n @ r))" by (rule read_sql_ident [OF assms(1), symmetric])
  also have "\<dots> = Some (n', r')" unfolding assms(3) by (rule read_sql_ident [OF assms(2)])
  finally show ?thesis by simp
qed

text \<open>C40: No name of a catalog, schema or table can end its quotes: a reader of SQL gets each name back
  from the query whatever characters it has, and different tables never have the same full name.\<close>

theorem table_names_safe:
  "(\<exists>r. read_quoted (tl (full_table_name c s t)) = Some (c, CHR ''.'' # r) \<and> (\<exists>r'. read_quoted (tl r) = Some (s, CHR ''.'' # r')
      \<and> read_quoted (tl r') = Some (t, [])))
   \<and> (full_table_name c s t = full_table_name c' s' t' \<longleftrightarrow> c = c' \<and> s = s' \<and> t = t')"
proof (intro conjI)
  show "\<exists>r. read_quoted (tl (full_table_name c s t)) = Some (c, CHR ''.'' # r)
      \<and> (\<exists>r'. read_quoted (tl r) = Some (s, CHR ''.'' # r') \<and> read_quoted (tl r') = Some (t, []))"
    using read_sql_ident [of "''.'' @ sql_ident s @ ''.'' @ sql_ident t" c] read_sql_ident [of "''.'' @ sql_ident t" s]
      read_sql_ident [of "[]" t]
    by (simp add: full_table_name_def)
  show "full_table_name c s t = full_table_name c' s' t' \<longleftrightarrow> c = c' \<and> s = s' \<and> t = t'"
  proof
    assume eq: "full_table_name c s t = full_table_name c' s' t'"
    have "c = c' \<and> ''.'' @ sql_ident s @ ''.'' @ sql_ident t = ''.'' @ sql_ident s' @ ''.'' @ sql_ident t'"
      using eq unfolding full_table_name_def by (intro sql_ident_cancel) simp_all
    moreover then have "s = s' \<and> ''.'' @ sql_ident t = ''.'' @ sql_ident t'"
      by (intro sql_ident_cancel) simp_all
    moreover then have "t = t' \<and> ([] :: string) = []"
      by (intro sql_ident_cancel) simp_all
    ultimately show "c = c' \<and> s = s' \<and> t = t'" by blast
  qed simp
qed

section \<open>The analysis ends\<close>

text \<open>The prefix is never reset: the code only ever sets it, to the same value.\<close>

definition prefix_stays :: "('w, 'f) save_host \<Rightarrow> bool" where
  "prefix_stays h \<longleftrightarrow>
     (\<forall>w. get_prefix h (use_internal h w) \<noteq> []) \<and> (\<forall>q w. get_prefix h w \<noteq> [] \<longrightarrow> get_prefix h (snd (ask_server h q w)) \<noteq> [])"

definition columns_left :: "('w, 'f) save_host \<Rightarrow> nat \<Rightarrow> 'f stats list \<Rightarrow> 'w \<Rightarrow> nat" where
  "columns_left h i cs w = (length cs - i) + (if get_prefix h w = [] then 1 else 0)"

lemma retry_sets_prefix:
  assumes "handle_query_error h err False w = ((True, None), w')"
  shows "get_prefix h w = [] \<and> w' = use_internal h w"
  using assms by (auto simp: handle_query_error_def split: option.splits if_splits um_failure.splits save_error.splits)

lemma no_retry_keeps_world: "handle_query_error h err abort w = ((False, x), w') \<Longrightarrow> w' = w"
  by (auto simp: handle_query_error_def split: option.splits if_splits um_failure.splits save_error.splits)

lemma columns_left_step:
  assumes "prefix_stays h" and "i < length cs" and "ask_into h q v w = (Some (err, v'), w1)"
    and "handle_query_error h err False w1 = ((retry, None), w2)"
  shows "columns_left h (if retry then i else Suc i) (cs[i := fs]) w2 < columns_left h i cs w"
proof -
  have w1: "w1 = snd (ask_server h q w)" using assms(3) by (simp add: ask_into_def split: prod.splits)
  show ?thesis
  proof (cases retry)
    case True
    with assms(4) have "handle_query_error h err False w1 = ((True, None), w2)" by simp
    from retry_sets_prefix [OF this] have "get_prefix h w1 = []" and "w2 = use_internal h w1" by simp_all
    then have "get_prefix h w = []" and "get_prefix h w2 \<noteq> []"
      using assms(1) w1 by (auto simp: prefix_stays_def)
    then show ?thesis using True by (simp add: columns_left_def)
  next
    case False
    with assms(4) have "handle_query_error h err False w1 = ((False, None), w2)" by simp
    then have "w2 = w1" by (rule no_retry_keeps_world)
    then have "get_prefix h w2 = [] \<Longrightarrow> get_prefix h w = []"
      using assms(1) w1 by (auto simp: prefix_stays_def)
    then show ?thesis using False assms(2) by (auto simp: columns_left_def)
  qed
qed

lemma analyze_columns_ends:
  assumes "prefix_stays h" and "columns_left h i cs w < k"
  shows "analyze_columns k h table n i cs w \<noteq> SaveUnfinished"
  using assms(2)
proof (induction k arbitrary: i cs w)
  case (Suc k)
  show ?case
  proof (cases "length cs \<le> i")
    case False
    then have i: "i < length cs" by simp
    have next_col: "analyze_columns k h table n (Suc i) cs w \<noteq> SaveUnfinished"
      using Suc.prems i by (intro Suc.IH) (auto simp: columns_left_def split: if_splits)
    show ?thesis
    proof (cases "str_ptr (cs ! i) ''Type''")
      case (Some dt)
      let ?items = "statistics_for (get_prefix h w) (raw_type dt) (cs ! i)"
      let ?q = "''SELECT '' @ join_str '', '' ?items @ '' FROM '' @ table"
      show ?thesis
      proof (cases "?items = []")
        case False
        obtain res w1 where ask: "ask_into h ?q (column_target (cs ! i)) w = (res, w1)" by fastforce
        show ?thesis
        proof (cases res)
          case None
          then show ?thesis using i Some False ask by (simp add: Let_def)
        next
          case (Some r)
          obtain err v where r: "r = (err, v)" by (cases r)
          obtain retry fatal w2 where handled: "handle_query_error h err False w1 = ((retry, fatal), w2)"
            by (metis surj_pair)
          have step: "analyze_columns k h table n (if retry then i else Suc i) (cs[i := fs]) w2 \<noteq> SaveUnfinished" if "fatal = None" for fs
            using columns_left_step [OF assms(1) i ask [unfolded Some r] handled [unfolded that], of fs] Suc.prems
            by (intro Suc.IH) simp
          show ?thesis
            using i \<open>str_ptr (cs ! i) ''Type'' = Some dt\<close> False ask Some r handled step
            by (cases fatal) (simp_all add: Let_def)
        qed
      qed (use i Some next_col in \<open>simp add: Let_def\<close>)
    qed (use i next_col in simp)
  qed simp
qed simp

text \<open>C19: The analysis of a table ends: with one unit of fuel more than there are columns, and one for
  the single retry that is possible when the server turns out to know the internal names of the functions.\<close>

theorem summary_ends:
  assumes "prefix_stays h" and "k \<ge> length cs + 2"
  shows "analyze_columns k h table n 0 cs w \<noteq> SaveUnfinished"
  by (rule analyze_columns_ends [OF assms(1)]) (use assms(2) in \<open>simp add: columns_left_def\<close>)

section \<open>Lost statistics\<close>

text \<open>When another goroutine finds out about the internal names while a query with the plain name is on
  its way, the query fails but is not repeated: the statistics of the column are left out.\<close>

lemma lost_statistics:
  assumes "str_ptr fs ''Type'' = Some ''varbinary''"
    and "\<And>q. ask_server h q w = (QueryFailed (PrestoError m), w1)" and "get_prefix h w1 \<noteq> []"
    and "\<not> has_suffix m ''does not exist''" and "num_ptr fs ''nulls_fraction'' \<noteq> None"
  shows "analyze_columns (Suc (Suc k)) h table n 0 [fs] w = Saved ([fs], w1)"
proof -
  have t: "raw_type ''varbinary'' = ''varbinary''" by code_simp
  have items: "statistics_for (get_prefix h w) ''varbinary'' fs \<noteq> []"
    by (simp add: statistics_for_def is_sizable_def Let_def)
  have "ask_into h q (column_target fs) w = (Some (Some (QueryFailure (PrestoError m)), column_target fs), w1)" for q
    by (simp add: ask_into_def assms(2) query_and_unmarshal_def)
  moreover have "handle_query_error h (Some (QueryFailure (PrestoError m))) False w1 = ((False, None), w1)"
    using assms(3,4) by (simp add: handle_query_error_def)
  ultimately show ?thesis
    using assms(1) items t by (simp add: Let_def column_target_def split: option.split)
qed

section \<open>The command\<close>

text \<open>The session parameters of the command line.\<close>

definition session_settings :: "string list \<Rightarrow> (string \<times> string) list" where
  "session_settings ps = concat (map (\<lambda>p. case cut_str ''='' p of (k, Some v) \<Rightarrow> [(k, v)] | (_, None) \<Rightarrow> []) ps)"

text \<open>The tables of an input file: rows of three columns; an error of the CSV reader is fatal.\<close>

fun tables_of_file :: "string list option list \<Rightarrow> (string \<times> string \<times> string) list \<times> bool" where
  "tables_of_file [] = ([], True)"
| "tables_of_file (None # rs) = ([], False)"
| "tables_of_file (Some r # rs) =
     (case r of
        [c, s, t] \<Rightarrow> (case tables_of_file rs of (ts, ok) \<Rightarrow> ((c, s, t) # ts, ok))
      | _ \<Rightarrow> tables_of_file rs)"

text \<open>\<open>saveTable\<close>: the file of a table; its effect on what the goroutines share is that it is written.\<close>

definition table_file :: "string \<Rightarrow> string \<times> string \<times> string \<Rightarrow> string" where
  "table_file out t = (case t of (c, s, n) \<Rightarrow> path_join out (c @ ''_'' @ s @ ''_'' @ n @ ''.json''))"

definition save_table :: "string \<Rightarrow> string \<times> string \<times> string \<Rightarrow> string list" where
  "save_table out t = [table_file out t]"

definition write_summary :: "string \<Rightarrow> string list \<Rightarrow> string list" where
  "write_summary f fs = fs @ [f]"

interpretation save: task_pool write_summary mset add_mset
  by unfold_locales (simp_all add: write_summary_def add_mset_commute)

lemma saved_files:
  assumes "pool_steps cap (save_table out) write_summary (pool_start [] ts) p" and "closed p"
  shows "mset (shared p) = mset (map (table_file out) (started p)) \<and> prefix (started p) ts"
proof -
  have "fold add_mset fs M = mset fs + M" for fs :: "string list" and M
    by (induction fs arbitrary: M) simp_all
  moreover have "concat (map (save_table out) ts) = map (table_file out) ts" for ts
    by (induction ts) (simp_all add: save_table_def)
  ultimately show ?thesis
    using save.closed_result [OF assms] pool_bound [OF assms(1)] by simp
qed

text \<open>Underscores make the names of files ambiguous: the summaries of two tables can go to the same file.\<close>

lemma same_table_file: "table_file out (''a_b'', ''c'', ''t'') = table_file out (''a'', ''b_c'', ''t'')"
  by (simp add: table_file_def)

section \<open>Example\<close>

definition demo_save :: "(bool, int) save_host" where
  "demo_save = \<lparr>values_of = demo_values, ask_server = (\<lambda>q w. (QueryFailed OtherError, w)),
     get_prefix = (\<lambda>w. if w then internal_prefix else []), use_internal = (\<lambda>_. True), zero_float = 0, nulls_of = (\<lambda>f n. 0)\<rparr>"

theorem summary_ends_witness:
  "analyze_columns 3 demo_save ''t'' 5 0 [zero_stats 0] False \<noteq> SaveUnfinished"
  by (rule summary_ends) (auto simp: prefix_stays_def demo_save_def internal_prefix_def)

end
