(* ===== verification/Forward.thy ===== *)
theory Forward
  imports Utils "HOL-Library.Word"
begin

text \<open>
  The command \<open>forward\<close>, \<open>cmd/forward/main.go\<close>: the queries that arrive at a source cluster are sent to
  the target clusters. A loop polls the states of the queries at the source and starts a goroutine for
  every new query, and one for every query that was cancelled; the goroutine of a query reads its
  details, filters and rewrites it, and starts one goroutine for each target. A map of the running
  queries tells the goroutines that cancel where to send the cancellation.
\<close>

section \<open>Polling\<close>

definition max_retry :: nat where
  "max_retry = 10"

record query_state =
  qs_id :: string
  qs_state :: string
  qs_error :: string
  qs_create :: int

definition is_cancelled :: "query_state \<Rightarrow> bool" where
  "is_cancelled q \<longleftrightarrow> qs_state q = ''FAILED'' \<and> qs_error q = ''USER_CANCELED''"

datatype fwd_task = CancelTask query_state | ForwardTask query_state

text \<open>The loop over the answer of a poll: the goroutines it starts, in order, and the new cutoff time.\<close>

fun scan_states :: "bool \<Rightarrow> int \<Rightarrow> int \<Rightarrow> query_state list \<Rightarrow> fwd_task list \<times> int" where
  "scan_states first cutoff newest [] = ([], newest)"
| "scan_states first cutoff newest (q # qs) =
     (let c = (if is_cancelled q then [CancelTask q] else []) in
      if qs_create q \<le> cutoff then (case scan_states first cutoff newest qs of (ts, n) \<Rightarrow> (c @ ts, n))
      else (case scan_states first cutoff (if newest < qs_create q then qs_create q else newest) qs of
              (ts, n) \<Rightarrow> (c @ (if first then [] else [ForwardTask q]) @ ts, n)))"

datatype loop_end = Interrupted | GaveUp

text \<open>The polling loop. The list holds the answers to the polls until the program is interrupted, with
  \<open>None\<close> for an error. The result are the goroutines started after each successful poll.\<close>

fun poll_loop :: "nat \<Rightarrow> bool \<Rightarrow> int \<Rightarrow> query_state list option list \<Rightarrow> fwd_task list list \<times> loop_end" where
  "poll_loop attempt first cutoff [] = ([], if attempt \<le> max_retry then Interrupted else GaveUp)"
| "poll_loop attempt first cutoff (a # as) =
     (if \<not> attempt \<le> max_retry then ([], GaveUp)
      else case a of
             None \<Rightarrow> poll_loop (attempt + 1) first cutoff as
           | Some qs \<Rightarrow>
               (case scan_states first cutoff cutoff qs of
                  (ts, newest) \<Rightarrow> (case poll_loop 1 False newest as of (tss, e) \<Rightarrow> (ts # tss, e))))"

definition forward_polls :: "query_state list option list \<Rightarrow> fwd_task list list \<times> loop_end" where
  "forward_polls = poll_loop 1 True zero_time"

section \<open>Filters and rewriting\<close>

text \<open>A compiled regular expression: whether it matches a text, and \<open>ReplaceAllString\<close>.\<close>

record regex =
  rx_match :: "string \<Rightarrow> bool"
  rx_replace :: "string \<Rightarrow> string \<Rightarrow> string"

record forward_config =
  dry_run :: bool
  exclude_patterns :: "regex list"
  replace_patterns :: "regex list"
  replace_strings :: "string list"
  schema_mappings :: "string \<rightharpoonup> string"

fun exclude_of :: "(string \<Rightarrow> regex option) \<Rightarrow> string list \<Rightarrow> regex list" where
  "exclude_of compile [] = []"
| "exclude_of compile (p # ps) =
     (case compile p of None \<Rightarrow> exclude_of compile ps | Some r \<Rightarrow> r # exclude_of compile ps)"

text \<open>The pairs of a pattern and a replacement, and of two schemas; the last one of an odd list is left out.\<close>

fun replace_of :: "(string \<Rightarrow> regex option) \<Rightarrow> string list \<Rightarrow> regex list \<times> string list" where
  "replace_of compile (p # s # ps) =
     (case replace_of compile ps of
        (rs, ss) \<Rightarrow> (case compile p of None \<Rightarrow> (rs, ss) | Some r \<Rightarrow> (r # rs, s # ss)))"
| "replace_of compile _ = ([], [])"

fun mappings_of :: "string list \<Rightarrow> (string \<rightharpoonup> string) \<Rightarrow> string \<rightharpoonup> string" where
  "mappings_of (a # b # ps) m = mappings_of ps (m(a \<mapsto> b))"
| "mappings_of _ m = m"

definition forward_config_of :: "(string \<Rightarrow> regex option) \<Rightarrow> bool \<Rightarrow> string list \<Rightarrow> string list \<Rightarrow> string list \<Rightarrow> forward_config" where
  "forward_config_of compile dry excl repl maps =
     (case replace_of compile repl of
        (rs, ss) \<Rightarrow> \<lparr>dry_run = dry, exclude_patterns = exclude_of compile excl, replace_patterns = rs, replace_strings = ss,
                     schema_mappings = mappings_of maps Map.empty\<rparr>)"

text \<open>The details of a query. The session properties are the value of the header that the client makes of them.\<close>

record fwd_info =
  fi_id :: string
  fi_query :: string
  fi_catalog :: "string option"
  fi_schema :: "string option"
  fi_session :: string

text \<open>What is sent to a target: the text and the headers.\<close>

record fwd_request =
  fr_query :: string
  fr_catalog :: "string option"
  fr_schema :: "string option"
  fr_session :: string
  fr_source :: string

datatype fwd_plan = NoInfo | Excluded | DryRun string "string option" | Send fwd_request

text \<open>The replacements in order, from index \<open>i\<close> on; \<open>None\<close> is the panic of an index out of range.\<close>

fun apply_replacements :: "nat \<Rightarrow> regex list \<Rightarrow> string list \<Rightarrow> string \<Rightarrow> string option" where
  "apply_replacements i [] ss q = Some q"
| "apply_replacements i (r # rs) ss q =
     (if i < length ss then apply_replacements (Suc i) rs ss (rx_replace r q (ss ! i)) else None)"

text \<open>\<open>forwardQuery\<close> up to the point where requests are sent. \<open>answer n\<close> is the answer to the \<open>n\<close>-th attempt
  to read the details.\<close>

definition plan_forward :: "forward_config \<Rightarrow> (nat \<Rightarrow> fwd_info option) \<Rightarrow> fwd_plan option" where
  "plan_forward cfg answer =
     (case first_some answer [1 ..< Suc max_retry] of
        None \<Rightarrow> Some NoInfo
      | Some i \<Rightarrow>
          if \<exists>r \<in> set (exclude_patterns cfg). rx_match r (fi_query i) then Some Excluded
          else (case apply_replacements 0 (replace_patterns cfg) (replace_strings cfg) (fi_query i) of
                  None \<Rightarrow> None
                | Some q \<Rightarrow>
                    (let schema = (case fi_schema i of
                                     None \<Rightarrow> None
                                   | Some s \<Rightarrow> (case schema_mappings cfg s of None \<Rightarrow> Some s | Some m \<Rightarrow> Some m))
                     in Some (if dry_run cfg then DryRun q schema
                              else Send \<lparr>fr_query = q, fr_catalog = fi_catalog i, fr_schema = schema,
                                         fr_session = fi_session i, fr_source = fi_id i\<rparr>))))"

text \<open>The configuration that is read from the command line never makes the code panic.\<close>

lemma apply_replacements_Some: "i + length rs \<le> length ss \<Longrightarrow> apply_replacements i rs ss q \<noteq> None"
  by (induction i rs ss q rule: apply_replacements.induct) simp_all

lemma replace_of_length: "length (fst (replace_of compile ps)) = length (snd (replace_of compile ps))"
  by (induction compile ps rule: replace_of.induct) (auto split: prod.splits option.splits)

lemma plan_forward_safe: "plan_forward (forward_config_of compile dry excl repl maps) answer \<noteq> None"
proof -
  obtain rs ss where r: "replace_of compile repl = (rs, ss)" by fastforce
  then have "length rs = length ss" using replace_of_length [of compile repl] by simp
  then have "apply_replacements 0 rs ss q \<noteq> None" for q by (intro apply_replacements_Some) simp
  then show ?thesis
    by (auto simp: plan_forward_def forward_config_of_def r Let_def split: option.split) (metis option.distinct(1))
qed

section \<open>Which queries are forwarded\<close>

text \<open>The answers that are read: all until ten errors in a row.\<close>

fun answers_read :: "nat \<Rightarrow> 'a option list \<Rightarrow> 'a list" where
  "answers_read attempt [] = []"
| "answers_read attempt (a # as) =
     (if \<not> attempt \<le> max_retry then []
      else case a of None \<Rightarrow> answers_read (attempt + 1) as | Some x \<Rightarrow> x # answers_read 1 as)"

definition forwarded_in :: "fwd_task list \<Rightarrow> query_state list" where
  "forwarded_in ts = concat (map (\<lambda>t. case t of ForwardTask q \<Rightarrow> [q] | CancelTask q \<Rightarrow> []) ts)"

lemma forwarded_in_simps [simp]:
  "forwarded_in [] = []" "forwarded_in (ForwardTask q # ts) = q # forwarded_in ts"
  "forwarded_in (CancelTask q # ts) = forwarded_in ts" "forwarded_in (ts @ us) = forwarded_in ts @ forwarded_in us"
  by (simp_all add: forwarded_in_def)

definition newest_of :: "int \<Rightarrow> query_state list \<Rightarrow> int" where
  "newest_of cutoff qs = fold max (map qs_create qs) cutoff"

lemma scan_states_spec:
  "cutoff \<le> newest \<Longrightarrow>
    forwarded_in (fst (scan_states first cutoff newest qs)) = (if first then [] else filter (\<lambda>q. cutoff < qs_create q) qs)
    \<and> snd (scan_states first cutoff newest qs) = newest_of newest qs"
proof (induction qs arbitrary: newest)
  case (Cons q qs)
  have "newest_of newest (q # qs) = newest_of (max newest (qs_create q)) qs"
    by (simp add: newest_of_def max.commute)
  moreover have "max newest (qs_create q) = (if newest < qs_create q then qs_create q else newest)" by simp
  moreover have "max newest (qs_create q) = newest" if "qs_create q \<le> cutoff" using that Cons.prems by simp
  ultimately show ?case
    using Cons.IH [of newest] Cons.IH [of "max newest (qs_create q)"] Cons.prems
    by (auto simp: Let_def split: prod.split)
qed (simp add: newest_of_def)

text \<open>The queries of the \<open>k\<close>-th successful answer that are newer than all of the answers before it.\<close>

definition new_queries :: "int \<Rightarrow> query_state list list \<Rightarrow> nat \<Rightarrow> query_state list" where
  "new_queries cutoff rs k = filter (\<lambda>q. newest_of cutoff (concat (take k rs)) < qs_create q) (rs ! k)"

lemma poll_loop_spec:
  "let (tss, e) = poll_loop attempt first cutoff as; rs = answers_read attempt as in
     length tss = length rs
     \<and> (\<forall>k < length tss. forwarded_in (tss ! k) = (if k = 0 \<and> first then [] else new_queries cutoff rs k))"
proof (induction as arbitrary: attempt first cutoff)
  case (Cons a as)
  show ?case
  proof (cases "attempt \<le> max_retry \<and> a \<noteq> None")
    case True
    then obtain qs where a: "a = Some qs" by auto
    obtain ts newest where scan: "scan_states first cutoff cutoff qs = (ts, newest)" by fastforce
    have s: "forwarded_in ts = (if first then [] else filter (\<lambda>q. cutoff < qs_create q) qs)" "newest = newest_of cutoff qs"
      using scan_states_spec [of cutoff cutoff first qs] by (simp_all add: scan)
    obtain tss e where rest: "poll_loop 1 False newest as = (tss, e)" by fastforce
    have ih: "length tss = length (answers_read 1 as)"
      "k < length tss \<Longrightarrow> forwarded_in (tss ! k) = new_queries newest (answers_read 1 as) k" for k
      using Cons.IH [of 1 False newest] unfolding rest Let_def by simp_all
    have shift: "new_queries cutoff (qs # rs) (Suc k) = new_queries newest rs k" for rs k
      by (simp add: new_queries_def newest_of_def s(2))
    have "forwarded_in ((ts # tss) ! k) = (if k = 0 \<and> first then [] else new_queries cutoff (qs # answers_read 1 as) k)"
      if "k < Suc (length tss)" for k
      using that s(1) ih(2) shift by (cases k) (simp_all add: new_queries_def newest_of_def)
    moreover have "poll_loop attempt first cutoff (a # as) = (ts # tss, e)"
      using True rest [unfolded One_nat_def] by (simp add: a scan)
    moreover have "answers_read attempt (a # as) = qs # answers_read 1 as"
      using True by (simp add: a)
    ultimately show ?thesis using ih(1) by (simp add: Let_def)
  next
    case False
    show ?thesis
    proof (cases "attempt \<le> max_retry")
      case True
      then have "poll_loop attempt first cutoff (a # as) = poll_loop (attempt + 1) first cutoff as"
        and "answers_read attempt (a # as) = answers_read (attempt + 1) as"
        using False by simp_all
      then show ?thesis using Cons.IH [of "attempt + 1" first cutoff] by simp
    qed simp
  qed
qed simp

lemma newest_of_max: "newest_of cutoff qs < t \<longleftrightarrow> cutoff < t \<and> (\<forall>q \<in> set qs. qs_create q < t)"
  by (induction qs arbitrary: cutoff) (auto simp: newest_of_def)

lemma distinct_concat_nth:
  "(\<forall>k < length xss. distinct (xss ! k)) \<Longrightarrow> (\<forall>k < length xss. \<forall>j < k. set (xss ! j) \<inter> set (xss ! k) = {}) \<Longrightarrow> distinct (concat xss)"
proof (induction xss)
  case (Cons xs xss)
  have "\<forall>k < length xss. distinct (xss ! k)" using Cons.prems(1) by (auto dest: spec [of _ "Suc _"])
  moreover have "\<forall>k < length xss. \<forall>j < k. set (xss ! j) \<inter> set (xss ! k) = {}"
    using Cons.prems(2) by (metis Suc_mono length_Cons nth_Cons_Suc)
  ultimately have "distinct (concat xss)" by (rule Cons.IH)
  moreover have "distinct xs" using Cons.prems(1) by (auto dest: spec [of _ 0])
  moreover have "set xs \<inter> set (xss ! k) = {}" if "k < length xss" for k
    using Cons.prems(2) that by (metis Suc_mono length_Cons nth_Cons_0 nth_Cons_Suc zero_less_Suc)
  then have "set xs \<inter> set ys = {}" if "ys \<in> set xss" for ys using that by (metis in_set_conv_nth)
  then have "set xs \<inter> set (concat xss) = {}" by auto
  ultimately show ?case by simp
qed simp

text \<open>C16: Exactly the new queries are forwarded. After the first answer, which only tells what is old, the
  queries of an answer that are forwarded are those created after every query of every answer before.
  So no query is forwarded twice, when a query has one creation time and occurs once in an answer.\<close>

theorem forwards_new:
  "let tss = fst (forward_polls answers); rs = answers_read 1 answers in
     length tss = length rs
     \<and> (\<forall>k < length tss. forwarded_in (tss ! k) =
          (if k = 0 then []
           else filter (\<lambda>q. zero_time < qs_create q \<and> (\<forall>q' \<in> set (concat (take k rs)). qs_create q' < qs_create q)) (rs ! k)))
     \<and> ((\<forall>r \<in> set rs. distinct (map qs_id r)) \<and> (\<forall>q \<in> set (concat rs). qs_create q = created (qs_id q)) \<longrightarrow>
          distinct (map qs_id (concat (map forwarded_in tss))))"
proof -
  obtain tss e where p: "poll_loop 1 True zero_time answers = (tss, e)" by fastforce
  let ?rs = "answers_read 1 answers"
  have len: "length tss = length ?rs"
    and k: "k < length tss \<Longrightarrow> forwarded_in (tss ! k) = (if k = 0 then [] else new_queries zero_time ?rs k)" for k
    using poll_loop_spec [of 1 True zero_time answers] unfolding p Let_def by simp_all
  have new: "new_queries zero_time ?rs k
      = filter (\<lambda>q. zero_time < qs_create q \<and> (\<forall>q' \<in> set (concat (take k ?rs)). qs_create q' < qs_create q)) (?rs ! k)" for k
    by (simp add: new_queries_def newest_of_max)
  have "distinct (map qs_id (concat (map forwarded_in tss)))"
    if d: "\<forall>r \<in> set ?rs. distinct (map qs_id r)" and c: "\<forall>q \<in> set (concat ?rs). qs_create q = created (qs_id q)"
  proof -
    have "distinct (concat (map (\<lambda>ts. map qs_id (forwarded_in ts)) tss))"
    proof (rule distinct_concat_nth; intro allI impI)
      fix k assume "k < length (map (\<lambda>ts. map qs_id (forwarded_in ts)) tss)"
      then show "distinct (map (\<lambda>ts. map qs_id (forwarded_in ts)) tss ! k)"
        using k [of k] d len by (auto simp: new_queries_def distinct_map_filter)
    next
      fix k j assume *: "k < length (map (\<lambda>ts. map qs_id (forwarded_in ts)) tss)" and "j < k"
      have "qs_id q \<noteq> qs_id q'" if "q \<in> set (forwarded_in (tss ! j))" "q' \<in> set (forwarded_in (tss ! k))" for q q'
      proof -
        have fk: "forwarded_in (tss ! k) = new_queries zero_time ?rs k" using k [of k] * \<open>j < k\<close> by simp
        have q: "q \<in> set (?rs ! j)" using that(1) k [of j] * \<open>j < k\<close> by (auto simp: new_queries_def split: if_splits)
        have q': "q' \<in> set (?rs ! k)" "\<forall>q \<in> set (concat (take k ?rs)). qs_create q < qs_create q'"
          using that(2) unfolding fk new by simp_all
        have "?rs ! j \<in> set (take k ?rs)"
          using * \<open>j < k\<close> len by (auto simp: in_set_conv_nth intro!: exI [of _ j])
        then have "qs_create q < qs_create q'" using q q'(2) by auto
        moreover have "q \<in> set (concat ?rs)" "q' \<in> set (concat ?rs)"
          using q q'(1) * \<open>j < k\<close> len by (auto intro!: bexI [of _ "?rs ! _"])
        ultimately show ?thesis using c by (metis less_irrefl)
      qed
      then show "set (map (\<lambda>ts. map qs_id (forwarded_in ts)) tss ! j) \<inter> set (map (\<lambda>ts. map qs_id (forwarded_in ts)) tss ! k) = {}"
        using * \<open>j < k\<close> by auto
    qed
    then show ?thesis by (simp add: map_concat comp_def)
  qed
  moreover have "\<forall>k < length tss. forwarded_in (tss ! k) =
      (if k = 0 then []
       else filter (\<lambda>q. zero_time < qs_create q \<and> (\<forall>q' \<in> set (concat (take k ?rs)). qs_create q' < qs_create q)) (?rs ! k))"
    unfolding new [symmetric] using k by blast
  ultimately show ?thesis
    unfolding forward_polls_def p Let_def fst_conv using len by (intro conjI impI) (elim conjE, assumption | blast)+
qed

text \<open>A query that was created at the same time as the newest one of the answer before is never seen as new.\<close>

lemma same_time_not_forwarded:
  "forwarded_in (fst (forward_polls [Some [], Some [\<lparr>qs_id = ''a'', qs_state = s, qs_error = e, qs_create = 5\<rparr>],
       Some [\<lparr>qs_id = ''a'', qs_state = s, qs_error = e, qs_create = 5\<rparr>, \<lparr>qs_id = ''b'', qs_state = s, qs_error = e, qs_create = 5\<rparr>]]) ! 2) = []"
  by (simp add: forward_polls_def max_retry_def Let_def is_cancelled_def zero_time_def)

text \<open>The program gives up exactly when ten polls in a row fail.\<close>

lemma keeps_polling:
  assumes "\<not> sublist (replicate max_retry None) (replicate (attempt - 1) None @ as)" and "0 < attempt"
  shows "answers_read attempt as = concat (map (\<lambda>a. case a of None \<Rightarrow> [] | Some x \<Rightarrow> [x]) as)
    \<and> snd (poll_loop attempt first cutoff as) = Interrupted"
  using assms
proof (induction as arbitrary: attempt first cutoff)
  case Nil
  have "attempt \<le> max_retry"
  proof (rule ccontr)
    assume "\<not> attempt \<le> max_retry"
    then obtain d where "attempt - 1 = max_retry + d" using Nil.prems(2) by (metis Suc_diff_1 less_Suc_eq_le linorder_not_le le_Suc_ex)
    with Nil.prems(1) show False by (simp add: replicate_add)
  qed
  then show ?case by simp
next
  case (Cons a as)
  have le: "attempt \<le> max_retry"
  proof (rule ccontr)
    assume "\<not> attempt \<le> max_retry"
    then obtain d where "attempt - 1 = max_retry + d" using Cons.prems(2) by (metis Suc_diff_1 less_Suc_eq_le linorder_not_le le_Suc_ex)
    with Cons.prems(1) show False by (simp add: replicate_add)
  qed
  show ?case
  proof (cases a)
    case None
    have "replicate (attempt - 1) None @ a # as = replicate (attempt + 1 - 1) None @ as"
      using Cons.prems(2) None by (cases attempt) (simp_all add: replicate_app_Cons_same)
    with Cons.prems(1) have "\<not> sublist (replicate max_retry None) (replicate (attempt + 1 - 1) None @ as)" by metis
    from Cons.IH [OF this] show ?thesis using le None by simp
  next
    case (Some qs)
    have "\<not> sublist (replicate max_retry None) (replicate (1 - 1) None @ as)"
      using Cons.prems(1) sublist_appendI [of as "replicate (attempt - 1) None @ [a]" "[]"]
      by (auto dest: sublist_order.order_trans)
    from Cons.IH [OF this] have "answers_read 1 as = concat (map (case_option [] (\<lambda>x. [x])) as)"
      and "snd (poll_loop 1 False (snd (scan_states first cutoff cutoff qs)) as) = Interrupted" by simp_all
    moreover have "snd (poll_loop attempt first cutoff (a # as)) = snd (poll_loop 1 False (snd (scan_states first cutoff cutoff qs)) as)"
      using le Some by (simp split: prod.split)
    ultimately show ?thesis using le Some by simp
  qed
qed

section \<open>The goroutines of a query\<close>

text \<open>
  What becomes of a query at a target: its request is on the way, its result is drained (with the next
  URI, when the answer had one, in the cache), or it is done, with success or not. The entry in the
  slice \<open>cachedQueries\<close> is the URI.
\<close>

datatype fwd_target = Querying | Draining "string option" | Drained "string option" bool

fun target_uri :: "fwd_target \<Rightarrow> string option" where
  "target_uri Querying = None"
| "target_uri (Draining u) = u"
| "target_uri (Drained u ok) = u"

fun target_done :: "fwd_target \<Rightarrow> bool" where
  "target_done (Drained u ok) = True"
| "target_done _ = False"

text \<open>The phases of \<open>forwardQuery\<close>: reading the details; the goroutines of the targets at work; counted,
  but still in the map of running queries; ended.\<close>

datatype fwd_phase = Fetching | Sending "fwd_target list" | Counted "fwd_target list" | Ended "fwd_target list"

inductive phase_step :: "nat \<Rightarrow> fwd_plan \<Rightarrow> fwd_phase \<Rightarrow> fwd_phase \<Rightarrow> bool" for n :: nat and plan :: fwd_plan where
  no_info: "plan = NoInfo \<Longrightarrow> phase_step n plan Fetching (Ended [])"
| excluded: "plan = Excluded \<Longrightarrow> phase_step n plan Fetching (Ended [])"
| dry_run: "plan = DryRun q s \<Longrightarrow> phase_step n plan Fetching (Ended [])"
| register: "plan = Send r \<Longrightarrow> phase_step n plan Fetching (Sending (replicate n Querying))"
| query_failed: "\<lbrakk>i < length ts; ts ! i = Querying\<rbrakk> \<Longrightarrow> phase_step n plan (Sending ts) (Sending (ts[i := Drained None False]))"
| query_sent: "\<lbrakk>i < length ts; ts ! i = Querying\<rbrakk> \<Longrightarrow> phase_step n plan (Sending ts) (Sending (ts[i := Draining u]))"
| drain: "\<lbrakk>i < length ts; ts ! i = Draining u\<rbrakk> \<Longrightarrow> phase_step n plan (Sending ts) (Sending (ts[i := Drained u ok]))"
| count: "list_all target_done ts \<Longrightarrow> phase_step n plan (Sending ts) (Counted ts)"
| remove: "phase_step n plan (Counted ts) (Ended ts)"

text \<open>What the goroutines share: the counters are atomic 32-bit words, \<open>fwd_tasks\<close> is the wait group
  \<open>runningTasks\<close>. A goroutine that cancels first looks the query up and then goes through the slice
  it has found. \<open>cancels\<close> are the requests to cancel, with the index of the target. \<open>fwd_requests\<close> are the
  requests of the calls of \<open>client.Query\<close> that have returned, each with its run and its target.\<close>

record fwd_sys =
  to_start :: "fwd_task list"
  fwd_runs :: "(query_state \<times> fwd_phase) list"
  lookups :: "string list"
  checks :: "(nat \<times> nat) list"
  fwd_cache :: "string \<rightharpoonup> nat"
  n_forwarded :: "32 word"
  n_failed :: "32 word"
  fwd_tasks :: nat
  cancels :: "(nat \<times> string) list"
  fwd_requests :: "(nat \<times> nat \<times> fwd_request) list"

definition fwd_start :: "fwd_task list \<Rightarrow> fwd_sys" where
  "fwd_start ts = \<lparr>to_start = ts, fwd_runs = [], lookups = [], checks = [], fwd_cache = Map.empty,
     n_forwarded = 0, n_failed = 0, fwd_tasks = 0, cancels = [], fwd_requests = []\<rparr>"

text \<open>The requests of run \<open>t\<close> to the targets that were still waiting for their answer in \<open>ts\<close> and are not in
  \<open>us\<close>. All targets are asked with the query and the headers of the plan.\<close>

definition ask_targets :: "fwd_plan \<Rightarrow> nat \<Rightarrow> fwd_target list \<Rightarrow> fwd_target list \<Rightarrow> (nat \<times> nat \<times> fwd_request) list" where
  "ask_targets plan t ts us =
     (case plan of
        Send r \<Rightarrow> map (\<lambda>j. (t, j, r)) (filter (\<lambda>j. ts ! j = Querying \<and> us ! j \<noteq> Querying) [0..<length ts])
      | _ \<Rightarrow> [])"

text \<open>What a step of a phase does to the shared variables.\<close>

fun account :: "fwd_plan \<Rightarrow> string \<Rightarrow> nat \<Rightarrow> fwd_phase \<Rightarrow> fwd_phase \<Rightarrow> fwd_sys \<Rightarrow> fwd_sys" where
  "account plan i t Fetching (Ended ts) s =
     s\<lparr>n_failed := (if plan = NoInfo then n_failed s + 1 else n_failed s), fwd_tasks := fwd_tasks s - 1\<rparr>"
| "account plan i t Fetching (Sending ts) s = s\<lparr>fwd_cache := (fwd_cache s)(i \<mapsto> t)\<rparr>"
| "account plan i t (Sending ts) (Sending us) s = s\<lparr>fwd_requests := fwd_requests s @ ask_targets plan t ts us\<rparr>"
| "account plan i t (Sending ts) (Counted us) s = s\<lparr>n_forwarded := n_forwarded s + 1\<rparr>"
| "account plan i t (Counted ts) (Ended us) s = s\<lparr>fwd_cache := (fwd_cache s)(i := None), fwd_tasks := fwd_tasks s - 1\<rparr>"
| "account plan i t ph ph' s = s"

fun phase_targets :: "fwd_phase \<Rightarrow> fwd_target list" where
  "phase_targets Fetching = []"
| "phase_targets (Sending ts) = ts"
| "phase_targets (Counted ts) = ts"
| "phase_targets (Ended ts) = ts"

text \<open>The entry of target \<open>i\<close> in the slice of run \<open>t\<close>; an empty URI is skipped like none.\<close>

definition cancel_of :: "fwd_sys \<Rightarrow> nat \<times> nat \<Rightarrow> (nat \<times> string) list" where
  "cancel_of s c =
     (case target_uri (phase_targets (snd (fwd_runs s ! fst c)) ! snd c) of
        Some u \<Rightarrow> if u \<noteq> [] then [(snd c, u)] else []
      | None \<Rightarrow> [])"

inductive fwd_step :: "nat \<Rightarrow> (query_state \<Rightarrow> fwd_plan) \<Rightarrow> fwd_sys \<Rightarrow> fwd_sys \<Rightarrow> bool"
  for n :: nat and plan :: "query_state \<Rightarrow> fwd_plan" where
  start_forward: "to_start s = ForwardTask q # ts \<Longrightarrow>
    fwd_step n plan s (s\<lparr>to_start := ts, fwd_runs := fwd_runs s @ [(q, Fetching)], fwd_tasks := fwd_tasks s + 1\<rparr>)"
| start_cancel: "to_start s = CancelTask q # ts \<Longrightarrow>
    fwd_step n plan s (s\<lparr>to_start := ts, lookups := lookups s @ [qs_id q]\<rparr>)"
| advance: "\<lbrakk>t < length (fwd_runs s); fwd_runs s ! t = (q, ph); phase_step n (plan q) ph ph'\<rbrakk> \<Longrightarrow>
    fwd_step n plan s (account (plan q) (qs_id q) t ph ph' (s\<lparr>fwd_runs := (fwd_runs s)[t := (q, ph')]\<rparr>))"
| look_up: "i \<in> set (lookups s) \<Longrightarrow>
    fwd_step n plan s (s\<lparr>lookups := remove1 i (lookups s),
      checks := checks s @ (case fwd_cache s i of None \<Rightarrow> [] | Some t \<Rightarrow> map (Pair t) [0 ..< n])\<rparr>)"
| check: "c \<in> set (checks s) \<Longrightarrow>
    fwd_step n plan s (s\<lparr>checks := remove1 c (checks s), cancels := cancels s @ cancel_of s c\<rparr>)"

abbreviation fwd_steps :: "nat \<Rightarrow> (query_state \<Rightarrow> fwd_plan) \<Rightarrow> fwd_sys \<Rightarrow> fwd_sys \<Rightarrow> bool" where
  "fwd_steps n plan \<equiv> (fwd_step n plan)\<^sup>*\<^sup>*"

section \<open>Accounts\<close>

fun phase_active :: "fwd_phase \<Rightarrow> bool" where
  "phase_active (Ended ts) = False"
| "phase_active _ = True"

fun phase_forwarded :: "fwd_plan \<Rightarrow> fwd_phase \<Rightarrow> bool" where
  "phase_forwarded p (Counted ts) = True"
| "phase_forwarded (Send r) (Ended ts) = True"
| "phase_forwarded _ _ = False"

fun phase_failed :: "fwd_plan \<Rightarrow> fwd_phase \<Rightarrow> bool" where
  "phase_failed NoInfo (Ended ts) = True"
| "phase_failed _ _ = False"

text \<open>The phase agrees with the plan, and every target has been asked and has answered before the query
  is counted.\<close>

fun phase_ok :: "nat \<Rightarrow> fwd_plan \<Rightarrow> fwd_phase \<Rightarrow> bool" where
  "phase_ok n p Fetching = True"
| "phase_ok n p (Sending ts) = ((\<exists>r. p = Send r) \<and> length ts = n)"
| "phase_ok n p (Counted ts) = ((\<exists>r. p = Send r) \<and> length ts = n \<and> list_all target_done ts)"
| "phase_ok n p (Ended ts) = ((\<exists>r. p = Send r) \<longrightarrow> length ts = n \<and> list_all target_done ts)"

definition fwd_ok :: "nat \<Rightarrow> (query_state \<Rightarrow> fwd_plan) \<Rightarrow> fwd_task list \<Rightarrow> fwd_sys \<Rightarrow> bool" where
  "fwd_ok n plan ts s \<longleftrightarrow>
     map fst (fwd_runs s) @ forwarded_in (to_start s) = forwarded_in ts
     \<and> fwd_tasks s = count_of (\<lambda>r. phase_active (snd r)) (fwd_runs s)
     \<and> n_forwarded s = of_nat (count_of (\<lambda>r. phase_forwarded (plan (fst r)) (snd r)) (fwd_runs s))
     \<and> n_failed s = of_nat (count_of (\<lambda>r. phase_failed (plan (fst r)) (snd r)) (fwd_runs s))
     \<and> (\<forall>r \<in> set (fwd_runs s). phase_ok n (plan (fst r)) (snd r))"

lemma phase_step_ok: "phase_step n p ph ph' \<Longrightarrow> phase_ok n p ph \<Longrightarrow> phase_ok n p ph'"
  by (induction rule: phase_step.induct) auto

lemma account_runs [simp]:
  "fwd_runs (account p i t ph ph' s) = fwd_runs s" "to_start (account p i t ph ph' s) = to_start s"
  "lookups (account p i t ph ph' s) = lookups s" "checks (account p i t ph ph' s) = checks s"
  "cancels (account p i t ph ph' s) = cancels s"
  by (cases "(p, i, t, ph, ph', s)" rule: account.cases; simp)+

lemma phase_step_counts:
  assumes "phase_step n p ph ph'" and "phase_ok n p ph"
  shows "fwd_tasks (account p i t ph ph' s) + (if phase_active ph then 1 else 0) = (fwd_tasks s - (if phase_active ph' then 0 else 1)) + 1"
    and "n_forwarded (account p i t ph ph' s) + (if phase_forwarded p ph then 1 else 0) = n_forwarded s + (if phase_forwarded p ph' then 1 else 0)"
    and "n_failed (account p i t ph ph' s) + (if phase_failed p ph then 1 else 0) = n_failed s + (if phase_failed p ph' then 1 else 0)"
  using assms by (induction rule: phase_step.induct; auto)+

lemma phase_step_active: "phase_step n p ph ph' \<Longrightarrow> phase_active ph"
  by (induction rule: phase_step.induct) simp_all

lemma word_count_update:
  assumes "i < length xs" and "(w' :: 32 word) + (if p (xs ! i) then 1 else 0) = of_nat (count_of p xs) + (if p x then 1 else 0)"
  shows "w' = of_nat (count_of p (xs[i := x]))"
proof -
  have "(of_nat (count_of p (xs[i := x])) :: 32 word) + (if p (xs ! i) then 1 else 0) = of_nat (count_of p xs) + (if p x then 1 else 0)"
    using arg_cong [OF count_of_update [OF assms(1), of p x], of "of_nat :: nat \<Rightarrow> 32 word"] by (simp split: if_splits)
  with assms(2) show ?thesis by (metis add_right_cancel)
qed

lemma fwd_ok_step: "fwd_step n plan s s' \<Longrightarrow> fwd_ok n plan ts s \<Longrightarrow> fwd_ok n plan ts s'"
proof (induction rule: fwd_step.induct)
  case (advance t s q ph ph')
  let ?runs = "fwd_runs s" and ?r = "(q, ph')"
  let ?s = "s\<lparr>fwd_runs := ?runs[t := ?r]\<rparr>"
  have ok: "phase_ok n (plan q) ph" using advance by (auto simp: fwd_ok_def dest!: nth_mem)
  note c = phase_step_counts [OF advance(3) ok, of "qs_id q" t ?s]
  have tasks: "fwd_tasks s = count_of (\<lambda>r. phase_active (snd r)) ?runs" using advance(4) by (simp add: fwd_ok_def)
  have "fwd_tasks (account (plan q) (qs_id q) t ph ph' ?s) = count_of (\<lambda>r. phase_active (snd r)) (?runs[t := ?r])"
    using count_of_update [OF advance(1), of "\<lambda>r. phase_active (snd r)" ?r] c(1) phase_step_active [OF advance(3)] advance(2) tasks
    by (auto split: if_splits)
  moreover have "n_forwarded (account (plan q) (qs_id q) t ph ph' ?s)
      = of_nat (count_of (\<lambda>r. phase_forwarded (plan (fst r)) (snd r)) (?runs[t := ?r]))"
    using c(2) advance(2,4) by (intro word_count_update [OF advance(1)]) (simp add: fwd_ok_def)
  moreover have "n_failed (account (plan q) (qs_id q) t ph ph' ?s)
      = of_nat (count_of (\<lambda>r. phase_failed (plan (fst r)) (snd r)) (?runs[t := ?r]))"
    using c(3) advance(2,4) by (intro word_count_update [OF advance(1)]) (simp add: fwd_ok_def)
  moreover have "map fst (?runs[t := ?r]) = map fst ?runs"
    using advance(1,2) by (metis fst_conv list_update_id map_update)
  moreover have "\<forall>r \<in> set (?runs[t := ?r]). phase_ok n (plan (fst r)) (snd r)"
    using advance(4) phase_step_ok [OF advance(3) ok] set_update_subset_insert [of ?runs t ?r] by (auto simp: fwd_ok_def)
  ultimately show ?case using advance(4) by (simp add: fwd_ok_def)
qed (auto simp: fwd_ok_def)

lemma fwd_ok_steps:
  assumes "fwd_steps n plan (fwd_start ts) s"
  shows "fwd_ok n plan ts s"
  using assms
proof (induction rule: rtranclp_induct)
  case base
  then show ?case by (simp add: fwd_ok_def fwd_start_def)
qed (blast intro: fwd_ok_step)

section \<open>The map of running queries\<close>

fun registered :: "fwd_phase \<Rightarrow> bool" where
  "registered (Sending ts) = True"
| "registered (Counted ts) = True"
| "registered _ = False"

definition run_id_of :: "fwd_sys \<Rightarrow> nat \<Rightarrow> string" where
  "run_id_of s t = qs_id (fst (fwd_runs s ! t))"

definition cache_sound :: "fwd_sys \<Rightarrow> bool" where
  "cache_sound s \<longleftrightarrow>
     (\<forall>i t. fwd_cache s i = Some t \<longrightarrow> t < length (fwd_runs s) \<and> run_id_of s t = i \<and> registered (snd (fwd_runs s ! t)))"

definition cache_complete :: "fwd_sys \<Rightarrow> bool" where
  "cache_complete s \<longleftrightarrow> (\<forall>t < length (fwd_runs s). registered (snd (fwd_runs s ! t)) \<longrightarrow> fwd_cache s (run_id_of s t) = Some t)"

lemma account_cache:
  assumes "phase_step n p ph ph'"
  shows "fwd_cache (account p i t ph ph' s) =
    (if registered ph = registered ph' then fwd_cache s
     else if registered ph' then (fwd_cache s)(i \<mapsto> t) else (fwd_cache s)(i := None))"
  using assms by (induction rule: phase_step.induct) simp_all

lemma run_ids:
  assumes "t < length (fwd_runs s)" and "fwd_runs s ! t = (q, ph)"
  shows "qs_id (fst ((fwd_runs s)[t := (q, ph')] ! t')) = run_id_of s t'"
proof -
  have "map fst ((fwd_runs s)[t := (q, ph')]) = map fst (fwd_runs s)"
    using assms by (metis fst_conv list_update_id map_update)
  then show ?thesis
    using assms by (cases "t' = t") (simp_all add: run_id_of_def)
qed

lemma cache_step:
  assumes "fwd_step n plan s s'" and "distinct (map qs_id (forwarded_in ts))" and "fwd_ok n plan ts s"
    and "cache_sound s \<and> cache_complete s"
  shows "cache_sound s' \<and> cache_complete s'"
  using assms(1,3,4)
proof (induction rule: fwd_step.induct)
  case (start_forward s q ts')
  then show ?case
    by (auto simp: cache_sound_def cache_complete_def run_id_of_def nth_append less_Suc_eq)
next
  case (advance t s q ph ph')
  let ?runs = "(fwd_runs s)[t := (q, ph')]"
  have "forwarded_in ts = map fst (fwd_runs s) @ forwarded_in (to_start s)"
    using advance(4) by (simp add: fwd_ok_def)
  with assms(2) have "distinct (map qs_id (map fst (fwd_runs s)))" by simp
  then have id: "run_id_of s t' = qs_id q \<longleftrightarrow> t' = t" if "t' < length (fwd_runs s)" for t'
    using that advance(1,2) nth_eq_iff_index_eq [of "map qs_id (map fst (fwd_runs s))" t' t] by (simp add: run_id_of_def)
  have runs: "registered (snd (?runs ! t')) = (if t' = t then registered ph' else registered (snd (fwd_runs s ! t')))"
    "registered (snd (fwd_runs s ! t)) = registered ph" for t'
    using advance(1,2) by (simp_all add: nth_list_update)
  have t: "run_id_of s t = qs_id q" using advance(1,2) by (simp add: run_id_of_def)
  let ?s = "account (plan q) (qs_id q) t ph ph' (s\<lparr>fwd_runs := ?runs\<rparr>)"
  let ?reg = "\<lambda>t'. if t' = t then registered ph' else registered (snd (fwd_runs s ! t'))"
  have ids: "run_id_of ?s t' = run_id_of s t'" for t'
    using run_ids [OF advance(1,2), of ph' t'] by (simp add: run_id_of_def)
  have sound: "cache_sound ?s \<longleftrightarrow> (\<forall>i t'. fwd_cache ?s i = Some t' \<longrightarrow> t' < length (fwd_runs s) \<and> run_id_of s t' = i \<and> ?reg t')"
    and complete: "cache_complete ?s \<longleftrightarrow> (\<forall>t' < length (fwd_runs s). ?reg t' \<longrightarrow> fwd_cache ?s (run_id_of s t') = Some t')"
    unfolding cache_sound_def cache_complete_def ids by (simp_all add: runs)
  have old: "fwd_cache s i = Some t' \<Longrightarrow> t' < length (fwd_runs s) \<and> run_id_of s t' = i \<and> registered (snd (fwd_runs s ! t'))"
    "t' < length (fwd_runs s) \<Longrightarrow> registered (snd (fwd_runs s ! t')) \<Longrightarrow> fwd_cache s (run_id_of s t') = Some t'" for i t'
    using advance(5) by (simp_all add: cache_sound_def cache_complete_def)
  have cache: "fwd_cache ?s = (if registered ph = registered ph' then fwd_cache s
     else if registered ph' then (fwd_cache s)(qs_id q \<mapsto> t) else (fwd_cache s)(qs_id q := None))"
    using account_cache [OF advance(3)] by simp
  have "cache_sound ?s"
    unfolding sound cache using old(1) id runs(2) t advance(1) by (auto split: if_splits)
  moreover have "cache_complete ?s"
    unfolding complete cache using old(2) id runs(2) t advance(1) by (auto split: if_splits)
  ultimately show ?case ..
qed (simp_all add: cache_sound_def cache_complete_def run_id_of_def)

lemma cache_steps:
  assumes "fwd_steps n plan (fwd_start ts) s" and "distinct (map qs_id (forwarded_in ts))"
  shows "cache_sound s \<and> cache_complete s"
  using assms(1)
proof (induction rule: rtranclp_induct)
  case base
  then show ?case by (simp add: cache_sound_def cache_complete_def fwd_start_def)
next
  case (step s s')
  then show ?case using cache_step [OF step(2) assms(2) fwd_ok_steps [OF step(1)]] by blast
qed

lemma ended_run:
  assumes "fwd_steps n plan (fwd_start ts) s" and "to_start s = []" and "fwd_tasks s = 0"
  shows "map fst (fwd_runs s) = forwarded_in ts
    \<and> (\<forall>(q, ph) \<in> set (fwd_runs s). \<exists>us. ph = Ended us \<and> ((\<exists>r. plan q = Send r) \<longrightarrow> length us = n \<and> list_all target_done us))
    \<and> n_forwarded s = of_nat (count_of (\<lambda>q. \<exists>r. plan q = Send r) (forwarded_in ts))
    \<and> n_failed s = of_nat (count_of (\<lambda>q. plan q = NoInfo) (forwarded_in ts))
    \<and> (distinct (map qs_id (forwarded_in ts)) \<longrightarrow> fwd_cache s = Map.empty)"
proof -
  have ok: "fwd_ok n plan ts s" using fwd_ok_steps [OF assms(1)] .
  then have runs: "map fst (fwd_runs s) = forwarded_in ts" using assms(2) by (simp add: fwd_ok_def)
  have ended: "\<exists>us. snd r = Ended us" if "r \<in> set (fwd_runs s)" for r
    using ok assms(3) that by (cases "snd r") (auto simp: fwd_ok_def count_of_0)
  have end_ok: "\<exists>us. ph = Ended us \<and> ((\<exists>r. plan q = Send r) \<longrightarrow> length us = n \<and> list_all target_done us)"
    if "(q, ph) \<in> set (fwd_runs s)" for q ph
    using ended [OF that] ok that by (fastforce simp: fwd_ok_def)
  have "count_of (\<lambda>r. phase_forwarded (plan (fst r)) (snd r)) rs = count_of (\<lambda>q. \<exists>r. plan q = Send r) (map fst rs)
      \<and> count_of (\<lambda>r. phase_failed (plan (fst r)) (snd r)) rs = count_of (\<lambda>q. plan q = NoInfo) (map fst rs)"
    if "\<And>r. r \<in> set rs \<Longrightarrow> \<exists>us. snd r = Ended us" for rs
    using that
  proof (induction rs)
    case (Cons r rs)
    obtain us where "snd r = Ended us" using Cons.prems [of r] by auto
    then show ?case using Cons by (cases "plan (fst r)") auto
  qed simp
  from this [OF ended]
  have "n_forwarded s = of_nat (count_of (\<lambda>q. \<exists>r. plan q = Send r) (forwarded_in ts))"
    "n_failed s = of_nat (count_of (\<lambda>q. plan q = NoInfo) (forwarded_in ts))"
    using ok by (simp_all add: fwd_ok_def runs)
  moreover have "fwd_cache s = Map.empty" if "distinct (map qs_id (forwarded_in ts))"
  proof
    fix i
    show "fwd_cache s i = None"
    proof (cases "fwd_cache s i")
      case (Some t)
      then have "t < length (fwd_runs s)" "registered (snd (fwd_runs s ! t))"
        using cache_steps [OF assms(1) that] by (auto simp: cache_sound_def)
      moreover obtain us where "snd (fwd_runs s ! t) = Ended us" using ended [OF nth_mem] calculation(1) by blast
      ultimately show ?thesis by simp
    qed
  qed
  ultimately show ?thesis using runs end_ok by (auto simp: case_prod_beta)
qed

section \<open>The requests\<close>

text \<open>The targets of a run that have been asked, and those of all runs.\<close>

definition asked_at :: "fwd_plan \<Rightarrow> fwd_phase \<Rightarrow> (nat \<times> fwd_request) set" where
  "asked_at p ph = {(j, r). j < length (phase_targets ph) \<and> phase_targets ph ! j \<noteq> Querying \<and> p = Send r}"

definition asked :: "(query_state \<Rightarrow> fwd_plan) \<Rightarrow> (query_state \<times> fwd_phase) list \<Rightarrow> (nat \<times> nat \<times> fwd_request) set" where
  "asked plan runs = {(t, jr). t < length runs \<and> jr \<in> asked_at (plan (fst (runs ! t))) (snd (runs ! t))}"

lemma set_ask_targets:
  "set (ask_targets p t ts us) = {(t', j, r). t' = t \<and> j < length ts \<and> ts ! j = Querying \<and> us ! j \<noteq> Querying \<and> p = Send r}"
  by (cases p) (auto simp: ask_targets_def)

lemma distinct_ask_targets: "distinct (ask_targets p t ts us)"
  by (cases p) (auto simp: ask_targets_def distinct_map inj_on_def)

lemma asked_sending:
  assumes "length us = length ts" and "\<And>j. j < length ts \<Longrightarrow> ts ! j \<noteq> Querying \<Longrightarrow> us ! j \<noteq> Querying"
  shows "Pair t ` asked_at p (Sending us) = Pair t ` asked_at p (Sending ts) \<union> set (ask_targets p t ts us)"
    and "Pair t ` asked_at p (Sending ts) \<inter> set (ask_targets p t ts us) = {}"
  using assms by (auto simp: asked_at_def set_ask_targets)

lemma asked_step:
  assumes "phase_step n p ph ph'"
  shows "\<exists>new. fwd_requests (account p i t ph ph' s) = fwd_requests s @ new \<and> distinct new
    \<and> Pair t ` asked_at p ph \<inter> set new = {} \<and> Pair t ` asked_at p ph' = Pair t ` asked_at p ph \<union> set new"
  using assms
proof (induction rule: phase_step.induct)
  case (query_failed j ts)
  then show ?case
    using asked_sending [of "ts[j := Drained None False]" ts t p]
    by (intro exI [of _ "ask_targets p t ts (ts[j := Drained None False])"]) (simp add: distinct_ask_targets nth_list_update)
next
  case (query_sent j ts u)
  then show ?case
    using asked_sending [of "ts[j := Draining u]" ts t p]
    by (intro exI [of _ "ask_targets p t ts (ts[j := Draining u])"]) (simp add: distinct_ask_targets nth_list_update)
next
  case (drain j ts u ok)
  then show ?case
    using asked_sending [of "ts[j := Drained u ok]" ts t p]
    by (intro exI [of _ "ask_targets p t ts (ts[j := Drained u ok])"]) (simp add: distinct_ask_targets nth_list_update)
qed (simp_all add: asked_at_def)

lemma asked_update:
  assumes "t < length runs" and "runs ! t = (q, ph)"
  shows "asked plan (runs[t := (q, ph')]) = {x \<in> asked plan runs. fst x \<noteq> t} \<union> Pair t ` asked_at (plan q) ph'"
    and "asked plan runs = {x \<in> asked plan runs. fst x \<noteq> t} \<union> Pair t ` asked_at (plan q) ph"
  using assms by (auto simp: asked_def nth_list_update split: if_splits)

lemma requests_step:
  assumes "fwd_step n plan s s'" and "set (fwd_requests s) = asked plan (fwd_runs s)" and "distinct (fwd_requests s)"
  shows "set (fwd_requests s') = asked plan (fwd_runs s') \<and> distinct (fwd_requests s')"
  using assms
proof (induction rule: fwd_step.induct)
  case (start_forward s q ts)
  have "asked plan (fwd_runs s @ [(q, Fetching)]) = asked plan (fwd_runs s)"
    by (auto simp: asked_def asked_at_def nth_append less_Suc_eq)
  with start_forward show ?case by simp
next
  case (advance t s q ph ph')
  let ?s = "s\<lparr>fwd_runs := (fwd_runs s)[t := (q, ph')]\<rparr>"
  obtain new where new: "fwd_requests (account (plan q) (qs_id q) t ph ph' ?s) = fwd_requests s @ new" "distinct new"
    "Pair t ` asked_at (plan q) ph \<inter> set new = {}"
    "Pair t ` asked_at (plan q) ph' = Pair t ` asked_at (plan q) ph \<union> set new"
    using asked_step [OF advance(3), of "qs_id q" t ?s] by auto
  have 1: "asked plan ((fwd_runs s)[t := (q, ph')]) = asked plan (fwd_runs s) \<union> set new"
    unfolding asked_update(1) [OF advance(1,2), of plan] new(4) Un_assoc [symmetric]
    by (simp only: asked_update(2) [OF advance(1,2), of plan, symmetric])
  have "fst x = t" if "x \<in> set new" for x using new(4) that by (metis UnI2 fst_conv imageE)
  then have "asked plan (fwd_runs s) \<inter> set new = {}"
    using asked_update(2) [OF advance(1,2), of plan] new(3) by blast
  with 1 new(1,2) advance(4,5) show ?case by simp
qed simp_all

lemma requests_steps:
  assumes "fwd_steps n plan (fwd_start ts) s"
  shows "set (fwd_requests s) = asked plan (fwd_runs s) \<and> distinct (fwd_requests s)"
  using assms
proof (induction rule: rtranclp_induct)
  case base
  then show ?case by (simp add: asked_def fwd_start_def)
next
  case (step s s')
  then show ?case using requests_step by blast
qed

text \<open>What a request must contain, said without the loops of the code: the text with every replacement applied
  in order, the catalog and the properties as they are, the schema as mapped, and the id at the source.\<close>

definition request_of :: "forward_config \<Rightarrow> fwd_info \<Rightarrow> fwd_request" where
  "request_of cfg i =
     \<lparr>fr_query = fold (\<lambda>(rx, to) x. rx_replace rx x to) (zip (replace_patterns cfg) (replace_strings cfg)) (fi_query i),
      fr_catalog = fi_catalog i,
      fr_schema = map_option (\<lambda>x. case schema_mappings cfg x of None \<Rightarrow> x | Some y \<Rightarrow> y) (fi_schema i),
      fr_session = fi_session i, fr_source = fi_id i\<rparr>"

definition wanted :: "forward_config \<Rightarrow> (nat \<Rightarrow> fwd_info option) \<Rightarrow> fwd_info \<Rightarrow> bool" where
  "wanted cfg answer i \<longleftrightarrow> first_some answer [1 ..< Suc max_retry] = Some i
     \<and> (\<forall>rx \<in> set (exclude_patterns cfg). \<not> rx_match rx (fi_query i)) \<and> \<not> dry_run cfg"

lemma apply_replacements_fold:
  "apply_replacements k rs ss x = Some y \<Longrightarrow> y = fold (\<lambda>(rx, to) x. rx_replace rx x to) (zip rs (drop k ss)) x"
  by (induction k rs ss x rule: apply_replacements.induct) (auto simp: Cons_nth_drop_Suc [symmetric] split: if_splits)

lemma plan_sends:
  assumes "plan_forward cfg answer = Some p"
  shows "p = Send r \<longleftrightarrow> (\<exists>i. wanted cfg answer i \<and> r = request_of cfg i)"
proof (cases "first_some answer [1 ..< Suc max_retry]")
  case None
  with assms show ?thesis by (auto simp: plan_forward_def wanted_def)
next
  case (Some i)
  show ?thesis
  proof (cases "\<exists>rx \<in> set (exclude_patterns cfg). rx_match rx (fi_query i)")
    case True
    with Some assms have "p = Excluded" by (simp only: plan_forward_def option.case if_True option.inject)
    moreover have "\<not> wanted cfg answer j" for j using True Some unfolding wanted_def by auto
    ultimately show ?thesis by simp
  next
    case False
    obtain q where q: "apply_replacements 0 (replace_patterns cfg) (replace_strings cfg) (fi_query i) = Some q"
      using assms False Some unfolding plan_forward_def
      by (cases "apply_replacements 0 (replace_patterns cfg) (replace_strings cfg) (fi_query i)") simp_all
    have schema: "(case fi_schema i of None \<Rightarrow> None | Some s \<Rightarrow> (case schema_mappings cfg s of None \<Rightarrow> Some s | Some m \<Rightarrow> Some m))
        = map_option (\<lambda>x. case schema_mappings cfg x of None \<Rightarrow> x | Some y \<Rightarrow> y) (fi_schema i)"
      by (simp split: option.split)
    have req: "request_of cfg i = \<lparr>fr_query = q, fr_catalog = fi_catalog i,
        fr_schema = (case fi_schema i of None \<Rightarrow> None | Some s \<Rightarrow> (case schema_mappings cfg s of None \<Rightarrow> Some s | Some m \<Rightarrow> Some m)),
        fr_session = fi_session i, fr_source = fi_id i\<rparr>"
      unfolding schema request_of_def using apply_replacements_fold [OF q] by simp
    have w: "wanted cfg answer j \<longleftrightarrow> j = i \<and> \<not> dry_run cfg" for j
      using False Some unfolding wanted_def by auto
    have "p = (if dry_run cfg then DryRun q (fr_schema (request_of cfg i)) else Send (request_of cfg i))"
      using assms False Some q by (cases "dry_run cfg") (simp_all add: plan_forward_def req Let_def)
    then show ?thesis unfolding w by auto
  qed
qed

section \<open>Cancellation\<close>

text \<open>A URI in the slice stays there.\<close>

lemma phase_step_uri:
  assumes "phase_step n p ph ph'" and "phase_ok n p ph" and "length (phase_targets ph) = n"
  shows "length (phase_targets ph') = n
    \<and> (\<forall>j < n. target_uri (phase_targets ph ! j) = Some u \<longrightarrow> target_uri (phase_targets ph' ! j) = Some u)"
  using assms by (induction rule: phase_step.induct) (auto simp: nth_list_update)

definition cancelled_in :: "fwd_task list \<Rightarrow> string \<Rightarrow> bool" where
  "cancelled_in ts i \<longleftrightarrow> (\<exists>q. CancelTask q \<in> set ts \<and> qs_id q = i)"

definition check_ok :: "nat \<Rightarrow> fwd_task list \<Rightarrow> fwd_sys \<Rightarrow> nat \<times> nat \<Rightarrow> bool" where
  "check_ok n ts s c \<longleftrightarrow>
     fst c < length (fwd_runs s) \<and> snd c < n \<and> length (phase_targets (snd (fwd_runs s ! fst c))) = n
     \<and> cancelled_in ts (run_id_of s (fst c))"

definition cancel_ok :: "nat \<Rightarrow> fwd_task list \<Rightarrow> fwd_sys \<Rightarrow> nat \<times> string \<Rightarrow> bool" where
  "cancel_ok n ts s c \<longleftrightarrow>
     (\<exists>t. check_ok n ts s (t, fst c) \<and> target_uri (phase_targets (snd (fwd_runs s ! t)) ! fst c) = Some (snd c))"

definition cancels_ok :: "nat \<Rightarrow> fwd_task list \<Rightarrow> fwd_sys \<Rightarrow> bool" where
  "cancels_ok n ts s \<longleftrightarrow>
     set (to_start s) \<subseteq> set ts \<and> (\<forall>i \<in> set (lookups s). cancelled_in ts i)
     \<and> (\<forall>c \<in> set (checks s). check_ok n ts s c) \<and> (\<forall>c \<in> set (cancels s). cancel_ok n ts s c)"

lemma check_ok_append: "check_ok n ts s c \<Longrightarrow> fwd_runs s' = fwd_runs s @ rs \<Longrightarrow> check_ok n ts s' c"
  by (auto simp: check_ok_def run_id_of_def nth_append)

lemma cancel_ok_append: "cancel_ok n ts s c \<Longrightarrow> fwd_runs s' = fwd_runs s @ rs \<Longrightarrow> cancel_ok n ts s' c"
proof -
  assume a: "cancel_ok n ts s c" and r: "fwd_runs s' = fwd_runs s @ rs"
  then obtain t where t: "check_ok n ts s (t, fst c)" "target_uri (phase_targets (snd (fwd_runs s ! t)) ! fst c) = Some (snd c)"
    by (auto simp: cancel_ok_def)
  then have "t < length (fwd_runs s)" by (simp add: check_ok_def)
  with t check_ok_append [OF t(1) r] show ?thesis by (auto simp: cancel_ok_def r nth_append)
qed

lemma check_ok_advance:
  assumes "check_ok n ts s c" and "t < length (fwd_runs s)" and "fwd_runs s ! t = (q, ph)" and "phase_step n (plan q) ph ph'"
    and "phase_ok n (plan q) ph" and "fwd_runs s' = (fwd_runs s)[t := (q, ph')]"
  shows "check_ok n ts s' c
    \<and> (target_uri (phase_targets (snd (fwd_runs s ! fst c)) ! snd c) = Some u
        \<longrightarrow> target_uri (phase_targets (snd (fwd_runs s' ! fst c)) ! snd c) = Some u)"
proof -
  have "run_id_of s' t' = run_id_of s t'" for t'
    using run_ids [OF assms(2,3), of ph' t'] by (simp add: run_id_of_def assms(6))
  then show ?thesis
    using assms(1-3,6) phase_step_uri [OF assms(4,5), of u]
    by (cases "fst c = t") (auto simp: check_ok_def nth_list_update)
qed

lemma cancels_step:
  assumes "fwd_step n plan s s'" and "fwd_ok n plan ts s" and "cache_sound s" and "cancels_ok n ts s"
  shows "cancels_ok n ts s'"
  using assms
proof (induction rule: fwd_step.induct)
  case (start_forward s q ts')
  let ?s = "s\<lparr>to_start := ts', fwd_runs := fwd_runs s @ [(q, Fetching)], fwd_tasks := fwd_tasks s + 1\<rparr>"
  have runs: "fwd_runs ?s = fwd_runs s @ [(q, Fetching)]" by simp
  show ?case
    using start_forward check_ok_append [OF _ runs] cancel_ok_append [OF _ runs] by (auto simp: cancels_ok_def)
next
  case (start_cancel s q ts')
  then show ?case by (auto simp: cancels_ok_def check_ok_def cancel_ok_def run_id_of_def cancelled_in_def)
next
  case (advance t s q ph ph')
  let ?s = "account (plan q) (qs_id q) t ph ph' (s\<lparr>fwd_runs := (fwd_runs s)[t := (q, ph')]\<rparr>)"
  have ok: "phase_ok n (plan q) ph" using advance(1,2,4) by (auto simp: fwd_ok_def dest!: nth_mem)
  have runs: "fwd_runs ?s = (fwd_runs s)[t := (q, ph')]" by simp
  note adv = check_ok_advance [where plan = plan and s' = ?s, OF _ advance(1-3) ok runs]
  have "cancel_ok n ts ?s c" if "cancel_ok n ts s c" for c
    using that adv unfolding cancel_ok_def by fastforce
  then show ?case using advance(6) adv by (auto simp: cancels_ok_def)
next
  case (look_up i s)
  have c: "cancelled_in ts i" using look_up by (simp add: cancels_ok_def)
  have new: "check_ok n ts s (t, j)" if "fwd_cache s i = Some t" "j < n" for t j
  proof -
    have t: "t < length (fwd_runs s)" "run_id_of s t = i" "registered (snd (fwd_runs s ! t))"
      using look_up(3) that(1) by (simp_all add: cache_sound_def)
    have "phase_ok n (plan (fst (fwd_runs s ! t))) (snd (fwd_runs s ! t))"
      using look_up(2) t(1) by (simp add: fwd_ok_def)
    with t c that(2) show ?thesis by (cases "snd (fwd_runs s ! t)") (auto simp: check_ok_def)
  qed
  let ?s = "s\<lparr>lookups := remove1 i (lookups s),
      checks := checks s @ (case fwd_cache s i of None \<Rightarrow> [] | Some t \<Rightarrow> map (Pair t) [0 ..< n])\<rparr>"
  have same: "check_ok n ts ?s c = check_ok n ts s c" "cancel_ok n ts ?s d = cancel_ok n ts s d" for c d
    by (simp_all add: check_ok_def cancel_ok_def run_id_of_def)
  show ?case
    using look_up(4) new unfolding cancels_ok_def same by (auto dest: notin_set_remove1 [rotated] split: option.splits)
next
  case (check c s)
  let ?s = "s\<lparr>checks := remove1 c (checks s), cancels := cancels s @ cancel_of s c\<rparr>"
  have same: "check_ok n ts ?s c = check_ok n ts s c" "cancel_ok n ts ?s d = cancel_ok n ts s d" for c d
    by (simp_all add: check_ok_def cancel_ok_def run_id_of_def)
  have "cancel_ok n ts s d" if "d \<in> set (cancel_of s c)" for d
  proof -
    have "check_ok n ts s (fst c, snd c)" using check by (simp add: cancels_ok_def)
    with that show ?thesis
      by (auto simp: cancel_of_def cancel_ok_def split: option.splits if_splits) (metis prod.collapse)
  qed
  then show ?case
    using check(4) unfolding cancels_ok_def same by (auto dest: notin_set_remove1 [rotated])
qed

text \<open>C18: Only what was cancelled at the source is cancelled at a target: every request to cancel goes to
  the URI that this target gave for a query with the same id as a query that was seen to be cancelled.\<close>

theorem forward_cancels:
  assumes "fwd_steps n plan (fwd_start ts) s" and "distinct (map qs_id (forwarded_in ts))" and "(j, u) \<in> set (cancels s)"
  shows "\<exists>t < length (fwd_runs s). \<exists>q. CancelTask q \<in> set ts \<and> qs_id q = run_id_of s t
    \<and> j < n \<and> target_uri (phase_targets (snd (fwd_runs s ! t)) ! j) = Some u"
proof -
  have "cancels_ok n ts s"
    using assms(1)
  proof (induction rule: rtranclp_induct)
    case base
    then show ?case by (simp add: cancels_ok_def fwd_start_def)
  next
    case (step s s')
    then show ?case
      using cancels_step [OF step(2) fwd_ok_steps [OF step(1)]] cache_steps [OF step(1) assms(2)] by blast
  qed
  then have "cancel_ok n ts s (j, u)" using assms(3) by (simp add: cancels_ok_def)
  then show ?thesis by (auto simp: cancel_ok_def check_ok_def cancelled_in_def)
qed

section \<open>Termination\<close>

fun target_left :: "fwd_target \<Rightarrow> nat" where
  "target_left Querying = 2"
| "target_left (Draining u) = 1"
| "target_left (Drained u ok) = 0"

fun phase_left :: "nat \<Rightarrow> fwd_phase \<Rightarrow> nat" where
  "phase_left n Fetching = 2 * n + 3"
| "phase_left n (Sending ts) = 2 + sum_list (map target_left ts)"
| "phase_left n (Counted ts) = 1"
| "phase_left n (Ended ts) = 0"

fun task_left :: "nat \<Rightarrow> fwd_task \<Rightarrow> nat" where
  "task_left n (CancelTask q) = n + 2"
| "task_left n (ForwardTask q) = 2 * n + 4"

definition fwd_left :: "nat \<Rightarrow> fwd_sys \<Rightarrow> nat" where
  "fwd_left n s = sum_list (map (task_left n) (to_start s)) + sum_list (map (\<lambda>r. phase_left n (snd r)) (fwd_runs s))
     + (n + 1) * length (lookups s) + length (checks s)"

lemma sum_list_update_less:
  fixes f :: "'a \<Rightarrow> nat"
  shows "i < length xs \<Longrightarrow> f x < f (xs ! i) \<Longrightarrow> sum_list (map f (xs[i := x])) < sum_list (map f xs)"
  by (induction xs arbitrary: i) (auto split: nat.split)

lemma phase_left_step: "phase_step n p ph ph' \<Longrightarrow> phase_left n ph' < phase_left n ph"
  by (induction rule: phase_step.induct) (auto simp: sum_list_replicate intro: sum_list_update_less)

lemma fwd_left_step: "fwd_step n plan s s' \<Longrightarrow> fwd_left n s' < fwd_left n s"
proof (induction rule: fwd_step.induct)
  case (advance t s q ph ph')
  then have "sum_list (map (\<lambda>r. phase_left n (snd r)) ((fwd_runs s)[t := (q, ph')])) < sum_list (map (\<lambda>r. phase_left n (snd r)) (fwd_runs s))"
    by (intro sum_list_update_less) (simp_all add: phase_left_step)
  then show ?case by (simp add: fwd_left_def)
next
  case (look_up i s)
  then have "length (lookups s) = Suc (length (remove1 i (lookups s)))"
    using length_pos_if_in_set [of i "lookups s"] by (simp add: length_remove1)
  then show ?case by (simp add: fwd_left_def split: option.split)
next
  case (check c s)
  then have "length (checks s) = Suc (length (remove1 c (checks s)))"
    using length_pos_if_in_set [of c "checks s"] by (simp add: length_remove1)
  then show ?case by (simp add: fwd_left_def)
qed (simp_all add: fwd_left_def)

text \<open>The goroutines end: there is no infinite run, and while one is not started or not ended, there is a step.\<close>

lemma forward_terminates: "wfP (\<lambda>s' s. fwd_step n plan s s')"
  by (rule wfp_if_convertible_to_nat) (rule fwd_left_step)

lemma target_progress: "\<not> list_all target_done ts \<Longrightarrow> \<exists>ts'. phase_step n p (Sending ts) (Sending ts')"
proof -
  assume "\<not> list_all target_done ts"
  then obtain i where i: "i < length ts" "\<not> target_done (ts ! i)" by (auto simp: list_all_length)
  then show ?thesis
    by (cases "ts ! i") (auto intro: query_failed drain)
qed

lemma forward_progress:
  assumes "fwd_steps n plan (fwd_start ts) s" and "to_start s \<noteq> [] \<or> 0 < fwd_tasks s"
  shows "\<exists>s'. fwd_step n plan s s'"
proof (cases "to_start s")
  case (Cons a as)
  then show ?thesis by (cases a) (blast intro: start_forward start_cancel)+
next
  case Nil
  then have "0 < count_of (\<lambda>r. phase_active (snd r)) (fwd_runs s)"
    using assms fwd_ok_steps [OF assms(1)] by (simp add: fwd_ok_def)
  then obtain t q ph where t: "t < length (fwd_runs s)" "fwd_runs s ! t = (q, ph)" "phase_active ph"
    by (auto simp: count_of_pos in_set_conv_nth)
  have "\<exists>ph'. phase_step n (plan q) ph ph'"
  proof (cases ph)
    case Fetching
    then show ?thesis by (cases "plan q") (auto intro: phase_step.intros)
  next
    case (Sending us)
    then show ?thesis using target_progress [of us] count by (cases "list_all target_done us") blast+
  qed (use t(3) in \<open>auto intro: phase_step.remove\<close>)
  then show ?thesis using fwd_step.advance [OF t(1,2)] by blast
qed

text \<open>C17: The forwarding ends, and has then dealt with every new query. From any state that is reached there
  is no infinite run of the goroutines, and if none of them can make a step, all have been started and have ended.
  Then the runs are those of the queries that were to be forwarded, in order, and each query that was sent got
  an answer, good or bad, from every target: every target has been asked once with the text of the query after
  all replacements, its catalog, its mapped schema, its properties and its id. No other requests have been made.
  The counters tell the queries that were sent and those whose details could not be read, modulo
  \<open>2 ^ 32\<close>, and no query is left in the map of the running ones.\<close>

theorem forward_end:
  assumes "fwd_steps n plan (fwd_start ts) s" and "\<forall>q. plan_forward cfg (answers q) = Some (plan q)"
  shows "(\<nexists>f. f 0 = s \<and> (\<forall>k. fwd_step n plan (f k) (f (Suc k))))
    \<and> ((\<nexists>s'. fwd_step n plan s s') \<longrightarrow> to_start s = [] \<and> fwd_tasks s = 0)
    \<and> (to_start s = [] \<and> fwd_tasks s = 0 \<longrightarrow>
        map fst (fwd_runs s) = forwarded_in ts
      \<and> (\<forall>(q, ph) \<in> set (fwd_runs s). \<exists>us. ph = Ended us \<and> ((\<exists>r. plan q = Send r) \<longrightarrow> length us = n \<and> list_all target_done us))
      \<and> distinct (fwd_requests s)
      \<and> set (fwd_requests s) = {(t, j, r). t < length (forwarded_in ts) \<and> j < n
          \<and> (\<exists>i. wanted cfg (answers (forwarded_in ts ! t)) i \<and> r = request_of cfg i)}
      \<and> n_forwarded s = of_nat (count_of (\<lambda>q. \<exists>r. plan q = Send r) (forwarded_in ts))
      \<and> n_failed s = of_nat (count_of (\<lambda>q. plan q = NoInfo) (forwarded_in ts))
      \<and> (distinct (map qs_id (forwarded_in ts)) \<longrightarrow> fwd_cache s = Map.empty))"
proof (intro conjI impI)
  show "\<nexists>f. f 0 = s \<and> (\<forall>k. fwd_step n plan (f k) (f (Suc k)))"
    using forward_terminates [of n plan] by (auto simp: wfp_def wf_iff_no_infinite_down_chain)
next
  assume "\<nexists>s'. fwd_step n plan s s'"
  then have "\<not> (to_start s \<noteq> [] \<or> 0 < fwd_tasks s)" using forward_progress [OF assms(1)] by blast
  then show "to_start s = []" and "fwd_tasks s = 0" by simp_all
next
  assume e: "to_start s = [] \<and> fwd_tasks s = 0"
  note run = ended_run [OF assms(1) conjunct1 [OF e] conjunct2 [OF e]]
  then show "map fst (fwd_runs s) = forwarded_in ts"
    and "\<forall>(q, ph) \<in> set (fwd_runs s). \<exists>us. ph = Ended us \<and> ((\<exists>r. plan q = Send r) \<longrightarrow> length us = n \<and> list_all target_done us)"
    and "n_forwarded s = of_nat (count_of (\<lambda>q. \<exists>r. plan q = Send r) (forwarded_in ts))"
    and "n_failed s = of_nat (count_of (\<lambda>q. plan q = NoInfo) (forwarded_in ts))" by blast+
  show "fwd_cache s = Map.empty" if "distinct (map qs_id (forwarded_in ts))" using run that by blast
  show "distinct (fwd_requests s)" using requests_steps [OF assms(1)] by blast
  have runs: "map fst (fwd_runs s) = forwarded_in ts" using run by blast
  have len: "length (fwd_runs s) = length (forwarded_in ts)" and fst: "t < length (fwd_runs s) \<Longrightarrow> fst (fwd_runs s ! t) = forwarded_in ts ! t" for t
    using arg_cong [OF runs, of length] arg_cong [OF runs, of "\<lambda>l. l ! t"] by simp_all
  have "asked_at (plan (fst (fwd_runs s ! t))) (snd (fwd_runs s ! t)) = {(j, r). j < n \<and> plan (forwarded_in ts ! t) = Send r}"
    if t: "t < length (fwd_runs s)" for t
  proof -
    have "(fst (fwd_runs s ! t), snd (fwd_runs s ! t)) \<in> set (fwd_runs s)" using t by simp
    then obtain us where us: "snd (fwd_runs s ! t) = Ended us"
      "(\<exists>r. plan (forwarded_in ts ! t) = Send r) \<longrightarrow> length us = n \<and> list_all target_done us"
      using run fst [OF t] by fastforce
    have "us ! j \<noteq> Querying" if "list_all target_done us" "j < length us" for j
      using that by (auto simp: list_all_length)
    with us fst [OF t] show ?thesis by (auto simp: asked_at_def)
  qed
  then show "set (fwd_requests s) = {(t, j, r). t < length (forwarded_in ts) \<and> j < n
      \<and> (\<exists>i. wanted cfg (answers (forwarded_in ts ! t)) i \<and> r = request_of cfg i)}"
    using requests_steps [OF assms(1)] plan_sends [OF assms(2) [rule_format]]
    by (auto simp: asked_def len)
qed

text \<open>The same steps as a function of an action, with which runs are executed.\<close>

datatype target_act = Fails | Answers "string option" | Drains bool

datatype fwd_act = Begin | Proceed nat | AtTarget nat nat target_act | LookUp string | CheckAt nat nat

fun proceed :: "nat \<Rightarrow> fwd_plan \<Rightarrow> fwd_phase \<Rightarrow> fwd_phase option" where
  "proceed n p Fetching = Some (case p of Send r \<Rightarrow> Sending (replicate n Querying) | _ \<Rightarrow> Ended [])"
| "proceed n p (Sending ts) = (if list_all target_done ts then Some (Counted ts) else None)"
| "proceed n p (Counted ts) = Some (Ended ts)"
| "proceed n p (Ended ts) = None"

fun at_target :: "target_act \<Rightarrow> fwd_target \<Rightarrow> fwd_target option" where
  "at_target Fails Querying = Some (Drained None False)"
| "at_target (Answers u) Querying = Some (Draining u)"
| "at_target (Drains ok) (Draining u) = Some (Drained u ok)"
| "at_target _ _ = None"

fun proceed_at :: "nat \<Rightarrow> target_act \<Rightarrow> fwd_phase \<Rightarrow> fwd_phase option" where
  "proceed_at i a (Sending ts) =
     (if i < length ts then map_option (\<lambda>t. Sending (ts[i := t])) (at_target a (ts ! i)) else None)"
| "proceed_at i a _ = None"

definition advance_run :: "(query_state \<Rightarrow> fwd_plan) \<Rightarrow> nat \<Rightarrow> (query_state \<Rightarrow> fwd_phase \<Rightarrow> fwd_phase option) \<Rightarrow> fwd_sys \<Rightarrow> fwd_sys option" where
  "advance_run plan t f s =
     (if t < length (fwd_runs s)
      then (case fwd_runs s ! t of (q, ph) \<Rightarrow>
              map_option (\<lambda>ph'. account (plan q) (qs_id q) t ph ph' (s\<lparr>fwd_runs := (fwd_runs s)[t := (q, ph')]\<rparr>)) (f q ph))
      else None)"

fun fwd_do :: "nat \<Rightarrow> (query_state \<Rightarrow> fwd_plan) \<Rightarrow> fwd_act \<Rightarrow> fwd_sys \<Rightarrow> fwd_sys option" where
  "fwd_do n plan Begin s =
     (case to_start s of
        [] \<Rightarrow> None
      | ForwardTask q # ts \<Rightarrow> Some (s\<lparr>to_start := ts, fwd_runs := fwd_runs s @ [(q, Fetching)], fwd_tasks := fwd_tasks s + 1\<rparr>)
      | CancelTask q # ts \<Rightarrow> Some (s\<lparr>to_start := ts, lookups := lookups s @ [qs_id q]\<rparr>))"
| "fwd_do n plan (Proceed t) s = advance_run plan t (\<lambda>q. proceed n (plan q)) s"
| "fwd_do n plan (AtTarget t i a) s = advance_run plan t (\<lambda>q. proceed_at i a) s"
| "fwd_do n plan (LookUp i) s =
     (if i \<in> set (lookups s)
      then Some (s\<lparr>lookups := remove1 i (lookups s),
             checks := checks s @ (case fwd_cache s i of None \<Rightarrow> [] | Some t \<Rightarrow> map (Pair t) [0 ..< n])\<rparr>)
      else None)"
| "fwd_do n plan (CheckAt t i) s =
     (if (t, i) \<in> set (checks s)
      then Some (s\<lparr>checks := remove1 (t, i) (checks s), cancels := cancels s @ cancel_of s (t, i)\<rparr>) else None)"

lemma proceed_step: "proceed n p ph = Some ph' \<Longrightarrow> phase_step n p ph ph'"
  by (cases "(n, p, ph)" rule: proceed.cases) (auto split: fwd_plan.splits if_splits intro: phase_step.intros)

lemma proceed_at_step: "proceed_at i a ph = Some ph' \<Longrightarrow> phase_step n p ph ph'"
proof (cases ph)
  case (Sending ts)
  assume "proceed_at i a ph = Some ph'"
  then show ?thesis
    by (cases "(a, ts ! i)" rule: at_target.cases) (auto simp: Sending split: if_splits intro: phase_step.intros)
qed simp_all

lemma fwd_do_step: "fwd_do n plan a s = Some s' \<Longrightarrow> fwd_step n plan s s'"
proof (cases a)
  case Begin
  assume "fwd_do n plan a s = Some s'"
  then show ?thesis
    using fwd_step.start_forward [of s _ _ n plan] fwd_step.start_cancel [of s _ _ n plan]
    by (auto simp: Begin split: list.splits fwd_task.splits)
next
  case (Proceed t)
  assume "fwd_do n plan a s = Some s'"
  then show ?thesis
    by (auto simp: Proceed advance_run_def split: if_splits prod.splits intro!: fwd_step.advance proceed_step)
next
  case (AtTarget t i b)
  assume "fwd_do n plan a s = Some s'"
  then show ?thesis
    by (auto simp: AtTarget advance_run_def split: if_splits prod.splits intro!: fwd_step.advance proceed_at_step)
qed (auto split: if_splits intro: fwd_step.look_up fwd_step.check)

fun fwd_run :: "nat \<Rightarrow> (query_state \<Rightarrow> fwd_plan) \<Rightarrow> fwd_act list \<Rightarrow> fwd_sys \<Rightarrow> fwd_sys option" where
  "fwd_run n plan [] s = Some s"
| "fwd_run n plan (a # as) s = (case fwd_do n plan a s of None \<Rightarrow> None | Some s' \<Rightarrow> fwd_run n plan as s')"

lemma fwd_run_steps: "fwd_run n plan as s = Some s' \<Longrightarrow> fwd_steps n plan s s'"
proof (induction as arbitrary: s)
  case (Cons a as)
  then obtain r where r: "fwd_do n plan a s = Some r" and "fwd_run n plan as r = Some s'"
    by (auto split: option.splits)
  then have "fwd_steps n plan r s'" by (intro Cons.IH)
  with fwd_do_step [OF r] show ?case by (rule converse_rtranclp_into_rtranclp)
qed simp

section \<open>Example\<close>

definition demo_query :: query_state where
  "demo_query = \<lparr>qs_id = ''a'', qs_state = ''FAILED'', qs_error = ''USER_CANCELED'', qs_create = 7\<rparr>"

definition demo_answers :: "query_state list option list" where
  "demo_answers = [Some [demo_query\<lparr>qs_id := ''old'', qs_create := 5\<rparr>], None, Some [demo_query, demo_query\<lparr>qs_id := ''old'', qs_create := 5\<rparr>], Some [demo_query]]"

theorem forwards_new_witness:
  "distinct (map qs_id (concat (map forwarded_in (fst (forward_polls demo_answers)))))
    \<and> length (fst (forward_polls demo_answers)) = 3"
proof -
  have read: "answers_read 1 demo_answers = [[demo_query\<lparr>qs_id := ''old'', qs_create := 5\<rparr>],
      [demo_query, demo_query\<lparr>qs_id := ''old'', qs_create := 5\<rparr>], [demo_query]]"
    by (simp add: demo_answers_def max_retry_def)
  have "\<forall>r \<in> set (answers_read 1 demo_answers). distinct (map qs_id r)"
    and "\<forall>q \<in> set (concat (answers_read 1 demo_answers)). qs_create q = (if qs_id q = ''old'' then 5 else 7)"
    unfolding read by (auto simp: demo_query_def)
  then have d: "distinct (map qs_id (concat (map forwarded_in (fst (forward_polls demo_answers)))))"
    using forwards_new [of demo_answers "\<lambda>i. if i = ''old'' then 5 else 7"] unfolding Let_def by blast
  have "length (fst (forward_polls demo_answers)) = length (answers_read 1 demo_answers)"
    using forwards_new [of demo_answers "\<lambda>_. 0"] unfolding Let_def by blast
  with d show ?thesis by (simp only: read) simp
qed

definition demo_plan :: "query_state \<Rightarrow> fwd_plan" where
  "demo_plan q = Send \<lparr>fr_query = ''SELECT 1'', fr_catalog = None, fr_schema = None, fr_session = [], fr_source = qs_id q\<rparr>"

text \<open>A query is forwarded to one target, is cancelled at the source while its result is drained, and the
  target is told.\<close>

definition demo_tasks :: "fwd_task list" where
  "demo_tasks = [ForwardTask demo_query, CancelTask demo_query]"

definition demo_acts :: "fwd_act list" where
  "demo_acts = [Begin, Begin, Proceed 0, AtTarget 0 0 (Answers (Some ''u'')), LookUp ''a'', CheckAt 0 0, AtTarget 0 0 (Drains False), Proceed 0, Proceed 0]"

lemma demo_forward:
  obtains s where "fwd_steps 1 demo_plan (fwd_start demo_tasks) s" and "to_start s = []" and "fwd_tasks s = 0"
    and "(0, ''u'') \<in> set (cancels s)" and "fwd_runs s = [(demo_query, Ended [Drained (Some ''u'') False])]"
proof -
  have "\<exists>s. fwd_run 1 demo_plan demo_acts (fwd_start demo_tasks) = Some s \<and> to_start s = [] \<and> fwd_tasks s = 0
      \<and> (0, ''u'') \<in> set (cancels s) \<and> fwd_runs s = [(demo_query, Ended [Drained (Some ''u'') False])]"
    by (simp add: demo_acts_def demo_tasks_def fwd_start_def demo_plan_def demo_query_def cancel_of_def advance_run_def)
  then show thesis using that fwd_run_steps by blast
qed

definition demo_fwd_config :: forward_config where
  "demo_fwd_config = \<lparr>dry_run = False, exclude_patterns = [], replace_patterns = [], replace_strings = [], schema_mappings = Map.empty\<rparr>"

definition demo_details :: "query_state \<Rightarrow> nat \<Rightarrow> fwd_info option" where
  "demo_details q n = Some \<lparr>fi_id = qs_id q, fi_query = ''SELECT 1'', fi_catalog = None, fi_schema = None, fi_session = []\<rparr>"

theorem forward_end_witness:
  "\<exists>s. fwd_steps 1 demo_plan (fwd_start demo_tasks) s \<and> n_forwarded s = 1 \<and> fwd_cache s = Map.empty
    \<and> (\<exists>r. set (fwd_requests s) = {(0, 0, r)} \<and> fr_query r = ''SELECT 1'' \<and> fr_source r = ''a'')"
proof -
  obtain s where s: "fwd_steps 1 demo_plan (fwd_start demo_tasks) s" "to_start s = []" "fwd_tasks s = 0"
    by (rule demo_forward)
  have first: "first_some (demo_details q) [1 ..< Suc max_retry] = demo_details q 1" for q
    by (simp add: max_retry_def demo_details_def upt_rec)
  have p: "\<forall>q. plan_forward demo_fwd_config (demo_details q) = Some (demo_plan q)"
    unfolding plan_forward_def first by (simp add: demo_details_def demo_fwd_config_def demo_plan_def)
  have w: "wanted demo_fwd_config (demo_details q) i \<longleftrightarrow> demo_details q 1 = Some i" for q i
    unfolding wanted_def first by (simp add: demo_fwd_config_def)
  have "n_forwarded s = 1 \<and> fwd_cache s = Map.empty \<and> set (fwd_requests s) = {(t, j, r). t < length (forwarded_in demo_tasks) \<and> j < 1
          \<and> (\<exists>i. demo_details (forwarded_in demo_tasks ! t) 1 = Some i \<and> r = request_of demo_fwd_config i)}"
    using forward_end [OF s(1) p] s(2,3) unfolding w by (simp add: demo_tasks_def demo_plan_def)
  moreover have "{(t, j, r). t < length (forwarded_in demo_tasks) \<and> j < (1::nat)
          \<and> (\<exists>i. demo_details (forwarded_in demo_tasks ! t) 1 = Some i \<and> r = request_of demo_fwd_config i)}
      = {(0, 0, \<lparr>fr_query = ''SELECT 1'', fr_catalog = None, fr_schema = None, fr_session = [], fr_source = ''a''\<rparr>)}"
    by (auto simp: demo_tasks_def demo_details_def request_of_def demo_fwd_config_def demo_query_def)
  ultimately show ?thesis using s(1) by fastforce
qed

theorem forward_cancels_witness:
  "\<exists>q. CancelTask q \<in> set demo_tasks \<and> qs_id q = ''a''"
proof -
  obtain s where s: "fwd_steps 1 demo_plan (fwd_start demo_tasks) s" and c: "(0, ''u'') \<in> set (cancels s)"
    and r: "fwd_runs s = [(demo_query, Ended [Drained (Some ''u'') False])]"
    by (rule demo_forward)
  have d: "distinct (map qs_id (forwarded_in demo_tasks))" by (simp add: demo_tasks_def)
  show ?thesis
    using forward_cancels [OF s d c] by (auto simp: run_id_of_def r demo_query_def)
qed

end
