(* ===== verification/GenConfig.thy ===== *)
theory GenConfig
  imports GoBase
begin

text \<open>
  The command \<open>genconfig\<close>, \<open>cmd/genconfig/main.go\<close> and \<open>cmd/genconfig/gen.go\<close>: in every directory
  with a \<open>config.json\<close> the files of a directory of templates are generated, and files that no template
  makes are removed.

  A path is the list of its elements, the file system a map from the paths of files to their contents.
  The template engine is a parameter: a template gives a text or an error, and may change the values it is
  given, since its function \<open>set\<close> assigns to the map of the values.
\<close>

section \<open>Parameters and configurations\<close>

type_synonym path = "string list"

type_synonym 'v params = "string \<rightharpoonup> 'v"

definition config_file :: string where
  "config_file = ''config.json''"

definition ignore_file :: string where
  "ignore_file = ''.genconfigignore''"

text \<open>The parameter files in order, \<open>None\<close> for one that cannot be read or parsed: later files override.\<close>

definition merge_params :: "'v params option list \<Rightarrow> 'v params" where
  "merge_params ps = foldl (\<lambda>m p. case p of None \<Rightarrow> m | Some q \<Rightarrow> m ++ q) Map.empty ps"

text \<open>The parameters of \<open>Run\<close>: the built-in ones, which may be bad, if no file is given.\<close>

definition run_params :: "'v params option \<Rightarrow> 'v params option list \<Rightarrow> 'v params option" where
  "run_params builtin ps = (if ps \<noteq> [] then Some (merge_params ps) else builtin)"

record 'v config_data =
  cfg_path :: path
  cfg_values :: "'v params"

text \<open>The walk to find configurations: an error ends it, \<open>parse\<close> reads a file as a map.\<close>

datatype walk_entry = WalkError | WalkDir path | WalkFile path

fun find_configs :: "(path \<Rightarrow> 'v params option) \<Rightarrow> (path \<Rightarrow> bool) \<Rightarrow> 'v params \<Rightarrow> walk_entry list \<Rightarrow> 'v config_data list" where
  "find_configs parse exists ps [] = []"
| "find_configs parse exists ps (WalkError # es) = []"
| "find_configs parse exists ps (WalkDir p # es) = find_configs parse exists ps es"
| "find_configs parse exists ps (WalkFile p # es) =
     (if p = [] \<or> last p \<noteq> config_file \<or> exists (butlast p @ [ignore_file]) then find_configs parse exists ps es
      else case parse p of
             None \<Rightarrow> find_configs parse exists ps es
           | Some m \<Rightarrow> \<lparr>cfg_path = butlast p, cfg_values = ps ++ m\<rparr> # find_configs parse exists ps es)"

section \<open>Templates\<close>

text \<open>A file of the template directory, with its path relative to it; \<open>None\<close> when it, or the prelude,
  cannot be parsed.\<close>

type_synonym 'v executor = "'v params \<Rightarrow> string option \<times> 'v params"

datatype 'v template_entry = TemplateError | TemplateDir path | TemplateFile path "'v executor option"

definition hidden_name :: "path \<Rightarrow> bool" where
  "hidden_name p \<longleftrightarrow> p \<noteq> [] \<and> has_prefix (last p) ''.''"

record gen_host =
  can_mkdir :: "path \<Rightarrow> bool"
  can_write_file :: "path \<Rightarrow> bool"
  can_remove :: "path \<Rightarrow> bool"

record gen_state =
  gen_files :: "path \<rightharpoonup> string"
  gen_written :: "(path \<times> path) list"

text \<open>The loop over the configurations for one template. A directory that cannot be made ends it.\<close>

fun run_template ::
  "gen_host \<Rightarrow> path \<Rightarrow> 'v executor \<Rightarrow> 'v config_data list \<Rightarrow> gen_state \<Rightarrow> 'v config_data list \<times> gen_state" where
  "run_template h rel ex [] s = ([], s)"
| "run_template h rel ex (c # cs) s =
     (let (out, vals) = ex (cfg_values c);
          c' = c\<lparr>cfg_values := vals\<rparr>;
          file = cfg_path c @ rel;
          continue = (\<lambda>s. case run_template h rel ex cs s of (cs', s') \<Rightarrow> (c' # cs', s'))
      in case out of
           None \<Rightarrow> continue s
         | Some text \<Rightarrow>
             if trim_space text = [] then continue s
             else if \<not> can_mkdir h (butlast file) then (c' # cs, s)
             else if \<not> can_write_file h file then continue s
             else continue (s\<lparr>gen_files := (gen_files s)(file \<mapsto> text), gen_written := (cfg_path c, file) # gen_written s\<rparr>))"

fun run_templates ::
  "gen_host \<Rightarrow> 'v template_entry list \<Rightarrow> 'v config_data list \<Rightarrow> gen_state \<Rightarrow> 'v config_data list \<times> gen_state" where
  "run_templates h [] cs s = (cs, s)"
| "run_templates h (TemplateError # ts) cs s = (cs, s)"
| "run_templates h (TemplateDir p # ts) cs s = run_templates h ts cs s"
| "run_templates h (TemplateFile p ex # ts) cs s =
     (if hidden_name p then run_templates h ts cs s
      else case ex of
             None \<Rightarrow> run_templates h ts cs s
           | Some f \<Rightarrow> (case run_template h p f cs s of (cs', s') \<Rightarrow> run_templates h ts cs' s'))"

text \<open>The walk that removes what is under the directory of a configuration, at any depth, and was not
  written for it.\<close>

definition under :: "path \<Rightarrow> path \<Rightarrow> bool" where
  "under d p \<longleftrightarrow> length d < length p \<and> take (length d) p = d"

definition is_stale :: "(path \<times> path) list \<Rightarrow> path \<Rightarrow> path \<Rightarrow> bool" where
  "is_stale written d p \<longleftrightarrow> under d p \<and> last p \<noteq> config_file \<and> (d, p) \<notin> set written"

definition remove_under :: "gen_host \<Rightarrow> (path \<times> path) list \<Rightarrow> path \<Rightarrow> (path \<rightharpoonup> string) \<Rightarrow> path \<rightharpoonup> string" where
  "remove_under h written d fs = (\<lambda>p. if is_stale written d p \<and> can_remove h p then None else fs p)"

definition remove_stale :: "gen_host \<Rightarrow> (path \<times> path) list \<Rightarrow> path list \<Rightarrow> (path \<rightharpoonup> string) \<Rightarrow> path \<rightharpoonup> string" where
  "remove_stale h written ds fs = fold (remove_under h written) ds fs"

text \<open>\<open>GenerateFiles\<close>.\<close>

definition generate_files :: "gen_host \<Rightarrow> 'v template_entry list \<Rightarrow> 'v config_data list \<Rightarrow> (path \<rightharpoonup> string) \<Rightarrow> path \<rightharpoonup> string" where
  "generate_files h ts cs fs =
     (case run_templates h ts cs \<lparr>gen_files = fs, gen_written = []\<rparr> of
        (_, s) \<Rightarrow> remove_stale h (gen_written s) (map cfg_path cs) (gen_files s))"

section \<open>One configuration at a time\<close>

text \<open>What a configuration gets: the files of its templates in order, with the values that the templates
  before have left.\<close>

fun outputs_of :: "'v template_entry list \<Rightarrow> 'v params \<Rightarrow> (path \<times> string) list" where
  "outputs_of [] vals = []"
| "outputs_of (TemplateError # ts) vals = []"
| "outputs_of (TemplateDir p # ts) vals = outputs_of ts vals"
| "outputs_of (TemplateFile p ex # ts) vals =
     (if hidden_name p then outputs_of ts vals
      else case ex of
             None \<Rightarrow> outputs_of ts vals
           | Some f \<Rightarrow>
               (case f vals of
                  (None, vals') \<Rightarrow> outputs_of ts vals'
                | (Some text, vals') \<Rightarrow> (if trim_space text = [] then [] else [(p, text)]) @ outputs_of ts vals'))"

definition all_works :: "gen_host \<Rightarrow> bool" where
  "all_works h \<longleftrightarrow> (\<forall>p. can_mkdir h p \<and> can_write_file h p \<and> can_remove h p)"

text \<open>No directory of a configuration is, or is in, that of another.\<close>

definition separate :: "path list \<Rightarrow> bool" where
  "separate ds \<longleftrightarrow> distinct ds \<and> (\<forall>d \<in> set ds. \<forall>e \<in> set ds. d \<noteq> e \<longrightarrow> \<not> prefix d e)"

definition text_of :: "'v executor \<Rightarrow> 'v params \<Rightarrow> string option" where
  "text_of ex vals = (case fst (ex vals) of None \<Rightarrow> None | Some t \<Rightarrow> if trim_space t = [] then None else Some t)"

definition next_values :: "'v executor \<Rightarrow> 'v config_data \<Rightarrow> 'v config_data" where
  "next_values ex c = c\<lparr>cfg_values := snd (ex (cfg_values c))\<rparr>"

lemma next_values_path [simp]: "cfg_path (next_values ex c) = cfg_path c"
  by (simp add: next_values_def)

lemma run_template_Cons:
  assumes "all_works h"
  shows "run_template h rel ex (c # cs) s =
    (let s1 = (case text_of ex (cfg_values c) of
                 None \<Rightarrow> s
               | Some t \<Rightarrow> s\<lparr>gen_files := (gen_files s)(cfg_path c @ rel \<mapsto> t), gen_written := (cfg_path c, cfg_path c @ rel) # gen_written s\<rparr>)
     in case run_template h rel ex cs s1 of (cs', s') \<Rightarrow> (next_values ex c # cs', s'))"
  using assms by (simp add: all_works_def text_of_def next_values_def Let_def split: prod.split option.split)

lemma run_template_spec:
  assumes "all_works h" and "distinct (map cfg_path cs)" and "run_template h rel ex cs s = (cs', s')"
  shows "cs' = map (next_values ex) cs
    \<and> (\<forall>c \<in> set cs. gen_files s' (cfg_path c @ rel) =
          (case text_of ex (cfg_values c) of None \<Rightarrow> gen_files s (cfg_path c @ rel) | Some t \<Rightarrow> Some t))
    \<and> (\<forall>p. (\<forall>c \<in> set cs. p \<noteq> cfg_path c @ rel) \<longrightarrow> gen_files s' p = gen_files s p)
    \<and> set (gen_written s') = set (gen_written s) \<union> {(cfg_path c, cfg_path c @ rel) | c. c \<in> set cs \<and> text_of ex (cfg_values c) \<noteq> None}"
  using assms(2,3)
proof (induction cs arbitrary: s cs' s')
  case (Cons c cs)
  let ?s1 = "case text_of ex (cfg_values c) of
      None \<Rightarrow> s
    | Some t \<Rightarrow> s\<lparr>gen_files := (gen_files s)(cfg_path c @ rel \<mapsto> t), gen_written := (cfg_path c, cfg_path c @ rel) # gen_written s\<rparr>"
  obtain cs1 s1 where rest: "run_template h rel ex cs ?s1 = (cs1, s1)" by fastforce
  have eq: "cs' = next_values ex c # cs1" "s' = s1"
    using Cons.prems(2) run_template_Cons [OF assms(1), of rel ex c cs s] by (simp_all only: Let_def rest prod.case prod.inject)
  have d: "distinct (map cfg_path cs)" and c: "\<forall>c' \<in> set cs. cfg_path c' \<noteq> cfg_path c"
    using Cons.prems(1) by (auto, metis imageI)
  note ih = Cons.IH [OF d rest]
  have s1: "gen_files ?s1 p = (if p = cfg_path c @ rel then (case text_of ex (cfg_values c) of None \<Rightarrow> gen_files s p | Some t \<Rightarrow> Some t)
      else gen_files s p)" for p
    by (simp split: option.split)
  have w1: "set (gen_written ?s1) = set (gen_written s) \<union> (if text_of ex (cfg_values c) = None then {} else {(cfg_path c, cfg_path c @ rel)})"
    by (simp split: option.split)
  have first: "gen_files s1 (cfg_path c @ rel) = (case text_of ex (cfg_values c) of None \<Rightarrow> gen_files s (cfg_path c @ rel) | Some t \<Rightarrow> Some t)"
  proof -
    have "\<forall>c' \<in> set cs. cfg_path c @ rel \<noteq> cfg_path c' @ rel" using c by auto
    with ih have "gen_files s1 (cfg_path c @ rel) = gen_files ?s1 (cfg_path c @ rel)" by blast
    then show ?thesis by (simp only: s1 if_True simp_thms)
  qed
  have others: "gen_files s1 (cfg_path c' @ rel) = (case text_of ex (cfg_values c') of None \<Rightarrow> gen_files s (cfg_path c' @ rel) | Some t \<Rightarrow> Some t)"
    if "c' \<in> set cs" for c'
  proof -
    have "gen_files ?s1 (cfg_path c' @ rel) = gen_files s (cfg_path c' @ rel)" using c that by (simp only: s1) auto
    with ih that show ?thesis by (simp only: ball_simps)
  qed
  have rest_files: "gen_files s1 p = gen_files s p" if "\<forall>c' \<in> set (c # cs). p \<noteq> cfg_path c' @ rel" for p
    using ih that s1 [of p] by simp
  show ?case
    using ih first others rest_files w1 unfolding eq by (auto split: if_splits)
qed simp

lemma prefix_unique:
  assumes "separate (map cfg_path cs)" and "c \<in> set cs" and "c' \<in> set cs" and "cfg_path c @ q = cfg_path c' @ r"
  shows "cfg_path c = cfg_path c'"
proof (rule ccontr)
  assume "cfg_path c \<noteq> cfg_path c'"
  moreover have "prefix (cfg_path c) (cfg_path c') \<or> prefix (cfg_path c') (cfg_path c)"
    using assms(4) prefixI [of "cfg_path c' @ r" "cfg_path c'" r] prefixI [of "cfg_path c' @ r" "cfg_path c" q]
    by (metis prefix_same_cases)
  ultimately show False using assms(1-3) by (auto simp: separate_def)
qed

lemma separate_distinct: "separate (map cfg_path cs) \<Longrightarrow> distinct (map cfg_path cs)"
  by (simp add: separate_def)

lemma run_templates_spec:
  assumes "all_works h" and "separate (map cfg_path cs)" and "run_templates h ts cs s = (cs', s')"
  shows "(\<forall>c \<in> set cs. \<forall>q. gen_files s' (cfg_path c @ q) =
        (case map_of (rev (outputs_of ts (cfg_values c))) q of None \<Rightarrow> gen_files s (cfg_path c @ q) | Some t \<Rightarrow> Some t))
    \<and> (\<forall>p. (\<forall>c \<in> set cs. \<not> prefix (cfg_path c) p) \<longrightarrow> gen_files s' p = gen_files s p)
    \<and> set (gen_written s') = set (gen_written s)
        \<union> {(cfg_path c, cfg_path c @ q) | c q. c \<in> set cs \<and> q \<in> fst ` set (outputs_of ts (cfg_values c))}"
  using assms(2,3)
proof (induction ts arbitrary: cs s)
  case (Cons t ts)
  show ?case
  proof (cases "\<exists>p f. t = TemplateFile p (Some f) \<and> \<not> hidden_name p")
    case False
    then show ?thesis
      using Cons.IH [OF Cons.prems(1), of s] Cons.prems by (cases t) (auto split: option.splits if_splits)
  next
    case True
    then obtain rel f where t: "t = TemplateFile rel (Some f)" "\<not> hidden_name rel" by blast
    obtain cs1 s1 where run: "run_template h rel f cs s = (cs1, s1)" by fastforce
    note one = run_template_spec [OF assms(1) separate_distinct [OF Cons.prems(1)] run]
    have cs1: "cs1 = map (next_values f) cs" using one by simp
    have sep: "separate (map cfg_path cs1)" using Cons.prems(1) by (simp add: cs1 comp_def)
    have rest: "run_templates h ts cs1 s1 = (cs', s')" using Cons.prems(2) t by (simp add: run)
    note ih = Cons.IH [OF sep rest]
    have out: "outputs_of (t # ts) (cfg_values c) =
        (case text_of f (cfg_values c) of None \<Rightarrow> [] | Some x \<Rightarrow> [(rel, x)]) @ outputs_of ts (cfg_values (next_values f c))" for c
      using t by (simp add: text_of_def next_values_def split: prod.split option.split)
    have files1: "gen_files s1 (cfg_path c @ q) =
        (if q = rel then (case text_of f (cfg_values c) of None \<Rightarrow> gen_files s (cfg_path c @ q) | Some x \<Rightarrow> Some x)
         else gen_files s (cfg_path c @ q))" if "c \<in> set cs" for c q
    proof (cases "q = rel")
      case False
      have "cfg_path c @ q \<noteq> cfg_path c' @ rel" if "c' \<in> set cs" for c'
        using prefix_unique [OF Cons.prems(1) \<open>c \<in> set cs\<close> that, of q rel] False by auto
      with one False show ?thesis by simp
    qed (use one that in auto)
    have "gen_files s' (cfg_path c @ q) =
        (case map_of (rev (outputs_of (t # ts) (cfg_values c))) q of None \<Rightarrow> gen_files s (cfg_path c @ q) | Some x \<Rightarrow> Some x)"
      if "c \<in> set cs" for c q
    proof -
      have "gen_files s' (cfg_path (next_values f c) @ q) =
          (case map_of (rev (outputs_of ts (cfg_values (next_values f c)))) q of None \<Rightarrow> gen_files s1 (cfg_path (next_values f c) @ q) | Some x \<Rightarrow> Some x)"
        using ih that by (auto simp: cs1)
      then show ?thesis
        using files1 [OF that, of q] by (auto simp: out map_add_def split: option.splits)
    qed
    moreover have "gen_files s' p = gen_files s p" if "\<forall>c \<in> set cs. \<not> prefix (cfg_path c) p" for p
    proof -
      have "gen_files s' p = gen_files s1 p" using ih that by (simp add: cs1)
      also have "\<dots> = gen_files s p" using one that by (metis prefixI)
      finally show ?thesis .
    qed
    moreover have "set (gen_written s') = set (gen_written s)
        \<union> {(cfg_path c, cfg_path c @ q) | c q. c \<in> set cs \<and> q \<in> fst ` set (outputs_of (t # ts) (cfg_values c))}"
    proof -
      have "set (gen_written s') = set (gen_written s1)
          \<union> {(cfg_path c, cfg_path c @ q) | c q. c \<in> set cs \<and> q \<in> fst ` set (outputs_of ts (cfg_values (next_values f c)))}"
      proof -
        have "{(cfg_path c, cfg_path c @ q) | c q. c \<in> set cs1 \<and> q \<in> fst ` set (outputs_of ts (cfg_values c))}
            = {(cfg_path c, cfg_path c @ q) | c q. c \<in> set cs \<and> q \<in> fst ` set (outputs_of ts (cfg_values (next_values f c)))}"
        proof (intro set_eqI iffI)
          fix x assume "x \<in> {(cfg_path c, cfg_path c @ q) | c q. c \<in> set cs1 \<and> q \<in> fst ` set (outputs_of ts (cfg_values c))}"
          then obtain c q where "x = (cfg_path c, cfg_path c @ q)" "c \<in> set cs" "q \<in> fst ` set (outputs_of ts (cfg_values (next_values f c)))"
            unfolding cs1 set_map by (elim CollectE exE conjE imageE) simp
          then show "x \<in> {(cfg_path c, cfg_path c @ q) | c q. c \<in> set cs \<and> q \<in> fst ` set (outputs_of ts (cfg_values (next_values f c)))}"
            by blast
        next
          fix x assume "x \<in> {(cfg_path c, cfg_path c @ q) | c q. c \<in> set cs \<and> q \<in> fst ` set (outputs_of ts (cfg_values (next_values f c)))}"
          then obtain c q where "x = (cfg_path (next_values f c), cfg_path (next_values f c) @ q)" "next_values f c \<in> set cs1"
              "q \<in> fst ` set (outputs_of ts (cfg_values (next_values f c)))"
            unfolding cs1 set_map by (elim CollectE exE conjE) simp
          then show "x \<in> {(cfg_path c, cfg_path c @ q) | c q. c \<in> set cs1 \<and> q \<in> fst ` set (outputs_of ts (cfg_values c))}"
            by blast
        qed
        with ih show ?thesis by simp
      qed
      moreover have s1: "set (gen_written s1) = set (gen_written s)
          \<union> {(cfg_path c, cfg_path c @ rel) | c. c \<in> set cs \<and> text_of f (cfg_values c) \<noteq> None}"
        using one by blast
      have outs: "q \<in> fst ` set (outputs_of (t # ts) (cfg_values c)) \<longleftrightarrow>
          q = rel \<and> text_of f (cfg_values c) \<noteq> None \<or> q \<in> fst ` set (outputs_of ts (cfg_values (next_values f c)))" for c q
        unfolding out by (cases "text_of f (cfg_values c)") auto
      have "{(cfg_path c, cfg_path c @ q) | c q. c \<in> set cs \<and> q \<in> fst ` set (outputs_of (t # ts) (cfg_values c))}
          = {(cfg_path c, cfg_path c @ rel) | c. c \<in> set cs \<and> text_of f (cfg_values c) \<noteq> None}
            \<union> {(cfg_path c, cfg_path c @ q) | c q. c \<in> set cs \<and> q \<in> fst ` set (outputs_of ts (cfg_values (next_values f c)))}"
        unfolding outs by blast
      ultimately show ?thesis by (simp only: s1 Un_assoc)
    qed
    ultimately show ?thesis by blast
  qed
qed simp

lemma remove_stale_spec:
  assumes "all_works h"
  shows "remove_stale h written ds fs p = (if \<exists>d \<in> set ds. is_stale written d p then None else fs p)"
  using assms unfolding remove_stale_def
  by (induction ds arbitrary: fs) (auto simp: remove_under_def all_works_def)

section \<open>What is generated\<close>

text \<open>C25: When every file can be written and no configuration lies in the directory of another, exactly the
  right files are there in the end: in the directory of a configuration its \<open>config.json\<close> and what the
  templates make of its own values, the last text for a path; every other file there is removed, and
  files elsewhere are as before.\<close>

theorem generated_files:
  assumes "all_works h" and "separate (map cfg_path cs)"
  shows "(\<forall>c \<in> set cs. \<forall>q. q \<noteq> [] \<longrightarrow> generate_files h ts cs fs (cfg_path c @ q) =
        (case map_of (rev (outputs_of ts (cfg_values c))) q of
           Some t \<Rightarrow> Some t
         | None \<Rightarrow> if last q = config_file then fs (cfg_path c @ q) else None))
    \<and> (\<forall>p. (\<forall>c \<in> set cs. \<not> prefix (cfg_path c) p) \<longrightarrow> generate_files h ts cs fs p = fs p)"
proof -
  obtain cs' s' where run: "run_templates h ts cs \<lparr>gen_files = fs, gen_written = []\<rparr> = (cs', s')" by fastforce
  note spec = run_templates_spec [OF assms run]
  have gen: "generate_files h ts cs fs p =
      (if \<exists>d \<in> set (map cfg_path cs). is_stale (gen_written s') d p then None else gen_files s' p)" for p
    using run by (simp add: generate_files_def remove_stale_spec [OF assms(1)])
  have written: "set (gen_written s') = {(cfg_path c, cfg_path c @ q) | c q. c \<in> set cs \<and> q \<in> fst ` set (outputs_of ts (cfg_values c))}"
    using spec by simp
  have unique: "c' = c" if "c \<in> set cs" "c' \<in> set cs" "cfg_path c' = cfg_path c" for c c'
    using that separate_distinct [OF assms(2)] by (metis distinct_map inj_onD)
  have stale: "(\<exists>d \<in> set (map cfg_path cs). is_stale (gen_written s') d (cfg_path c @ q))
      \<longleftrightarrow> last q \<noteq> config_file \<and> q \<notin> fst ` set (outputs_of ts (cfg_values c))"
    if "c \<in> set cs" "q \<noteq> []" for c q
  proof -
    have "d = cfg_path c" if "d \<in> set (map cfg_path cs)" "is_stale (gen_written s') d (cfg_path c @ q)" for d
    proof -
      obtain c' where c': "c' \<in> set cs" "d = cfg_path c'" using \<open>d \<in> set (map cfg_path cs)\<close> by auto
      have "cfg_path c @ q = cfg_path c' @ drop (length d) (cfg_path c @ q)"
        using that(2) c'(2) by (metis append_take_drop_id is_stale_def under_def)
      then show ?thesis using prefix_unique [OF assms(2) \<open>c \<in> set cs\<close> c'(1)] c'(2) by metis
    qed
    moreover have "is_stale (gen_written s') (cfg_path c) (cfg_path c @ q)
        \<longleftrightarrow> last q \<noteq> config_file \<and> q \<notin> fst ` set (outputs_of ts (cfg_values c))"
      using that unique by (auto simp: is_stale_def under_def written)
    ultimately show ?thesis using that(1) by (metis image_eqI list.set_map)
  qed
  have "generate_files h ts cs fs (cfg_path c @ q) =
      (case map_of (rev (outputs_of ts (cfg_values c))) q of
         Some t \<Rightarrow> Some t | None \<Rightarrow> if last q = config_file then fs (cfg_path c @ q) else None)"
    if "c \<in> set cs" "q \<noteq> []" for c q
  proof -
    have "map_of (rev (outputs_of ts (cfg_values c))) q = None \<longleftrightarrow> q \<notin> fst ` set (outputs_of ts (cfg_values c))"
      by (simp add: map_of_eq_None_iff)
    moreover have "gen_files s' (cfg_path c @ q) =
        (case map_of (rev (outputs_of ts (cfg_values c))) q of None \<Rightarrow> fs (cfg_path c @ q) | Some t \<Rightarrow> Some t)"
      using spec that(1) by (auto split: option.split)
    ultimately show ?thesis
      unfolding gen stale [OF that] by (auto split: option.split)
  qed
  moreover have "generate_files h ts cs fs p = fs p" if "\<forall>c \<in> set cs. \<not> prefix (cfg_path c) p" for p
  proof -
    have "\<not> is_stale (gen_written s') d p" if "d \<in> set (map cfg_path cs)" for d
      using that \<open>\<forall>c \<in> set cs. \<not> prefix (cfg_path c) p\<close> by (auto simp: is_stale_def under_def) (metis take_is_prefix)
    then show ?thesis using gen spec that by simp
  qed
  ultimately show ?thesis by blast
qed

text \<open>Where configurations are nested, the walk over the outer directory removes the fresh files of the inner
  one, as they were not written for the outer one.\<close>

lemma nested_configs_lose_files:
  assumes "all_works h" and "f (cfg_values c) = (Some ''x'', cfg_values c)" and "f (cfg_values d) = (Some ''x'', cfg_values d)"
    and "cfg_path c = [''a'']" and "cfg_path d = [''a'', ''b'']"
  shows "generate_files h [TemplateFile [''t''] (Some f)] [c, d] fs [''a'', ''b'', ''t''] = None"
proof -
  have x: "trim_space ''x'' = ''x''" by code_simp
  have works: "can_mkdir h p" "can_write_file h p" "can_remove h p" for p
    using assms(1) by (simp_all add: all_works_def)
  have "is_stale w [''a''] [''a'', ''b'', ''t'']" if "set w = {([''a'', ''b''], [''a'', ''b'', ''t'']), ([''a''], [''a'', ''t''])}" for w
    using that by (simp add: is_stale_def under_def config_file_def)
  then show ?thesis
    using assms(2-) by (simp add: generate_files_def x hidden_name_def has_prefix_def remove_stale_spec [OF assms(1)] works insert_commute Let_def)
qed

text \<open>When the directory for one configuration cannot be made, the configurations after it do not get the
  file of this template, and the one that they had is removed.\<close>

lemma mkdir_failure_spreads:
  assumes "\<not> can_mkdir h [''a'', ''s'']" and "can_remove h [''b'', ''s'', ''t'']"
    and "f (cfg_values c) = (Some ''x'', cfg_values c)" and "cfg_path c = [''a'']" and "cfg_path d = [''b'']"
  shows "generate_files h [TemplateFile [''s'', ''t''] (Some f)] [c, d] fs [''b'', ''s'', ''t''] = None"
proof -
  have x: "trim_space ''x'' = ''x''" by code_simp
  have "is_stale [] [''b''] [''b'', ''s'', ''t'']"
    by (simp add: is_stale_def under_def config_file_def)
  then show ?thesis
    using assms by (simp add: generate_files_def x hidden_name_def has_prefix_def remove_stale_def remove_under_def)
qed

section \<open>Example\<close>

definition demo_gen :: gen_host where
  "demo_gen = \<lparr>can_mkdir = (\<lambda>_. True), can_write_file = (\<lambda>_. True), can_remove = (\<lambda>_. True)\<rparr>"

definition demo_templates :: "nat template_entry list" where
  "demo_templates = [TemplateFile [''t''] (Some (\<lambda>m. (if m ''n'' = Some 1 then Some ''one'' else Some ''many'', m)))]"

definition demo_configs :: "nat config_data list" where
  "demo_configs = [\<lparr>cfg_path = [''small''], cfg_values = [''n'' \<mapsto> 1]\<rparr>, \<lparr>cfg_path = [''large''], cfg_values = [''n'' \<mapsto> 9]\<rparr>]"

theorem generated_files_witness:
  "generate_files demo_gen demo_templates demo_configs [[''large'', ''old''] \<mapsto> ''x''] [''large'', ''t''] = Some ''many''
    \<and> generate_files demo_gen demo_templates demo_configs [[''large'', ''old''] \<mapsto> ''x''] [''large'', ''old''] = None"
proof -
  have "all_works demo_gen" and s: "separate (map cfg_path demo_configs)"
    by (simp_all add: all_works_def demo_gen_def separate_def demo_configs_def)
  note g = generated_files [OF this, of demo_templates "[[''large'', ''old''] \<mapsto> ''x'']"]
  let ?c = "\<lparr>cfg_path = [''large''], cfg_values = [''n'' \<mapsto> (9 :: nat)]\<rparr>"
  have c: "?c \<in> set demo_configs" by (simp add: demo_configs_def)
  have out: "outputs_of demo_templates (cfg_values ?c) = [([''t''], ''many'')]" by code_simp
  have "generate_files demo_gen demo_templates demo_configs [[''large'', ''old''] \<mapsto> ''x''] (cfg_path ?c @ [''t'']) = Some ''many''"
    using g c out by fastforce
  moreover have "generate_files demo_gen demo_templates demo_configs [[''large'', ''old''] \<mapsto> ''x''] (cfg_path ?c @ [''old'']) = None"
    using g c out by (fastforce simp: config_file_def)
  ultimately show ?thesis by simp
qed

end
