(* ===== verification/TemplateFuncs.thy ===== *)
theory TemplateFuncs
  imports GenConfig
begin

text \<open>
  \<open>cmd/genconfig/gen.go\<close>: the functions that the templates of cluster configurations may call.
\<close>

section \<open>Numbers\<close>

text \<open>A value in a template, by the types that \<open>toFloat\<close> tells apart: all integer types are integers here. JSON
  gives 64-bit floating-point numbers; \<open>Other\<close> stands for texts, lists and maps.\<close>

datatype ('f, 'o) tval = Float64 'f | Float32 'f | Integer int | NilValue | Other 'o

text \<open>What is needed of floating-point numbers. \<open>of_integer\<close> rounds; \<open>to_integer\<close> is the conversion to \<open>int\<close>, which
  depends on the machine when the number does not fit.\<close>

record 'f float_ops =
  of_integer :: "int \<Rightarrow> 'f"
  to_integer :: "'f \<Rightarrow> int"
  f_times :: "'f \<Rightarrow> 'f \<Rightarrow> 'f"
  f_plus :: "'f \<Rightarrow> 'f \<Rightarrow> 'f"
  f_minus :: "'f \<Rightarrow> 'f \<Rightarrow> 'f"
  f_divide :: "'f \<Rightarrow> 'f \<Rightarrow> 'f"
  f_min :: "'f \<Rightarrow> 'f \<Rightarrow> 'f"
  f_max :: "'f \<Rightarrow> 'f \<Rightarrow> 'f"
  f_floor :: "'f \<Rightarrow> 'f"
  f_ceil :: "'f \<Rightarrow> 'f"

fun to_float :: "'f float_ops \<Rightarrow> ('f, 'o) tval \<Rightarrow> 'f" where
  "to_float F (Float64 x) = x"
| "to_float F (Float32 x) = x"
| "to_float F (Integer n) = of_integer F n"
| "to_float F v = of_integer F 0"

definition to_int :: "'f float_ops \<Rightarrow> ('f, 'o) tval \<Rightarrow> int" where
  "to_int F v = to_integer F (to_float F v)"

definition tf_dec :: "'f float_ops \<Rightarrow> ('f, 'o) tval \<Rightarrow> int" where
  "tf_dec F v = go_add (to_int F v) (-1)"

definition tf_mul :: "'f float_ops \<Rightarrow> ('f, 'o) tval list \<Rightarrow> 'f" where
  "tf_mul F vs = fold (\<lambda>v r. f_times F r (to_float F v)) vs (of_integer F 1)"

definition tf_binary :: "'f float_ops \<Rightarrow> string \<Rightarrow> ('f, 'o) tval \<Rightarrow> ('f, 'o) tval \<Rightarrow> 'f option" where
  "tf_binary F name a b =
     map_option (\<lambda>f. f F (to_float F a) (to_float F b))
       (map_of [(''add'', f_plus), (''sub'', f_minus), (''div'', f_divide), (''min'', f_min), (''max'', f_max)] name)"

definition tf_floor :: "'f float_ops \<Rightarrow> ('f, 'o) tval \<Rightarrow> int" where
  "tf_floor F v = to_integer F (f_floor F (to_float F v))"

definition tf_ceil :: "'f float_ops \<Rightarrow> ('f, 'o) tval \<Rightarrow> int" where
  "tf_ceil F v = to_integer F (f_ceil F (to_float F v))"

section \<open>Maps, defaults, texts\<close>

text \<open>\<open>set\<close> prints nothing and changes the map that the template was given.\<close>

definition tf_set :: "'v params \<Rightarrow> string \<Rightarrow> 'v \<Rightarrow> string \<times> 'v params" where
  "tf_set m key v = ([], m(key \<mapsto> v))"

definition tf_default :: "('f, 'o) tval \<Rightarrow> ('f, 'o) tval \<Rightarrow> ('f, 'o) tval" where
  "tf_default v fallback = (if v = NilValue then fallback else v)"

definition tf_text :: "string \<Rightarrow> string \<Rightarrow> string \<Rightarrow> bool option" where
  "tf_text name s t =
     map_option (\<lambda>f. f s t) (map_of [(''hasPrefix'', has_prefix), (''hasSuffix'', has_suffix), (''contains'', contains)] name)"

section \<open>Sequences\<close>

text \<open>\<open>seq\<close> puts the numbers into a channel that is made large enough for them and closed. A capacity that is
  negative or more than \<open>limit\<close> panics; a number that does not fit into the channel would block for ever. The
  fuel is one more than the capacity.\<close>

datatype seq_run = SeqValues "int list" | SeqPanic | SeqBlocks

fun fill_channel :: "nat \<Rightarrow> int \<Rightarrow> int \<Rightarrow> int list \<Rightarrow> seq_run" where
  "fill_channel 0 i stop vs = (if i \<le> stop then SeqBlocks else SeqValues vs)"
| "fill_channel (Suc room) i stop vs = (if i \<le> stop then fill_channel room (go_add i 1) stop (vs @ [i]) else SeqValues vs)"

definition tf_seq :: "'f float_ops \<Rightarrow> int \<Rightarrow> ('f, 'o) tval \<Rightarrow> ('f, 'o) tval \<Rightarrow> seq_run" where
  "tf_seq F limit a b =
     (let start = to_int F a; stop = to_int F b in
      if stop < start then SeqValues []
      else (let n = go_add (go_add stop (- start)) 1 in
            if n < 0 \<or> limit < n then SeqPanic else fill_channel (nat n) start stop []))"

section \<open>What the sequences are\<close>

lemma fill_channel_values:
  assumes "stop < 2 ^ 63 - 1" and "- (2 ^ 63) \<le> i" and "i \<le> stop + 1" and "room = nat (stop - i + 1)"
  shows "fill_channel room i stop vs = SeqValues (vs @ [i .. stop])"
  using assms
proof (induction room arbitrary: i vs)
  case (Suc room)
  then have i: "i \<le> stop" by simp
  have "go_add i 1 = i + 1" using Suc.prems(1,2) i by (intro go_add_small) (simp add: in_int64_def)
  moreover have "fill_channel room (i + 1) stop (vs @ [i]) = SeqValues ((vs @ [i]) @ [i + 1 .. stop])"
    using Suc.prems i by (intro Suc.IH) simp_all
  ultimately show ?case using i by (simp add: upto_rec1)
qed simp

text \<open>Between any two bounds whose numbers fit into a channel, \<open>seq\<close> gives the numbers from the one to the other.\<close>

lemma seq_values:
  assumes "in_int64 (to_int F a)" and "to_int F b < 2 ^ 63 - 1" and "to_int F b - to_int F a < limit" and "limit < 2 ^ 63"
  shows "tf_seq F limit a b = SeqValues [to_int F a .. to_int F b]"
proof (cases "to_int F b < to_int F a")
  case False
  have "go_add (to_int F b) (- to_int F a) = to_int F b - to_int F a"
    using assms(3,4) False by (subst go_add_small) (simp_all add: in_int64_def)
  moreover have "go_add (to_int F b - to_int F a) 1 = to_int F b - to_int F a + 1"
    using assms(3,4) False by (subst go_add_small) (simp_all add: in_int64_def)
  ultimately show ?thesis
    using assms False fill_channel_values [of "to_int F b" "to_int F a" _ "[]"]
    by (simp add: tf_seq_def Let_def in_int64_def)
qed (simp add: tf_seq_def)

text \<open>With the largest integer as the upper bound the counter wraps around, and the call never returns.\<close>

lemma seq_blocks:
  assumes "to_int F a = 2 ^ 63 - 1" and "to_int F b = 2 ^ 63 - 1" and "1 \<le> limit"
  shows "tf_seq F limit a b = SeqBlocks"
proof -
  have "go_add (2 ^ 63 - 1) (- (2 ^ 63 - 1)) = 0" "go_add 0 1 = 1" "go_add (2 ^ 63 - 1) 1 = - (2 ^ 63)"
    by (simp_all add: go_add_def signed_take_bit_eq_if_positive signed_take_bit_int_eq_self_iff)
  with assms show ?thesis by (simp add: tf_seq_def Let_def)
qed

text \<open>A value that is missing or is not a number counts as 0 in all arithmetic.\<close>

lemma missing_is_zero: "to_float F NilValue = of_integer F 0 \<and> to_float F (Other x) = of_integer F 0"
  by simp

end
