(* ===== verification/PlanNode.thy ===== *)
theory PlanNode
  imports GoBase
begin

text \<open>
  Query plans as Presto gives them in JSON (\<open>prestoapi/plan_node\<close>): the values, statements and join
  predicates in the texts of the plan nodes, the traversal of the fragments of a plan
  (\<open>PlanNode.Traverse\<close>), and \<open>ParseJoins\<close>, which traces the two sides of each join back to columns
  of tables. The parsers are built by a library from the tags of the structs; they are arguments.
\<close>

section \<open>Values and statements\<close>

datatype bound = BELOW | EXACTLY | ABOVE

record marker =
  marker_bound :: bound
  marker_value :: string

record range =
  range_null :: string
  low_value :: "marker option"
  high_value :: "marker option"

record hive_table =
  table_schema :: string
  table_of :: string
  table_catalog :: string

record hive_column =
  column_name :: string
  column_data_type :: string
  column_index :: int
  column_type :: string
  column_loc :: "(int \<times> int) option"
  column_ranges :: "range list"
  column_table :: "hive_table option"

datatype data_type = DataType (data_type_name: string) (data_type_option: string)

text \<open>The conditions of a \<open>SWITCH\<close>, over the values that they compare: each is a type of the interface
  \<open>WhenExp\<close>.\<close>

datatype 'v when_exp = CompareWhen 'v string 'v
  | LikeWhen 'v string string
  | BooleanWhen 'v
  | AndOrWhen "'v when_exp" string "'v when_exp"

datatype val = HiveColumn hive_column
  | FunctionCall string "val list" "string list"
  | IdentRef string
  | TypedValue string string
  | TypeCastedValue val data_type
  | Switch val "(val when_exp \<times> val) list" val
  | MathExpr val string val
  | CatchAllValue string

datatype detail_stmt = Layout string | Distribution string | ColumnStmt hive_column
  | Assignment string val "(int \<times> int) option" | UnknownRange string | CatchAllStmt string

section \<open>Captures and renderings\<close>

text \<open>\<open>boundMap\<close>; a token that is not in it captures the zero value, \<open>BELOW\<close>.\<close>

definition bound_map :: "string \<rightharpoonup> bound" where
  "bound_map = [''['' \<mapsto> EXACTLY, '']'' \<mapsto> EXACTLY, ''('' \<mapsto> ABOVE, '')'' \<mapsto> BELOW, ''<min>'' \<mapsto> ABOVE, ''<max>'' \<mapsto> BELOW]"

definition bound_capture :: "string list \<Rightarrow> bound" where
  "bound_capture values = (case bound_map (hd values) of Some b \<Rightarrow> b | None \<Rightarrow> BELOW)"

definition is_quote :: "char \<Rightarrow> bool" where
  "is_quote c \<longleftrightarrow> c = CHR 0x22 \<or> c = CHR 0x27"

definition unquoted_capture :: "string list \<Rightarrow> string" where
  "unquoted_capture values = rev (dropWhile is_quote (rev (dropWhile is_quote (hd values))))"

definition marker_step :: "string \<Rightarrow> marker \<Rightarrow> marker" where
  "marker_step v m = (case bound_map v of Some b \<Rightarrow> m\<lparr>marker_bound := b\<rparr> | None \<Rightarrow> m\<lparr>marker_value := unquoted_capture [v]\<rparr>)"

definition marker_capture :: "string list \<Rightarrow> marker \<Rightarrow> string + marker" where
  "marker_capture values m =
     (if length values \<noteq> 2 then Inl (''invalid Marker '' @ join_str '' '' values) else Inr (fold marker_step values m))"

definition range_string :: "range \<Rightarrow> string" where
  "range_string r =
     (case low_value r of
        None \<Rightarrow> ''<error>''
      | Some low \<Rightarrow>
          (if marker_value low = [] then ''(<min>''
           else (if marker_bound low = EXACTLY then ''['' else ''('') @ [CHR 0x22] @ marker_value low @ [CHR 0x22])
          @ (case high_value r of
               None \<Rightarrow> '']''
             | Some high \<Rightarrow>
                 if marker_value high = [] then '', <max>)''
                 else '', '' @ [CHR 0x22] @ marker_value high @ [CHR 0x22] @ (if marker_bound high = EXACTLY then '']'' else '')'')))"

definition table_string :: "hive_table option \<Rightarrow> string" where
  "table_string h =
     (case h of None \<Rightarrow> ''<nil table>''
      | Some t \<Rightarrow> table_catalog t @ [CHR ''.''] @ table_schema t @ [CHR ''.''] @ table_of t)"

definition data_type_string :: "data_type \<Rightarrow> string" where
  "data_type_string d =
     (if data_type_option d = [] then data_type_name d else data_type_name d @ ''('' @ data_type_option d @ '')'')"

text \<open>The \<open>String\<close> methods. How the conditions of a \<open>Switch\<close> are printed is up to \<open>fmt\<close> (it prints
  addresses) and is an argument.\<close>

fun value_string :: "((val when_exp \<times> val) list \<Rightarrow> string) \<Rightarrow> val \<Rightarrow> string" where
  "value_string sw (HiveColumn c) = table_string (column_table c) @ [CHR ''.''] @ column_name c"
| "value_string sw (FunctionCall f ps opts) = f @ ''('' @ join_str '', '' (map (value_string sw) ps) @ '')''"
| "value_string sw (IdentRef x) = x"
| "value_string sw (TypedValue ty lit) = ty @ [CHR 0x20, CHR 0x27] @ lit @ [CHR 0x27]"
| "value_string sw (TypeCastedValue v ty) = ''CAST('' @ value_string sw v @ '' AS '' @ data_type_string ty @ '')''"
| "value_string sw (Switch d ws def) = ''SWITCH('' @ value_string sw d @ '', '' @ sw ws @ '', '' @ value_string sw def @ '')''"
| "value_string sw (MathExpr l op r) = ''('' @ value_string sw l @ '') '' @ op @ '' ('' @ value_string sw r @ '')''"
| "value_string sw (CatchAllValue s) = s"

text \<open>The \<open>GetAssignments\<close> methods: the identifiers a value refers to.\<close>

fun get_assignments :: "val \<Rightarrow> string list" where
  "get_assignments (IdentRef x) = [x]"
| "get_assignments (FunctionCall f ps opts) = concat (map get_assignments ps)"
| "get_assignments (TypeCastedValue v ty) = get_assignments v"
| "get_assignments (MathExpr l op r) = get_assignments l @ get_assignments r"
| "get_assignments _ = []"

section \<open>Join predicates\<close>

datatype column_exp = Column string | ParansColumn val

fun column_assignments :: "column_exp \<Rightarrow> string list" where
  "column_assignments (Column n) = [n]"
| "column_assignments (ParansColumn v) = get_assignments v"

text \<open>The right side of a predicate is optional in the grammar.\<close>

record join_predicate =
  pred_left :: column_exp
  pred_op :: string
  pred_right :: "column_exp option"

datatype exp = LogicalExpression exp string "exp option" | Predicate join_predicate | CallExp string

fun get_join_predicates :: "exp \<Rightarrow> join_predicate list" where
  "get_join_predicates (LogicalExpression l op r) =
     get_join_predicates l @ (case r of None \<Rightarrow> [] | Some e \<Rightarrow> get_join_predicates e)"
| "get_join_predicates (Predicate p) = [p]"
| "get_join_predicates (CallExp f) = []"

record join_identifier =
  first_exp :: exp
  and_exp :: "exp list"
  or_exp :: "exp list"

definition get_joins :: "join_identifier \<Rightarrow> exp list" where
  "get_joins j = [first_exp j] @ and_exp j @ or_exp j"

text \<open>\<open>JoinPredicate.GetAssignments\<close>: \<open>None\<close> is the call of a method of a nil interface.\<close>

definition predicate_assignments :: "join_predicate \<Rightarrow> (string list \<times> string list) option" where
  "predicate_assignments p = map_option (\<lambda>r. (column_assignments (pred_left p), column_assignments r)) (pred_right p)"

section \<open>Table handles\<close>

text \<open>All the ways to split a text at a literal, from left to right.\<close>

definition splits_at :: "string \<Rightarrow> string \<Rightarrow> (string \<times> string) list" where
  "splits_at pat s =
     map (\<lambda>i. (take i s, drop (i + length pat) s)) (filter (\<lambda>i. has_prefix (drop i s) pat) [0..<Suc (length s)])"

fun split_lines :: "string \<Rightarrow> string list" where
  "split_lines [] = [[]]"
| "split_lines (c # cs) =
     (if c = CHR 0x0A then [] # split_lines cs
      else (case split_lines cs of l # ls \<Rightarrow> (c # l) # ls | [] \<Rightarrow> [[c]]))"

text \<open>
  The match of the regular expression of \<open>ParseHiveTableHandle\<close> on a line, in the order in which
  it is searched: greedy groups from the right, lazy groups from the left.
\<close>

definition handle_in_line :: "string \<Rightarrow> hive_table option" where
  "handle_in_line line =
     first_some (\<lambda>(pre, r1).
       first_some (\<lambda>(catalog, r2).
         first_some (\<lambda>(sch, r3).
           first_some (\<lambda>(tab, rest). Some \<lparr>table_schema = sch, table_of = tab, table_catalog = catalog\<rparr>)
             (splits_at '','' r3))
           (splits_at '', tableName='' r2))
         (rev (splits_at ([CHR 0x27] @ '', connectorHandle='' @ [CHR 0x27] @ ''HiveTableHandle{schemaName='') r1)))
       (rev (splits_at (''connectorId='' @ [CHR 0x27]) line))"

definition parse_hive_table_handle :: "string \<Rightarrow> hive_table option" where
  "parse_hive_table_handle literal = first_some handle_in_line (split_lines literal)"

section \<open>Traversing a plan\<close>

datatype plan_node = PlanNode (node_id: string) (node_name: string) (node_identifier: string)
  (node_details: string) (children: "plan_node list") (remote_sources: "string list")

text \<open>The fragments by their ids; a fragment that is \<open>null\<close> in the document is a nil pointer.\<close>

type_synonym plan_tree = "string \<rightharpoonup> plan_node option"

datatype mode = BFS | DFS

datatype 'e traverse_error = FromFunction 'e | Cancelled | NonExistentRemoteSource string | NoRootPlanNode | NilFragment

text \<open>
  The function that is called for a node gets the depth and a state, and may fail; \<open>None\<close> is running
  out of fuel. \<open>stopped\<close> tells whether the context is cancelled. The fuel of the traversal bounds the
  nesting of the calls, which is not bounded by the plan: remote sources may refer to each other.
\<close>

type_synonym ('s, 'e) visitor = "int \<Rightarrow> plan_node \<Rightarrow> 's \<Rightarrow> ('e option \<times> 's) option"

type_synonym ('s, 'e) outcome = "('e traverse_error option \<times> 's) option"

definition then_do :: "('s, 'e) outcome \<Rightarrow> ('s \<Rightarrow> ('s, 'e) outcome) \<Rightarrow> ('s, 'e) outcome" where
  "then_do r f = (case r of None \<Rightarrow> None | Some (Some e, s) \<Rightarrow> Some (Some e, s) | Some (None, s) \<Rightarrow> f s)"

fun do_all :: "('a \<Rightarrow> 's \<Rightarrow> ('s, 'e) outcome) \<Rightarrow> 'a list \<Rightarrow> 's \<Rightarrow> ('s, 'e) outcome" where
  "do_all f [] s = Some (None, s)"
| "do_all f (x # xs) s = then_do (f x s) (do_all f xs)"

fun traverse :: "nat \<Rightarrow> ('s \<Rightarrow> bool) \<Rightarrow> ('s, 'e) visitor \<Rightarrow> plan_tree option \<Rightarrow> mode \<Rightarrow> int \<Rightarrow> plan_node \<Rightarrow> 's \<Rightarrow> ('s, 'e) outcome" where
  "traverse 0 stopped fn tree md depth n s = None"
| "traverse (Suc k) stopped fn tree md depth n s =
     (if stopped s then Some (Some Cancelled, s)
      else
        (let visit_child = do_all (traverse k stopped fn tree md (depth + 1)) (children n);
             here = (\<lambda>s. case tree of
                 Some t \<Rightarrow>
                   if node_name n = ''RemoteSource'' then
                     do_all (\<lambda>r s. case t r of
                         Some (Some p) \<Rightarrow> traverse k stopped fn tree md depth p s
                       | Some None \<Rightarrow> Some (Some NilFragment, s)
                       | None \<Rightarrow> Some (Some (NonExistentRemoteSource r), s)) (remote_sources n) s
                   else map_option (\<lambda>(e, s'). (map_option FromFunction e, s')) (fn depth n s)
               | None \<Rightarrow> map_option (\<lambda>(e, s'). (map_option FromFunction e, s')) (fn depth n s))
         in if md = DFS then then_do (visit_child s) here else then_do (here s) visit_child))"

text \<open>\<open>PlanTree.Traverse\<close>: the depth starts at 0, one more than in a context without a depth.\<close>

definition traverse_tree :: "nat \<Rightarrow> ('s \<Rightarrow> bool) \<Rightarrow> ('s, 'e) visitor \<Rightarrow> plan_tree \<Rightarrow> mode \<Rightarrow> int \<Rightarrow> 's \<Rightarrow> ('s, 'e) outcome" where
  "traverse_tree k stopped fn t md depth s =
     (case t ''0'' of
        None \<Rightarrow> Some (Some NoRootPlanNode, s)
      | Some None \<Rightarrow> Some (Some NilFragment, s)
      | Some (Some p) \<Rightarrow> traverse k stopped fn (Some t) md (depth + 1) p s)"

section \<open>Tracing values\<close>

text \<open>
  The values of the details are structures linked by pointers, and \<open>traceValue\<close> changes them in
  place; a value may be reached from several places after that. So values are kept in a store: a
  list of cells, the address of a cell being its position.
\<close>

datatype cell = ColumnCell hive_column | CallCell string "nat list" "string list" | IdentCell string
  | CastCell nat data_type | MathCell nat string nat | OtherCell val

type_synonym store = "cell list"

definition cell_at :: "store \<Rightarrow> nat \<Rightarrow> cell" where
  "cell_at h a = (if a < length h then h ! a else OtherCell (CatchAllValue []))"

text \<open>The parser gives a fresh value: put it into the store.\<close>

fun put_value :: "val \<Rightarrow> store \<Rightarrow> nat \<times> store"
and put_values :: "val list \<Rightarrow> store \<Rightarrow> nat list \<times> store" where
  "put_value (HiveColumn c) h = (length h, h @ [ColumnCell c])"
| "put_value (FunctionCall f ps opts) h = (let (as, h1) = put_values ps h in (length h1, h1 @ [CallCell f as opts]))"
| "put_value (IdentRef x) h = (length h, h @ [IdentCell x])"
| "put_value (TypeCastedValue v ty) h = (let (a, h1) = put_value v h in (length h1, h1 @ [CastCell a ty]))"
| "put_value (MathExpr l op r) h =
     (let (a, h1) = put_value l h; (b, h2) = put_value r h1 in (length h2, h2 @ [MathCell a op b]))"
| "put_value v h = (length h, h @ [OtherCell v])"
| "put_values [] h = ([], h)"
| "put_values (v # vs) h = (let (a, h1) = put_value v h; (as, h2) = put_values vs h1 in (a # as, h2))"

definition set_param :: "nat \<Rightarrow> nat \<Rightarrow> nat \<Rightarrow> store \<Rightarrow> store" where
  "set_param a i p h = (case cell_at h a of CallCell f ps opts \<Rightarrow> h[a := CallCell f (ps[i := p]) opts] | _ \<Rightarrow> h)"

definition set_left :: "nat \<Rightarrow> nat \<Rightarrow> store \<Rightarrow> store" where
  "set_left a l h = (case cell_at h a of MathCell _ op r \<Rightarrow> h[a := MathCell l op r] | _ \<Rightarrow> h)"

definition set_right :: "nat \<Rightarrow> nat \<Rightarrow> store \<Rightarrow> store" where
  "set_right a r h = (case cell_at h a of MathCell l op _ \<Rightarrow> h[a := MathCell l op r] | _ \<Rightarrow> h)"

definition set_cast :: "nat \<Rightarrow> nat \<Rightarrow> store \<Rightarrow> store" where
  "set_cast a v h = (case cell_at h a of CastCell _ ty \<Rightarrow> h[a := CastCell v ty] | _ \<Rightarrow> h)"

definition right_of :: "store \<Rightarrow> nat \<Rightarrow> nat" where
  "right_of h a = (case cell_at h a of MathCell _ _ r \<Rightarrow> r | _ \<Rightarrow> a)"

definition set_table :: "nat \<Rightarrow> hive_column \<Rightarrow> hive_table option \<Rightarrow> store \<Rightarrow> store" where
  "set_table a c t h = (if column_table c = None then h[a := ColumnCell (c\<lparr>column_table := t\<rparr>)] else h)"

text \<open>\<open>traceValue\<close>: the address of the traced value and the store. The fuel bounds the depth of the
  recursion.\<close>

fun trace_value :: "nat \<Rightarrow> (string \<rightharpoonup> nat) \<Rightarrow> hive_table option \<Rightarrow> nat \<Rightarrow> store \<Rightarrow> (nat \<times> store) option"
and trace_params :: "nat \<Rightarrow> (string \<rightharpoonup> nat) \<Rightarrow> hive_table option \<Rightarrow> nat \<Rightarrow> nat \<Rightarrow> store \<Rightarrow> store option" where
  "trace_value 0 m t a h = None"
| "trace_value (Suc k) m t a h =
     (case cell_at h a of
        ColumnCell c \<Rightarrow> Some (a, set_table a c t h)
      | CastCell v ty \<Rightarrow> map_option (\<lambda>(v', h1). (a, set_cast a v' h1)) (trace_value k m t v h)
      | IdentCell x \<Rightarrow> (case m x of Some b \<Rightarrow> trace_value k m t b h | None \<Rightarrow> Some (a, h))
      | CallCell f ps opts \<Rightarrow> map_option (Pair a) (trace_params k m t a 0 h)
      | MathCell l op r \<Rightarrow>
          (case trace_value k m t l h of
             None \<Rightarrow> None
           | Some (l', h1) \<Rightarrow>
               (let h2 = set_left a l' h1
                in map_option (\<lambda>(r', h3). (a, set_right a r' h3)) (trace_value k m t (right_of h2 a) h2)))
      | OtherCell v \<Rightarrow> Some (a, h))"
| "trace_params 0 m t a i h = None"
| "trace_params (Suc k) m t a i h =
     (case cell_at h a of
        CallCell f ps opts \<Rightarrow>
          if i < length ps then
            (case trace_value k m t (ps ! i) h of
               None \<Rightarrow> None
             | Some (p, h1) \<Rightarrow> trace_params k m t a (i + 1) (set_param a i p h1))
          else Some h
      | _ \<Rightarrow> Some h)"

section \<open>ParseJoins\<close>

text \<open>The two parsers, which a library builds from the grammar in the tags.\<close>

record plan_parsers =
  parse_details :: "string \<Rightarrow> detail_stmt list option"
  parse_predicates :: "string \<Rightarrow> join_identifier option"

datatype joins_error = DetailsNotParsed | IdentifierNotParsed | EmptyJoinExpression | NilRightSide

record join =
  join_type :: string
  left_value :: "nat option"
  right_value :: "nat option"

record joins_state =
  cells :: store
  assignment_map :: "string \<rightharpoonup> nat"
  joins :: "join list"

definition is_join :: "string \<Rightarrow> bool" where
  "is_join n \<longleftrightarrow> n \<in> {''LeftJoin'', ''RightJoin'', ''InnerJoin''}"

text \<open>The values of the statements, put into the store in the order in which they are written.\<close>

fun put_stmts :: "detail_stmt list \<Rightarrow> store \<Rightarrow> (string \<times> nat) list \<times> store" where
  "put_stmts [] h = ([], h)"
| "put_stmts (Assignment x v loc # ss) h =
     (let (a, h1) = put_value v h; (xs, h2) = put_stmts ss h1 in ((x, a) # xs, h2))"
| "put_stmts (_ # ss) h = put_stmts ss h"

text \<open>The loop over the assignments; the caller gives them in reverse.\<close>

fun assign_all :: "nat \<Rightarrow> hive_table option \<Rightarrow> (string \<times> nat) list \<Rightarrow> joins_state \<Rightarrow> joins_state option" where
  "assign_all k t [] s = Some s"
| "assign_all k t ((x, a) # xs) s =
     (case trace_value k (assignment_map s) t a (cells s) of
        None \<Rightarrow> None
      | Some (b, h) \<Rightarrow> assign_all k t xs (s\<lparr>cells := h, assignment_map := (assignment_map s)(x \<mapsto> b)\<rparr>))"

fun add_predicates :: "string \<Rightarrow> join_predicate list \<Rightarrow> joins_state \<Rightarrow> joins_error option \<times> joins_state" where
  "add_predicates ty [] s = (None, s)"
| "add_predicates ty (p # ps) s =
     (case predicate_assignments p of
        None \<Rightarrow> (Some NilRightSide, s)
      | Some (ls, rs) \<Rightarrow>
          add_predicates ty ps
            (if length ls = 1 \<and> length rs = 1
             then s\<lparr>joins := joins s @ [\<lparr>join_type = ty, left_value = assignment_map s (hd ls),
                                        right_value = assignment_map s (hd rs)\<rparr>]\<rparr>
             else s))"

text \<open>The function that \<open>ParseJoins\<close> hands to the traversal.\<close>

definition visit_node :: "plan_parsers \<Rightarrow> nat \<Rightarrow> (joins_state, joins_error) visitor" where
  "visit_node pp k depth n s =
     (let t = parse_hive_table_handle (node_identifier n);
          after_details =
            (if node_details n = [] then Some (None, s)
             else case parse_details pp (node_details n) of
                    None \<Rightarrow> Some (Some DetailsNotParsed, s)
                  | Some ss \<Rightarrow>
                      (let (xs, h) = put_stmts ss (cells s)
                       in map_option (Pair None) (assign_all k t (rev xs) (s\<lparr>cells := h\<rparr>))))
      in case after_details of
           None \<Rightarrow> None
         | Some (Some e, s1) \<Rightarrow> Some (Some e, s1)
         | Some (None, s1) \<Rightarrow>
             if is_join (node_name n) then
               (case parse_predicates pp (node_identifier n) of
                  None \<Rightarrow> Some (Some IdentifierNotParsed, s1)
                | Some preds \<Rightarrow>
                    if get_joins preds = [] then Some (Some EmptyJoinExpression, s1)
                    else Some (add_predicates (node_name n) (concat (map get_join_predicates (get_joins preds))) s1))
             else Some (None, s1))"

definition parse_joins :: "plan_parsers \<Rightarrow> nat \<Rightarrow> nat \<Rightarrow> plan_tree \<Rightarrow> (joins_error traverse_error + join list \<times> store) option" where
  "parse_joins pp k j t =
     (case traverse_tree k (\<lambda>_. False) (visit_node pp j) t DFS (-1) \<lparr>cells = [], assignment_map = Map.empty, joins = []\<rparr> of
        None \<Rightarrow> None
      | Some (Some e, s) \<Rightarrow> Some (Inl e)
      | Some (None, s) \<Rightarrow> Some (Inr (joins s, cells s)))"

section \<open>JsonFloat64\<close>

text \<open>A floating-point number, by the cases that its rendering distinguishes.\<close>

datatype 'n json_float = Finite 'n | NaN | PosInf | NegInf

datatype 'n any_value = AnyNumber "'n json_float" | AnyString string | AnyOther

definition marshal_float :: "('n \<Rightarrow> string) \<Rightarrow> 'n json_float \<Rightarrow> string" where
  "marshal_float render f =
     (case f of NaN \<Rightarrow> [CHR 0x22] @ ''NaN'' @ [CHR 0x22]
      | NegInf \<Rightarrow> [CHR 0x22] @ ''-Infinity'' @ [CHR 0x22]
      | PosInf \<Rightarrow> [CHR 0x22] @ ''Infinity'' @ [CHR 0x22]
      | Finite n \<Rightarrow> render n)"

definition unmarshal_float :: "(string \<Rightarrow> 'n any_value option) \<Rightarrow> string \<Rightarrow> string + 'n json_float" where
  "unmarshal_float decode data =
     (case decode data of
        None \<Rightarrow> Inl ''json''
      | Some (AnyNumber f) \<Rightarrow> Inr f
      | Some (AnyString s) \<Rightarrow>
          (if s = ''NaN'' then Inr NaN
           else if s = ''Infinity'' then Inr PosInf
           else if s = ''-Infinity'' then Inr NegInf
           else Inl (''invalid JsonFloat64 '' @ s))
      | Some AnyOther \<Rightarrow> Inl ''invalid JsonFloat64'')"

section \<open>The order of a traversal\<close>

fun preorder :: "int \<Rightarrow> plan_node \<Rightarrow> (int \<times> plan_node) list" where
  "preorder d (PlanNode i nm ident det ch rs) =
     (d, PlanNode i nm ident det ch rs) # concat (map (preorder (d + 1)) ch)"

fun postorder :: "int \<Rightarrow> plan_node \<Rightarrow> (int \<times> plan_node) list" where
  "postorder d (PlanNode i nm ident det ch rs) =
     concat (map (postorder (d + 1)) ch) @ [(d, PlanNode i nm ident det ch rs)]"

fun height :: "plan_node \<Rightarrow> nat" where
  "height (PlanNode i nm ident det ch rs) = Suc (fold max (map height ch) 0)"

fun no_remote :: "plan_node \<Rightarrow> bool" where
  "no_remote (PlanNode i nm ident det ch rs) \<longleftrightarrow> nm \<noteq> ''RemoteSource'' \<and> list_all no_remote ch"

definition visit_one :: "('s, 'e) visitor \<Rightarrow> int \<times> plan_node \<Rightarrow> 's \<Rightarrow> ('s, 'e) outcome" where
  "visit_one fn dn s = map_option (\<lambda>(e, s'). (map_option FromFunction e, s')) (fn (fst dn) (snd dn) s)"

lemma then_do_None [simp]: "then_do (Some (None, s)) f = f s"
  by (simp add: then_do_def)

lemma then_do_assoc: "then_do (then_do r f) g = then_do r (\<lambda>s. then_do (f s) g)"
  by (auto simp: then_do_def split: option.splits)

lemma then_do_return [simp]: "then_do r (\<lambda>s. Some (None, s)) = r"
  by (auto simp: then_do_def split: option.splits)

lemma do_all_append: "do_all f (xs @ ys) s = then_do (do_all f xs s) (do_all f ys)"
proof (induction xs arbitrary: s)
  case (Cons x xs)
  then have "do_all f (xs @ ys) = (\<lambda>s. then_do (do_all f xs s) (do_all f ys))" by (intro ext) simp
  then show ?case by (simp add: then_do_assoc)
qed simp

lemma do_all_single [simp]: "do_all f [x] = f x"
  by (rule ext) (simp add: then_do_def split: option.splits prod.splits)

lemma visit_one_eq: "map_option (\<lambda>(e, s'). (map_option FromFunction e, s')) (fn d n s) = visit_one fn (d, n) s"
  by (simp add: visit_one_def)

lemma do_all_concat:
  "(\<And>x s. x \<in> set xs \<Longrightarrow> g x s = do_all f (h x) s) \<Longrightarrow> do_all g xs s = do_all f (concat (map h xs)) s"
proof (induction xs arbitrary: s)
  case (Cons x xs)
  then have "do_all g xs = do_all f (concat (map h xs))" by (intro ext) simp
  with Cons.prems show ?case by (simp add: do_all_append)
qed simp

lemma fold_max_le: "fold max xs (m::nat) \<le> k \<longleftrightarrow> m \<le> k \<and> (\<forall>x \<in> set xs. x \<le> k)"
  by (induction xs arbitrary: m) auto

lemma traverse_orders:
  "height n \<le> k \<Longrightarrow> tree = None \<or> no_remote n \<Longrightarrow>
     traverse k (\<lambda>_. False) fn tree md d n s =
       do_all (visit_one fn) (case md of BFS \<Rightarrow> preorder d n | DFS \<Rightarrow> postorder d n) s"
proof (induction k arbitrary: d n s)
  case 0
  then show ?case by (cases n) simp
next
  case (Suc k)
  obtain i nm ident det ch rs where n: "n = PlanNode i nm ident det ch rs" by (cases n)
  let ?order = "\<lambda>d n. case md of BFS \<Rightarrow> preorder d n | DFS \<Rightarrow> postorder d n"
  have ch: "traverse k (\<lambda>_. False) fn tree md (d + 1) c s = do_all (visit_one fn) (?order (d + 1) c) s"
    if "c \<in> set ch" for c s
    using Suc.prems that by (intro Suc.IH) (auto simp: n fold_max_le list_all_iff)
  have c: "do_all (traverse k (\<lambda>_. False) fn tree md (d + 1)) ch s
      = do_all (visit_one fn) (concat (map (?order (d + 1)) ch)) s" for s
    by (rule do_all_concat) (rule ch)
  have c': "do_all (traverse k (\<lambda>_. False) fn tree md (d + 1)) ch
      = do_all (visit_one fn) (concat (map (?order (d + 1)) ch))"
    by (rule ext) (rule c)
  have "nm \<noteq> ''RemoteSource'' \<or> tree = None" using Suc.prems(2) by (auto simp: n)
  then show ?case
    using c' unfolding n
    by (cases md; cases tree) (simp_all add: do_all_append visit_one_eq)
qed

text \<open>A traversal of a node without remote sources calls the function on every node below it exactly
  once and stops at the first error: in the mode named DFS the children before the node, in the mode
  named BFS the node before its children (which is depth-first as well: preorder).\<close>

theorem traverse_order:
  assumes "height n \<le> k" and "tree = None \<or> no_remote n"
  shows "traverse k (\<lambda>_. False) fn tree DFS d n s = do_all (visit_one fn) (postorder d n) s
    \<and> traverse k (\<lambda>_. False) fn tree BFS d n s = do_all (visit_one fn) (preorder d n) s"
  using traverse_orders [OF assms, of fn DFS d s] traverse_orders [OF assms, of fn BFS d s] by simp

section \<open>Termination of a traversal\<close>

fun subnodes :: "plan_node \<Rightarrow> plan_node list" where
  "subnodes (PlanNode i nm ident det ch rs) = PlanNode i nm ident det ch rs # concat (map subnodes ch)"

text \<open>The fragments are ranked: a remote source of a fragment has a smaller rank.\<close>

definition ranked_fragments :: "(string \<Rightarrow> nat) \<Rightarrow> plan_tree \<Rightarrow> bool" where
  "ranked_fragments r t \<longleftrightarrow> (\<forall>f p. t f = Some (Some p) \<longrightarrow>
     (\<forall>q \<in> set (subnodes p). \<forall>g \<in> set (remote_sources q). t g \<noteq> None \<longrightarrow> r g < r f))"

definition returns :: "('s \<Rightarrow> bool) \<Rightarrow> ('s, 'e) visitor \<Rightarrow> plan_tree \<Rightarrow> mode \<Rightarrow> plan_node \<Rightarrow> bool" where
  "returns stopped fn t md n \<longleftrightarrow> (\<exists>K. \<forall>k \<ge> K. \<forall>d s. traverse k stopped fn (Some t) md d n s \<noteq> None)"

lemma do_all_returns: "(\<And>x s. x \<in> set xs \<Longrightarrow> f x s \<noteq> None) \<Longrightarrow> do_all f xs s \<noteq> None"
  by (induction xs arbitrary: s) (auto simp: then_do_def split: option.splits)

lemma then_do_returns: "x \<noteq> None \<Longrightarrow> (\<And>s. f s \<noteq> None) \<Longrightarrow> then_do x f \<noteq> None"
  by (auto simp: then_do_def split: option.split)

lemma finite_bound:
  assumes "\<And>x. x \<in> set xs \<Longrightarrow> \<exists>K. \<forall>k \<ge> K. P k x"
  shows "\<exists>K::nat. \<forall>k \<ge> K. \<forall>x \<in> set xs. P k x"
  using assms
proof (induction xs)
  case (Cons x xs)
  have "\<exists>K. \<forall>k \<ge> K. P k x" by (rule Cons.prems) simp
  moreover have "\<exists>K. \<forall>k \<ge> K. \<forall>x \<in> set xs. P k x" by (rule Cons.IH) (simp add: Cons.prems)
  ultimately obtain K1 K2 where "\<forall>k \<ge> K1. P k x" "\<forall>k \<ge> K2. \<forall>x \<in> set xs. P k x" by blast
  then have "\<forall>k \<ge> max K1 K2. \<forall>y \<in> set (x # xs). P k y" by auto
  then show ?case by blast
qed simp

lemma returns_step:
  assumes total: "\<And>d n s. fn d n s \<noteq> None"
    and "\<And>c. c \<in> set (children n) \<Longrightarrow> returns stopped fn t md c"
    and "\<And>g p. g \<in> set (remote_sources n) \<Longrightarrow> t g = Some (Some p) \<Longrightarrow> returns stopped fn t md p"
  shows "returns stopped fn t md n"
proof -
  let ?T = "\<lambda>k d n s. traverse k stopped fn (Some t) md d n s"
  obtain K1 where K1: "\<forall>k \<ge> K1. \<forall>c \<in> set (children n). \<forall>d s. ?T k d c s \<noteq> None"
    using finite_bound [of "children n" "\<lambda>k c. \<forall>d s. ?T k d c s \<noteq> None"] assms(2) by (auto simp: returns_def)
  have "\<exists>K. \<forall>k \<ge> K. \<forall>p. t g = Some (Some p) \<longrightarrow> (\<forall>d s. ?T k d p s \<noteq> None)" if "g \<in> set (remote_sources n)" for g
  proof (cases "\<exists>p. t g = Some (Some p)")
    case True
    then obtain p where "t g = Some (Some p)" ..
    with assms(3) [OF that this] show ?thesis by (auto simp: returns_def)
  qed auto
  then obtain K2 where K2: "\<forall>k \<ge> K2. \<forall>g \<in> set (remote_sources n). \<forall>p. t g = Some (Some p) \<longrightarrow> (\<forall>d s. ?T k d p s \<noteq> None)"
    using finite_bound [of "remote_sources n" "\<lambda>k g. \<forall>p. t g = Some (Some p) \<longrightarrow> (\<forall>d s. ?T k d p s \<noteq> None)"] by auto
  have "?T k d n s \<noteq> None" if "k \<ge> Suc (max K1 K2)" for k d s
  proof -
    obtain j where j: "k = Suc j" "K1 \<le> j" "K2 \<le> j" using \<open>k \<ge> Suc (max K1 K2)\<close> by (cases k) auto
    have c: "do_all (?T j (d + 1)) (children n) s \<noteq> None" for s
      by (rule do_all_returns) (use K1 j in blast)
    have r: "do_all (\<lambda>r s. case t r of Some (Some p) \<Rightarrow> ?T j d p s | Some None \<Rightarrow> Some (Some NilFragment, s)
        | None \<Rightarrow> Some (Some (NonExistentRemoteSource r), s)) (remote_sources n) s \<noteq> None" for s
      by (rule do_all_returns) (use K2 j in \<open>auto split: option.split\<close>)
    have v: "map_option (\<lambda>(e, s'). (map_option FromFunction e, s')) (fn d n s) \<noteq> None" for s
      using total by simp
    have here: "(if b then do_all (\<lambda>r s. case t r of Some (Some p) \<Rightarrow> ?T j d p s | Some None \<Rightarrow> Some (Some NilFragment, s)
        | None \<Rightarrow> Some (Some (NonExistentRemoteSource r), s)) (remote_sources n) s
        else map_option (\<lambda>(e, s'). (map_option FromFunction e, s')) (fn d n s)) \<noteq> None" for b s
      using r [of s] v [of s] by (cases b) (simp_all only: if_True if_False not_False_eq_True)
    define dfs where "dfs = (md = DFS)"
    show ?thesis
      unfolding j(1) traverse.simps Let_def option.case dfs_def [symmetric]
      by (cases "stopped s"; cases dfs)
        (simp_all only: if_True if_False, (intro then_do_returns c here option.distinct(2))+)
  qed
  then show ?thesis unfolding returns_def by blast
qed

lemma subnodes_self: "p \<in> set (subnodes p)"
  by (cases p) simp

lemma ranked_returns:
  assumes total: "\<And>d n s. fn d n s \<noteq> None" and "ranked_fragments r t"
  shows "t f = Some (Some p) \<Longrightarrow> q \<in> set (subnodes p) \<Longrightarrow> returns stopped fn t md q"
proof (induction "r f" arbitrary: f p q rule: less_induct)
  case less
  have "set (subnodes q) \<subseteq> set (subnodes p) \<Longrightarrow> returns stopped fn t md q" for q
  proof (induction q rule: subnodes.induct)
    case (1 i nm ident det ch rs)
    let ?n = "PlanNode i nm ident det ch rs"
    show ?case
    proof (rule returns_step [OF total])
      fix c
      assume "c \<in> set (children ?n)"
      then have "c \<in> set ch" "set (subnodes c) \<subseteq> set (subnodes ?n)" by auto
      with 1 show "returns stopped fn t md c" by blast
    next
      fix g p'
      assume g: "g \<in> set (remote_sources ?n)" "t g = Some (Some p')"
      have "?n \<in> set (subnodes p)" using "1.prems" subnodes_self by blast
      with assms(2) less.prems(1) g have "r g < r f" unfolding ranked_fragments_def by blast
      from less.hyps [OF this g(2) subnodes_self] show "returns stopped fn t md p'" .
    qed
  qed
  moreover have "set (subnodes q) \<subseteq> set (subnodes p)" if "q \<in> set (subnodes p)" for p q
    using that by (induction p rule: subnodes.induct) auto
  ultimately show ?case using less.prems by blast
qed

text \<open>If no fragment is, directly or indirectly, a remote source of itself, every traversal of the plan
  returns, whatever the function and the mode.\<close>

theorem traverse_terminates:
  assumes "\<And>d n s. fn d n s \<noteq> None" and "ranked_fragments r t"
  shows "\<exists>K. \<forall>k \<ge> K. traverse_tree k stopped fn t md d s \<noteq> None"
proof (cases "t ''0''")
  case (Some op)
  show ?thesis
  proof (cases op)
    case (Some p)
    with \<open>t ''0'' = Some op\<close> have t: "t ''0'' = Some (Some p)" by simp
    have "returns stopped fn t md p" by (rule ranked_returns [OF assms t subnodes_self])
    then obtain K where "\<forall>k \<ge> K. \<forall>d s. traverse k stopped fn (Some t) md d p s \<noteq> None"
      unfolding returns_def ..
    then have "\<forall>k \<ge> K. traverse_tree k stopped fn t md d s \<noteq> None"
      by (simp only: traverse_tree_def t option.case) blast
    then show ?thesis by blast
  qed (simp add: traverse_tree_def Some)
qed (simp add: traverse_tree_def)

text \<open>A fragment that is its own remote source keeps the traversal going forever.\<close>

lemma traverse_cycle:
  assumes "t f = Some (Some p)" and "node_name p = ''RemoteSource''" and "remote_sources p = f # rs" and "children p = []"
  shows "traverse k (\<lambda>_. False) fn (Some t) md d p s = None"
  using assms by (induction k arbitrary: d s) (simp_all add: then_do_def Let_def)

section \<open>What tracing changes\<close>

definition cell_keeps :: "cell \<Rightarrow> cell \<Rightarrow> bool" where
  "cell_keeps c c' \<longleftrightarrow>
     (case c of
        ColumnCell x \<Rightarrow> \<exists>t. c' = ColumnCell (x\<lparr>column_table := t\<rparr>) \<and> (column_table x \<noteq> None \<longrightarrow> t = column_table x)
      | CallCell f ps opts \<Rightarrow> \<exists>ps'. c' = CallCell f ps' opts \<and> length ps' = length ps
      | CastCell v ty \<Rightarrow> \<exists>v'. c' = CastCell v' ty
      | MathCell l op r \<Rightarrow> \<exists>l' r'. c' = MathCell l' op r'
      | _ \<Rightarrow> c' = c)"

definition store_keeps :: "store \<Rightarrow> store \<Rightarrow> bool" where
  "store_keeps h h' \<longleftrightarrow> length h' = length h \<and> (\<forall>a < length h. cell_keeps (h ! a) (h' ! a))"

lemma cell_keeps_refl: "cell_keeps c c"
proof (cases c)
  case (ColumnCell x)
  then show ?thesis by (auto simp: cell_keeps_def intro!: exI [of _ "column_table x"])
qed (auto simp: cell_keeps_def)

lemma cell_keeps_trans: "cell_keeps c d \<Longrightarrow> cell_keeps d e \<Longrightarrow> cell_keeps c e"
  by (cases c) (auto simp: cell_keeps_def)

lemma store_keeps_refl: "store_keeps h h"
  by (simp add: store_keeps_def cell_keeps_refl)

lemma store_keeps_trans: "store_keeps h1 h2 \<Longrightarrow> store_keeps h2 h3 \<Longrightarrow> store_keeps h1 h3"
  by (auto simp: store_keeps_def intro: cell_keeps_trans)

lemma store_keeps_update: "(a < length h \<Longrightarrow> cell_keeps (h ! a) c) \<Longrightarrow> store_keeps h (h[a := c])"
  by (cases "a < length h") (auto simp: store_keeps_def nth_list_update cell_keeps_refl)

lemma updates_keep:
  "store_keeps h (set_param a i p h)" "store_keeps h (set_left a l h)" "store_keeps h (set_right a r h)"
  "store_keeps h (set_cast a v h)" "cell_at h a = ColumnCell c \<Longrightarrow> store_keeps h (set_table a c t h)"
  unfolding set_param_def set_left_def set_right_def set_cast_def set_table_def
  by (auto split: cell.split if_splits intro!: store_keeps_update store_keeps_refl simp: cell_at_def cell_keeps_def)

lemma trace_keeps:
  "trace_value k m t a h = Some (b, h') \<Longrightarrow> store_keeps h h'"
  "trace_params k m t a i h = Some h' \<Longrightarrow> store_keeps h h'"
proof (induction k m t a h and k m t a i h arbitrary: b h' and h' rule: trace_value_trace_params.induct)
  case (2 k m t a h)
  show ?case
  proof (cases "cell_at h a")
    case (CastCell v ty)
    with "2.prems" obtain v' h1 where "trace_value k m t v h = Some (v', h1)" "h' = set_cast a v' h1" by auto
    with "2.IH"(3) [OF CastCell] have "store_keeps h h1" by blast
    from store_keeps_trans [OF this updates_keep(4)] \<open>h' = set_cast a v' h1\<close> show ?thesis by simp
  next
    case (MathCell l op r)
    with "2.prems" obtain l' h1 r' h3 where x: "trace_value k m t l h = Some (l', h1)"
      "trace_value k m t (right_of (set_left a l' h1) a) (set_left a l' h1) = Some (r', h3)" "h' = set_right a r' h3"
      by (auto simp: Let_def split: option.splits)
    note keeps = "2.IH"(4) [OF MathCell x(1)] "2.IH"(5) [OF MathCell x(1) refl refl x(2)]
    from store_keeps_trans [OF store_keeps_trans [OF keeps(1) updates_keep(2)] store_keeps_trans [OF keeps(2) updates_keep(3)]]
    show ?thesis by (simp add: x(3))
  next
    case (ColumnCell c)
    with "2.prems" updates_keep(5) [OF ColumnCell] show ?thesis by auto
  next
    case (CallCell f ps opts)
    with "2.prems" have "trace_params k m t a 0 h = Some h'" by auto
    from "2.IH"(1) [OF CallCell this] show ?thesis .
  next
    case (IdentCell x)
    with "2.prems" "2.IH" show ?thesis by (cases "m x") (auto simp: store_keeps_refl)
  next
    case (OtherCell v)
    with "2.prems" show ?thesis by (simp add: store_keeps_refl)
  qed
next
  case (4 k m t a i h)
  show ?case
  proof (cases "\<exists>f ps opts. cell_at h a = CallCell f ps opts \<and> i < length ps")
    case True
    then obtain f ps opts where c: "cell_at h a = CallCell f ps opts" "i < length ps" by blast
    with "4.prems" obtain p h1 where x: "trace_value k m t (ps ! i) h = Some (p, h1)"
      "trace_params k m t a (i + 1) (set_param a i p h1) = Some h'"
      by (auto split: option.splits)
    with "4.IH" c have "store_keeps h h1" "store_keeps (set_param a i p h1) h'" by blast+
    from store_keeps_trans [OF store_keeps_trans [OF this(1) updates_keep(1)] this(2)] show ?thesis .
  next
    case False
    with "4.prems" show ?thesis by (auto split: cell.splits intro: store_keeps_refl)
  qed
qed simp_all

text \<open>Tracing a value never changes what the values are: a column keeps everything but its table, and
  that too once it is known; functions, casts and expressions keep their names, types and operators
  and the number of their operands.\<close>

theorem trace_value_keeps:
  assumes "trace_value k m t a h = Some (b, h')"
  shows "length h' = length h \<and> (\<forall>x < length h. cell_keeps (h ! x) (h' ! x))"
  using trace_keeps(1) [OF assms] by (simp add: store_keeps_def)

section \<open>When tracing returns\<close>

text \<open>The references between the cells, through the map for identifiers, are ranked.\<close>

fun cell_ranked :: "(nat \<Rightarrow> nat) \<Rightarrow> (string \<rightharpoonup> nat) \<Rightarrow> nat \<Rightarrow> cell \<Rightarrow> bool" where
  "cell_ranked \<rho> m a (CallCell f ps opts) \<longleftrightarrow> (\<forall>p \<in> set ps. \<rho> p < \<rho> a)"
| "cell_ranked \<rho> m a (CastCell v ty) \<longleftrightarrow> \<rho> v < \<rho> a"
| "cell_ranked \<rho> m a (MathCell l op r) \<longleftrightarrow> \<rho> l < \<rho> a \<and> \<rho> r < \<rho> a"
| "cell_ranked \<rho> m a (IdentCell x) \<longleftrightarrow> (case m x of None \<Rightarrow> True | Some b \<Rightarrow> \<rho> b < \<rho> a)"
| "cell_ranked \<rho> m a (ColumnCell c) \<longleftrightarrow> True"
| "cell_ranked \<rho> m a (OtherCell v) \<longleftrightarrow> True"

fun few_params :: "nat \<Rightarrow> cell \<Rightarrow> bool" where
  "few_params N (CallCell f ps opts) \<longleftrightarrow> length ps \<le> N"
| "few_params N _ \<longleftrightarrow> True"

definition well_ranked :: "(nat \<Rightarrow> nat) \<Rightarrow> nat \<Rightarrow> (string \<rightharpoonup> nat) \<Rightarrow> store \<Rightarrow> bool" where
  "well_ranked \<rho> N m h \<longleftrightarrow> (\<forall>a < length h. cell_ranked \<rho> m a (h ! a) \<and> few_params N (h ! a))"

lemma well_ranked_cell: "well_ranked \<rho> N m h \<Longrightarrow> cell_ranked \<rho> m a (cell_at h a) \<and> few_params N (cell_at h a)"
  by (simp add: well_ranked_def cell_at_def)

lemma well_ranked_update:
  "well_ranked \<rho> N m h \<Longrightarrow> (a < length h \<Longrightarrow> cell_ranked \<rho> m a c \<and> few_params N c) \<Longrightarrow> well_ranked \<rho> N m (h[a := c])"
  by (cases "a < length h") (auto simp: well_ranked_def nth_list_update)

lemma updates_ranked:
  assumes "well_ranked \<rho> N m h"
  shows "\<rho> p < \<rho> a \<Longrightarrow> well_ranked \<rho> N m (set_param a i p h)"
    and "\<rho> p < \<rho> a \<Longrightarrow> well_ranked \<rho> N m (set_left a p h)"
    and "\<rho> p < \<rho> a \<Longrightarrow> well_ranked \<rho> N m (set_right a p h)"
    and "\<rho> p < \<rho> a \<Longrightarrow> well_ranked \<rho> N m (set_cast a p h)"
    and "well_ranked \<rho> N m (set_table a c t h)"
  using assms well_ranked_cell [OF assms, of a]
  unfolding set_param_def set_left_def set_right_def set_cast_def set_table_def
  by (auto split: cell.split intro!: well_ranked_update dest!: set_update_subset_insert [THEN subsetD])

lemma trace_ranked:
  "well_ranked \<rho> N m h \<Longrightarrow> (\<rho> a + 1) * (N + 2) \<le> k \<Longrightarrow>
     \<exists>b h'. trace_value k m t a h = Some (b, h') \<and> well_ranked \<rho> N m h' \<and> \<rho> b \<le> \<rho> a"
  "well_ranked \<rho> N m h \<Longrightarrow> cell_at h a = CallCell f ps opts \<Longrightarrow> \<rho> a * (N + 2) + (length ps - i) + 1 \<le> k \<Longrightarrow>
     \<exists>h'. trace_params k m t a i h = Some h' \<and> well_ranked \<rho> N m h'"
proof (induction k m t a h and k m t a i h arbitrary: and f ps opts rule: trace_value_trace_params.induct)
  case (1 m t a h)
  then show ?case by simp
next
  case (2 k m t a h)
  note c = well_ranked_cell [OF "2.prems"(1), of a]
  have below: "(\<rho> b + 1) * (N + 2) \<le> k" if "\<rho> b < \<rho> a" for b
  proof -
    have "(\<rho> b + 1) * (N + 2) \<le> \<rho> a * (N + 2)" using that by (intro mult_right_mono) simp_all
    with "2.prems"(2) show ?thesis by simp
  qed
  show ?case
  proof (cases "cell_at h a")
    case (ColumnCell x)
    with "2.prems"(1) updates_ranked(5) show ?thesis by auto
  next
    case (CallCell f ps opts)
    with c have "length ps \<le> N" by simp
    with "2.prems" have "\<rho> a * (N + 2) + (length ps - 0) + 1 \<le> k" by simp
    from "2.IH"(1) [OF CallCell "2.prems"(1) CallCell this]
    obtain h' where "trace_params k m t a 0 h = Some h'" "well_ranked \<rho> N m h'" by blast
    with CallCell show ?thesis by auto
  next
    case (IdentCell x)
    show ?thesis
    proof (cases "m x")
      case (Some b)
      with IdentCell c have "\<rho> b < \<rho> a" by simp
      from "2.IH"(2) [OF IdentCell Some "2.prems"(1) below [OF this]] obtain b' h' where
        "trace_value k m t b h = Some (b', h')" "well_ranked \<rho> N m h'" "\<rho> b' \<le> \<rho> b" by blast
      with IdentCell Some \<open>\<rho> b < \<rho> a\<close> show ?thesis by auto
    qed (use IdentCell "2.prems"(1) in auto)
  next
    case (CastCell v ty)
    with c have "\<rho> v < \<rho> a" by simp
    from "2.IH"(3) [OF CastCell "2.prems"(1) below [OF this]] obtain v' h' where
      x: "trace_value k m t v h = Some (v', h')" "well_ranked \<rho> N m h'" "\<rho> v' \<le> \<rho> v" by blast
    with \<open>\<rho> v < \<rho> a\<close> have "well_ranked \<rho> N m (set_cast a v' h')" by (intro updates_ranked(4)) auto
    with CastCell x show ?thesis by auto
  next
    case (MathCell l op r)
    with c have l: "\<rho> l < \<rho> a" "\<rho> r < \<rho> a" by simp_all
    from "2.IH"(4) [OF MathCell "2.prems"(1) below [OF l(1)]] obtain l' h1 where
      x: "trace_value k m t l h = Some (l', h1)" "well_ranked \<rho> N m h1" "\<rho> l' \<le> \<rho> l" by blast
    let ?h2 = "set_left a l' h1" and ?r = "right_of (set_left a l' h1) a"
    have w: "well_ranked \<rho> N m ?h2" using x l by (intro updates_ranked(2)) auto
    have "store_keeps h ?h2" using store_keeps_trans [OF trace_keeps(1) [OF x(1)] updates_keep(2)] .
    moreover have "a < length h" using MathCell by (auto simp: cell_at_def split: if_splits)
    ultimately have "\<exists>l2 r2. cell_at ?h2 a = MathCell l2 op r2"
      using MathCell by (auto simp: store_keeps_def cell_at_def cell_keeps_def)
    then have "\<rho> ?r < \<rho> a" using well_ranked_cell [OF w, of a] by (auto simp: right_of_def)
    from "2.IH"(5) [OF MathCell x(1) refl refl w below [OF this]] obtain r' h3 where
      y: "trace_value k m t ?r ?h2 = Some (r', h3)" "well_ranked \<rho> N m h3" "\<rho> r' \<le> \<rho> ?r" by blast
    then have "well_ranked \<rho> N m (set_right a r' h3)" using \<open>\<rho> ?r < \<rho> a\<close> by (intro updates_ranked(3)) auto
    with MathCell x y show ?thesis by (auto simp: Let_def)
  qed (use "2.prems"(1) in auto)
next
  case (3 m t a i h)
  then show ?case by simp
next
  case (4 k m t a i h)
  note c = well_ranked_cell [OF "4.prems"(1), of a]
  show ?case
  proof (cases "i < length ps")
    case True
    with c "4.prems"(2) have p: "\<rho> (ps ! i) < \<rho> a" by simp
    then have "(\<rho> (ps ! i) + 1) * (N + 2) \<le> \<rho> a * (N + 2)" by (intro mult_right_mono) simp_all
    with "4.prems"(3) have "(\<rho> (ps ! i) + 1) * (N + 2) \<le> k" by linarith
    from "4.IH"(1) [OF "4.prems"(2) True "4.prems"(1) this] obtain q h1 where
      x: "trace_value k m t (ps ! i) h = Some (q, h1)" "well_ranked \<rho> N m h1" "\<rho> q \<le> \<rho> (ps ! i)" by blast
    let ?h2 = "set_param a i q h1"
    have w: "well_ranked \<rho> N m ?h2" using x p by (intro updates_ranked(1)) auto
    have "store_keeps h ?h2" using store_keeps_trans [OF trace_keeps(1) [OF x(1)] updates_keep(1)] .
    moreover have "a < length h" using "4.prems"(2) by (auto simp: cell_at_def split: if_splits)
    ultimately have "cell_keeps (cell_at h a) (cell_at ?h2 a)" by (simp add: store_keeps_def cell_at_def)
    then obtain ps' where ps': "cell_at ?h2 a = CallCell f ps' opts" "length ps' = length ps"
      unfolding "4.prems"(2) by (auto simp: cell_keeps_def)
    have "\<rho> a * (N + 2) + (length ps' - (i + 1)) + 1 \<le> k" using "4.prems"(3) True ps'(2) by linarith
    from "4.IH"(2) [OF "4.prems"(2) True x(1) _ w ps'(1) this] obtain h' where
      "trace_params k m t a (i + 1) ?h2 = Some h'" "well_ranked \<rho> N m h'" by auto
    with "4.prems"(2) True x(1) show ?thesis by simp
  qed (use "4.prems" in simp)
qed

text \<open>C35: If no identifier is defined in terms of itself, that is if the references between values can be
  ranked, tracing returns, and with fuel in proportion to the rank and the number of parameters.\<close>

theorem trace_value_terminates:
  assumes "well_ranked \<rho> N m h" and "(\<rho> a + 1) * (N + 2) \<le> k"
  shows "\<exists>b h'. trace_value k m t a h = Some (b, h') \<and> \<rho> b \<le> \<rho> a"
  using trace_ranked(1) [OF assms, of t] by blast

lemma trace_loop: "m x = Some b \<Longrightarrow> cell_at h b = IdentCell x \<Longrightarrow> trace_value k m t b h = None"
  by (induction k) simp_all

text \<open>An identifier that is renamed and renamed back makes \<open>ParseJoins\<close> recurse without end: after
  \<open>x := y\<close> and then \<open>y := x\<close>, for a \<open>y\<close> that nothing else defines, the next value that refers to \<open>y\<close>
  is never traced, with any fuel.\<close>

theorem rename_back_loops:
  assumes "cell_at (cells s) a = IdentCell y" and "cell_at (cells s) b = IdentCell x" and "cell_at (cells s) c = IdentCell y"
    and "assignment_map s y = None" and "x \<noteq> y"
  shows "assign_all k t [(x, a), (y, b), (z, c)] s = None"
proof (cases k)
  case (Suc j)
  let ?m1 = "(assignment_map s)(x \<mapsto> a)" and ?m2 = "(assignment_map s)(x \<mapsto> a, y \<mapsto> a)"
  have 1: "trace_value k (assignment_map s) t a (cells s) = Some (a, cells s)"
    using assms(1,4) by (simp add: Suc)
  show ?thesis
  proof (cases j)
    case (Suc i)
    have 2: "trace_value k ?m1 t b (cells s) = Some (a, cells s)"
      using assms by (simp add: \<open>k = Suc j\<close> Suc)
    have 3: "trace_value k ?m2 t c (cells s) = None"
      using assms(3) trace_loop [of ?m2 y a "cells s" j t] assms(1) by (simp add: \<open>k = Suc j\<close>)
    show ?thesis by (simp add: 1 2 3)
  qed (use 1 assms(2) \<open>k = Suc j\<close> in simp)
qed simp

text \<open>Round trip: a number is read back from its JSON form, infinities and NaN included, given that the
  JSON library reads back the finite numbers and the three strings.\<close>

theorem json_float_roundtrip:
  assumes "\<And>n. decode (render n) = Some (AnyNumber (Finite n))"
    and "\<And>w. w \<in> {''NaN'', ''Infinity'', ''-Infinity''} \<Longrightarrow> decode ([CHR 0x22] @ w @ [CHR 0x22]) = Some (AnyString w)"
  shows "unmarshal_float decode (marshal_float render f) = Inr f"
proof (cases f)
  case (Finite n)
  then show ?thesis by (simp add: marshal_float_def unmarshal_float_def assms(1))
next
  case NaN
  then show ?thesis using assms(2) [of "''NaN''"] by (simp add: marshal_float_def unmarshal_float_def)
next
  case PosInf
  then show ?thesis using assms(2) [of "''Infinity''"] by (simp add: marshal_float_def unmarshal_float_def)
next
  case NegInf
  then show ?thesis using assms(2) [of "''-Infinity''"] by (simp add: marshal_float_def unmarshal_float_def)
qed

section \<open>Witnesses\<close>

definition leaf :: "string \<Rightarrow> plan_node" where
  "leaf i = PlanNode i ''TableScan'' [] [] [] []"

definition demo_plan :: plan_node where
  "demo_plan = PlanNode ''0'' ''InnerJoin'' [] [] [leaf ''1'', leaf ''2''] []"

definition log_ids :: "(string list, unit) visitor" where
  "log_ids depth n s = Some (None, s @ [node_id n])"

theorem traverse_order_witness:
  "traverse 2 (\<lambda>_. False) log_ids None DFS 0 demo_plan [] = Some (None, [''1'', ''2'', ''0''])
     \<and> traverse 2 (\<lambda>_. False) log_ids None BFS 0 demo_plan [] = Some (None, [''0'', ''1'', ''2''])"
proof -
  have "height demo_plan \<le> 2" "None = (None :: plan_tree option) \<or> no_remote demo_plan"
    by (simp_all add: demo_plan_def leaf_def)
  from traverse_order [OF this, of log_ids 0 "[]"] show ?thesis
    by (simp add: demo_plan_def leaf_def visit_one_def log_ids_def)
qed

definition demo_tree :: plan_tree where
  "demo_tree = [''0'' \<mapsto> Some (PlanNode ''0'' ''RemoteSource'' [] [] [] [''1'']), ''1'' \<mapsto> Some demo_plan]"

theorem traverse_terminates_witness:
  "\<exists>K. \<forall>k \<ge> K. traverse_tree k (\<lambda>_. False) log_ids demo_tree DFS (-1) [] \<noteq> None"
proof (rule traverse_terminates)
  show "log_ids d n s \<noteq> None" for d n s by (simp add: log_ids_def)
  show "ranked_fragments (\<lambda>f. if f = ''0'' then 1 else 0) demo_tree"
    by (auto simp: ranked_fragments_def demo_tree_def demo_plan_def leaf_def split: if_splits)
qed

definition demo_handle :: hive_column where
  "demo_handle = \<lparr>column_name = ''c'', column_data_type = ''bigint'', column_index = 0, column_type = ''REGULAR'',
     column_loc = None, column_ranges = [], column_table = None\<rparr>"

definition demo_store :: store where
  "demo_store = [ColumnCell demo_handle, IdentCell ''x'', CallCell ''f'' [1] []]"

theorem trace_value_keeps_witness:
  "\<exists>b h'. trace_value 9 [''x'' \<mapsto> 0] None 2 demo_store = Some (b, h') \<and> length h' = 3"
proof -
  have "case trace_value 9 [''x'' \<mapsto> 0] None 2 demo_store of None \<Rightarrow> False | Some r \<Rightarrow> True" by code_simp
  then obtain b h' where r: "trace_value 9 [''x'' \<mapsto> 0] None 2 demo_store = Some (b, h')" by (auto split: option.splits)
  from trace_value_keeps [OF r] r show ?thesis by (simp add: demo_store_def)
qed

theorem trace_value_terminates_witness: "\<exists>b h'. trace_value 9 [''x'' \<mapsto> 0] None 2 demo_store = Some (b, h') \<and> b \<le> 2"
  using trace_value_terminates [of "\<lambda>a. a" 1 "[''x'' \<mapsto> 0]" demo_store 2 9 None]
  by (auto simp: well_ranked_def demo_store_def less_Suc_eq numeral_3_eq_3)

theorem rename_back_loops_witness:
  "assign_all 100 None [(''x'', 0), (''y'', 1), (''z'', 2)]
     \<lparr>cells = [IdentCell ''y'', IdentCell ''x'', IdentCell ''y''], assignment_map = Map.empty, joins = []\<rparr> = None"
  by (rule rename_back_loops) (simp_all add: cell_at_def)


definition unit_decode :: "string \<Rightarrow> unit any_value option" where
  "unit_decode d = (if d = ''1'' then Some (AnyNumber (Finite ())) else Some (AnyString (butlast (tl d))))"

theorem json_float_roundtrip_witness:
  "unmarshal_float unit_decode (marshal_float (\<lambda>_. ''1'') (NegInf :: unit json_float)) = Inr NegInf"
proof (rule json_float_roundtrip [where render = "\<lambda>_. ''1''"])
  show "unit_decode ''1'' = Some (AnyNumber (Finite n))" for n by (simp add: unit_decode_def)
  show "unit_decode ([CHR 0x22] @ w @ [CHR 0x22]) = Some (AnyString w)"
    if "w \<in> {''NaN'', ''Infinity'', ''-Infinity''}" for w
    using that by (auto simp: unit_decode_def)
qed

end
