(* ===== verification/QueryPlanCmd.thy ===== *)
theory QueryPlanCmd
  imports PlanNode
begin

text \<open>
  \<open>cmd/queryplan/main.go\<close>: the query plans in a column of a CSV file are parsed, and the joins that are found
  are written to a file, a JSON object with the row numbers as its keys.
\<close>

section \<open>One plan\<close>

text \<open>\<open>parseQueryPlan\<close>: the JSON decoder is a parameter; \<open>k\<close> and \<open>j\<close> are the fuel of \<open>ParseJoins\<close>. The call of a
  method on a missing right side is a panic.\<close>

datatype 'a plan_run = Parsed 'a | Unparsed | PlanPanic | PlanLoops

definition parse_query_plan :: "plan_parsers \<Rightarrow> nat \<Rightarrow> nat \<Rightarrow> (string \<Rightarrow> plan_tree option) \<Rightarrow> string \<Rightarrow> (join list \<times> store) plan_run" where
  "parse_query_plan pp k j decode s =
     (case decode s of
        None \<Rightarrow> Unparsed
      | Some t \<Rightarrow>
          (case parse_joins pp k j t of
             None \<Rightarrow> PlanLoops
           | Some (Inl e) \<Rightarrow> if e = FromFunction NilRightSide then PlanPanic else Unparsed
           | Some (Inr r) \<Rightarrow> Parsed r))"

section \<open>The file\<close>

text \<open>\<open>csv_rows\<close> are the answers of the CSV reader up to the end of the file, \<open>None\<close> for an error, when the file
  can be opened. The \<open>n\<close>-th write fails after the bytes that \<open>write_fails n\<close> gives, if any. \<open>indent\<close> is
  \<open>json.MarshalIndent\<close> of the joins.\<close>

record qp_host =
  csv_rows :: "string list option list option"
  create_ok :: bool
  write_fails :: "nat \<Rightarrow> nat option"
  indent :: "join list \<times> store \<Rightarrow> string option"

record qp_state =
  qp_out :: string
  qp_writes :: nat
  valid_counter :: nat
  failure_counter :: nat

datatype qp_end = QpDone | OpenFailed | HeaderFailed | CreateFailed | WriteFailed | ReadFailed | QpPanic | QpLoops

definition qp_write :: "qp_host \<Rightarrow> string \<Rightarrow> qp_state \<Rightarrow> bool \<times> qp_state" where
  "qp_write h t s =
     (let s1 = s\<lparr>qp_writes := qp_writes s + 1\<rparr> in
      case write_fails h (qp_writes s) of
        None \<Rightarrow> (True, s1\<lparr>qp_out := qp_out s @ t\<rparr>)
      | Some i \<Rightarrow> (False, s1\<lparr>qp_out := qp_out s @ take i t\<rparr>))"

definition row_key :: "string \<Rightarrow> int \<Rightarrow> string" where
  "row_key newline n = newline @ ''  \"'' @ itoa n @ ''\":''"

text \<open>The writes for a row whose joins have been rendered.\<close>

definition write_row :: "qp_host \<Rightarrow> string \<Rightarrow> int \<Rightarrow> string \<Rightarrow> qp_state \<Rightarrow> bool \<times> qp_state" where
  "write_row h newline n t s =
     (case qp_write h (row_key newline n) s of
        (False, s1) \<Rightarrow> (False, s1)
      | (True, s1) \<Rightarrow> qp_write h t s1)"

text \<open>The loop over the rows, with the closing brace.\<close>

fun process_rows ::
  "qp_host \<Rightarrow> (string \<Rightarrow> (join list \<times> store) plan_run) \<Rightarrow> int \<Rightarrow> int \<Rightarrow> string \<Rightarrow> string list option list \<Rightarrow> qp_state \<Rightarrow> qp_end \<times> qp_state" where
  "process_rows h parse col n newline [] s =
     (case qp_write h ''\<newline>}'' s of (ok, s1) \<Rightarrow> (if ok then QpDone else WriteFailed, s1))"
| "process_rows h parse col n newline (None # rs) s = (ReadFailed, s)"
| "process_rows h parse col n newline (Some r # rs) s =
     (if int (length r) \<le> col then process_rows h parse col (n + 1) newline rs s
      else if col < 0 then (QpPanic, s)
      else if r ! nat col = [] then process_rows h parse col (n + 1) newline rs s
      else
        (let s1 = s\<lparr>valid_counter := valid_counter s + 1\<rparr> in
         case parse (r ! nat col) of
           Unparsed \<Rightarrow> process_rows h parse col (n + 1) newline rs (s1\<lparr>failure_counter := failure_counter s1 + 1\<rparr>)
         | PlanPanic \<Rightarrow> (QpPanic, s1)
         | PlanLoops \<Rightarrow> (QpLoops, s1)
         | Parsed x \<Rightarrow>
             if fst x = [] then process_rows h parse col (n + 1) newline rs s1
             else (case indent h x of
                     None \<Rightarrow> process_rows h parse col (n + 1) newline rs (s1\<lparr>failure_counter := failure_counter s1 + 1\<rparr>)
                   | Some t \<Rightarrow>
                       (case write_row h newline n t s1 of
                          (True, s2) \<Rightarrow> process_rows h parse col (n + 1) '',\<newline>'' rs s2
                        | (False, s2) \<Rightarrow> (WriteFailed, s2)))))"

definition qp_start :: qp_state where
  "qp_start = \<lparr>qp_out = [], qp_writes = 0, valid_counter = 0, failure_counter = 0\<rparr>"

text \<open>\<open>processFile\<close>; the header is read before the output is created.\<close>

definition write_joins ::
  "qp_host \<Rightarrow> (string \<Rightarrow> (join list \<times> store) plan_run) \<Rightarrow> int \<Rightarrow> int \<Rightarrow> string list option list \<Rightarrow> qp_end \<times> qp_state" where
  "write_joins h parse col n rows =
     (if \<not> create_ok h then (CreateFailed, qp_start)
      else case qp_write h ''{\<newline>'' qp_start of
             (False, s) \<Rightarrow> (WriteFailed, s)
           | (True, s) \<Rightarrow> process_rows h parse col n [] rows s)"

definition process_plans :: "qp_host \<Rightarrow> (string \<Rightarrow> (join list \<times> store) plan_run) \<Rightarrow> bool \<Rightarrow> int \<Rightarrow> qp_end \<times> qp_state" where
  "process_plans h parse has_header col =
     (case csv_rows h of
        None \<Rightarrow> (OpenFailed, qp_start)
      | Some rows \<Rightarrow>
          if has_header then
            (case rows of Some r # rs \<Rightarrow> write_joins h parse col 2 rs | _ \<Rightarrow> (HeaderFailed, qp_start))
          else write_joins h parse col 1 rows)"

text \<open>\<open>run\<close>: the exit code, and the numbers in the final message about failures. No code stands for a command
  that does not end.\<close>

definition query_plan_run :: "qp_host \<Rightarrow> (string \<Rightarrow> (join list \<times> store) plan_run) \<Rightarrow> bool \<Rightarrow> int \<Rightarrow> nat option \<times> (nat \<times> nat) option" where
  "query_plan_run h parse has_header col =
     (case process_plans h parse has_header col of
        (QpDone, s) \<Rightarrow> (Some 0, if 0 < failure_counter s then Some (failure_counter s, valid_counter s) else None)
      | (QpPanic, s) \<Rightarrow> (Some 2, None)
      | (QpLoops, s) \<Rightarrow> (None, None)
      | (e, s) \<Rightarrow> (Some 1, None))"

section \<open>What is written\<close>

text \<open>The plans of rows that have one, and the text that is made of a plan.\<close>

definition plan_of :: "nat \<Rightarrow> string list \<Rightarrow> string list" where
  "plan_of c r = (if c < length r \<and> r ! c \<noteq> [] then [r ! c] else [])"

definition joins_text :: "qp_host \<Rightarrow> (string \<Rightarrow> (join list \<times> store) plan_run) \<Rightarrow> string \<Rightarrow> string option" where
  "joins_text h parse p = (case parse p of Parsed x \<Rightarrow> if fst x = [] then None else indent h x | _ \<Rightarrow> None)"

definition fails :: "qp_host \<Rightarrow> (string \<Rightarrow> (join list \<times> store) plan_run) \<Rightarrow> string \<Rightarrow> bool" where
  "fails h parse p \<longleftrightarrow> (case parse p of Parsed x \<Rightarrow> fst x \<noteq> [] \<and> indent h x = None | _ \<Rightarrow> True)"

definition row_texts :: "qp_host \<Rightarrow> (string \<Rightarrow> (join list \<times> store) plan_run) \<Rightarrow> nat \<Rightarrow> string list \<Rightarrow> string list" where
  "row_texts h parse c r = (case plan_of c r of [] \<Rightarrow> [] | p # ps \<Rightarrow> (case joins_text h parse p of None \<Rightarrow> [] | Some t \<Rightarrow> [t]))"

fun entries :: "qp_host \<Rightarrow> (string \<Rightarrow> (join list \<times> store) plan_run) \<Rightarrow> nat \<Rightarrow> int \<Rightarrow> string list list \<Rightarrow> (int \<times> string) list" where
  "entries h parse c n [] = []"
| "entries h parse c n (r # rs) = map (Pair n) (row_texts h parse c r) @ entries h parse c (n + 1) rs"

definition plans_return :: "(string \<Rightarrow> (join list \<times> store) plan_run) \<Rightarrow> bool" where
  "plans_return parse \<longleftrightarrow> (\<forall>p. parse p \<noteq> PlanPanic \<and> parse p \<noteq> PlanLoops)"

definition member :: "int \<times> string \<Rightarrow> string" where
  "member e = row_key [] (fst e) @ snd e"

definition members :: "string \<Rightarrow> (int \<times> string) list \<Rightarrow> string" where
  "members newline es = (if es = [] then [] else newline @ join_str '',\<newline>'' (map member es))"

lemma join_str_Cons: "join_str sep (x # xs) = x @ (if xs = [] then [] else sep @ join_str sep xs)"
  by (cases xs) simp_all

lemma members_Cons: "members newline (e # es) = newline @ member e @ members '',\<newline>'' es"
  by (simp add: members_def join_str_Cons)

lemma qp_write_ok: "\<forall>i. write_fails h i = None \<Longrightarrow> qp_write h t s = (True, s\<lparr>qp_writes := qp_writes s + 1, qp_out := qp_out s @ t\<rparr>)"
  by (simp add: qp_write_def Let_def)

lemma process_rows_spec:
  assumes "\<forall>i. write_fails h i = None" and "plans_return parse"
  shows "\<exists>s'. process_rows h parse (int c) n newline (map Some rs) s = (QpDone, s')
    \<and> qp_out s' = qp_out s @ members newline (entries h parse c n rs) @ ''\<newline>}''
    \<and> valid_counter s' = valid_counter s + length (concat (map (plan_of c) rs))
    \<and> failure_counter s' = failure_counter s + length (filter (fails h parse) (concat (map (plan_of c) rs)))"
proof (induction rs arbitrary: n newline s)
  case Nil
  then show ?case by (simp add: qp_write_ok [OF assms(1)] members_def)
next
  case (Cons r rs)
  show ?case
  proof (cases "c < length r \<and> r ! c \<noteq> []")
    case False
    then have "process_rows h parse (int c) n newline (map Some (r # rs)) s = process_rows h parse (int c) (n + 1) newline (map Some rs) s"
      by auto
    then show ?thesis
      using Cons.IH [of "n + 1" newline s] False by (auto simp: plan_of_def row_texts_def)
  next
    case True
    then have plan: "plan_of c r = [r ! c]" by (simp add: plan_of_def)
    let ?s1 = "s\<lparr>valid_counter := valid_counter s + 1\<rparr>"
    note [simp] = plan row_texts_def joins_text_def fails_def
    show ?thesis
    proof (cases "parse (r ! c)")
      case (Parsed x)
      consider "fst x = []" | "fst x \<noteq> []" "indent h x = None" | t where "fst x \<noteq> []" "indent h x = Some t" by blast
      then show ?thesis
      proof cases
        case 1
        then show ?thesis using Cons.IH [of "n + 1" newline ?s1] True Parsed by (auto simp: Let_def)
      next
        case 2
        then show ?thesis
          using Cons.IH [of "n + 1" newline "?s1\<lparr>failure_counter := failure_counter ?s1 + 1\<rparr>"] True Parsed by (auto simp: Let_def)
      next
        case 3
        let ?s2 = "?s1\<lparr>qp_writes := qp_writes s + 1 + 1, qp_out := (qp_out s @ row_key newline n) @ t\<rparr>"
        have "write_row h newline n t ?s1 = (True, ?s2)"
          by (simp add: write_row_def qp_write_ok [OF assms(1)])
        then show ?thesis
          using Cons.IH [of "n + 1" "'',\<newline>''" ?s2] True Parsed 3
          by (auto simp: Let_def members_Cons member_def row_key_def)
      qed
    next
      case Unparsed
      then show ?thesis
        using Cons.IH [of "n + 1" newline "?s1\<lparr>failure_counter := failure_counter ?s1 + 1\<rparr>"] True by (auto simp: Let_def)
    qed (use assms(2) in \<open>simp_all add: plans_return_def\<close>)
  qed
qed

lemma entries_from: "e \<in> set (entries h parse c n rs) \<Longrightarrow> n \<le> fst e"
  by (induction rs arbitrary: n) (auto, force)

lemma entries_distinct: "distinct (map fst (entries h parse c n rs))"
proof (induction rs arbitrary: n)
  case (Cons r rs)
  have "n \<notin> fst ` set (entries h parse c (n + 1) rs)" using entries_from [of _ h parse c "n + 1" rs] by force
  moreover have "length (row_texts h parse c r) \<le> 1" by (simp add: row_texts_def split: list.split option.split)
  then have "row_texts h parse c r = [] \<or> (\<exists>t. row_texts h parse c r = [t])" by (cases "row_texts h parse c r") auto
  ultimately show ?case using Cons [of "n + 1"] by auto
qed simp

text \<open>C26: When all rows can be read and all writes succeed, the output is one JSON object with a member for every
  row whose plan has joins, in the order of the file: its key is the number of the row, no key occurs twice,
  and its value is the rendering of the joins. The counters are the numbers of plans and of plans that could
  not be parsed or rendered.\<close>

theorem plans_written:
  assumes "csv_rows h = Some (Some header # map Some rs)" and "create_ok h" and "\<forall>i. write_fails h i = None"
    and "plans_return parse"
  shows "\<exists>s. process_plans h parse True (int c) = (QpDone, s)
    \<and> qp_out s = ''{\<newline>'' @ join_str '',\<newline>'' (map member (entries h parse c 2 rs)) @ ''\<newline>}''
    \<and> distinct (map (itoa \<circ> fst) (entries h parse c 2 rs))
    \<and> valid_counter s = length (concat (map (plan_of c) rs))
    \<and> failure_counter s = length (filter (fails h parse) (concat (map (plan_of c) rs)))"
proof -
  have "inj_on itoa (fst ` set (entries h parse c 2 rs))"
    by (rule inj_onI) (use entries_from [of _ h parse c 2 rs] in \<open>force intro: itoa_inj\<close>)
  then have keys: "distinct (map (itoa \<circ> fst) (entries h parse c 2 rs))"
    using entries_distinct [of h parse c 2 rs] by (simp add: distinct_map comp_inj_on_iff)
  have "members [] es = join_str '',\<newline>'' (map member es)" for es by (simp add: members_def)
  with keys process_rows_spec [OF assms(3,4), of c 2 "[]" rs "qp_start\<lparr>qp_writes := 1, qp_out := ''{\<newline>''\<rparr>"]
  show ?thesis
    by (auto simp: process_plans_def write_joins_def assms(1,2) qp_write_ok [OF assms(3)] qp_start_def)
qed

section \<open>What goes wrong\<close>

text \<open>The CSV reader demands as many fields of every record as the first one has, so a shorter row is an error
  there and never reaches the check of the column; the output then has no closing brace.\<close>

lemma ragged_row_unclosed:
  assumes "csv_rows h = Some [Some header, None]" and "create_ok h" and "\<forall>i. write_fails h i = None"
  shows "process_plans h parse True col = (ReadFailed, qp_start\<lparr>qp_writes := 1, qp_out := ''{\<newline>''\<rparr>)"
  using assms by (simp add: process_plans_def write_joins_def qp_write_ok qp_start_def)

text \<open>A negative column, which the flag accepts, panics at the first row.\<close>

lemma negative_column_panics:
  "col < 0 \<Longrightarrow> process_rows h parse col n newline (Some r # rs) s = (QpPanic, s)"
  by simp

section \<open>Example\<close>

definition demo_qp :: qp_host where
  "demo_qp = \<lparr>csv_rows = Some (Some [''id'', ''plan''] # map Some [[''1'', ''p''], [''2'', []], [''3'', ''bad''], [''4'', ''p'']]),
     create_ok = True, write_fails = (\<lambda>_. None), indent = (\<lambda>_. Some ''[]'')\<rparr>"

definition demo_parse :: "string \<Rightarrow> (join list \<times> store) plan_run" where
  "demo_parse p = (if p = ''p'' then Parsed ([\<lparr>join_type = ''InnerJoin'', left_value = None, right_value = None\<rparr>], []) else Unparsed)"

theorem plans_written_witness:
  "\<exists>s. process_plans demo_qp demo_parse True 1 = (QpDone, s)
    \<and> qp_out s = ''{\<newline>  \"2\":[],\<newline>  \"5\":[]\<newline>}'' \<and> valid_counter s = 3 \<and> failure_counter s = 1"
proof -
  let ?rs = "[[''1'', ''p''], [''2'', []], [''3'', ''bad''], [''4'', ''p'']]"
  have "plans_return demo_parse" by (simp add: plans_return_def demo_parse_def)
  then obtain s where s: "process_plans demo_qp demo_parse True (int 1) = (QpDone, s)"
    "qp_out s = ''{\<newline>'' @ join_str '',\<newline>'' (map member (entries demo_qp demo_parse 1 2 ?rs)) @ ''\<newline>}''"
    "valid_counter s = length (concat (map (plan_of 1) ?rs))"
    "failure_counter s = length (filter (fails demo_qp demo_parse) (concat (map (plan_of 1) ?rs)))"
    using plans_written [of demo_qp "[''id'', ''plan'']" ?rs demo_parse 1] by (auto simp: demo_qp_def)
  have "entries demo_qp demo_parse 1 2 ?rs = [(2, ''[]''), (5, ''[]'')]" by code_simp
  moreover have "map member [(2, ''[]''), (5, ''[]'')] = [''  \"2\":[]'', ''  \"5\":[]'']" by code_simp
  moreover have "length (concat (map (plan_of 1) ?rs)) = 3"
    "length (filter (fails demo_qp demo_parse) (concat (map (plan_of 1) ?rs))) = 1" by code_simp+
  ultimately show ?thesis using s by (intro exI [of _ s]) simp
qed

end
