(* ===== verification/LogValues.thy ===== *)
theory LogValues
  imports GoBase "HOL-Library.Char_ord" "HOL-Library.List_Lexorder"
begin

text \<open>
  \<open>log/marshallers.go\<close>: Go values are turned into the fields and arrays of a log record by reflection.
  Structures and maps are nested up to a limit, and only so many fields and elements are shown. Values are
  the nodes of a heap, as pointers, interfaces, slices and maps may be shared or cyclic.
\<close>

section \<open>Values\<close>

text \<open>What is written to the log, in the order in which zerolog gets it.\<close>

datatype 'f log_value =
    LogStr string | LogInt int | LogDur int | LogUint int | LogBool bool | LogFloat 'f | LogTime int | LogErr string
  | LogObj "(string \<times> 'f log_value) list" | LogArr "'f log_value list"

text \<open>The kinds that are logged as they are. A \<open>time.Duration\<close> is an \<open>int64\<close> of its own type.\<close>

datatype 'f scalar = StrVal string | IntVal int | DurVal int | UintVal int | UintptrVal int | BoolVal bool | FloatVal 'f

text \<open>A key of a map, given by what \<open>fmt.Sprint\<close> prints for it after its pointers have been followed. Looking
  up the key that remains works for a plain key; a pointer inside an interface is not found any more, while a
  pointer type does not fit the type of the map, nor does a nil interface.\<close>

datatype key_kind = PlainKey | BoxedPointer | PointerKey | NilKey

text \<open>A node by its kind. \<open>Invalid\<close> is what a nil pointer or a nil interface leads to, \<open>Pointer\<close> stands for
  non-nil pointers and interfaces, \<open>Elems\<close> for arrays and slices, \<open>OtherKind\<close> for channels, functions,
  complex numbers. Fields and entries are in the order of reflection.\<close>

datatype 'f shape =
    Invalid | Pointer nat | Scalar "'f scalar" | Struct "(string \<times> nat) list"
  | MapOf "(key_kind \<times> string \<times> nat) list" | Elems "nat list" | OtherKind string

text \<open>Besides, what the type gives: its name, what zerolog makes of an accessible value that is an error, the
  time of an accessible \<open>time.Time\<close>, the text of a \<open>Stringer\<close>, the text of \<open>%#v\<close>.\<close>

record 'f node =
  node_shape :: "'f shape"
  node_type :: string
  node_error :: "'f log_value option"
  node_time :: "int option"
  node_string :: "string option"
  node_repr :: string

type_synonym 'f heap = "nat \<Rightarrow> 'f node"

text \<open>The limits of a \<open>Marshaller\<close>, with the flag that masks addresses.\<close>

record limits =
  nested_limit :: int
  element_limit :: int
  mask_pointers :: bool

definition default_limits :: "bool \<Rightarrow> limits" where
  "default_limits m = \<lparr>nested_limit = 3, element_limit = 15, mask_pointers = m\<rparr>"

text \<open>What a call may come to: an end, a panic, or more calls than the fuel allows.\<close>

datatype 'a log_run = Done 'a | Panics | Endless

section \<open>Parts\<close>

text \<open>\<open>derefValue\<close>: the node at the end of a chain of pointers.\<close>

fun deref_value :: "nat \<Rightarrow> 'f heap \<Rightarrow> nat \<Rightarrow> nat option" where
  "deref_value 0 h a = None"
| "deref_value (Suc p) h a = (case node_shape (h a) of Pointer b \<Rightarrow> deref_value p h b | _ \<Rightarrow> Some a)"

definition is_upper :: "char \<Rightarrow> bool" where
  "is_upper c \<longleftrightarrow> CHR ''A'' \<le> c \<and> c \<le> CHR ''Z''"

definition to_lower :: "char \<Rightarrow> char" where
  "to_lower c = char_of (of_char c + (32 :: nat))"

text \<open>\<open>toSnakeCase\<close>, over the bytes with their indices.\<close>

fun snake_from :: "nat \<Rightarrow> string \<Rightarrow> string" where
  "snake_from i [] = []"
| "snake_from i (c # cs) =
     (if is_upper c then (if 0 < i then ''_'' else []) @ [to_lower c] else [c]) @ snake_from (Suc i) cs"

definition to_snake_case :: "string \<Rightarrow> string" where
  "to_snake_case s = snake_from 0 s"

fun log_scalar :: "bool \<Rightarrow> 'f scalar \<Rightarrow> 'f log_value" where
  "log_scalar m (StrVal s) = LogStr s"
| "log_scalar m (IntVal n) = LogInt n"
| "log_scalar m (DurVal n) = LogDur n"
| "log_scalar m (UintVal n) = LogUint n"
| "log_scalar m (UintptrVal n) = LogUint (if m then 0 else n)"
| "log_scalar m (BoolVal b) = LogBool b"
| "log_scalar m (FloatVal f) = LogFloat f"

text \<open>\<open>String\<close> of a reflected value that is not a string.\<close>

definition value_text :: "'f node \<Rightarrow> string" where
  "value_text n = ''<'' @ node_type n @ '' Value>''"

text \<open>The \<open>default\<close> case of \<open>MarshalZerologObject\<close>.\<close>

definition log_default :: "'f node \<Rightarrow> (string \<times> 'f log_value) list" where
  "log_default n =
     [(''kind'', LogStr (case node_shape n of OtherKind k \<Rightarrow> k | _ \<Rightarrow> [])), (''type'', LogStr (node_type n)),
      (''value'', LogStr (case node_string n of Some t \<Rightarrow> t | None \<Rightarrow> node_repr n))]"

text \<open>The loops: the first \<open>n\<close> items one after another, then a mark when there are more.\<close>

fun gather :: "'a list log_run list \<Rightarrow> 'a list log_run" where
  "gather [] = Done []"
| "gather (r # rs) = (case r of Done xs \<Rightarrow> map_log_run ((@) xs) (gather rs) | Panics \<Rightarrow> Panics | Endless \<Rightarrow> Endless)"

definition up_to :: "int \<Rightarrow> 'b \<Rightarrow> ('a \<Rightarrow> 'b list log_run) \<Rightarrow> 'a list \<Rightarrow> 'b list log_run" where
  "up_to n mark f xs = gather (map f (take (nat n) xs) @ (if nat n < length xs then [Done [mark]] else []))"

text \<open>The map from printed keys to keys, the last one where two are printed alike, and its sorted domain.\<close>

definition key_names :: "(key_kind \<times> string \<times> nat) list \<Rightarrow> string list" where
  "key_names es = sort (remdups (map (fst \<circ> snd) es))"

definition key_entry :: "(key_kind \<times> string \<times> nat) list \<Rightarrow> string \<Rightarrow> key_kind \<times> nat" where
  "key_entry es name = the (map_of (rev (map (\<lambda>(k, t, a). (t, (k, a))) es)) name)"

section \<open>The marshaller\<close>

text \<open>\<open>MarshalZerologObject\<close> with \<open>marshalZerologMap\<close>, given how elements and fields are logged.\<close>

definition object_with ::
  "(nat \<Rightarrow> 'f log_value list log_run) \<Rightarrow> (string \<Rightarrow> nat \<Rightarrow> (string \<times> 'f log_value) list log_run) \<Rightarrow> 'f heap \<Rightarrow> limits \<Rightarrow> nat
    \<Rightarrow> (string \<times> 'f log_value) list log_run" where
  "object_with elems field h L a =
     (case node_shape (h a) of
        Invalid \<Rightarrow> Panics
      | MapOf es \<Rightarrow>
          up_to (element_limit L) (''...'', LogStr ''<map truncated>'')
            (\<lambda>name. case key_entry es name of
                      (PlainKey, b) \<Rightarrow> field (to_snake_case name) b
                    | (BoxedPointer, b) \<Rightarrow> Done []
                    | _ \<Rightarrow> Panics)
            (key_names es)
      | Struct fs \<Rightarrow>
          up_to (element_limit L) (''...'', LogStr ''<field truncated>'') (\<lambda>f. field (to_snake_case (fst f)) (snd f)) fs
      | Elems bs \<Rightarrow> map_log_run (\<lambda>vs. [(''array'', LogArr vs)]) (elems a)
      | _ \<Rightarrow> Done (log_default (h a)))"

text \<open>What \<open>logField\<close> and the loop of \<open>MarshalZerologArray\<close> do alike, for a structure or a map.\<close>

definition composite :: "(nat \<Rightarrow> (string \<times> 'f log_value) list log_run) \<Rightarrow> 'f heap \<Rightarrow> limits \<Rightarrow> int \<Rightarrow> nat \<Rightarrow> 'f log_value log_run" where
  "composite object h L lvl b =
     (case node_time (h b) of
        Some t \<Rightarrow> Done (LogTime t)
      | None \<Rightarrow> if nested_limit L < lvl + 1 then Done (LogStr (value_text (h b))) else map_log_run LogObj (object b))"

text \<open>\<open>logField\<close> after the pointers have been followed. \<open>object\<close> and \<open>elems\<close> are the marshallers at the next
  level, \<open>fresh\<close> is one that starts anew.\<close>

definition field_with ::
  "(nat \<Rightarrow> (string \<times> 'f log_value) list log_run) \<Rightarrow> (nat \<Rightarrow> 'f log_value list log_run) \<Rightarrow> (nat \<Rightarrow> (string \<times> 'f log_value) list log_run)
    \<Rightarrow> 'f heap \<Rightarrow> limits \<Rightarrow> int \<Rightarrow> nat \<Rightarrow> 'f log_value log_run" where
  "field_with object elems fresh h L lvl b =
     (case node_error (h b) of
        Some e \<Rightarrow> Done e
      | None \<Rightarrow>
          (case node_shape (h b) of
             Scalar x \<Rightarrow> Done (log_scalar (mask_pointers L) x)
           | Elems bs \<Rightarrow> if nested_limit L < lvl + 1 then Done (LogStr (value_text (h b))) else map_log_run LogArr (elems b)
           | OtherKind kind \<Rightarrow> (case node_string (h b) of Some t \<Rightarrow> Done (LogStr t) | None \<Rightarrow> map_log_run LogObj (fresh b))
           | _ \<Rightarrow> composite object h L lvl b))"

text \<open>The body of the loop of \<open>MarshalZerologArray\<close>. \<open>same\<close> is a marshaller at the level of the array, which
  also serves an array inside the array.\<close>

definition elem_with ::
  "(nat \<Rightarrow> (string \<times> 'f log_value) list log_run) \<Rightarrow> (nat \<Rightarrow> (string \<times> 'f log_value) list log_run)
    \<Rightarrow> 'f heap \<Rightarrow> limits \<Rightarrow> int \<Rightarrow> nat \<Rightarrow> 'f log_value log_run" where
  "elem_with object same h L lvl b =
     (case node_error (h b) of
        Some e \<Rightarrow> Done e
      | None \<Rightarrow>
          (case node_shape (h b) of
             Scalar x \<Rightarrow> Done (log_scalar (mask_pointers L) x)
           | Struct fs \<Rightarrow> composite object h L lvl b
           | MapOf es \<Rightarrow> composite object h L lvl b
           | _ \<Rightarrow> (case node_string (h b) of Some t \<Rightarrow> Done (LogStr t) | None \<Rightarrow> map_log_run LogObj (same b))))"

text \<open>A value is left out where the pointers lead to nothing; \<open>p\<close> bounds their chains.\<close>

definition via_pointers :: "nat \<Rightarrow> 'f heap \<Rightarrow> (nat \<Rightarrow> 'f log_value log_run) \<Rightarrow> ('f log_value \<Rightarrow> 'b) \<Rightarrow> nat \<Rightarrow> 'b list log_run" where
  "via_pointers p h log entry a =
     (case deref_value p h a of
        None \<Rightarrow> Endless
      | Some b \<Rightarrow> if node_shape (h b) = Invalid then Done [] else map_log_run (\<lambda>v. [entry v]) (log b))"

text \<open>\<open>MarshalZerologArray\<close> and \<open>logField\<close> of a marshaller at nesting level \<open>lvl\<close>, given \<open>MarshalZerologObject\<close>.\<close>

type_synonym 'f object_logger = "limits \<Rightarrow> int \<Rightarrow> nat \<Rightarrow> (string \<times> 'f log_value) list log_run"

definition log_elems :: "'f object_logger \<Rightarrow> nat \<Rightarrow> 'f heap \<Rightarrow> limits \<Rightarrow> int \<Rightarrow> nat \<Rightarrow> 'f log_value list log_run" where
  "log_elems obj p h L lvl a =
     (case node_shape (h a) of
        Elems bs \<Rightarrow>
          up_to (element_limit L) (LogStr ''...'') (via_pointers p h (elem_with (obj L (lvl + 1)) (obj L lvl) h L lvl) id) bs
      | _ \<Rightarrow> Done [])"

definition log_field ::
  "'f object_logger \<Rightarrow> nat \<Rightarrow> 'f heap \<Rightarrow> limits \<Rightarrow> int \<Rightarrow> string \<Rightarrow> nat \<Rightarrow> (string \<times> 'f log_value) list log_run" where
  "log_field obj p h L lvl name a =
     via_pointers p h
       (field_with (obj L (lvl + 1)) (log_elems obj p h L (lvl + 1)) (obj (default_limits (mask_pointers L)) 1) h L lvl)
       (Pair name) a"

text \<open>\<open>MarshalZerologObject\<close>; the fuel bounds the depth of its calls of itself.\<close>

primrec log_object :: "nat \<Rightarrow> nat \<Rightarrow> 'f heap \<Rightarrow> 'f object_logger" where
  "log_object 0 p h = (\<lambda>L lvl a. Endless)"
| "log_object (Suc k) p h =
     (\<lambda>L lvl a. object_with (log_elems (log_object k p h) p h L lvl) (log_field (log_object k p h) p h L lvl) h L a)"

text \<open>\<open>NewMarshaller\<close> for a value, at level 1 and with the default limits, where it is logged as an object.\<close>

definition log_any :: "nat \<Rightarrow> nat \<Rightarrow> 'f heap \<Rightarrow> bool \<Rightarrow> nat \<Rightarrow> (string \<times> 'f log_value) list log_run" where
  "log_any k p h m a = (case deref_value p h a of None \<Rightarrow> Endless | Some b \<Rightarrow> log_object k p h (default_limits m) 1 b)"

section \<open>Loops\<close>

lemma map_log_run_Endless [simp]: "map_log_run f r = Endless \<longleftrightarrow> r = Endless"
  by (cases r) simp_all

lemma map_log_run_Done: "map_log_run f r = Done ys \<longleftrightarrow> (\<exists>x. r = Done x \<and> ys = f x)"
  by (cases r) auto

lemma gather_ends: "\<forall>r \<in> set rs. r \<noteq> Endless \<Longrightarrow> gather rs \<noteq> Endless"
  by (induction rs) (auto split: log_run.split)

lemma up_to_ends: "(\<And>x. x \<in> set xs \<Longrightarrow> f x \<noteq> Endless) \<Longrightarrow> up_to n m f xs \<noteq> Endless"
  unfolding up_to_def by (intro gather_ends) (auto dest: in_set_takeD simp: eq_commute [of Endless])

lemma gather_Done:
  "gather rs = Done ys \<Longrightarrow> \<exists>xss. rs = map Done xss \<and> ys = concat xss"
proof (induction rs arbitrary: ys)
  case (Cons r rs)
  then obtain xs zs where "r = Done xs" "gather rs = Done zs" "ys = xs @ zs"
    by (auto simp: map_log_run_Done split: log_run.splits)
  with Cons.IH [of zs] show ?case by (metis concat.simps(2) list.simps(9))
qed simp

lemma length_concat_le: "\<forall>xs \<in> set xss. length xs \<le> 1 \<Longrightarrow> length (concat xss) \<le> length xss"
  by (induction xss) auto

lemma up_to_Done:
  assumes "up_to n m f xs = Done ys" and "\<And>x zs. x \<in> set xs \<Longrightarrow> f x = Done zs \<Longrightarrow> length zs \<le> 1 \<and> (\<forall>z \<in> set zs. Q z)"
    and "Q m"
  shows "length ys \<le> nat n + 1 \<and> (\<forall>y \<in> set ys. Q y)"
proof -
  obtain xss where eq: "map f (take (nat n) xs) @ (if nat n < length xs then [Done [m]] else []) = map Done xss"
    and ys: "ys = concat xss"
    using gather_Done [OF assms(1) [unfolded up_to_def]] by blast
  have each: "length zs \<le> 1 \<and> (\<forall>z \<in> set zs. Q z)" if "zs \<in> set xss" for zs
  proof -
    have "Done zs \<in> set (map f (take (nat n) xs) @ (if nat n < length xs then [Done [m]] else []))"
      unfolding eq using that by simp
    then have "(\<exists>x \<in> set xs. f x = Done zs) \<or> zs = [m]"
      by (fastforce dest: in_set_takeD split: if_splits)
    then show ?thesis using assms(2,3) by auto
  qed
  have "length xss = length (map f (take (nat n) xs) @ (if nat n < length xs then [Done [m]] else []))"
    unfolding eq by simp
  then have "length xss \<le> nat n + 1" by (simp split: if_splits)
  with length_concat_le [of xss] each show ?thesis unfolding ys by fastforce
qed

section \<open>It ends\<close>

text \<open>The bounds: no chain of pointers is longer than \<open>p\<close>, and lists are nested directly in lists at most
  \<open>d\<close> deep. Everything else is cut off by the level.\<close>

definition chains_end :: "nat \<Rightarrow> 'f heap \<Rightarrow> bool" where
  "chains_end p h \<longleftrightarrow> (\<forall>a. deref_value p h a \<noteq> None)"

definition lists_nest :: "nat \<Rightarrow> 'f heap \<Rightarrow> (nat \<Rightarrow> nat) \<Rightarrow> nat \<Rightarrow> bool" where
  "lists_nest p h rk d \<longleftrightarrow>
     (\<forall>a. rk a \<le> d) \<and>
     (\<forall>a bs b c cs. node_shape (h a) = Elems bs \<and> b \<in> set bs \<and> deref_value p h b = Some c \<and> node_shape (h c) = Elems cs \<longrightarrow> rk c < rk a)"

lemma deref_value_not_pointer: "deref_value p h a = Some b \<Longrightarrow> node_shape (h b) \<noteq> Pointer c"
  by (induction p arbitrary: a) (auto split: shape.splits)

text \<open>The fuel for the levels that are left, and for an object.\<close>

definition level_fuel :: "int \<Rightarrow> int \<Rightarrow> nat \<Rightarrow> nat" where
  "level_fuel n lvl d = nat (n - lvl) * (d + 2)"

lemma level_fuel_next: "lvl + 1 \<le> n \<Longrightarrow> level_fuel n lvl d = level_fuel n (lvl + 1) d + d + 2"
proof -
  assume "lvl + 1 \<le> n"
  then have "nat (n - lvl) = Suc (nat (n - (lvl + 1)))" by simp
  then show ?thesis by (simp add: level_fuel_def)
qed

lemma via_pointers_ends:
  assumes "chains_end p h"
    and "\<And>b. deref_value p h a = Some b \<Longrightarrow> node_shape (h b) \<noteq> Invalid \<Longrightarrow> (\<And>c. node_shape (h b) \<noteq> Pointer c) \<Longrightarrow> log b \<noteq> Endless"
  shows "via_pointers p h log entry a \<noteq> Endless"
proof -
  obtain b where b: "deref_value p h a = Some b" using assms(1) by (auto simp: chains_end_def)
  have "log b \<noteq> Endless" if "node_shape (h b) \<noteq> Invalid"
    by (rule assms(2) [OF b that]) (rule deref_value_not_pointer [OF b])
  with b show ?thesis by (simp add: via_pointers_def)
qed

lemma composite_ends: "(lvl + 1 \<le> nested_limit L \<Longrightarrow> object b \<noteq> Endless) \<Longrightarrow> composite object h L lvl b \<noteq> Endless"
  by (auto simp: composite_def split: option.split)

lemma elem_with_ends:
  assumes "lvl + 1 \<le> nested_limit L \<Longrightarrow> object b \<noteq> Endless"
    and "\<And>cs. node_shape (h b) = Elems cs \<Longrightarrow> same b \<noteq> Endless"
    and "\<And>kind. node_shape (h b) = OtherKind kind \<Longrightarrow> same b \<noteq> Endless"
    and "node_shape (h b) \<noteq> Invalid" and "\<And>c. node_shape (h b) \<noteq> Pointer c"
  shows "elem_with object same h L lvl b \<noteq> Endless"
  using assms composite_ends [of lvl L object b h]
  by (cases "node_shape (h b)") (auto simp: elem_with_def split: option.split)

lemma field_with_ends:
  assumes "lvl + 1 \<le> nested_limit L \<Longrightarrow> object b \<noteq> Endless" and "lvl + 1 \<le> nested_limit L \<Longrightarrow> elems b \<noteq> Endless"
    and "\<And>kind. node_shape (h b) = OtherKind kind \<Longrightarrow> fresh b \<noteq> Endless"
    and "node_shape (h b) \<noteq> Invalid" and "\<And>c. node_shape (h b) \<noteq> Pointer c"
  shows "field_with object elems fresh h L lvl b \<noteq> Endless"
  using assms composite_ends [of lvl L object b h]
  by (cases "node_shape (h b)") (auto simp: field_with_def split: option.split)

lemma object_with_ends:
  assumes "elems a \<noteq> Endless" and "\<And>name b. field name b \<noteq> Endless"
  shows "object_with elems field h L a \<noteq> Endless"
proof (cases "node_shape (h a)")
  case (MapOf es)
  then show ?thesis
    using assms(2) by (auto simp: object_with_def intro!: up_to_ends split: prod.splits key_kind.splits)
qed (use assms in \<open>auto simp: object_with_def intro!: up_to_ends\<close>)

lemma log_object_other: "node_shape (h a) = OtherKind kind \<Longrightarrow> 0 < k \<Longrightarrow> log_object k p h L lvl a \<noteq> Endless"
  by (cases k) (simp_all add: object_with_def)

lemma log_elems_ends:
  assumes "chains_end p h" and "lists_nest p h rk d"
    and "\<And>b. lvl + 1 \<le> nested_limit L \<Longrightarrow> obj L (lvl + 1) b \<noteq> Endless"
    and "\<And>b. rk b < rk a \<Longrightarrow> obj L lvl b \<noteq> Endless"
    and "\<And>b kind. node_shape (h b) = OtherKind kind \<Longrightarrow> obj L lvl b \<noteq> Endless"
  shows "log_elems obj p h L lvl a \<noteq> Endless"
proof (cases "node_shape (h a)")
  case (Elems bs)
  have "via_pointers p h (elem_with (obj L (lvl + 1)) (obj L lvl) h L lvl) id b \<noteq> Endless" if "b \<in> set bs" for b
  proof (rule via_pointers_ends [OF assms(1)])
    fix c assume c: "deref_value p h b = Some c" "node_shape (h c) \<noteq> Invalid" "\<And>e. node_shape (h c) \<noteq> Pointer e"
    have "rk c < rk a" if "node_shape (h c) = Elems cs" for cs
      using assms(2) Elems \<open>b \<in> set bs\<close> c(1) that by (auto simp: lists_nest_def)
    then show "elem_with (obj L (lvl + 1)) (obj L lvl) h L lvl c \<noteq> Endless"
      using assms(3,4,5) c(2,3) by (intro elem_with_ends) auto
  qed
  then show ?thesis by (simp add: log_elems_def Elems up_to_ends)
qed (simp_all add: log_elems_def)

lemma log_object_ends:
  assumes "chains_end p h" and "lists_nest p h rk d"
  shows "level_fuel (nested_limit L) lvl d + rk a + 2 \<le> k \<Longrightarrow> log_object k p h L lvl a \<noteq> Endless"
proof (induction k arbitrary: lvl a)
  case (Suc k)
  have rank: "rk b \<le> d" for b using assms(2) by (simp add: lists_nest_def)
  have k: "0 < k" using Suc.prems by simp
  have below: "log_object k p h L (lvl + 1) b \<noteq> Endless" if "lvl + 1 \<le> nested_limit L" for b
    using Suc.prems level_fuel_next [OF that, of d] rank [of b] by (intro Suc.IH) linarith
  have below2: "log_object k p h L (lvl + 1 + 1) b \<noteq> Endless" if "lvl + 1 + 1 \<le> nested_limit L" for b
    using Suc.prems level_fuel_next [of lvl "nested_limit L" d] level_fuel_next [OF that, of d] that rank [of b]
    by (intro Suc.IH) linarith
  have "log_elems (log_object k p h) p h L lvl a \<noteq> Endless"
  proof (rule log_elems_ends [where obj = "log_object k p h", OF assms below])
    show "log_object k p h L lvl b \<noteq> Endless" if "rk b < rk a" for b
      using Suc.prems that by (intro Suc.IH) linarith
  qed (simp_all add: log_object_other [OF _ k])
  moreover have "log_field (log_object k p h) p h L lvl name b \<noteq> Endless" for name b
    unfolding log_field_def
  proof (rule via_pointers_ends [OF assms(1)], rule field_with_ends)
    fix c assume level: "lvl + 1 \<le> nested_limit L"
    show "log_elems (log_object k p h) p h L (lvl + 1) c \<noteq> Endless"
      by (rule log_elems_ends [where obj = "log_object k p h", OF assms below2]) (use below level log_object_other [OF _ k] in blast)+
  qed ((rule below, assumption) | erule log_object_other [OF _ k] | simp)+
  ultimately show ?case
    by (simp add: object_with_ends)
qed simp


text \<open>C27: Logging a value ends, with a result or a panic, although values may be cyclic: it is enough that
  chains of pointers are bounded and that lists are not nested in one another without end, as the level
  cuts off everything else. The fuel that is enough depends on these bounds only.\<close>

theorem log_ends:
  assumes "chains_end p h" and "lists_nest p h rk d" and "3 * d + 6 \<le> k"
  shows "log_any k p h m a \<noteq> Endless"
proof -
  obtain b where b: "deref_value p h a = Some b" using assms(1) by (auto simp: chains_end_def)
  have "level_fuel (nested_limit (default_limits m)) 1 d + rk b + 2 \<le> k"
    using assms(2,3) unfolding level_fuel_def default_limits_def lists_nest_def by (auto dest: spec [of _ b])
  from log_object_ends [OF assms(1,2) this] show ?thesis by (simp add: log_any_def b)
qed

text \<open>A slice that holds itself is followed forever, as the level of an array inside an array does not grow.\<close>

lemma slice_in_itself:
  assumes "node_shape (h a) = Elems [a]" and "node_error (h a) = None" and "node_string (h a) = None" and "0 < element_limit L"
  shows "log_object k (Suc p) h L lvl a = Endless"
proof (induction k)
  case (Suc k)
  have "nat (element_limit L) = Suc (nat (element_limit L - 1))" using assms(4) by simp
  with Suc assms show ?case
    by (simp add: object_with_def log_elems_def up_to_def via_pointers_def elem_with_def)
qed simp

section \<open>What is written is bounded\<close>

text \<open>No object has more than \<open>n\<close> fields and no array more than \<open>n\<close> elements, at any depth.\<close>

fun bounded :: "nat \<Rightarrow> 'f log_value \<Rightarrow> bool" where
  "bounded n (LogObj fs) \<longleftrightarrow> length fs \<le> n \<and> (\<forall>f \<in> set fs. bounded n (snd f))"
| "bounded n (LogArr vs) \<longleftrightarrow> length vs \<le> n \<and> (\<forall>v \<in> set vs. bounded n v)"
| "bounded n v \<longleftrightarrow> True"

definition bounded_fields :: "nat \<Rightarrow> (string \<times> 'f log_value) list \<Rightarrow> bool" where
  "bounded_fields n fs \<longleftrightarrow> length fs \<le> n \<and> (\<forall>f \<in> set fs. bounded n (snd f))"

definition bounded_errors :: "nat \<Rightarrow> 'f heap \<Rightarrow> bool" where
  "bounded_errors n h \<longleftrightarrow> (\<forall>a e. node_error (h a) = Some e \<longrightarrow> bounded n e)"

definition fits :: "nat \<Rightarrow> limits \<Rightarrow> bool" where
  "fits n L \<longleftrightarrow> 3 \<le> n \<and> nat (element_limit L) + 1 \<le> n"

lemma bounded_scalar: "bounded n (log_scalar m x)"
  by (cases x) simp_all

lemma via_pointers_Done:
  assumes "via_pointers p h log entry a = Done zs" and "\<And>b v. log b = Done v \<Longrightarrow> Q (entry v)"
  shows "length zs \<le> 1 \<and> (\<forall>z \<in> set zs. Q z)"
  using assms by (auto simp: via_pointers_def map_log_run_Done split: option.splits if_splits)

lemma bounded_obj: "bounded n (LogObj fs) \<longleftrightarrow> bounded_fields n fs"
  by (simp add: bounded_fields_def)

lemma composite_bounded:
  "composite object h L lvl b = Done v \<Longrightarrow> (\<And>fs. object b = Done fs \<Longrightarrow> bounded_fields n fs) \<Longrightarrow> bounded n v"
  unfolding composite_def
  by (auto simp: map_log_run_Done bounded_obj simp del: bounded.simps(1) split: option.splits if_splits)

lemma elem_with_bounded:
  assumes "elem_with object same h L lvl b = Done v" and "bounded_errors n h"
    and "\<And>b fs. object b = Done fs \<Longrightarrow> bounded_fields n fs" and "\<And>b fs. same b = Done fs \<Longrightarrow> bounded_fields n fs"
  shows "bounded n v"
proof (cases "node_error (h b)")
  case None
  note [simp] = None elem_with_def map_log_run_Done bounded_scalar bounded_obj
  show ?thesis
    using assms(1,4) composite_bounded [of object h L lvl b v n, OF _ assms(3)]
    by (cases "node_shape (h b)"; cases "node_string (h b)") (auto simp del: bounded.simps(1))
qed (use assms(1,2) in \<open>auto simp: elem_with_def bounded_errors_def\<close>)

lemma field_with_bounded:
  assumes "field_with object elems fresh h L lvl b = Done v" and "bounded_errors n h"
    and "\<And>b fs. object b = Done fs \<Longrightarrow> bounded_fields n fs" and "\<And>b fs. fresh b = Done fs \<Longrightarrow> bounded_fields n fs"
    and "\<And>b vs. elems b = Done vs \<Longrightarrow> bounded n (LogArr vs)"
  shows "bounded n v"
proof (cases "node_error (h b)")
  case None
  note [simp] = None field_with_def map_log_run_Done bounded_scalar bounded_obj
  show ?thesis
    using assms(1,4,5) composite_bounded [of object h L lvl b v n, OF _ assms(3)]
    by (cases "node_shape (h b)"; cases "node_string (h b)") (auto simp del: bounded.simps(1,2) split: if_splits)
qed (use assms(1,2) in \<open>auto simp: field_with_def bounded_errors_def\<close>)

lemma log_elems_bounded:
  assumes "log_elems obj p h L lvl a = Done vs" and "bounded_errors n h" and "fits n L"
    and obj: "\<And>lvl b fs. obj L lvl b = Done fs \<Longrightarrow> bounded_fields n fs"
  shows "bounded n (LogArr vs)"
proof (cases "node_shape (h a)")
  case (Elems bs)
  have "length zs \<le> 1 \<and> (\<forall>z \<in> set zs. bounded n z)"
    if "via_pointers p h (elem_with (obj L (lvl + 1)) (obj L lvl) h L lvl) id b = Done zs" for b zs
    by (rule via_pointers_Done [OF that]) (use elem_with_bounded [OF _ assms(2) obj obj] in simp)
  then have "length vs \<le> nat (element_limit L) + 1 \<and> (\<forall>v \<in> set vs. bounded n v)"
    using assms(1) by (intro up_to_Done [where xs = bs and m = "LogStr ''...''"]) (simp_all add: log_elems_def Elems)
  then show ?thesis using assms(3) by (simp add: fits_def)
qed (use assms(1) in \<open>simp_all add: log_elems_def\<close>)

lemma log_object_bounded:
  assumes "bounded_errors n h"
  shows "fits n L \<Longrightarrow> fits n (default_limits (mask_pointers L)) \<Longrightarrow> log_object k p h L lvl a = Done fs \<Longrightarrow> bounded_fields n fs"
proof (induction k arbitrary: L lvl a fs)
  case (Suc k)
  have fresh: "fits n (default_limits (mask_pointers (default_limits (mask_pointers L))))"
    using Suc.prems(2) by (simp add: default_limits_def)
  have obj: "bounded_fields n gs" if "log_object k p h L lvl b = Done gs" for lvl b gs
    by (rule Suc.IH [OF Suc.prems(1,2) that])
  have elems: "bounded n (LogArr vs)" if "log_elems (log_object k p h) p h L lvl b = Done vs" for lvl b vs
    by (rule log_elems_bounded [OF that assms Suc.prems(1) obj])
  have field: "length zs \<le> 1 \<and> (\<forall>z \<in> set zs. bounded n (snd z))"
    if "log_field (log_object k p h) p h L lvl name b = Done zs" for name b zs
    by (rule via_pointers_Done [OF that [unfolded log_field_def]])
      (use field_with_bounded [OF _ assms obj Suc.IH [OF Suc.prems(2) fresh] elems] in simp)
  have full: "bounded_fields n fs" if "length fs \<le> nat (element_limit L) + 1 \<and> (\<forall>f \<in> set fs. bounded n (snd f))"
    using that Suc.prems(1) by (simp add: bounded_fields_def fits_def)
  show ?case
  proof (cases "node_shape (h a)")
    case (Struct gs)
    show ?thesis
      by (rule full, rule up_to_Done [where xs = gs and m = "(''...'', LogStr ''<field truncated>'')"])
        (use Suc.prems(3) field in \<open>simp_all add: object_with_def Struct\<close>)
  next
    case (MapOf es)
    let ?f = "\<lambda>name. case key_entry es name of
        (PlainKey, b) \<Rightarrow> log_field (log_object k p h) p h L lvl (to_snake_case name) b | (BoxedPointer, b) \<Rightarrow> Done [] | _ \<Rightarrow> Panics"
    have each: "length zs \<le> 1 \<and> (\<forall>z \<in> set zs. bounded n (snd z))" if "?f name = Done zs" for name zs
    proof (cases "key_entry es name")
      case (Pair kind b)
      then show ?thesis using that field by (cases kind) auto
    qed
    show ?thesis
      by (rule full, rule up_to_Done [where xs = "key_names es" and f = ?f and m = "(''...'', LogStr ''<map truncated>'')"])
        (use Suc.prems(3) each in \<open>simp_all add: object_with_def MapOf\<close>)
  next
    case (Elems bs)
    then show ?thesis
      using Suc.prems elems by (auto simp: object_with_def map_log_run_Done bounded_fields_def fits_def)
  qed (use Suc.prems in \<open>auto simp: object_with_def log_default_def bounded_fields_def fits_def\<close>)
qed simp

text \<open>What is logged of a value is bounded: with the default limits no object of the record has more than 16
  fields and no array more than 16 elements, however large the value is.\<close>

theorem log_width:
  assumes "bounded_errors 16 h" and "log_any k p h m a = Done fs"
  shows "length fs \<le> 16 \<and> (\<forall>f \<in> set fs. bounded 16 (snd f))"
  using assms log_object_bounded [OF assms(1), of "default_limits m" k p 1]
  by (auto simp: log_any_def fits_def default_limits_def bounded_fields_def split: option.splits)


section \<open>Names and panics\<close>

text \<open>No upper-case letter is left in a name; names may become equal, and a record has the field twice.\<close>

lemma to_lower_not_upper: "is_upper c \<Longrightarrow> \<not> is_upper (to_lower c)"
proof -
  assume "is_upper c"
  then have r: "65 \<le> (of_char c :: nat)" "(of_char c :: nat) \<le> 90"
    by (simp_all add: is_upper_def less_eq_char_def)
  then have "of_char (to_lower c) = (of_char c :: nat) + 32" by (simp add: to_lower_def)
  with r show ?thesis by (simp add: is_upper_def less_eq_char_def)
qed

lemma snake_from_lower: "\<forall>c \<in> set (snake_from i s). \<not> is_upper c"
  by (induction s arbitrary: i) (auto simp: to_lower_not_upper, simp_all add: is_upper_def less_eq_char_def)

lemma snake_case_lower: "\<forall>c \<in> set (to_snake_case s). \<not> is_upper c"
  by (simp add: to_snake_case_def snake_from_lower)

lemma snake_case_collision: "to_snake_case ''rowCount'' = to_snake_case ''row_count''"
  by code_simp

text \<open>A nil value that is logged as an object panics, and so does a map whose keys are pointers.\<close>

lemma nil_object_panics: "node_shape (h a) = Invalid \<Longrightarrow> log_object (Suc k) p h L lvl a = Panics"
  by (simp add: object_with_def)

lemma pointer_key_panics:
  assumes "node_shape (h a) = MapOf [(PointerKey, t, b)]" and "0 < element_limit L"
  shows "log_object (Suc k) p h L lvl a = Panics"
proof -
  have "nat (element_limit L) = Suc (nat (element_limit L - 1))" using assms(2) by simp
  then show ?thesis by (simp add: object_with_def assms(1) up_to_def key_names_def key_entry_def)
qed

section \<open>Examples\<close>

definition demo_node :: "int shape \<Rightarrow> int node" where
  "demo_node s = \<lparr>node_shape = s, node_type = ''T'', node_error = None, node_time = None, node_string = None, node_repr = ''?''\<rparr>"

definition demo_ring :: "int heap" where
  "demo_ring a = demo_node
     (if a = 0 then Struct [(''Name'', 1), (''NextOne'', 2)] else if a = 1 then Scalar (StrVal ''x'') else if a = 2 then Pointer 0 else Invalid)"

theorem log_ends_witness: "log_any 6 2 demo_ring False 2 \<noteq> Endless"
proof (rule log_ends)
  show "chains_end 2 demo_ring"
    by (auto simp: chains_end_def demo_ring_def demo_node_def numeral_2_eq_2)
  show "lists_nest 2 demo_ring (\<lambda>_. 0) 0"
    by (auto simp: lists_nest_def demo_ring_def demo_node_def split: if_splits)
qed simp

text \<open>The ring is cut off at the third level.\<close>

lemma demo_ring_logged:
  "log_any 6 2 demo_ring False 2 =
     Done [(''name'', LogStr ''x''),
           (''next_one'', LogObj [(''name'', LogStr ''x''),
              (''next_one'', LogObj [(''name'', LogStr ''x''), (''next_one'', LogStr ''<T Value>'')])])]"
  by code_simp

definition demo_wide :: "int heap" where
  "demo_wide a = demo_node (if a = 0 then Struct (replicate 20 (''f'', 1)) else Scalar (IntVal 7))"

theorem log_width_witness:
  "\<exists>fs. log_any 6 2 demo_wide False 0 = Done fs \<and> length fs \<le> 16 \<and> last fs = (''...'', LogStr ''<field truncated>'')"
proof -
  have run: "log_any 6 2 demo_wide False 0 = Done (replicate 15 (''f'', LogInt 7) @ [(''...'', LogStr ''<field truncated>'')])"
    by code_simp
  have "bounded_errors 16 demo_wide" by (simp add: bounded_errors_def demo_wide_def demo_node_def)
  from log_width [OF this run] run show ?thesis by simp
qed

end
