(* ===== verification/ResultLog.thy ===== *)
theory ResultLog
  imports LogValues StageExec
begin

text \<open>
  \<open>stage/result.go\<close> and \<open>logErr\<close> of \<open>stage/stage_utils.go\<close>: what is logged of the result of a query and of the
  error that ends a stage.
\<close>

text \<open>\<open>error_fields\<close> is \<open>log.NewMarshaller\<close> on an error, by \<open>log_any\<close> on its value; \<open>as_result\<close> is \<open>errors.As\<close> with
  a \<open>QueryResult\<close>; \<open>seconds\<close> a duration in seconds; \<open>error_text\<close> what zerolog makes of an error.\<close>

record 'f log_host =
  error_fields :: "go_error \<Rightarrow> (string \<times> 'f log_value) list log_run"
  as_result :: "go_error \<Rightarrow> query_result option"
  seconds :: "int \<Rightarrow> 'f"
  error_text :: "go_error \<Rightarrow> 'f log_value"

definition error_log :: "nat \<Rightarrow> nat \<Rightarrow> 'f heap \<Rightarrow> (go_error \<Rightarrow> nat) \<Rightarrow> go_error \<Rightarrow> (string \<times> 'f log_value) list log_run" where
  "error_log k p h node_of e = log_any k p h False (node_of e)"

section \<open>Results\<close>

text \<open>\<open>QueryResult.marshalZerologObject\<close>; with \<open>simpleLogging\<close> it stops early and leaves the text out.\<close>

definition result_head :: "bool \<Rightarrow> query_result \<Rightarrow> (string \<times> 'f log_value) list" where
  "result_head simple q =
     [(''benchmark_stage_id'', LogStr (StageId q))]
     @ (case File (Query q) of
          Some f \<Rightarrow> [(''query_file'', LogStr f)]
        | None \<Rightarrow> if simple then [] else [(''query'', LogStr (Text (Query q)))])
     @ [(''query_index'', LogInt (int (Index (Query q)))), (''cold_run'', LogBool (ColdRun (Query q))),
        (''sequence_no'', LogInt (int (SequenceNo (Query q)))), (''info_url'', LogStr (InfoUrl q))]"

definition result_tail :: "'f log_host \<Rightarrow> query_result \<Rightarrow> (string \<times> 'f log_value) list" where
  "result_tail h q =
     (if 0 \<le> ExpectedRowCount (Query q) then [(''expected_row_count'', LogInt (ExpectedRowCount (Query q)))] else [])
     @ [(''start_time'', LogTime (StartTime q))]
     @ (case EndTime q of Some t \<Rightarrow> [(''finish_time'', LogTime t)] | None \<Rightarrow> [])
     @ (case Duration q of Some d \<Rightarrow> [(''duration_in_seconds'', LogFloat (seconds h d))] | None \<Rightarrow> [])"

definition log_query_result :: "'f log_host \<Rightarrow> bool \<Rightarrow> query_result \<Rightarrow> (string \<times> 'f log_value) list log_run" where
  "log_query_result h simple q =
     (if simple then Done (result_head True q)
      else map_log_run (\<lambda>fs. result_head False q @ [(''query_id'', LogStr (QueryId q))] @ fs @ result_tail h q)
             (case QueryError q of
                Some e \<Rightarrow> map_log_run (\<lambda>es. [(''query_error'', LogObj es)]) (error_fields h e)
              | None \<Rightarrow> Done [(''row_count'', LogInt (int (RowCount q)))]))"

text \<open>\<open>Error\<close> and \<open>ConcludeExecution\<close>.\<close>

definition result_error :: "(go_error \<Rightarrow> string) \<Rightarrow> query_result \<Rightarrow> string" where
  "result_error text q = (case QueryError q of Some e \<Rightarrow> text e | None \<Rightarrow> [])"

section \<open>Errors of a stage\<close>

text \<open>\<open>logErr\<close>: the fields and the message. \<open>cause\<close> is the cause of the cancelled context, if it is cancelled.\<close>

definition log_err :: "'f log_host \<Rightarrow> string \<Rightarrow> go_error option option \<Rightarrow> go_error \<Rightarrow> ((string \<times> 'f log_value) list \<times> string) log_run" where
  "log_err h stage cause e =
     (case cause of
        Some c \<Rightarrow>
          Done ([(''benchmark_stage_id'', LogStr stage)]
            @ (case Option.bind c (as_result h) of
                 Some q \<Rightarrow> [(''caused_by_stage'', LogStr (StageId q)), (''caused_by_query'', LogStr (QueryId q)), (''info_url'', LogStr (InfoUrl q))]
               | None \<Rightarrow> [(''caused_by_error'', error_text h e)]), ''stage aborted'')
      | None \<Rightarrow>
          map_log_run (\<lambda>fs. (fs, ''execution failed''))
            (case as_result h e of
               Some q \<Rightarrow> log_query_result h False q
             | None \<Rightarrow> map_log_run (\<lambda>fs. (''benchmark_stage_id'', LogStr stage) # fs) (error_fields h e)))"

section \<open>What is in the log\<close>

text \<open>The short form is the long one with fields left out.\<close>

lemma simple_result_subseq:
  assumes "log_query_result h False q = Done fs"
  shows "\<exists>gs. log_query_result h True q = Done gs \<and> subseq gs fs"
proof -
  have "subseq (result_head True q) (result_head False q)"
    by (cases "File (Query q)") (simp_all add: result_head_def)
  moreover obtain rest where "fs = result_head False q @ rest"
    using assms by (auto simp: log_query_result_def map_log_run_Done)
  ultimately show ?thesis by (auto simp: log_query_result_def intro: list_emb_append_mono [where ys = "[]", simplified])
qed

text \<open>Every record of an error names the stage, the stage that was to blame when it can be told.\<close>

lemma log_err_names_stage:
  assumes "log_err h stage cause e = Done (fs, m)"
  shows "\<exists>s. fst (hd fs) = ''benchmark_stage_id'' \<and> snd (hd fs) = LogStr s
    \<and> s = (case cause of Some c \<Rightarrow> stage | None \<Rightarrow> (case as_result h e of Some q \<Rightarrow> StageId q | None \<Rightarrow> stage))"
  using assms
  by (auto simp: log_err_def log_query_result_def result_head_def map_log_run_Done split: option.splits)

end
