(* ===== verification/RecorderSetup.thy ===== *)
theory RecorderSetup
  imports Recorders Utils
begin

text \<open>
  What the recorders and the log need before a run: the connection to MySQL and the log file of
  \<open>utils/utils.go\<close>, the recorder for InfluxDB, and the requests to Pulumi of
  \<open>stage/pulumi_run_recorder.go\<close>. They give the parameters that \<open>Recorders\<close> and \<open>RunCmd\<close> leave open.
\<close>

section \<open>The connection to MySQL\<close>

record mysql_config =
  my_user :: string
  my_password :: string
  my_server :: string
  my_database :: string

definition mysql_dsn :: "mysql_config \<Rightarrow> string" where
  "mysql_dsn c = my_user c @ '':'' @ my_password c @ ''@tcp('' @ my_server c @ '')/'' @ my_database c @ ''?parseTime=true''"

text \<open>\<open>InitMySQLConnFromCfg\<close>: the configuration as it is read and decoded, where that succeeds, and whether the
  database can be opened and reached. The result is the source of the connection.\<close>

definition init_mysql :: "(string \<Rightarrow> string option) \<Rightarrow> (string \<Rightarrow> mysql_config option) \<Rightarrow> (string \<Rightarrow> bool) \<Rightarrow> (string \<Rightarrow> bool) \<Rightarrow> string \<Rightarrow> string option" where
  "init_mysql reading decode can_open ping path =
     (if path = [] then None
      else case Option.bind (reading path) decode of
             None \<Rightarrow> None
           | Some c \<Rightarrow> if can_open (mysql_dsn c) \<and> ping (mysql_dsn c) then Some (mysql_dsn c) else None)"

definition connects :: "(string \<Rightarrow> string option) \<Rightarrow> (string \<Rightarrow> mysql_config option) \<Rightarrow> (string \<Rightarrow> bool) \<Rightarrow> (string \<Rightarrow> bool) \<Rightarrow> string \<Rightarrow> bool" where
  "connects reading decode can_open ping path \<longleftrightarrow> init_mysql reading decode can_open ping path \<noteq> None"

text \<open>Without a path there is no recorder for MySQL, whatever the file system holds.\<close>

lemma no_path_no_connection: "\<not> connects reading decode can_open ping []"
  by (simp add: connects_def init_mysql_def)

text \<open>Nothing is escaped, so different configurations can mean the same connection.\<close>

lemma dsn_ambiguous:
  "mysql_dsn \<lparr>my_user = ''a:b'', my_password = ''c'', my_server = s, my_database = d\<rparr>
     = mysql_dsn \<lparr>my_user = ''a'', my_password = ''b:c'', my_server = s, my_database = d\<rparr>"
  by (simp add: mysql_dsn_def)

section \<open>The log file\<close>

text \<open>The writer of \<open>bufio\<close> with its buffer of 4096 bytes. A text that does not fit fills the buffer, which is
  written; with an empty buffer a long text goes to the file at once.\<close>

record log_file =
  log_written :: string
  log_buffer :: string

definition buffer_size :: nat where
  "buffer_size = 4096"

function buf_write :: "string \<Rightarrow> log_file \<Rightarrow> log_file" where
  "buf_write t f =
     (if length t \<le> buffer_size - length (log_buffer f) then f\<lparr>log_buffer := log_buffer f @ t\<rparr>
      else if log_buffer f = [] then f\<lparr>log_written := log_written f @ t\<rparr>
      else (let n = buffer_size - length (log_buffer f) in
            buf_write (drop n t) (f\<lparr>log_written := log_written f @ log_buffer f @ take n t, log_buffer := []\<rparr>)))"
  by pat_completeness auto
termination by (relation "measure (\<lambda>(t, f). length (log_buffer f))") auto

declare buf_write.simps [simp del]

text \<open>The finalizer of \<open>InitLogFile\<close>, and a program that logs its lines and then returns, or ends by \<open>os.Exit\<close>
  as after a fatal message, where deferred calls do not run.\<close>

definition flush_log :: "log_file \<Rightarrow> log_file" where
  "flush_log f = f\<lparr>log_written := log_written f @ log_buffer f, log_buffer := []\<rparr>"

definition log_session :: "string list \<Rightarrow> bool \<Rightarrow> string" where
  "log_session ls returns_normally =
     (let f = fold buf_write ls \<lparr>log_written = [], log_buffer = []\<rparr>
      in log_written (if returns_normally then flush_log f else f))"

lemma buf_write_text: "log_written (buf_write t f) @ log_buffer (buf_write t f) = log_written f @ log_buffer f @ t"
proof (induction t f rule: buf_write.induct)
  case (1 t f)
  show ?case
    using 1 by (subst (1 2) buf_write.simps) (auto simp: Let_def)
qed

lemma fold_buf_write_text:
  "log_written (fold buf_write ls f) @ log_buffer (fold buf_write ls f) = log_written f @ log_buffer f @ concat ls"
  by (induction ls arbitrary: f) (simp_all add: buf_write_text)

text \<open>A program that returns has all of its lines in the file, in order.\<close>

lemma log_complete: "log_session ls True = concat ls"
  using fold_buf_write_text [of ls "\<lparr>log_written = [], log_buffer = []\<rparr>"] by (simp add: log_session_def flush_log_def)

text \<open>A program that ends by \<open>os.Exit\<close> loses what is in the buffer; a short log is lost altogether.\<close>

lemma buf_write_small:
  "length (log_buffer f) + length t \<le> buffer_size \<Longrightarrow> buf_write t f = f\<lparr>log_buffer := log_buffer f @ t\<rparr>"
  by (subst buf_write.simps) simp

lemma fold_buf_write_small:
  "length (log_buffer f) + length (concat ls) \<le> buffer_size \<Longrightarrow> fold buf_write ls f = f\<lparr>log_buffer := log_buffer f @ concat ls\<rparr>"
  by (induction ls arbitrary: f) (simp_all add: buf_write_small)

lemma fatal_loses_log: "length (concat ls) \<le> buffer_size \<Longrightarrow> log_session ls False = []"
  by (simp add: log_session_def fold_buf_write_small)

section \<open>The connection to InfluxDB\<close>

text \<open>
  \<open>NewInfluxRunRecorder\<close> exists twice, chosen by a build tag. With the tag it reads a configuration; without
  it every path gives a recorder that cannot be started.
\<close>

record influx_config =
  in_url :: string
  in_org :: string
  in_bucket :: string
  in_token :: string

datatype influx_setup = NoInflux | InfluxClient influx_config | InfluxNotBuilt

definition new_influx_tagged :: "(string \<Rightarrow> string option) \<Rightarrow> (string \<Rightarrow> influx_config option) \<Rightarrow> string \<Rightarrow> influx_setup" where
  "new_influx_tagged reading decode path =
     (if path = [] then NoInflux
      else case reading path of
             None \<Rightarrow> NoInflux
           | Some t \<Rightarrow> (case decode t of None \<Rightarrow> NoInflux | Some c \<Rightarrow> InfluxClient c))"

definition new_influx_untagged :: "string \<Rightarrow> influx_setup" where
  "new_influx_untagged path = (if path = [] then NoInflux else InfluxNotBuilt)"

text \<open>\<open>Start\<close> of the recorder, if there is one; an error ends the program.\<close>

definition start_influx :: "influx_setup \<Rightarrow> string option" where
  "start_influx i =
     (if i = InfluxNotBuilt
      then Some ''InfluxDB support not available with this build. Please rebuild with `make TAGS=influx`'' else None)"

text \<open>A build with InfluxDB never fails because of it: a configuration that cannot be used means that the run is
  not recorded there. A build without it fails exactly when a configuration is named.\<close>

lemma influx_never_fails:
  "start_influx (new_influx_tagged reading decode path) = None"
  by (simp add: start_influx_def new_influx_tagged_def split: option.split)

lemma influx_not_built: "start_influx (new_influx_untagged path) \<noteq> None \<longleftrightarrow> path \<noteq> []"
  by (simp add: start_influx_def new_influx_untagged_def)

lemma influx_client:
  "new_influx_tagged reading decode path = InfluxClient c \<longleftrightarrow> path \<noteq> [] \<and> Option.bind (reading path) decode = Some c"
  by (simp add: new_influx_tagged_def split: option.split)

section \<open>Requests to Pulumi\<close>

text \<open>What the JSON decoder makes of a body: nothing at all in an empty one, an error, or a value.\<close>

datatype 'a decoded = EmptyBody | Malformed | Value 'a

record http_response =
  http_status :: int
  http_body :: string

text \<open>\<open>doRequest\<close> into a value that is \<open>blank\<close> before; \<open>None\<close> for an error.\<close>

definition do_request :: "(string \<Rightarrow> 'a decoded) \<Rightarrow> 'a \<Rightarrow> http_response option \<Rightarrow> 'a option" where
  "do_request decode blank resp =
     (case resp of
        None \<Rightarrow> None
      | Some r \<Rightarrow>
          if http_status r \<noteq> 200 then Some blank
          else (case decode (http_body r) of EmptyBody \<Rightarrow> Some blank | Malformed \<Rightarrow> None | Value v \<Rightarrow> Some v))"

record 'w pulumi_host =
  organization :: string
  project :: string
  valid_url :: "string \<Rightarrow> bool"
  http_get :: "string \<Rightarrow> 'w \<Rightarrow> http_response option \<times> 'w"
  decode_stacks :: "string \<Rightarrow> string list decoded"
  decode_export :: "string \<Rightarrow> resource list decoded"

definition list_url :: "'w pulumi_host \<Rightarrow> string" where
  "list_url p = ''/api/user/stacks?organization='' @ organization p @ ''&tagName=pulumi:project&tagValue='' @ project p"

definition export_url :: "'w pulumi_host \<Rightarrow> string \<Rightarrow> string" where
  "export_url p stack = ''/api/stacks/'' @ organization p @ ''/'' @ project p @ ''/'' @ stack @ ''/export''"

text \<open>\<open>newGetRequest\<close> and \<open>doRequest\<close> together.\<close>

definition get_into :: "'w pulumi_host \<Rightarrow> string \<Rightarrow> (string \<Rightarrow> 'a decoded) \<Rightarrow> 'a \<Rightarrow> 'w \<Rightarrow> 'a option \<times> 'w" where
  "get_into p url decode blank w =
     (if \<not> valid_url p url then (None, w) else map_prod (do_request decode blank) id (http_get p url w))"

definition with_pulumi :: "'w pulumi_host \<Rightarrow> 'w rec_host \<Rightarrow> 'w rec_host" where
  "with_pulumi p h = h\<lparr>list_stacks := get_into p (list_url p) (decode_stacks p) [],
     export_stack := (\<lambda>s. get_into p (export_url p s) (decode_export p) [])\<rparr>"

text \<open>\<open>NewPulumiMySQLRunRecorder\<close> up to the creation of its table: whether the configuration can be used.\<close>

definition pulumi_config_ok :: "(string \<Rightarrow> string option) \<Rightarrow> (string \<Rightarrow> bool) \<Rightarrow> (string \<Rightarrow> bool) \<Rightarrow> string \<Rightarrow> bool" where
  "pulumi_config_ok reading decodes endpoint_ok path \<longleftrightarrow>
     (case reading path of None \<Rightarrow> False | Some t \<Rightarrow> decodes t \<and> endpoint_ok ''https://api.pulumi.com'')"

text \<open>An answer with another status than 200, as for a token that is not accepted, counts as a list without
  stacks: the run goes on without a word about the error, and nothing is recorded.\<close>

lemma refused_is_no_stack:
  assumes "fqdn_build (info_fqdn i) \<noteq> None" and "has_suffix (info_fqdn i) cluster_domain"
    and "\<not> contains (trim_suffix (info_fqdn i) cluster_domain) ''.''"
    and "valid_url p (list_url p)" and "http_get p (list_url p) (rec_world e) = (Some r, w)" and "http_status r = 401"
  shows "pulumi_start (with_pulumi p h) i e = (None, e\<lparr>rec_world := w\<rparr>)"
  using assms
  by (auto simp: pulumi_start_def find_stack_def find_pulumi_stack_def ask_def with_pulumi_def get_into_def do_request_def)

end
