(* ===== verification/CmdArgs.thy ===== *)
theory CmdArgs
  imports Utils TaskPool
begin

text \<open>
  The checks of the arguments in \<open>cmd/save.go\<close>, \<open>cmd/loadjson.go\<close>, \<open>cmd/replay.go\<close> and \<open>cmd/forward.go\<close>, which
  run before the commands themselves, and the first thing that \<open>forward\<close> does: to connect to its
  clusters. A check either fails with a message or gives the flags with the home directory put in.
\<close>

section \<open>The commands save, loadjson and replay\<close>

record save_flags =
  sv_output :: string
  sv_input :: string
  sv_catalog :: string
  sv_schema :: string

definition save_args :: "string option \<Rightarrow> save_flags \<Rightarrow> string list \<Rightarrow> string + save_flags" where
  "save_args home f args =
     (let f = f\<lparr>sv_output := expand_home home (sv_output f)\<rparr> in
      if sv_input f \<noteq> [] then Inr (f\<lparr>sv_input := expand_home home (sv_input f)\<rparr>)
      else if sv_catalog f = [] then Inl ''--catalog is required when -f is not used''
      else if sv_schema f = [] then Inl ''--schema is required when -f is not used''
      else if length args < 1 then Inl ''requires at least 1 table name when -f is not used''
      else Inr f)"

record loadjson_flags =
  lj_mysql :: string
  lj_influx :: string
  lj_output :: string
  lj_parallelism :: int

definition loadjson_args :: "string option \<Rightarrow> nat \<Rightarrow> loadjson_flags \<Rightarrow> string list \<Rightarrow> string + loadjson_flags" where
  "loadjson_args home cpus f args =
     (if length args < 1 then Inl (''requires at least 1 arg, only received '' @ itoa (int (length args)))
      else if lj_parallelism f < 1 \<or> int cpus < lj_parallelism f
      then Inl (''invalid parallelism: '' @ itoa (lj_parallelism f) @ '', it should be >= 1 and <= '' @ itoa (int cpus))
      else Inr (f\<lparr>lj_mysql := expand_home home (lj_mysql f), lj_influx := expand_home home (lj_influx f),
                  lj_output := expand_home home (lj_output f)\<rparr>))"

text \<open>\<open>replay\<close> takes one file; its parallelism is not checked.\<close>

record replay_flags =
  rp_output :: string
  rp_trino :: bool
  rp_parallelism :: int

definition replay_args :: "string option \<Rightarrow> replay_flags \<Rightarrow> string list \<Rightarrow> string + replay_flags \<times> string" where
  "replay_args home f args =
     (case args of
        [a] \<Rightarrow>
          if rp_trino f then Inl ''replay command does not support Trino yet''
          else Inr (f\<lparr>rp_output := expand_home home (rp_output f)\<rparr>, expand_home home a)
      | _ \<Rightarrow> Inl (''requires 1 arg, only received '' @ itoa (int (length args))))"

section \<open>The command forward\<close>

text \<open>The hosts of the servers; \<open>host_of\<close> is \<open>url.Parse\<close> followed by \<open>Host\<close>, and the error is its own.\<close>

fun check_hosts :: "(string \<Rightarrow> string + string) \<Rightarrow> nat \<Rightarrow> string \<Rightarrow> string list \<Rightarrow> string option" where
  "check_hosts host_of i source [] = None"
| "check_hosts host_of i source (u # us) =
     (case host_of u of
        Inl e \<Rightarrow> Some (''failed to parse server URL at position '' @ itoa (int i) @ '': '' @ e)
      | Inr h \<Rightarrow>
          if 0 < i \<and> h = source
          then Some (''the forward target server host at position '' @ itoa (int i)
                 @ '' is identical to the source server host '' @ source)
          else check_hosts host_of (Suc i) (if i = 0 then h else source) us)"

definition forward_args :: "(string \<Rightarrow> string + string) \<Rightarrow> string option \<Rightarrow> string \<Rightarrow> presto_flags_array \<Rightarrow> string + string" where
  "forward_args host_of home out a =
     (if length (server_urls a) < 2 then Inl ''information for at least two clusters is required to do workload forwarding''
      else case check_hosts host_of 0 [] (server_urls a) of
             Some e \<Rightarrow> Inl e
           | None \<Rightarrow>
               if True \<in> set (is_trinos a) then Inl ''forward command does not support Trino yet''
               else Inr (expand_home home out))"

text \<open>
  \<open>Run\<close> then asks every cluster for its workers. \<open>None\<close> is an error of the client
  or of its request, which ends the program at the position of the cluster; otherwise the
  result are the positions of the clusters that differ in size from the source, which is only a warning.
\<close>

fun compare_sizes :: "int \<Rightarrow> nat \<Rightarrow> int option list \<Rightarrow> nat + nat list" where
  "compare_sizes n0 i [] = Inr []"
| "compare_sizes n0 i (c # cs) =
     (case c of
        None \<Rightarrow> Inl i
      | Some n \<Rightarrow>
          (case compare_sizes (if i = 0 then n else n0) (Suc i) cs of
             Inl j \<Rightarrow> Inl j
           | Inr ws \<Rightarrow> Inr (if i \<noteq> 0 \<and> n \<noteq> n0 then i # ws else ws)))"

definition connect_clusters :: "(presto_flags \<Rightarrow> int option) \<Rightarrow> presto_flags_array \<Rightarrow> nat + nat list" where
  "connect_clusters workers a = compare_sizes 0 0 (map workers (pivot a))"

section \<open>What the checks are worth\<close>

text \<open>Without a file \<open>save\<close> has a catalog, a schema and a table.\<close>

lemma save_args_ok:
  "save_args home f args = Inr g \<Longrightarrow> sv_input g = [] \<Longrightarrow> sv_input f = [] \<Longrightarrow> sv_catalog g \<noteq> [] \<and> sv_schema g \<noteq> [] \<and> args \<noteq> []"
  by (auto simp: save_args_def Let_def split: if_splits)

text \<open>The check of \<open>loadjson\<close> is what its pool of goroutines needs: until the pool is closed, some goroutine
  can go on.\<close>

lemma loadjson_progress:
  assumes "loadjson_args home cpus f args = Inr g"
    and "pool_steps (nat (lj_parallelism g)) body eff (pool_start s ts) p" and "\<not> closed p"
  shows "lj_parallelism g \<le> int cpus \<and> (\<exists>q. pool_step (nat (lj_parallelism g)) body eff p q)"
proof -
  have "0 < nat (lj_parallelism g)" "lj_parallelism g \<le> int cpus"
    using assms(1) by (auto simp: loadjson_args_def split: if_splits)
  with pool_progress [OF _ assms(2,3)] show ?thesis by blast
qed

text \<open>\<open>replay\<close> has no such check, and with a parallelism of zero it never sends a query.\<close>

lemma replay_hangs:
  assumes "rp_trino f = False" and "rp_parallelism f = 0"
  obtains g a where "replay_args home f [x] = Inr (g, a)"
    and "\<And>p. pool_steps (nat (rp_parallelism g)) body eff (pool_start s ts) p \<Longrightarrow> started p = []"
proof
  let ?g = "f\<lparr>rp_output := expand_home home (rp_output f)\<rparr>"
  show "replay_args home f [x] = Inr (?g, expand_home home x)" using assms(1) by (simp add: replay_args_def)
  fix p
  assume "pool_steps (nat (rp_parallelism ?g)) body eff (pool_start s ts) p"
  with assms(2) have "pool_steps 0 body eff (pool_start s ts) p" by simp
  from no_capacity [OF this] show "started p = []" by simp
qed

lemma check_hosts_targets:
  "check_hosts host_of i source us = None \<Longrightarrow> 0 < i \<Longrightarrow> j < length us \<Longrightarrow> \<exists>h. host_of (us ! j) = Inr h \<and> h \<noteq> source"
proof (induction us arbitrary: i j)
  case (Cons u us)
  then show ?case by (cases j) (auto split: sum.splits if_splits)
qed simp

text \<open>When \<open>forward\<close> starts there is a source and at least one target, no client speaks Trino, and the host
  of every target is written differently from the host of the source.\<close>

lemma forward_args_ok:
  assumes "forward_args host_of home out a = Inr out'"
  shows "2 \<le> length (pivot a)" and "i < length (pivot a) \<Longrightarrow> \<not> is_trino (pivot a ! i)"
    and "0 < i \<Longrightarrow> i < length (pivot a) \<Longrightarrow>
      \<exists>s t. host_of (server_url (pivot a ! 0)) = Inr s \<and> host_of (server_url (pivot a ! i)) = Inr t \<and> s \<noteq> t"
proof -
  have len: "2 \<le> length (server_urls a)" and hosts: "check_hosts host_of 0 [] (server_urls a) = None"
    and trino: "True \<notin> set (is_trinos a)"
    using assms by (auto simp: forward_args_def split: if_splits option.splits)
  show "2 \<le> length (pivot a)" using len by (simp add: pivot_nth)
  show "\<not> is_trino (pivot a ! i)" if "i < length (pivot a)"
  proof -
    have "i < length (server_urls a)" using that by (simp add: pivot_nth)
    then have "is_trino (pivot a ! i) = given False (is_trinos a) i" by (simp add: pivot_nth(2))
    also have "\<dots> = False" using trino by (auto simp: given_def in_set_conv_nth)
    finally show ?thesis by simp
  qed
  assume i: "0 < i" "i < length (pivot a)"
  from len obtain u us where a: "server_urls a = u # us" by (cases "server_urls a") auto
  from i a have j: "i - 1 < length us" "server_urls a ! i = us ! (i - 1)" by (auto simp: pivot_nth nth_Cons')
  from hosts a obtain s where s: "host_of u = Inr s" "check_hosts host_of (Suc 0) s us = None"
    by (auto split: sum.splits)
  from check_hosts_targets [OF s(2) _ j(1)] obtain t where "host_of (us ! (i - 1)) = Inr t" "t \<noteq> s" by auto
  moreover have "server_url (pivot a ! 0) = u" "server_url (pivot a ! i) = us ! (i - 1)"
    using i a j by (simp_all add: pivot_nth(2) pivot_nth(1))
  ultimately show "\<exists>s t. host_of (server_url (pivot a ! 0)) = Inr s \<and> host_of (server_url (pivot a ! i)) = Inr t \<and> s \<noteq> t"
    using s(1) by auto
qed

text \<open>The hosts are compared as texts: the same server, once with and once without its default port,
  passes, and the queries that are forwarded to it arrive at the source again.\<close>

lemma same_server_accepted:
  assumes "host_of ''http://h'' = Inr ''h''" and "host_of ''http://h:80'' = Inr ''h:80''"
  shows "forward_args host_of home out
    \<lparr>server_urls = [''http://h'', ''http://h:80''], is_trinos = [False], force_https_flags = [], user_names = [], passwords = []\<rparr>
      = Inr (expand_home home out)"
  using assms by (simp add: forward_args_def)

text \<open>The clusters that the warning names are exactly those that differ from the source.\<close>

lemma compare_sizes_rest:
  "0 < i \<Longrightarrow> compare_sizes n0 i cs = Inr ws \<Longrightarrow>
    None \<notin> set cs \<and> set ws = {i + j | j. j < length cs \<and> cs ! j \<noteq> Some n0}"
proof (induction cs arbitrary: i ws)
  case (Cons c cs)
  from Cons.prems obtain n vs where c: "c = Some n" and vs: "compare_sizes n0 (Suc i) cs = Inr vs"
    and ws: "ws = (if n \<noteq> n0 then i # vs else vs)"
    by (auto split: option.splits sum.splits)
  note IH = Cons.IH [OF _ vs]
  have "{i + j | j. j < length (c # cs) \<and> (c # cs) ! j \<noteq> Some n0}
      = (if n \<noteq> n0 then {i} else {}) \<union> {Suc i + j | j. j < length cs \<and> cs ! j \<noteq> Some n0}"
    (is "?l = ?r")
  proof
    show "?l \<subseteq> ?r"
    proof
      fix x
      assume "x \<in> ?l"
      then obtain j where "x = i + j" "j < length (c # cs)" "(c # cs) ! j \<noteq> Some n0" by blast
      then show "x \<in> ?r" by (cases j) (auto simp: c)
    qed
    show "?r \<subseteq> ?l"
    proof
      fix x
      assume "x \<in> ?r"
      then consider "n \<noteq> n0" "x = i" | j where "x = Suc i + j" "j < length cs" "cs ! j \<noteq> Some n0"
        by (auto split: if_splits)
      then show "x \<in> ?l"
      proof cases
        case 1
        then show ?thesis by (auto simp: c intro: exI [of _ "0::nat"])
      next
        case (2 j)
        then show ?thesis by (auto intro: exI [of _ "Suc j"])
      qed
    qed
  qed
  with IH show ?case by (simp add: c ws)
qed simp

lemma connect_clusters_ok:
  assumes "connect_clusters workers a = Inr ws" and "pivot a = f # fs"
  shows "\<exists>n. workers f = Some n \<and> (\<forall>g \<in> set fs. workers g \<noteq> None)
    \<and> set ws = {Suc j | j. j < length fs \<and> workers (fs ! j) \<noteq> Some n}"
proof -
  from assms obtain n where n: "workers f = Some n" "compare_sizes n (Suc 0) (map workers fs) = Inr ws"
    by (auto simp: connect_clusters_def split: option.splits sum.splits)
  note rest = compare_sizes_rest [OF zero_less_Suc n(2)]
  have "\<forall>g \<in> set fs. workers g \<noteq> None"
    using conjunct1 [OF rest] by (metis image_eqI set_map)
  moreover have "{Suc 0 + j | j. j < length (map workers fs) \<and> map workers fs ! j \<noteq> Some n}
      = {Suc j | j. j < length fs \<and> workers (fs ! j) \<noteq> Some n}"
    by (rule Collect_cong) (metis length_map nth_map plus_1_eq_Suc One_nat_def)
  ultimately show ?thesis using n(1) conjunct2 [OF rest] by metis
qed

end
