(* ===== verification/Spec2Isabelle.thy ===== *)
theory Spec2Isabelle
  imports StageExec WholeRun GenDdl RoundFiles Rows RunCmd CmpDirs Replay LoadJson SaveTable Forward TemplateFuncs QueryPlanCmd ResultLog RecorderSetup CmdArgs
begin

text \<open>
  A verification library for pbench, a benchmark driver for Presto (\<open>src/\<close>, written in Go).

  \<^bold>\<open>The program.\<close> The command \<open>run\<close> executes a benchmark: a graph of stages, each described by a JSON
  file. The stages named on the command line are merged into a main stage (\<open>Stage.MergeWith\<close>), the
  stages it links to are read and linked (\<open>stage/map.go\<close>), and the graph is executed by one goroutine
  per stage (\<open>stage/stage.go\<close>): a stage waits until all stages before it have unblocked it, inherits
  their settings, runs shell scripts, inline queries and query files against a Presto server, and
  triggers its next stages. The results go through a channel to the main goroutine, which hands them
  to the run recorders (a CSV file, MySQL, InfluxDB, Pulumi). The other commands are independent
  programs that share the libraries under \<open>utils/\<close> and \<open>prestoapi/\<close>.

  \<^bold>\<open>The prelude.\<close> What the code uses of Go and of its standard library.
  \<^item> \<open>GoBase\<close>: byte strings and the functions of \<open>strings\<close>, 64-bit integers and their decimal text,
    pointers as options; the collections \<open>go_string\<close> and \<open>go_int\<close>.
  \<^item> \<open>GoNumbers\<close>: \<open>strconv.Atoi\<close> and \<open>time.ParseDuration\<close>; \<open>GoPath\<close>: \<open>path/filepath\<close>;
    \<open>GoCsv\<close>: the writer of \<open>encoding/csv\<close> with a reader and their round trip.
  \<^item> \<open>GoScanner\<close>: \<open>bufio.Scanner\<close> over a file that arrives in pieces. The locale \<open>split_func\<close> is its
    interface to a split function: the laws say that a token is found at the same place however much
    of the file has been read. It is interpreted for the SQL splitter (\<open>sql\<close>), the comma splitter
    (\<open>comma\<close>) and the line splitter (\<open>lines\<close>).

  \<^bold>\<open>Components\<close>, in the order in which they depend on each other.
  \<^item> \<open>SqlSplit\<close> (\<open>prestoapi/query_splitter.go\<close>): \<open>ScanSqlStmt\<close> equals a reference lexer that reads one
    character at a time; what \<open>SplitQueries\<close> returns, round trip, and what it loses.
  \<^item> \<open>StageDef\<close> (\<open>stage/stage.go\<close>, \<open>stage/stage_utils.go\<close>): the record \<open>stage\<close> has the fields of the struct;
    \<open>merge_with\<close>, \<open>set_defaults\<close>, \<open>propagate_states\<close>, \<open>new_stream_instance\<close>, \<open>prepare_client\<close>.
  \<^item> \<open>StageNaming\<close> (\<open>stage/query.go\<close>, \<open>querySourceString\<close>, \<open>queryEnv\<close>): names of runs, and that they differ.
  \<^item> \<open>StageGraph\<close> (\<open>stage/map.go\<close>): reading, linking and the check for cycles, and from which file every stage
    and every link comes. Fuel bounds the recursion; as many units as there are distinct files are enough (\<open>parse_stage_graph_correct\<close>).
  \<^item> \<open>StageExec\<close> (\<open>stage/stage.go\<close>, \<open>stage/result.go\<close>): what one stage does between its start and its
    end, as actions on a record \<open>exec\<close> that may panic. The world outside (shell, client, files, clock)
    is a parameter that every call may change. Random execution until a time has fuel; random execution
    for a number of queries ends (\<open>random_execution_count\<close>). The locales \<open>script_frame\<close>, \<open>body_frame\<close>
    and \<open>exec_frame\<close> carry a relation between states from the primitive actions to all functions; they
    are interpreted for the frame conditions of the component. \<open>batch_rel\<close> does the same for batches.
  \<^item> \<open>StageRun\<close> (\<open>Stage.run\<close>): the concurrent run as a step relation, one step per atomic piece of a
    goroutine, with latches, exit counter, cancellation and panics. An invariant over the reachable
    states and a measure give the safety, termination and liveness theorems; \<open>do_act\<close> is the same
    relation as a function, with which the examples are executed. A panic inside the body of a stage is a parameter
    here (\<open>body_panics\<close>) and a result in \<open>StageExec\<close>; \<open>helper_waits\<close> tells which helper goroutines are left.
  \<^item> \<open>GoCsv\<close>, \<open>Recorders\<close> (\<open>stage/*_run_recorder.go\<close>): the recorders and the statements, points and files
    they produce. An effect is a request; what a database stores of it is a
    parameter of \<open>run_totals\<close>, with the hypothesis that a request stores what it says if its call succeeds. The locale \<open>counting_recorder\<close> is interpreted for MySQL and InfluxDB.
  \<^item> \<open>StageMain\<close> (\<open>Stage.Run\<close>): the main goroutine against the senders of results; it refines the
    specification \<open>run_trace\<close> in every interleaving.
  \<^item> \<open>Rows\<close> (\<open>utils/row.go\<close>, \<open>utils/orm.go\<close>): the rows of a Go structure in SQL tables against a
    specification by products, and their insertion in one transaction.
  \<^item> \<open>PlanNode\<close> (\<open>prestoapi/plan_node/\<close>): plan trees, tracing of values on a store of cells, joins.
    The fuel of \<open>traverse\<close> and \<open>trace_value\<close> bounds the depth of the recursion; it is enough where
    remote sources and assignments are not cyclic, and cyclic ones are shown to diverge.
  \<^item> \<open>GenDdl\<close> (\<open>cmd/genddl/main.go\<close>): the generator of DDL scripts as a state monad with fatal errors.
  \<^item> \<open>RoundFiles\<close> (\<open>cmd/round/main.go\<close>): rounding of decimals in result files, where every operation on
    files may fail.
  \<^item> \<open>Utils\<close> (\<open>utils/utils.go\<close>, \<open>utils/presto_flags.go\<close>): what the commands share. \<open>RunCmd\<close>
    (\<open>cmd/run/main.go\<close>): from the arguments of \<open>run\<close> to the graph that is executed.
  \<^item> \<open>CmpDirs\<close> (\<open>cmd/cmp/main.go\<close>): which files of two directories are compared, and the exit code.
  \<^item> \<open>TaskPool\<close>: the goroutines behind a channel of limited capacity that three commands share, as a step
    relation with its bounds, termination and progress. The locale \<open>task_pool\<close> says when the result does not
    depend on the interleaving: effects act on a view of the state and commute there. It is interpreted for
    \<open>Replay\<close>, \<open>LoadJson\<close> and \<open>SaveTable\<close>.
  \<^item> \<open>Replay\<close> (\<open>cmd/replay/\<close>): frames of recorded queries, session properties, the schedule, the calls and how
    each ends.
  \<^item> \<open>LoadJson\<close> (\<open>cmd/loadjson/\<close>): what becomes of query JSON files in databases, plan files and recorders.
    The plan files are a map from paths to contents, so that files that share a name overwrite each other.
  \<^item> \<open>Unmarshal\<close> (\<open>prestoapi/unmarshaller.go\<close>): query results into Go values, where a value carries the type
    that reflection sees. \<open>SaveTable\<close> (\<open>cmd/save/\<close>, \<open>prestoapi/column_stats.go\<close>) asks for the summary of a
    table with it. The columns are asked about with fuel, two units more than there are columns being
    enough where the server does not take back the prefix (\<open>summary_ends\<close>).
  \<^item> \<open>Forward\<close> (\<open>cmd/forward/main.go\<close>): the polling loop over the answers of the source cluster, the plan
    for a query, and the goroutines that send and cancel copies as a step relation with the requests they have made.
  \<^item> \<open>GenConfig\<close> (\<open>cmd/genconfig/\<close>): configurations, templates and the files that are written and removed.
    \<open>TemplateFuncs\<close>: the functions that its templates may call.
  \<^item> \<open>LogValues\<close> (\<open>log/marshallers.go\<close>): log records of Go values, with fuel for the depth of the calls, which is
    bounded by the nesting of lists (\<open>log_ends\<close>). \<open>ResultLog\<close> (\<open>stage/result.go\<close>): results and errors in the log.
  \<^item> \<open>QueryPlanCmd\<close> (\<open>cmd/queryplan/main.go\<close>): the command over \<open>PlanNode\<close>, with the file that it writes.
  \<^item> \<open>RecorderSetup\<close> (\<open>utils/utils.go\<close>, \<open>stage/pulumi_run_recorder.go\<close>): the connections to MySQL and InfluxDB, the buffered
    log file and the requests to Pulumi, which give parameters of \<open>Recorders\<close> and \<open>RunCmd\<close>.
  \<^item> \<open>WholeRun\<close>: \<open>StageRun\<close> and \<open>StageMain\<close> composed. They share the context, the exit counter, the channel of
    results and the exit code; each makes only steps of its own relation (\<open>whole_graph\<close>), so what is proved of
    the parts holds of the whole: the order of the results, what \<open>Run\<close> has done when it returns, and when the
    program can come to rest.
  \<^item> \<open>CmdArgs\<close> (\<open>cmd/save.go\<close>, \<open>cmd/loadjson.go\<close>, \<open>cmd/replay.go\<close>, \<open>cmd/forward.go\<close>): the checks of arguments that
    the program makes itself, and what they are worth for the commands behind them.

  \<^bold>\<open>Conventions.\<close> Fields of Go structs keep their names where Isabelle allows it. A nil pointer is
  \<open>None\<close>, a panic is a value, an error is the left side of a sum or a value of an error type. What is
  not under \<open>src/\<close> (the Presto client, databases, the parser generator, template engine, reflection,
  the operating system) is an argument of the definitions. Every property has, right before it, a text
  with its number and its meaning, and a witness that applies it to concrete data.

  \<^bold>\<open>Not modelled.\<close> The wrappers around zerolog in \<open>log/log.go\<close>; the parsing of flags and the counting of arguments by cobra; embedded files; HTTP
  requests and JSON decoding, which are parameters; the data types of \<open>cmd/replay/query_log.go\<close>, which
  no command uses;
  old elements of a slice beyond its length in \<open>Unmarshal\<close>; the text of an error of a scanner.
\<close>

end
